(* ===== verification/Lj_Prelude.thy ===== *)
theory Lj_Prelude
  imports Main "HOL-Library.Word"
begin

text \<open>
  Shared vocabulary of the development: the C integer types of \<open>src/src/lj_def.h\<close> as
  fixed-width words, the bit-scan, rotate and byte-swap helpers that every component uses,
  little-endian access to byte blocks (the model follows the x86-64 build: \<open>LJ_LE = 1\<close>,
  \<open>LJ_GC64 = 0\<close>, \<open>LJ_FR2 = 0\<close>, \<open>LJ_DUALNUM = 0\<close>, \<open>LJ_HASJIT = 1\<close>, \<open>LJ_HASFFI = 1\<close>), and
  generic lemmas on lists and words.
\<close>

unbundle bit_operations_syntax

type_synonym byte = "8 word"
type_synonym bytes = "8 word list"
type_synonym u16 = "16 word"
type_synonym u32 = "32 word"
type_synonym u64 = "64 word"

named_theorems loop_simps \<open>unfolding equations of loops written as recursion\<close>
named_theorems ulen \<open>lengths of encoded blocks\<close>

section \<open>VM limits of lj_def.h\<close>

definition LJ_MAX_MEM32 :: nat where "LJ_MAX_MEM32 = 0x7fffff00"

abbreviation LJ_MAX_STR :: nat where "LJ_MAX_STR \<equiv> LJ_MAX_MEM32"
abbreviation LJ_MAX_BUF :: nat where "LJ_MAX_BUF \<equiv> LJ_MAX_MEM32"
abbreviation LJ_MAX_LINE :: nat where "LJ_MAX_LINE \<equiv> LJ_MAX_MEM32"

section \<open>Bit helpers\<close>

text \<open>
  \<open>lj_fls\<close> is \<open>__builtin_clz(x) ^ 31\<close>: the index of the highest set bit. The C built-in is
  undefined at 0; no caller in the source passes 0.
\<close>

fun fls_nat :: "nat \<Rightarrow> nat" where
  "fls_nat n = (if n \<le> 1 then 0 else Suc (fls_nat (n div 2)))"

declare fls_nat.simps [simp del]

definition lj_fls :: "u32 \<Rightarrow> nat" where
  "lj_fls x = fls_nat (unat x)"

lemma fls_nat_lower: "0 < n \<Longrightarrow> 2 ^ fls_nat n \<le> n"
proof (induction n rule: fls_nat.induct)
  case (1 n)
  show ?case
  proof (cases "n \<le> 1")
    case True
    then show ?thesis using "1.prems" by (simp add: fls_nat.simps)
  next
    case False
    then have "2 ^ fls_nat (n div 2) \<le> n div 2" using 1 by simp
    then show ?thesis using False by (subst fls_nat.simps) auto
  qed
qed

lemma fls_nat_upper: "n < 2 ^ Suc (fls_nat n)"
proof (induction n rule: fls_nat.induct)
  case (1 n)
  show ?case
  proof (cases "n \<le> 1")
    case True
    then show ?thesis by (simp add: fls_nat.simps)
  next
    case False
    then have "n div 2 < 2 ^ Suc (fls_nat (n div 2))" using 1 by simp
    then show ?thesis using False by (subst fls_nat.simps) auto
  qed
qed

lemma fls_nat_unique:
  assumes "2 ^ k \<le> n" and "n < 2 ^ Suc k"
  shows "fls_nat n = k"
proof -
  have "0 < n" using assms(1) by (metis less_le_trans zero_less_numeral zero_less_power)
  have "k < Suc (fls_nat n)"
    using assms(1) fls_nat_upper [of n]
    by (meson le_less_trans nat_power_less_imp_less zero_less_numeral)
  moreover have "fls_nat n < Suc k"
    using assms(2) fls_nat_lower [OF \<open>0 < n\<close>]
    by (meson le_less_trans nat_power_less_imp_less zero_less_numeral)
  ultimately show ?thesis by simp
qed

lemma fls_nat_0 [simp]: "fls_nat 0 = 0"
  by (simp add: fls_nat.simps)

lemma fls_nat_le: "n < 2 ^ Suc k \<Longrightarrow> fls_nat n \<le> k"
proof (cases "n = 0")
  case False
  assume "n < 2 ^ Suc k"
  then have "2 ^ fls_nat n < (2::nat) ^ Suc k"
    using fls_nat_lower [of n] False by linarith
  then show ?thesis by (meson less_Suc_eq_le nat_power_less_imp_less zero_less_numeral)
qed simp

lemma lj_fls_less_32: "lj_fls x < 32"
proof -
  have "unat x < 2 ^ Suc 31" using unsigned_less [of x] by simp
  then show ?thesis using fls_nat_le [of "unat x" 31] by (simp add: lj_fls_def)
qed

definition lj_rol :: "u32 \<Rightarrow> nat \<Rightarrow> u32" where
  "lj_rol x n = push_bit n x OR drop_bit ((32 - n) mod 32) x"

definition lj_bswap :: "u32 \<Rightarrow> u32" where
  "lj_bswap x = push_bit 24 x OR push_bit 8 (x AND 0xff00)
     OR (drop_bit 8 x AND 0xff00) OR drop_bit 24 x"

section \<open>Words bit by bit\<close>

lemma unat_byte_bound: "unat (b :: byte) < 256"
  using unsigned_less [of b, where 'a = nat] by simp

lemma unat_u32_bound: "unat (v :: u32) < 2 ^ 32"
  using unsigned_less [of v, where 'a = nat] by simp

lemma unat_u64_bound: "unat (v :: u64) < 2 ^ 64"
  using unsigned_less [of v, where 'a = nat] by simp

lemma word_bit_above:
  fixes k :: "'a::len word"
  assumes "unat k < 2 ^ m" and "m \<le> n"
  shows "\<not> bit k n"
proof
  assume "bit k n"
  then have "bit (unat k) n" by (simp add: bit_unsigned_iff)
  moreover have "unat k < 2 ^ n"
    using assms by (meson less_le_trans one_le_numeral power_increasing)
  ultimately show False by (simp add: bit_iff_odd)
qed

lemma word_less_of_bits:
  fixes v :: "'a::len word"
  assumes "\<And>n. m \<le> n \<Longrightarrow> \<not> bit v n"
  shows "unat v < 2 ^ m"
proof -
  have "take_bit m v = v"
    by (rule bit_word_eqI) (use assms in \<open>auto simp: bit_take_bit_iff simp flip: not_le\<close>)
  then have "take_bit m (unat v) = unat v" by (metis unsigned_take_bit_eq)
  then show ?thesis by (metis take_bit_nat_less_exp)
qed

lemma bit_byte_bound: "bit (b :: byte) n \<Longrightarrow> n < 8"
  using word_bit_above [of b 8 n] unat_byte_bound [of b] not_le by fastforce

lemmas word_bit_iffs =
  bit_or_iff bit_and_iff bit_push_bit_iff bit_unsigned_iff bit_drop_bit_eq o_def possible_bit_word

text \<open>The masks the C code uses, read bit by bit.\<close>

named_theorems mask_bits \<open>bits of the constant masks of the source\<close>

lemma bit_mask_word: "bit (2 ^ k - 1 :: 'a::len word) n \<longleftrightarrow> n < k \<and> n < LENGTH('a)"
  by (auto simp: bit_mask_iff possible_bit_word simp flip: mask_eq_exp_minus_1)

lemma bit_exp_word: "bit (2 ^ k :: 'a::len word) n \<longleftrightarrow> n = k \<and> n < LENGTH('a)"
  by (auto simp: bit_exp_iff possible_bit_word)

lemma mask_bits_low [mask_bits]:
  "bit (0x3F :: 'a::len word) n \<longleftrightarrow> n < 6 \<and> n < LENGTH('a)"
  "bit (0x7F :: 'a::len word) n \<longleftrightarrow> n < 7 \<and> n < LENGTH('a)"
  "bit (0xF :: 'a::len word) n \<longleftrightarrow> n < 4 \<and> n < LENGTH('a)"
  "bit (0x80 :: 'a::len word) n \<longleftrightarrow> n = 7 \<and> n < LENGTH('a)"
  "bit (0x40 :: 'a::len word) n \<longleftrightarrow> n = 6 \<and> n < LENGTH('a)"
  using bit_mask_word [of 6 n, where 'a = 'a] bit_mask_word [of 7 n, where 'a = 'a]
    bit_mask_word [of 4 n, where 'a = 'a] bit_exp_word [of 7 n, where 'a = 'a]
    bit_exp_word [of 6 n, where 'a = 'a]
  by simp_all

lemma mask_bits_high [mask_bits]:
  "bit (0xC0 :: 'a::len word) n \<longleftrightarrow> (n = 6 \<or> n = 7) \<and> n < LENGTH('a)"
  "bit (0xE0 :: 'a::len word) n \<longleftrightarrow> (n = 5 \<or> n = 6 \<or> n = 7) \<and> n < LENGTH('a)"
  "bit (0xF0 :: 'a::len word) n \<longleftrightarrow> (n = 4 \<or> n = 5 \<or> n = 6 \<or> n = 7) \<and> n < LENGTH('a)"
proof -
  have w: "(0xC0 :: 'a word) = 2 ^ 6 OR 2 ^ 7" "(0xE0 :: 'a word) = 2 ^ 5 OR 2 ^ 6 OR 2 ^ 7"
    "(0xF0 :: 'a word) = 2 ^ 4 OR 2 ^ 5 OR 2 ^ 6 OR 2 ^ 7"
    by simp_all
  show "bit (0xC0 :: 'a word) n \<longleftrightarrow> (n = 6 \<or> n = 7) \<and> n < LENGTH('a)"
    "bit (0xE0 :: 'a word) n \<longleftrightarrow> (n = 5 \<or> n = 6 \<or> n = 7) \<and> n < LENGTH('a)"
    "bit (0xF0 :: 'a word) n \<longleftrightarrow> (n = 4 \<or> n = 5 \<or> n = 6 \<or> n = 7) \<and> n < LENGTH('a)"
    unfolding w by (auto simp only: bit_or_iff bit_exp_word)
qed

lemmas word_bits = word_bit_iffs mask_bits bit_0_eq

section \<open>Little-endian blocks\<close>

definition u16_bytes :: "u16 \<Rightarrow> bytes" where
  "u16_bytes w = [ucast w, ucast (drop_bit 8 w)]"

definition u32_bytes :: "u32 \<Rightarrow> bytes" where
  "u32_bytes w = [ucast w, ucast (drop_bit 8 w), ucast (drop_bit 16 w), ucast (drop_bit 24 w)]"

definition le16 :: "byte \<Rightarrow> byte \<Rightarrow> u16" where
  "le16 a b = ucast a OR push_bit 8 (ucast b)"

definition le32 :: "byte \<Rightarrow> byte \<Rightarrow> byte \<Rightarrow> byte \<Rightarrow> u32" where
  "le32 a b c d =
     ucast a OR push_bit 8 (ucast b) OR push_bit 16 (ucast c) OR push_bit 24 (ucast d)"

definition u16_at :: "bytes \<Rightarrow> u16" where
  "u16_at b = le16 (b ! 0) (b ! 1)"

definition u32_at :: "bytes \<Rightarrow> u32" where
  "u32_at b = le32 (b ! 0) (b ! 1) (b ! 2) (b ! 3)"

lemma length_u16_bytes [simp, ulen]: "length (u16_bytes w) = 2"
  by (simp add: u16_bytes_def)

lemma length_u32_bytes [simp, ulen]: "length (u32_bytes w) = 4"
  by (simp add: u32_bytes_def)

lemma le16_split [simp]: "le16 (ucast w) (ucast (drop_bit 8 w)) = w"
proof (rule bit_word_eqI)
  fix n :: nat
  assume "n < LENGTH(16)"
  then have n: "n < 16" by simp
  consider "n < 8" | "8 \<le> n" by linarith
  then show "bit (le16 (ucast w) (ucast (drop_bit 8 w))) n = bit w n"
    unfolding le16_def using n by cases (simp_all only: word_bit_iffs, auto)
qed

lemma le32_split [simp]:
  "le32 (ucast w) (ucast (drop_bit 8 w)) (ucast (drop_bit 16 w)) (ucast (drop_bit 24 w)) = w"
proof (rule bit_word_eqI)
  fix n :: nat
  assume "n < LENGTH(32)"
  then have n: "n < 32" by simp
  consider "n < 8" | "8 \<le> n" "n < 16" | "16 \<le> n" "n < 24" | "24 \<le> n" by linarith
  then show "bit (le32 (ucast w) (ucast (drop_bit 8 w)) (ucast (drop_bit 16 w))
      (ucast (drop_bit 24 w))) n = bit w n"
    unfolding le32_def using n by cases (simp_all only: word_bit_iffs, auto)
qed

lemma u16_at_append [simp]: "u16_at (u16_bytes w @ r) = w"
  by (simp add: u16_at_def u16_bytes_def)

lemma u32_at_append [simp]: "u32_at (u32_bytes w @ r) = w"
  by (simp add: u32_at_def u32_bytes_def)

lemma u16_at_bytes [simp]: "u16_at (u16_bytes w) = w"
  using u16_at_append [of w "[]"] by simp

lemma u32_at_bytes [simp]: "u32_at (u32_bytes w) = w"
  using u32_at_append [of w "[]"] by simp

lemma bit_ff00: "bit (0xff00 :: u32) n \<longleftrightarrow> 8 \<le> n \<and> n < 16"
proof -
  have "(0xff00 :: u32) = push_bit 8 (mask 8)" by (simp add: mask_eq_exp_minus_1)
  then show ?thesis by (simp only: bit_push_bit_iff bit_mask_iff possible_bit_word) auto
qed

end
