(* ===== verification/Lib_Utf8.thy ===== *)
theory Lib_Utf8
  imports Lj_Prelude
begin

text \<open>
  The utf8 library (\<open>src/src/lib_utf8.c\<close>) and its encoder \<open>tvm.wchar\<close>
  (\<open>src/src/lib_tvm.c\<close>, registered as \<open>utf8.char\<close>).

  A Lua string argument is its byte list; \<open>lua_checklstring\<close> hands out the bytes followed by a
  NUL, so \<open>rd s i\<close> reads byte \<open>i\<close> of that block and is \<open>None\<close> where the C code would read outside
  of it. Results that are \<open>None\<close> at the outermost level stand for such a read; the theorems show
  that it never happens. \<open>lua_Integer\<close> values are HOL integers: every position the code computes
  from a \<open>size_t\<close> length stays within the 64-bit range.
\<close>

section \<open>Library results\<close>

datatype lib_error = ArgError nat string | LuaError string

datatype lua_result = RInt int | RNil

definition rd :: "bytes \<Rightarrow> nat \<Rightarrow> byte option" where
  "rd s i = (if i < length s then Some (s ! i) else if i = length s then Some 0 else None)"

definition MAXUNICODE :: u32 where "MAXUNICODE = 0x10FFFF"

definition iscont :: "byte \<Rightarrow> bool" where
  "iscont b \<longleftrightarrow> b AND 0xC0 = 0x80"

text \<open>Relative positions; \<open>0u - (size_t)pos\<close> is \<open>- pos\<close> for the negative 64-bit values.\<close>

definition u_posrelat :: "int \<Rightarrow> nat \<Rightarrow> int" where
  "u_posrelat pos len =
     (if 0 \<le> pos then pos else if - pos > int len then 0 else int len + pos + 1)"

section \<open>Decoder\<close>

definition limits :: "u32 list" where
  "limits = [0xFF, 0x7F, 0x7FF, 0xFFFF]"

fun low_run :: "u32 \<Rightarrow> nat" where
  "low_run c = (if \<not> bit c 6 then 0 else if \<not> bit c 5 then 1 else if \<not> bit c 4 then 2
     else if \<not> bit c 3 then 3 else if \<not> bit c 2 then 4 else if \<not> bit c 1 then 5
     else if \<not> bit c 0 then 6 else 7)"

lemma and_0x40_iff: "(c :: u32) AND 0x40 = 0 \<longleftrightarrow> \<not> bit c 6"
  using and_exp_eq_0_iff_not_bit [of c 6] by simp

lemma bit_shl1: "bit (push_bit 1 (c :: u32)) n \<longleftrightarrow> 1 \<le> n \<and> n < 32 \<and> bit c (n - 1)"
  by (simp only: bit_push_bit_iff possible_bit_word) auto

lemma low_run_shl: "bit c 6 \<Longrightarrow> low_run (push_bit 1 c) < low_run c"
  by (simp only: low_run.simps bit_shl1) simp

text \<open>The \<open>while (c & 0x40)\<close> loop: \<open>p\<close> is the offset of the first byte.\<close>

function decode_cont ::
  "bytes \<Rightarrow> nat \<Rightarrow> u32 \<Rightarrow> nat \<Rightarrow> u32 \<Rightarrow> (nat \<times> u32 \<times> u32) option option" where
  "decode_cont s p c count res =
     (if c AND 0x40 = 0 then Some (Some (count, c, res))
      else
        case rd s (p + Suc count) of
          None \<Rightarrow> None
        | Some cc \<Rightarrow>
            if cc AND 0xC0 \<noteq> 0x80 then Some None
            else decode_cont s p (push_bit 1 c) (Suc count)
                   (push_bit 6 res OR (ucast cc AND 0x3F)))"
  by pat_completeness auto
termination
  by (relation "measure (\<lambda>(s, p, c, count, res). low_run c)")
    (simp_all only: in_measure wf_measure and_0x40_iff not_not low_run_shl prod.case)

declare decode_cont.simps [simp del, loop_simps]

definition utf8_decode :: "bytes \<Rightarrow> nat \<Rightarrow> (u32 \<times> nat) option option" where
  "utf8_decode s p =
     (case rd s p of
        None \<Rightarrow> None
      | Some b \<Rightarrow>
          let c = (ucast b :: u32) in
          if c < 0x80 then Some (Some (c, p + 1))
          else
            case decode_cont s p c 0 0 of
              None \<Rightarrow> None
            | Some None \<Rightarrow> Some None
            | Some (Some (count, c', r)) \<Rightarrow>
                let res = r OR push_bit (count * 5) (c' AND 0x7F) in
                if count > 3 \<or> res > MAXUNICODE \<or> res \<le> limits ! count then Some None
                else Some (Some (res, p + count + 1)))"

section \<open>Encoder\<close>

text \<open>One argument of \<open>tvm.wchar\<close>; \<open>luaL_addchar\<close> keeps the low byte.\<close>

definition wchar_enc :: "u32 \<Rightarrow> bytes" where
  "wchar_enc k =
     (if k \<ge> 0x10000 then
        [ucast (0xF0 OR drop_bit 18 k), ucast (0x80 OR (drop_bit 12 k AND 0x3f)),
         ucast (0x80 OR (drop_bit 6 k AND 0x3f)), ucast (0x80 OR (k AND 0x3f))]
      else if k \<ge> 0x0800 then
        [ucast (0xE0 OR drop_bit 12 k), ucast (0x80 OR (drop_bit 6 k AND 0x3f)),
         ucast (0x80 OR (k AND 0x3f))]
      else if k \<ge> 0x0080 then
        [ucast (0xC0 OR drop_bit 6 k), ucast (0x80 OR (k AND 0x3f))]
      else [ucast k])"

text \<open>The argument loop of \<open>tvm.wchar\<close>; an argument out of range is an argument error.\<close>

fun tvm_wchar_from :: "nat \<Rightarrow> int list \<Rightarrow> lib_error + bytes" where
  "tvm_wchar_from i [] = Inr []"
| "tvm_wchar_from i (k # ks) =
     (if k < 0 \<or> k > 0x10FFFF then Inl (ArgError i ''invalid value'')
      else case tvm_wchar_from (Suc i) ks of
             Inl e \<Rightarrow> Inl e
           | Inr b \<Rightarrow> Inr (wchar_enc (word_of_int k) @ b))"

definition tvm_wchar :: "int list \<Rightarrow> lib_error + bytes" where
  "tvm_wchar = tvm_wchar_from 1"

section \<open>Progress and memory safety of the decoder\<close>

lemma rd_in [simp]: "i \<le> length s \<Longrightarrow> rd s i \<noteq> None"
  by (simp add: rd_def)

lemma rd_cont_in:
  assumes "rd s i = Some b" and "b AND 0xC0 = 0x80"
  shows "i < length s"
  using assms by (auto simp: rd_def split: if_splits)

lemma decode_cont_safe: "p + count < length s \<Longrightarrow> decode_cont s p c count res \<noteq> None"
proof (induction s p c count res rule: decode_cont.induct)
  case (1 s p c count res)
  have "rd s (p + Suc count) \<noteq> None" using "1.prems" by simp
  then obtain cc where cc: "rd s (p + Suc count) = Some cc" by auto
  show ?case
  proof (cases "c AND 0x40 = 0 \<or> cc AND 0xC0 \<noteq> 0x80")
    case True
    then show ?thesis by (subst decode_cont.simps) (use cc in auto)
  next
    case False
    then have "p + Suc count < length s" using rd_cont_in [OF cc] by simp
    then show ?thesis using False "1.IH" [OF _ cc] cc by (subst decode_cont.simps) simp
  qed
qed

lemma decode_cont_bounds:
  "decode_cont s p c count res = Some (Some (count', c', r)) \<Longrightarrow> p + count < length s \<Longrightarrow>
     count \<le> count' \<and> p + count' < length s"
proof (induction s p c count res rule: decode_cont.induct)
  case (1 s p c count res)
  show ?case
  proof (cases "c AND 0x40 = 0")
    case True
    then show ?thesis using "1.prems" decode_cont.simps [of s p c count res] by simp
  next
    case False
    then obtain cc where cc: "rd s (p + Suc count) = Some cc" and k: "cc AND 0xC0 = 0x80"
      using "1.prems"(1) decode_cont.simps [of s p c count res]
      by (auto split: option.splits if_splits)
    have "decode_cont s p (push_bit 1 c) (Suc count) (push_bit 6 res OR (ucast cc AND 0x3F))
        = Some (Some (count', c', r))"
      using "1.prems"(1) False cc k by (subst (asm) decode_cont.simps) simp
    then show ?thesis using "1.IH" [OF False cc] k rd_cont_in [OF cc k] by fastforce
  qed
qed

lemma rd_zero_small: "rd s p = Some b \<Longrightarrow> \<not> (ucast b :: u32) < 0x80 \<Longrightarrow> p < length s"
  by (auto simp: rd_def split: if_splits)

lemma utf8_decode_safe: "p \<le> length s \<Longrightarrow> utf8_decode s p \<noteq> None"
proof -
  assume p: "p \<le> length s"
  then obtain b where b: "rd s p = Some b" by (metis not_None_eq rd_in)
  show ?thesis
  proof (cases "(ucast b :: u32) < 0x80")
    case True
    then show ?thesis by (simp add: utf8_decode_def b Let_def)
  next
    case False
    then have "decode_cont s p (ucast b) 0 0 \<noteq> None"
      using rd_zero_small [OF b] by (intro decode_cont_safe) simp
    then show ?thesis using False
      by (auto simp: utf8_decode_def b Let_def split: option.splits prod.splits)
  qed
qed

lemma utf8_decode_progress:
  assumes "utf8_decode s p = Some (Some (v, e))"
  shows "p < e \<and> e \<le> length s + 1"
proof -
  obtain b where b: "rd s p = Some b" using assms by (auto simp: utf8_decode_def split: option.splits)
  show ?thesis
  proof (cases "(ucast b :: u32) < 0x80")
    case True
    then show ?thesis using assms b
      by (auto simp: utf8_decode_def Let_def rd_def split: if_splits)
  next
    case False
    obtain count c' r where d: "decode_cont s p (ucast b) 0 0 = Some (Some (count, c', r))"
      using assms False by (auto simp: utf8_decode_def b Let_def split: option.splits prod.splits)
    then have "p + count < length s"
      using decode_cont_bounds [OF d] rd_zero_small [OF b False] by simp
    then show ?thesis using assms False d
      by (auto simp: utf8_decode_def b Let_def split: if_splits)
  qed
qed

section \<open>Library functions\<close>

text \<open>
  \<open>luaL_checkstack(L, n, msg)\<close> of \<open>src/src/lj_api.c\<close> with \<open>used = L->top - L->base\<close> slots in use.
\<close>

definition LUAI_MAXCSTACK :: int where "LUAI_MAXCSTACK = 8000"

definition stack_ok :: "int \<Rightarrow> int \<Rightarrow> bool" where
  "stack_ok used n \<longleftrightarrow> n \<le> LUAI_MAXCSTACK \<and> used + n \<le> LUAI_MAXCSTACK"

definition opt_int :: "int option \<Rightarrow> int \<Rightarrow> int" where
  "opt_int a d = (case a of None \<Rightarrow> d | Some i \<Rightarrow> i)"

type_synonym lib_call = "(lib_error + lua_result list) option"

function utf8_len_loop :: "bytes \<Rightarrow> nat \<Rightarrow> int \<Rightarrow> nat \<Rightarrow> lib_call" where
  "utf8_len_loop s posi posj n =
     (if int posi \<le> posj then
        (case utf8_decode s posi of
           None \<Rightarrow> None
         | Some None \<Rightarrow> Some (Inr [RNil, RInt (int posi + 1)])
         | Some (Some (v, s1)) \<Rightarrow> utf8_len_loop s s1 posj (Suc n))
      else Some (Inr [RInt (int n)]))"
  by pat_completeness auto
termination
  by (relation "measure (\<lambda>(s, posi, posj, n). nat (posj + 1 - int posi))")
    (auto dest!: utf8_decode_progress)

declare utf8_len_loop.simps [simp del, loop_simps]

definition utf8_len :: "bytes \<Rightarrow> int option \<Rightarrow> int option \<Rightarrow> lib_call" where
  "utf8_len s i j =
     (let len = int (length s);
          posi = u_posrelat (opt_int i 1) (length s);
          posj = u_posrelat (opt_int j (-1)) (length s) in
      if \<not> (1 \<le> posi \<and> posi - 1 \<le> len) then
        Some (Inl (ArgError 2 ''initial position out of string''))
      else if \<not> (posj - 1 < len) then
        Some (Inl (ArgError 3 ''final position out of string''))
      else utf8_len_loop s (nat (posi - 1)) (posj - 1) 0)"

function utf8_codepoint_loop :: "bytes \<Rightarrow> nat \<Rightarrow> nat \<Rightarrow> lua_result list \<Rightarrow> lib_call" where
  "utf8_codepoint_loop s p se acc =
     (if p < se then
        (case utf8_decode s p of
           None \<Rightarrow> None
         | Some None \<Rightarrow> Some (Inl (LuaError ''invalid UTF-8 code''))
         | Some (Some (code, p')) \<Rightarrow> utf8_codepoint_loop s p' se (acc @ [RInt (uint code)]))
      else Some (Inr acc))"
  by pat_completeness auto
termination
  by (relation "measure (\<lambda>(s, p, se, acc). se - p)") (auto dest!: utf8_decode_progress)

declare utf8_codepoint_loop.simps [simp del, loop_simps]

definition utf8_codepoint :: "bytes \<Rightarrow> int option \<Rightarrow> int option \<Rightarrow> int \<Rightarrow> lib_call" where
  "utf8_codepoint s i j used =
     (let posi = u_posrelat (opt_int i 1) (length s);
          pose = u_posrelat (opt_int j posi) (length s) in
      if \<not> posi \<ge> 1 then Some (Inl (ArgError 2 ''out of range''))
      else if \<not> pose \<le> int (length s) then Some (Inl (ArgError 3 ''out of range''))
      else if posi > pose then Some (Inr [])
      else if pose - posi \<ge> 2 ^ 31 - 1 then Some (Inl (LuaError ''string slice too long''))
      else if \<not> stack_ok used (pose - posi + 1) then
        Some (Inl (LuaError ''stack overflow (string slice too long)''))
      else utf8_codepoint_loop s (nat (posi - 1)) (nat pose) [])"

text \<open>
  \<open>skip_back\<close> is \<open>while (posi > 0 && iscont(s + posi)) posi--\<close>; \<open>skip_fwd\<close> is
  \<open>do posi++ while (iscont(s + posi))\<close>, which the terminating NUL stops.
\<close>

fun skip_back :: "bytes \<Rightarrow> nat \<Rightarrow> nat option" where
  "skip_back s 0 = Some 0"
| "skip_back s (Suc i) =
     (case rd s (Suc i) of None \<Rightarrow> None
      | Some b \<Rightarrow> if iscont b then skip_back s i else Some (Suc i))"

function skip_fwd :: "bytes \<Rightarrow> nat \<Rightarrow> nat option" where
  "skip_fwd s i =
     (case rd s (Suc i) of None \<Rightarrow> None
      | Some b \<Rightarrow> if iscont b then skip_fwd s (Suc i) else Some (Suc i))"
  by pat_completeness auto
termination
  by (relation "measure (\<lambda>(s, i). Suc (length s) - i)")
    (auto simp: rd_def split: if_splits)

declare skip_fwd.simps [simp del, loop_simps]

text \<open>The loops of \<open>utf8.offset\<close> on \<open>-n\<close> and \<open>n - 1\<close>: what is left of \<open>n\<close>, and the position.\<close>

fun offset_back :: "bytes \<Rightarrow> nat \<Rightarrow> nat \<Rightarrow> (nat \<times> nat) option" where
  "offset_back s 0 posi = Some (0, posi)"
| "offset_back s (Suc m) posi =
     (if posi > 0 then
        (case skip_back s (posi - 1) of None \<Rightarrow> None | Some q \<Rightarrow> offset_back s m q)
      else Some (Suc m, posi))"

fun offset_fwd :: "bytes \<Rightarrow> nat \<Rightarrow> nat \<Rightarrow> (nat \<times> nat) option" where
  "offset_fwd s 0 posi = Some (0, posi)"
| "offset_fwd s (Suc m) posi =
     (if posi < length s then
        (case skip_fwd s posi of None \<Rightarrow> None | Some q \<Rightarrow> offset_fwd s m q)
      else Some (Suc m, posi))"

definition offset_result :: "(nat \<times> nat) option \<Rightarrow> lib_call" where
  "offset_result r =
     (case r of None \<Rightarrow> None
      | Some (m, posi) \<Rightarrow> Some (Inr [if m = 0 then RInt (int posi + 1) else RNil]))"

definition utf8_offset :: "bytes \<Rightarrow> int \<Rightarrow> int option \<Rightarrow> lib_call" where
  "utf8_offset s n i =
     (let posi = u_posrelat (opt_int i (if n \<ge> 0 then 1 else int (length s) + 1)) (length s) in
      if \<not> (1 \<le> posi \<and> posi - 1 \<le> int (length s)) then
        Some (Inl (ArgError 3 ''position out of range''))
      else
        let p = nat (posi - 1) in
        if n = 0 then offset_result (map_option (\<lambda>q. (0, q)) (skip_back s p))
        else
          case rd s p of
            None \<Rightarrow> None
          | Some b \<Rightarrow>
              if iscont b then
                Some (Inl (LuaError ''initial position is a continuation byte''))
              else if n < 0 then offset_result (offset_back s (nat (- n)) p)
              else offset_result (offset_fwd s (nat (n - 1)) p))"

text \<open>
  The iterator of \<open>utf8.codes\<close>; \<open>ctl\<close> is the control value \<open>lua_tointeger(L, 2)\<close>.
  \<open>iter_start\<close> moves past the current character, \<open>iter_at\<close> decodes the next one.
\<close>

definition iter_start :: "bytes \<Rightarrow> int \<Rightarrow> nat option" where
  "iter_start s ctl =
     (let n = ctl - 1 in
      if n < 0 then Some 0
      else if n < int (length s) then skip_fwd s (nat n)
      else Some (nat n))"

definition iter_at :: "bytes \<Rightarrow> nat \<Rightarrow> lib_call" where
  "iter_at s p =
     (if p \<ge> length s then Some (Inr [])
      else
        case utf8_decode s p of
          None \<Rightarrow> None
        | Some None \<Rightarrow> Some (Inl (LuaError ''invalid UTF-8 code''))
        | Some (Some (code, nx)) \<Rightarrow>
            (case rd s nx of
               None \<Rightarrow> None
             | Some b \<Rightarrow>
                 if iscont b then Some (Inl (LuaError ''invalid UTF-8 code''))
                 else Some (Inr [RInt (int p + 1), RInt (uint code)])))"

definition iter_aux :: "bytes \<Rightarrow> int \<Rightarrow> lib_call" where
  "iter_aux s ctl = (case iter_start s ctl of None \<Rightarrow> None | Some p \<Rightarrow> iter_at s p)"

section \<open>Memory safety of the library functions\<close>

lemma skip_back_safe: "p \<le> length s \<Longrightarrow> \<exists>q \<le> p. skip_back s p = Some q"
proof (induction p)
  case (Suc p)
  then obtain b where "rd s (Suc p) = Some b" by (metis not_None_eq rd_in)
  with Suc show ?case by (auto intro: le_SucI)
qed simp

lemma skip_fwd_safe: "p < length s \<Longrightarrow> \<exists>q. skip_fwd s p = Some q \<and> p < q \<and> q \<le> length s"
proof (induction s p rule: skip_fwd.induct)
  case (1 s i)
  then obtain b where b: "rd s (Suc i) = Some b" by (metis Suc_leI not_None_eq rd_in)
  show ?case
  proof (cases "iscont b")
    case True
    then have "Suc i < length s" using b rd_cont_in by (simp add: iscont_def)
    then have "\<exists>q. skip_fwd s (Suc i) = Some q \<and> Suc i < q \<and> q \<le> length s"
      using "1.IH" [OF b True] by simp
    then show ?thesis using True b by (subst skip_fwd.simps) auto
  next
    case False
    then show ?thesis using b "1.prems" by (subst skip_fwd.simps) simp
  qed
qed

lemma offset_back_safe: "posi \<le> length s \<Longrightarrow> offset_back s m posi \<noteq> None"
proof (induction m arbitrary: posi)
  case (Suc m)
  have "posi - 1 \<le> length s" using Suc.prems by simp
  then obtain q where "q \<le> posi - 1" "skip_back s (posi - 1) = Some q"
    using skip_back_safe by blast
  with Suc show ?case by auto
qed simp

lemma offset_fwd_safe: "posi \<le> length s \<Longrightarrow> offset_fwd s m posi \<noteq> None"
proof (induction m arbitrary: posi)
  case (Suc m)
  show ?case
  proof (cases "posi < length s")
    case True
    with skip_fwd_safe [OF True] Suc show ?thesis by auto
  qed simp
qed simp

lemma utf8_len_loop_safe: "posj < int (length s) \<Longrightarrow> utf8_len_loop s posi posj n \<noteq> None"
proof (induction s posi posj n rule: utf8_len_loop.induct)
  case (1 s posi posj n)
  show ?case
  proof (cases "int posi \<le> posj")
    case True
    then have "utf8_decode s posi \<noteq> None" using "1.prems" by (intro utf8_decode_safe) simp
    then show ?thesis using 1 True
      by (subst utf8_len_loop.simps) (auto split: option.splits)
  qed (subst utf8_len_loop.simps, simp)
qed

lemma utf8_codepoint_loop_safe: "se \<le> length s \<Longrightarrow> utf8_codepoint_loop s p se acc \<noteq> None"
proof (induction s p se acc rule: utf8_codepoint_loop.induct)
  case (1 s p se acc)
  show ?case
  proof (cases "p < se")
    case True
    then have "utf8_decode s p \<noteq> None" using "1.prems" by (intro utf8_decode_safe) simp
    then show ?thesis using 1 True
      by (subst utf8_codepoint_loop.simps) (auto split: option.splits)
  qed (subst utf8_codepoint_loop.simps, simp)
qed

lemma decode_end_in:
  assumes "utf8_decode s p = Some (Some (v, e))" and "p < length s"
  shows "e \<le> length s"
proof -
  obtain b where b: "rd s p = Some b" using assms by (auto simp: utf8_decode_def split: option.splits)
  show ?thesis
  proof (cases "(ucast b :: u32) < 0x80")
    case True
    then show ?thesis using assms b by (auto simp: utf8_decode_def Let_def)
  next
    case False
    obtain count c' r where d: "decode_cont s p (ucast b) 0 0 = Some (Some (count, c', r))"
      using assms False by (auto simp: utf8_decode_def b Let_def split: option.splits prod.splits)
    then have "p + count < length s" using decode_cont_bounds [OF d] assms(2) by simp
    then show ?thesis using assms False d by (auto simp: utf8_decode_def b Let_def split: if_splits)
  qed
qed

lemma iter_start_safe: "iter_start s ctl \<noteq> None"
proof (cases "ctl - 1 < 0 \<or> \<not> ctl - 1 < int (length s)")
  case False
  then have "nat (ctl - 1) < length s" by linarith
  then show ?thesis using skip_fwd_safe False by (auto simp: iter_start_def)
qed (auto simp: iter_start_def)

lemma iter_at_safe: "iter_at s p \<noteq> None"
proof (cases "p < length s")
  case True
  obtain d where d: "utf8_decode s p = Some d" using utf8_decode_safe True by fastforce
  have "rd s e \<noteq> None" if "d = Some (v, e)" for v e
    using decode_end_in d True that by simp
  then show ?thesis using d by (fastforce simp: iter_at_def split: option.splits)
qed (simp add: iter_at_def)

lemma iter_aux_safe: "iter_aux s ctl \<noteq> None"
  using iter_start_safe [of s ctl] iter_at_safe by (auto simp: iter_aux_def)

section \<open>Round trip of encoder and decoder\<close>

lemma cont_mark [simp]: "(ucast (0x80 OR (x AND 0x3f) :: u32) :: byte) AND 0xC0 = 0x80"
  by (rule bit_word_eqI, simp only: word_bits) auto

lemma cont_payload [simp]:
  "(ucast (ucast (0x80 OR (x AND 0x3f) :: u32) :: byte) :: u32) AND 0x3F = x AND 0x3F"
  by (rule bit_word_eqI, simp only: word_bits) auto

lemma decode_cont_step:
  "bit c 6 \<Longrightarrow> rd s (p + Suc count) = Some cc \<Longrightarrow> cc AND 0xC0 = 0x80 \<Longrightarrow>
   decode_cont s p c count res =
     decode_cont s p (push_bit 1 c) (Suc count) (push_bit 6 res OR (ucast cc AND 0x3F))"
  using and_0x40_iff [of c] by (subst decode_cont.simps) simp

lemma decode_cont_stop:
  "\<not> bit c 6 \<Longrightarrow> decode_cont s p c count res = Some (Some (count, c, res))"
  using and_0x40_iff [of c] by (subst decode_cont.simps) simp

text \<open>Reassembling the payload bits: two, three and four byte sequences.\<close>

lemma two_byte_value:
  assumes "\<And>n. bit (k :: u32) n \<Longrightarrow> n < 11"
  shows "(push_bit 6 0 OR (k AND 0x3F))
     OR push_bit 5 (push_bit 1 (ucast (ucast (0xC0 OR drop_bit 6 k) :: byte)) AND 0x7F) = k"
  by (rule bit_word_eqI, simp only: word_bits) (auto dest: assms)

lemma three_byte_value:
  assumes "\<And>n. bit (k :: u32) n \<Longrightarrow> n < 16"
  shows "(push_bit 6 (push_bit 6 0 OR (drop_bit 6 k AND 0x3F)) OR (k AND 0x3F))
     OR push_bit 10
          (push_bit 1 (push_bit 1 (ucast (ucast (0xE0 OR drop_bit 12 k) :: byte))) AND 0x7F) = k"
  by (rule bit_word_eqI, simp only: word_bits) (auto dest: assms)

lemma four_byte_value:
  assumes "\<And>n. bit (k :: u32) n \<Longrightarrow> n < 21"
  shows "(push_bit 6 (push_bit 6 (push_bit 6 0 OR (drop_bit 12 k AND 0x3F))
        OR (drop_bit 6 k AND 0x3F)) OR (k AND 0x3F))
     OR push_bit 15
          (push_bit 1 (push_bit 1 (push_bit 1 (ucast (ucast (0xF0 OR drop_bit 18 k) :: byte))))
           AND 0x7F) = k"
  by (rule bit_word_eqI, simp only: word_bits) (auto dest: assms)

lemma bit_bound: "unat (k :: u32) < 2 ^ m \<Longrightarrow> bit k n \<Longrightarrow> n < m"
  using word_bit_above [of k m n] not_le by blast

lemma high_bit_ge: "bit (c :: u32) 7 \<Longrightarrow> \<not> c < 0x80"
  using bit_bound [of c 7 7] by (auto simp: word_less_nat_alt)

lemma rd_append: "i < length w \<Longrightarrow> rd (pre @ w @ post) (length pre + i) = Some (w ! i)"
  by (simp add: rd_def nth_append)

lemma utf8_decode_enc:
  assumes "k \<le> MAXUNICODE"
  shows "utf8_decode (pre @ wchar_enc k @ post) (length pre)
     = Some (Some (k, length pre + length (wchar_enc k)))"
proof -
  let ?s = "pre @ wchar_enc k @ post" and ?p = "length pre"
  have rd: "i < length (wchar_enc k) \<Longrightarrow> rd ?s (?p + i) = Some (wchar_enc k ! i)" for i
    by (rule rd_append)
  have len: "wchar_enc k \<noteq> []" by (simp add: wchar_enc_def)
  then have rd0: "rd ?s ?p = Some (wchar_enc k ! 0)" using rd [of 0] by simp
  have mx: "\<not> MAXUNICODE < k" using assms by simp
  consider "unat k < 0x80" | "0x80 \<le> unat k" "unat k < 0x800"
    | "0x800 \<le> unat k" "unat k < 0x10000" | "0x10000 \<le> unat k" by force
  then show ?thesis
  proof cases
    case 1
    then have e: "wchar_enc k = [ucast k]" and k: "k < 0x80"
      by (simp_all add: wchar_enc_def word_le_nat_alt word_less_nat_alt)
    have "ucast (ucast k :: byte) = k"
      by (rule bit_word_eqI, simp only: word_bits) (use bit_bound [of k 7] 1 in force)
    then show ?thesis using rd0 k by (simp add: utf8_decode_def e Let_def)
  next
    case 2
    then have e: "wchar_enc k = [ucast (0xC0 OR drop_bit 6 k), ucast (0x80 OR (k AND 0x3f))]"
      and k: "\<not> k \<le> 0x7F"
      by (simp_all add: wchar_enc_def word_le_nat_alt)
    let ?c = "ucast (ucast (0xC0 OR drop_bit 6 k) :: byte) :: u32"
    have b: "bit k n \<Longrightarrow> n < 11" for n using bit_bound [of k 11 n] 2 by simp
    have "bit ?c 7" "bit ?c 6" "\<not> bit (push_bit 1 ?c) 6"
      by (simp_all only: word_bits) (use b in fastforce)+
    moreover have "rd ?s (?p + Suc 0) = Some (ucast (0x80 OR (k AND 0x3f)))"
      using rd [of 1] by (simp add: e)
    ultimately have "decode_cont ?s ?p ?c 0 0
        = Some (Some (1, push_bit 1 ?c, push_bit 6 0 OR (k AND 0x3F)))" "\<not> ?c < 0x80"
      using high_bit_ge by (simp_all add: decode_cont_step decode_cont_stop)
    then show ?thesis using rd0 k mx two_byte_value [OF b]
      by (simp add: utf8_decode_def e Let_def limits_def)
  next
    case 3
    then have e: "wchar_enc k = [ucast (0xE0 OR drop_bit 12 k),
          ucast (0x80 OR (drop_bit 6 k AND 0x3f)), ucast (0x80 OR (k AND 0x3f))]"
      and k: "\<not> k \<le> 0x7FF"
      by (simp_all add: wchar_enc_def word_le_nat_alt)
    let ?c = "ucast (ucast (0xE0 OR drop_bit 12 k) :: byte) :: u32"
    have b: "bit k n \<Longrightarrow> n < 16" for n using bit_bound [of k 16 n] 3 by simp
    have c: "bit ?c 7" "bit ?c 6" "bit (push_bit 1 ?c) 6" "\<not> bit (push_bit 1 (push_bit 1 ?c)) 6"
      by (simp_all only: word_bits) (use b in fastforce)+
    have r: "rd ?s (?p + Suc 0) = Some (ucast (0x80 OR (drop_bit 6 k AND 0x3f)))"
      "rd ?s (?p + Suc (Suc 0)) = Some (ucast (0x80 OR (k AND 0x3f)))"
      using rd [of 1] rd [of 2] by (simp_all add: e)
    have "decode_cont ?s ?p ?c 0 0 = Some (Some (Suc (Suc 0), push_bit 1 (push_bit 1 ?c),
        push_bit 6 (push_bit 6 0 OR (drop_bit 6 k AND 0x3F)) OR (k AND 0x3F)))" "\<not> ?c < 0x80"
      using high_bit_ge [OF c(1)]
      by (simp_all only: decode_cont_step [OF c(2) r(1) cont_mark] cont_payload
          decode_cont_step [OF c(3) r(2) cont_mark] decode_cont_stop [OF c(4)] not_False_eq_True)
    then show ?thesis using rd0 k mx three_byte_value [OF b]
      by (simp add: utf8_decode_def e Let_def limits_def)
  next
    case 4
    then have e: "wchar_enc k = [ucast (0xF0 OR drop_bit 18 k),
          ucast (0x80 OR (drop_bit 12 k AND 0x3f)), ucast (0x80 OR (drop_bit 6 k AND 0x3f)),
          ucast (0x80 OR (k AND 0x3f))]"
      and k: "\<not> k \<le> 0xFFFF"
      by (simp_all add: wchar_enc_def word_le_nat_alt)
    have "unat k < 2 ^ 21" using assms by (simp add: MAXUNICODE_def word_le_nat_alt)
    then have b: "bit k n \<Longrightarrow> n < 21" for n using bit_bound [of k 21 n] by simp
    let ?c = "ucast (ucast (0xF0 OR drop_bit 18 k) :: byte) :: u32"
    have c: "bit ?c 7" "bit ?c 6" "bit (push_bit 1 ?c) 6" "bit (push_bit 1 (push_bit 1 ?c)) 6"
      "\<not> bit (push_bit 1 (push_bit 1 (push_bit 1 ?c))) 6"
      by (simp_all only: word_bits) (use b in fastforce)+
    have r: "rd ?s (?p + Suc 0) = Some (ucast (0x80 OR (drop_bit 12 k AND 0x3f)))"
      "rd ?s (?p + Suc (Suc 0)) = Some (ucast (0x80 OR (drop_bit 6 k AND 0x3f)))"
      "rd ?s (?p + Suc (Suc (Suc 0))) = Some (ucast (0x80 OR (k AND 0x3f)))"
      using rd [of 1] rd [of 2] rd [of 3] by (simp_all add: e numeral_3_eq_3)
    have "decode_cont ?s ?p ?c 0 0 = Some (Some (Suc (Suc (Suc 0)),
        push_bit 1 (push_bit 1 (push_bit 1 ?c)),
        push_bit 6 (push_bit 6 (push_bit 6 0 OR (drop_bit 12 k AND 0x3F))
          OR (drop_bit 6 k AND 0x3F)) OR (k AND 0x3F)))" "\<not> ?c < 0x80"
      using high_bit_ge [OF c(1)]
      by (simp_all only: decode_cont_step [OF c(2) r(1) cont_mark] cont_payload
          decode_cont_step [OF c(3) r(2) cont_mark] decode_cont_step [OF c(4) r(3) cont_mark]
          decode_cont_stop [OF c(5)] not_False_eq_True)
    then show ?thesis using rd0 k mx four_byte_value [OF b]
      by (simp add: utf8_decode_def e Let_def limits_def)
  qed
qed

lemma cont_bits: "(x :: byte) AND 0xC0 = 0x80 \<longleftrightarrow> bit x 7 \<and> \<not> bit x 6"
proof
  assume a: "x AND 0xC0 = 0x80"
  have "bit (x AND 0xC0) 7 = bit (0x80 :: byte) 7" "bit (x AND 0xC0) 6 = bit (0x80 :: byte) 6"
    by (simp_all only: a)
  then show "bit x 7 \<and> \<not> bit x 6" by (simp_all only: word_bits) simp
next
  assume "bit x 7 \<and> \<not> bit x 6"
  then show "x AND 0xC0 = 0x80"
    by (intro bit_word_eqI, simp only: word_bits) auto
qed

lemma lead_bits:
  fixes b :: byte
  shows "bit (ucast b :: u32) 6 = bit b 6"
    "bit (push_bit 1 (ucast b :: u32)) 6 = bit b 5"
    "bit (push_bit 1 (push_bit 1 (ucast b :: u32))) 6 = bit b 4"
    "bit (push_bit 1 (push_bit 1 (push_bit 1 (ucast b :: u32)))) 6 = bit b 3"
  by (simp_all only: word_bits) simp_all

lemma byte_cases: "n < (8::nat) \<Longrightarrow> n = 0 \<or> n = 1 \<or> n = 2 \<or> n = 3 \<or> n = 4 \<or> n = 5 \<or> n = 6 \<or> n = 7"
  by arith

lemma two_byte_inv:
  fixes b c1 :: byte
  defines "v \<equiv> (push_bit 6 0 OR (ucast c1 AND 0x3F)) OR push_bit 5 (push_bit 1 (ucast b :: u32) AND 0x7F)"
  assumes b: "bit b 7" "bit b 6" "\<not> bit b 5" and c: "bit c1 7" "\<not> bit c1 6"
  shows "ucast (0xC0 OR drop_bit 6 v) = b" "ucast (0x80 OR (v AND 0x3F)) = c1"
    "unat v < 2 ^ 11"
proof -
  show "ucast (0xC0 OR drop_bit 6 v) = b"
    by (rule bit_word_eqI, simp only: v_def word_bits) (use b in \<open>auto dest!: byte_cases\<close>)
  show "ucast (0x80 OR (v AND 0x3F)) = c1"
    by (rule bit_word_eqI, simp only: v_def word_bits) (use c in \<open>auto dest!: byte_cases\<close>)
  have "11 \<le> n \<Longrightarrow> n - 5 < 7 \<Longrightarrow> n = 11" for n :: nat by arith
  then show "unat v < 2 ^ 11"
    by (intro word_less_of_bits, simp only: v_def word_bits) (use b in fastforce)
qed

lemma three_byte_inv:
  fixes b c1 c2 :: byte
  defines "v \<equiv> (push_bit 6 (push_bit 6 0 OR (ucast c1 AND 0x3F)) OR (ucast c2 AND 0x3F))
    OR push_bit 10 (push_bit 1 (push_bit 1 (ucast b :: u32)) AND 0x7F)"
  assumes b: "bit b 7" "bit b 6" "bit b 5" "\<not> bit b 4" and c: "bit c1 7" "\<not> bit c1 6" "bit c2 7" "\<not> bit c2 6"
  shows "ucast (0xE0 OR drop_bit 12 v) = b" "ucast (0x80 OR (drop_bit 6 v AND 0x3F)) = c1"
    "ucast (0x80 OR (v AND 0x3F)) = c2" "unat v < 2 ^ 16"
proof -
  show "ucast (0xE0 OR drop_bit 12 v) = b"
    by (rule bit_word_eqI, simp only: v_def word_bits) (use b in \<open>auto dest!: byte_cases\<close>)
  show "ucast (0x80 OR (drop_bit 6 v AND 0x3F)) = c1"
    by (rule bit_word_eqI, simp only: v_def word_bits) (use c in \<open>auto dest!: byte_cases\<close>)
  show "ucast (0x80 OR (v AND 0x3F)) = c2"
    by (rule bit_word_eqI, simp only: v_def word_bits) (use c in \<open>auto dest!: byte_cases\<close>)
  have "16 \<le> n \<Longrightarrow> n - 10 < 7 \<Longrightarrow> n = 16" for n :: nat by arith
  then show "unat v < 2 ^ 16"
    by (intro word_less_of_bits, simp only: v_def word_bits) (use b in fastforce)
qed

lemma four_byte_inv:
  fixes b c1 c2 c3 :: byte
  defines "v \<equiv> (push_bit 6 (push_bit 6 (push_bit 6 0 OR (ucast c1 AND 0x3F)) OR (ucast c2 AND 0x3F)) OR (ucast c3 AND 0x3F))
    OR push_bit 15 (push_bit 1 (push_bit 1 (push_bit 1 (ucast b :: u32))) AND 0x7F)"
  assumes b: "bit b 7" "bit b 6" "bit b 5" "bit b 4" "\<not> bit b 3"
    and c: "bit c1 7" "\<not> bit c1 6" "bit c2 7" "\<not> bit c2 6" "bit c3 7" "\<not> bit c3 6"
  shows "ucast (0xF0 OR drop_bit 18 v) = b" "ucast (0x80 OR (drop_bit 12 v AND 0x3F)) = c1"
    "ucast (0x80 OR (drop_bit 6 v AND 0x3F)) = c2" "ucast (0x80 OR (v AND 0x3F)) = c3"
proof -
  show "ucast (0xF0 OR drop_bit 18 v) = b"
    by (rule bit_word_eqI, simp only: v_def word_bits) (use b in \<open>auto dest!: byte_cases\<close>)
  show "ucast (0x80 OR (drop_bit 12 v AND 0x3F)) = c1"
    by (rule bit_word_eqI, simp only: v_def word_bits) (use c in \<open>auto dest!: byte_cases\<close>)
  show "ucast (0x80 OR (drop_bit 6 v AND 0x3F)) = c2"
    by (rule bit_word_eqI, simp only: v_def word_bits) (use c in \<open>auto dest!: byte_cases\<close>)
  show "ucast (0x80 OR (v AND 0x3F)) = c3"
    by (rule bit_word_eqI, simp only: v_def word_bits) (use c in \<open>auto dest!: byte_cases\<close>)
qed

lemma decode_cont_cases:
  assumes "decode_cont s p c count res = Some (Some x)"
  obtains "\<not> bit c 6" "x = (count, c, res)"
  | cc where "bit c 6" "rd s (p + Suc count) = Some cc" "cc AND 0xC0 = 0x80"
    "decode_cont s p (push_bit 1 c) (Suc count) (push_bit 6 res OR (ucast cc AND 0x3F)) = Some (Some x)"
  using assms and_0x40_iff [of c] decode_cont.simps [of s p c count res]
  by (auto split: option.splits if_splits)

lemma take_rd: "rd s (p + i) = Some x \<Longrightarrow> x AND 0xC0 = 0x80 \<Longrightarrow> p + i < length s \<and> s ! (p + i) = x"
  by (auto simp: rd_def split: if_splits)

lemma take_drop_eqI:
  assumes "p + length ys \<le> length s" and "\<And>i. i < length ys \<Longrightarrow> s ! (p + i) = ys ! i" and "n = length ys"
  shows "take n (drop p s) = ys"
  using assms by (intro nth_equalityI) auto

text \<open>C27: the decoder accepts a byte sequence only in its canonical form: whatever \<open>utf8_decode\<close>
  returns for a position inside the string is at most \<open>0x10FFFF\<close>, it consumes only bytes of the
  string, and the bytes it consumed are exactly what \<open>tvm.wchar\<close> writes for the code point, so no
  overlong form is ever accepted.\<close>

theorem utf8_decode_canonical:
  assumes d: "utf8_decode s p = Some (Some (v, e))" and p: "p < length s"
  shows "v \<le> MAXUNICODE \<and> e \<le> length s \<and> take (e - p) (drop p s) = wchar_enc v"
proof (cases "(ucast (s ! p) :: u32) < 0x80")
  case True
  then have v: "v = ucast (s ! p)" "e = p + 1" using d p by (auto simp: utf8_decode_def rd_def Let_def)
  have "ucast (ucast (s ! p) :: u32) = s ! p" by (rule bit_word_eqI, simp only: word_bits) simp
  moreover have "wchar_enc v = [ucast v]" "v \<le> MAXUNICODE"
    using True v by (simp_all add: wchar_enc_def word_less_nat_alt word_le_nat_alt MAXUNICODE_def)
  ultimately show ?thesis using v p by (simp add: take_Suc hd_drop_conv_nth)
next
  case False
  let ?b = "s ! p"
  let ?c = "ucast ?b :: u32"
  have b7: "bit ?b 7"
  proof (rule ccontr)
    assume n: "\<not> bit ?b 7"
    have "7 \<le> n \<Longrightarrow> \<not> bit ?b n" for n
      using n bit_byte_bound [of ?b n] by (cases "n = 7") auto
    then have "unat ?c < 2 ^ 7"
      by (intro word_less_of_bits, simp only: word_bits) simp
    then show False using False by (simp add: word_less_nat_alt)
  qed
  obtain count c' r where dc: "decode_cont s p ?c 0 0 = Some (Some (count, c', r))"
    and v: "v = r OR push_bit (count * 5) (c' AND 0x7F)" and e: "e = p + count + 1"
    and lim: "count \<le> 3" "v \<le> MAXUNICODE" "limits ! count < v"
    using d p False by (auto simp: utf8_decode_def rd_def Let_def split: option.splits if_splits prod.splits)
  from dc show ?thesis
  proof (cases rule: decode_cont_cases)
    case 1
    have "unat (push_bit (0 * 5) (?c AND 0x7F)) < 2 ^ 8"
      by (rule word_less_of_bits, simp only: word_bits) auto
    then show ?thesis using 1 v lim by (simp add: limits_def word_less_nat_alt)
  next
    case (2 c1)
    note a1 = this
    then have t1: "p + Suc 0 < length s" "s ! (p + Suc 0) = c1" using take_rd [OF a1(2,3)] by auto
    from a1(4) show ?thesis
    proof (cases rule: decode_cont_cases)
      case 1
      then have r: "count = Suc 0" and vv: "v = (push_bit 6 0 OR (ucast c1 AND 0x3F)) OR push_bit 5 (push_bit 1 ?c AND 0x7F)"
        using v by auto
      have "bit ?b 6" "\<not> bit ?b 5" "bit c1 7" "\<not> bit c1 6"
        using a1 1 by (simp_all only: lead_bits cont_bits not_False_eq_True)
      from two_byte_inv [OF b7 this] have i: "ucast (0xC0 OR drop_bit 6 v) = ?b" "ucast (0x80 OR (v AND 0x3F)) = c1"
        "unat v < 2 ^ 11" unfolding vv .
      then have "wchar_enc v = [?b, c1]" using lim r by (simp add: wchar_enc_def limits_def word_less_nat_alt word_le_nat_alt)
      moreover have "take 2 (drop p s) = [?b, c1]"
        using t1 p by (simp add: numeral_2_eq_2 take_Suc_conv_app_nth)
      ultimately show ?thesis using lim e r t1 by simp
    next
      case (2 c2)
      note a2 = this
      then have t2: "p + Suc (Suc 0) < length s" "s ! (p + Suc (Suc 0)) = c2"
        using take_rd [OF a2(2,3)] by auto
      from a2(4) show ?thesis
      proof (cases rule: decode_cont_cases)
        case 1
        then have r: "count = Suc (Suc 0)" and vv: "v = (push_bit 6 (push_bit 6 0 OR (ucast c1 AND 0x3F))
            OR (ucast c2 AND 0x3F)) OR push_bit 10 (push_bit 1 (push_bit 1 ?c) AND 0x7F)"
          using v by auto
        have "bit ?b 6" "bit ?b 5" "\<not> bit ?b 4" "bit c1 7" "\<not> bit c1 6" "bit c2 7" "\<not> bit c2 6"
          using a1 a2 1 by (simp_all only: lead_bits cont_bits not_False_eq_True)
        from three_byte_inv [OF b7 this] have i: "ucast (0xE0 OR drop_bit 12 v) = ?b"
          "ucast (0x80 OR (drop_bit 6 v AND 0x3F)) = c1" "ucast (0x80 OR (v AND 0x3F)) = c2"
          "unat v < 2 ^ 16" unfolding vv .
        then have "wchar_enc v = [?b, c1, c2]"
          using lim r by (simp add: wchar_enc_def limits_def word_less_nat_alt word_le_nat_alt)
        moreover have "take 3 (drop p s) = [?b, c1, c2]"
          using t1 t2 p by (intro take_drop_eqI) (auto simp: less_Suc_eq numeral_3_eq_3)
        ultimately show ?thesis using lim e r t2 by simp
      next
        case (2 c3)
        note a3 = this
        then have t3: "p + Suc (Suc (Suc 0)) < length s" "s ! (p + Suc (Suc (Suc 0))) = c3"
          using take_rd [OF a3(2,3)] by auto
        from a3(4) show ?thesis
        proof (cases rule: decode_cont_cases)
          case 1
          then have r: "count = Suc (Suc (Suc 0))"
            and vv: "v = (push_bit 6 (push_bit 6 (push_bit 6 0 OR (ucast c1 AND 0x3F))
              OR (ucast c2 AND 0x3F)) OR (ucast c3 AND 0x3F))
              OR push_bit 15 (push_bit 1 (push_bit 1 (push_bit 1 ?c)) AND 0x7F)"
            using v by auto
          have "bit ?b 6" "bit ?b 5" "bit ?b 4" "\<not> bit ?b 3" "bit c1 7" "\<not> bit c1 6"
            "bit c2 7" "\<not> bit c2 6" "bit c3 7" "\<not> bit c3 6"
            using a1 a2 a3 1 by (simp_all only: lead_bits cont_bits not_False_eq_True)
          from four_byte_inv [OF b7 this] have i: "ucast (0xF0 OR drop_bit 18 v) = ?b"
            "ucast (0x80 OR (drop_bit 12 v AND 0x3F)) = c1"
            "ucast (0x80 OR (drop_bit 6 v AND 0x3F)) = c2" "ucast (0x80 OR (v AND 0x3F)) = c3"
            unfolding vv .
          then have "wchar_enc v = [?b, c1, c2, c3]"
            using lim r by (simp add: wchar_enc_def limits_def word_less_nat_alt word_le_nat_alt)
          moreover have "take 4 (drop p s) = [?b, c1, c2, c3]"
            using t1 t2 t3 p by (intro take_drop_eqI) (auto simp: less_Suc_eq eval_nat_numeral)
          ultimately show ?thesis using lim e r t3 by simp
        next
          case (2 c4)
          then have "p + 4 \<le> p + count" using decode_cont_bounds [OF 2(4)] take_rd [OF 2(2,3)] by simp
          then show ?thesis using lim by simp
        qed
      qed
    qed
  qed
qed


section \<open>Whole strings of encoded code points\<close>

abbreviation wchars :: "u32 list \<Rightarrow> bytes" where
  "wchars ks \<equiv> concat (map wchar_enc ks)"

lemma wchar_enc_nonempty [simp]: "wchar_enc k \<noteq> []"
  by (simp add: wchar_enc_def)

lemma length_wchar_enc_pos [simp]: "0 < length (wchar_enc k)"
  by simp

lemma tvm_wchar_from_ok:
  "\<forall>k \<in> set ks. k \<le> MAXUNICODE \<Longrightarrow> tvm_wchar_from i (map uint ks) = Inr (wchars ks)"
proof (induction ks arbitrary: i)
  case (Cons k ks)
  then have "uint k \<le> 0x10FFFF" by (auto simp: MAXUNICODE_def word_le_def)
  with Cons show ?case by simp
qed simp

lemma utf8_len_loop_wchars:
  assumes "\<forall>k \<in> set ks. k \<le> MAXUNICODE"
  shows "utf8_len_loop (pre @ wchars ks) (length pre) (int (length (pre @ wchars ks)) - 1) n
     = Some (Inr [RInt (int (n + length ks))])"
  using assms
proof (induction ks arbitrary: pre n)
  case Nil
  then show ?case by (subst utf8_len_loop.simps) simp
next
  case (Cons k ks)
  let ?s = "pre @ wchar_enc k @ wchars ks"
  have d: "utf8_decode ?s (length pre) = Some (Some (k, length (pre @ wchar_enc k)))"
    using Cons.prems by (simp add: utf8_decode_enc)
  have "int (length pre) \<le> int (length ?s) - 1"
    using length_wchar_enc_pos [of k] by (simp only: length_append)
  then have "utf8_len_loop ?s (length pre) (int (length ?s) - 1) n
      = utf8_len_loop ?s (length (pre @ wchar_enc k)) (int (length ?s) - 1) (Suc n)"
    using d by (subst utf8_len_loop.simps) simp
  also have "\<dots> = Some (Inr [RInt (int (Suc n + length ks))])"
    using Cons.IH [of "pre @ wchar_enc k" "Suc n"] Cons.prems by simp
  finally show ?case by simp
qed

lemma utf8_codepoint_loop_wchars:
  assumes "\<forall>k \<in> set ks. k \<le> MAXUNICODE"
  shows "utf8_codepoint_loop (pre @ wchars ks) (length pre) (length (pre @ wchars ks)) acc
     = Some (Inr (acc @ map (RInt \<circ> uint) ks))"
  using assms
proof (induction ks arbitrary: pre acc)
  case Nil
  then show ?case by (subst utf8_codepoint_loop.simps) simp
next
  case (Cons k ks)
  let ?s = "pre @ wchar_enc k @ wchars ks"
  have d: "utf8_decode ?s (length pre) = Some (Some (k, length (pre @ wchar_enc k)))"
    using Cons.prems by (simp add: utf8_decode_enc)
  have "length pre < length ?s" using length_wchar_enc_pos [of k] by simp
  then have "utf8_codepoint_loop ?s (length pre) (length ?s) acc
      = utf8_codepoint_loop ?s (length (pre @ wchar_enc k)) (length ?s) (acc @ [RInt (uint k)])"
    using d by (subst utf8_codepoint_loop.simps) simp
  also have "\<dots> = Some (Inr ((acc @ [RInt (uint k)]) @ map (RInt \<circ> uint) ks))"
    using Cons.IH [of "pre @ wchar_enc k" "acc @ [RInt (uint k)]"] Cons.prems by simp
  finally show ?case by simp
qed

text \<open>C28: \<open>utf8.char\<close> and \<open>utf8.len\<close>/\<open>utf8.codepoint\<close> are inverse: for any list of code points up to
  \<open>0x10FFFF\<close>, the encoder succeeds, the length of its result is the number of code points, and
  \<open>utf8.codepoint(s, 1, -1)\<close> returns the same list (while the C stack has room for it).\<close>

theorem utf8_char_roundtrip:
  assumes "\<forall>k \<in> set ks. k \<le> MAXUNICODE" and "ks \<noteq> []"
    and "length (wchars ks) \<le> 8000" and "0 \<le> used" and "used + int (length (wchars ks)) \<le> 8000"
  shows "\<exists>s. tvm_wchar (map uint ks) = Inr s
     \<and> utf8_len s None None = Some (Inr [RInt (int (length ks))])
     \<and> utf8_codepoint s (Some 1) (Some (-1)) used = Some (Inr (map (RInt \<circ> uint) ks))"
proof (intro exI conjI)
  let ?s = "wchars ks"
  have ne: "0 < length ?s" using assms(2) by (cases ks) simp_all
  show "tvm_wchar (map uint ks) = Inr ?s" by (simp add: tvm_wchar_def tvm_wchar_from_ok assms(1))
  show "utf8_len ?s None None = Some (Inr [RInt (int (length ks))])"
    using utf8_len_loop_wchars [OF assms(1), of "[]" 0] ne
    by (simp add: utf8_len_def u_posrelat_def opt_int_def)
  show "utf8_codepoint ?s (Some 1) (Some (-1)) used = Some (Inr (map (RInt \<circ> uint) ks))"
    using utf8_codepoint_loop_wchars [OF assms(1), of "[]" "[]"] ne assms(3-5)
    by (simp add: utf8_codepoint_def u_posrelat_def opt_int_def stack_ok_def LUAI_MAXCSTACK_def)
qed

lemma utf8_char_roundtrip_witness:
  "\<exists>s. tvm_wchar [0x41, 0x20AC] = Inr s \<and> utf8_len s None None = Some (Inr [RInt 2])"
proof -
  have w: "wchars [0x41, 0x20AC :: u32] = wchar_enc 0x41 @ wchar_enc 0x20AC" by simp
  have l: "length (wchar_enc k) \<le> 4" for k by (simp add: wchar_enc_def)
  have "length (wchars [0x41, 0x20AC :: u32]) \<le> 8" using l [of "0x41"] l [of "0x20AC"] unfolding w by simp
  then show ?thesis using utf8_char_roundtrip [of "[0x41, 0x20AC]" 0] by (auto simp: MAXUNICODE_def word_le_nat_alt)
qed

text \<open>
  C29: decoding what \<open>tvm.wchar\<close> wrote for a code point, anywhere in a string, gives back that code
  point and the position right behind its bytes.
\<close>

theorem utf8_decode_wchar:
  assumes "k \<le> MAXUNICODE"
  shows "utf8_decode (pre @ wchar_enc k @ post) (length pre)
     = Some (Some (k, length pre + length (wchar_enc k)))"
  by (rule utf8_decode_enc [OF assms])

lemma utf8_decode_wchar_witness:
  "utf8_decode ([0x78] @ wchar_enc 0x20AC @ [0x79]) 1 = Some (Some (0x20AC, 1 + length (wchar_enc 0x20AC)))"
  using utf8_decode_wchar [where k = "0x20AC" and pre = "[0x78]" and post = "[0x79]"] by (simp add: MAXUNICODE_def word_le_nat_alt)

lemma utf8_decode_canonical_witness: "take 1 (drop 0 [0x41 :: byte, 0x42]) = wchar_enc 0x41"
proof -
  have "utf8_decode [0x41, 0x42] 0 = Some (Some (0x41, 1))"
    by (simp add: utf8_decode_def rd_def Let_def word_less_nat_alt)
  from utf8_decode_canonical [OF this] show ?thesis by simp
qed


end
