(* ===== verification/Lj_Char.thy ===== *)
theory Lj_Char
  imports Lj_Prelude
begin

text \<open>
  Character types (\<open>src/src/lj_char.c\<close>, \<open>src/src/lj_char.h\<close>): the hardcoded ASCII property
  table and the classification macros the lexer, the number scanner and the string library use.
  A character is a C \<open>int\<close> in the range \<open>-1..255\<close>, as the header demands.
\<close>

section \<open>Property bits and table\<close>

definition LJ_CHAR_CNTRL :: byte where "LJ_CHAR_CNTRL = 0x01"
definition LJ_CHAR_SPACE :: byte where "LJ_CHAR_SPACE = 0x02"
definition LJ_CHAR_PUNCT :: byte where "LJ_CHAR_PUNCT = 0x04"
definition LJ_CHAR_DIGIT :: byte where "LJ_CHAR_DIGIT = 0x08"
definition LJ_CHAR_XDIGIT :: byte where "LJ_CHAR_XDIGIT = 0x10"
definition LJ_CHAR_UPPER :: byte where "LJ_CHAR_UPPER = 0x20"
definition LJ_CHAR_LOWER :: byte where "LJ_CHAR_LOWER = 0x40"
definition LJ_CHAR_IDENT :: byte where "LJ_CHAR_IDENT = 0x80"
definition LJ_CHAR_ALPHA :: byte where "LJ_CHAR_ALPHA = LJ_CHAR_LOWER OR LJ_CHAR_UPPER"
definition LJ_CHAR_ALNUM :: byte where "LJ_CHAR_ALNUM = LJ_CHAR_ALPHA OR LJ_CHAR_DIGIT"
definition LJ_CHAR_GRAPH :: byte where "LJ_CHAR_GRAPH = LJ_CHAR_ALNUM OR LJ_CHAR_PUNCT"

definition lj_char_bits :: "byte list" where
  "lj_char_bits = [
    0,
    1, 1, 1, 1, 1, 1, 1, 1, 1, 3, 3, 3, 3, 3, 1, 1,
    1, 1, 1, 1, 1, 1, 1, 1, 1, 1, 1, 1, 1, 1, 1, 1,
    2, 4, 4, 4, 4, 4, 4, 4, 4, 4, 4, 4, 4, 4, 4, 4,
    152, 152, 152, 152, 152, 152, 152, 152, 152, 152, 4, 4, 4, 4, 4, 4,
    4, 176, 176, 176, 176, 176, 176, 160, 160, 160, 160, 160, 160, 160, 160, 160,
    160, 160, 160, 160, 160, 160, 160, 160, 160, 160, 160, 4, 4, 4, 4, 132,
    4, 208, 208, 208, 208, 208, 208, 192, 192, 192, 192, 192, 192, 192, 192, 192,
    192, 192, 192, 192, 192, 192, 192, 192, 192, 192, 192, 4, 4, 4, 4, 1,
    128, 128, 128, 128, 128, 128, 128, 128, 128, 128, 128, 128, 128, 128, 128, 128,
    128, 128, 128, 128, 128, 128, 128, 128, 128, 128, 128, 128, 128, 128, 128, 128,
    128, 128, 128, 128, 128, 128, 128, 128, 128, 128, 128, 128, 128, 128, 128, 128,
    128, 128, 128, 128, 128, 128, 128, 128, 128, 128, 128, 128, 128, 128, 128, 128,
    128, 128, 128, 128, 128, 128, 128, 128, 128, 128, 128, 128, 128, 128, 128, 128,
    128, 128, 128, 128, 128, 128, 128, 128, 128, 128, 128, 128, 128, 128, 128, 128,
    128, 128, 128, 128, 128, 128, 128, 128, 128, 128, 128, 128, 128, 128, 128, 128,
    128, 128, 128, 128, 128, 128, 128, 128, 128, 128, 128, 128, 128, 128, 128, 128]"

section \<open>Classification macros\<close>

text \<open>\<open>lj_char_isa\<close> is the C expression itself: the masked table entry, nonzero when true.\<close>

definition lj_char_isa :: "int \<Rightarrow> byte \<Rightarrow> byte" where
  "lj_char_isa c t = lj_char_bits ! nat (c + 1) AND t"

definition lj_char_iscntrl :: "int \<Rightarrow> bool" where
  "lj_char_iscntrl c \<longleftrightarrow> lj_char_isa c LJ_CHAR_CNTRL \<noteq> 0"
definition lj_char_isspace :: "int \<Rightarrow> bool" where
  "lj_char_isspace c \<longleftrightarrow> lj_char_isa c LJ_CHAR_SPACE \<noteq> 0"
definition lj_char_ispunct :: "int \<Rightarrow> bool" where
  "lj_char_ispunct c \<longleftrightarrow> lj_char_isa c LJ_CHAR_PUNCT \<noteq> 0"
definition lj_char_isdigit :: "int \<Rightarrow> bool" where
  "lj_char_isdigit c \<longleftrightarrow> lj_char_isa c LJ_CHAR_DIGIT \<noteq> 0"
definition lj_char_isxdigit :: "int \<Rightarrow> bool" where
  "lj_char_isxdigit c \<longleftrightarrow> lj_char_isa c LJ_CHAR_XDIGIT \<noteq> 0"
definition lj_char_isupper :: "int \<Rightarrow> bool" where
  "lj_char_isupper c \<longleftrightarrow> lj_char_isa c LJ_CHAR_UPPER \<noteq> 0"
definition lj_char_islower :: "int \<Rightarrow> bool" where
  "lj_char_islower c \<longleftrightarrow> lj_char_isa c LJ_CHAR_LOWER \<noteq> 0"
definition lj_char_isident :: "int \<Rightarrow> bool" where
  "lj_char_isident c \<longleftrightarrow> lj_char_isa c LJ_CHAR_IDENT \<noteq> 0"
definition lj_char_isalpha :: "int \<Rightarrow> bool" where
  "lj_char_isalpha c \<longleftrightarrow> lj_char_isa c LJ_CHAR_ALPHA \<noteq> 0"
definition lj_char_isalnum :: "int \<Rightarrow> bool" where
  "lj_char_isalnum c \<longleftrightarrow> lj_char_isa c LJ_CHAR_ALNUM \<noteq> 0"
definition lj_char_isgraph :: "int \<Rightarrow> bool" where
  "lj_char_isgraph c \<longleftrightarrow> lj_char_isa c LJ_CHAR_GRAPH \<noteq> 0"

definition lj_char_toupper :: "int \<Rightarrow> int" where
  "lj_char_toupper c = c - uint (drop_bit 1 (lj_char_isa c LJ_CHAR_LOWER))"
definition lj_char_tolower :: "int \<Rightarrow> int" where
  "lj_char_tolower c = c + uint (lj_char_isa c LJ_CHAR_UPPER)"

lemmas lj_char_defs =
  lj_char_iscntrl_def lj_char_isspace_def lj_char_ispunct_def lj_char_isdigit_def
  lj_char_isxdigit_def lj_char_isupper_def lj_char_islower_def lj_char_isident_def
  lj_char_isalpha_def lj_char_isalnum_def lj_char_isgraph_def

section \<open>What the table says\<close>

text \<open>
  Facts over the 257 legal arguments are decided by running the table once.
\<close>

definition lj_chars :: "int list" where
  "lj_chars = [-1..255]"

definition alnum_range :: "int \<Rightarrow> bool" where
  "alnum_range c \<longleftrightarrow> 48 \<le> c \<and> c \<le> 57 \<or> 65 \<le> c \<and> c \<le> 90 \<or> 97 \<le> c \<and> c \<le> 122"

definition row_spec :: "int \<Rightarrow> byte \<Rightarrow> bool" where
  "row_spec c b \<longleftrightarrow>
     bit b 3 = (48 \<le> c \<and> c \<le> 57) \<and>
     bit b 5 = (65 \<le> c \<and> c \<le> 90) \<and>
     bit b 6 = (97 \<le> c \<and> c \<le> 122) \<and>
     bit b 4 = (48 \<le> c \<and> c \<le> 57 \<or> 65 \<le> c \<and> c \<le> 70 \<or> 97 \<le> c \<and> c \<le> 102) \<and>
     bit b 1 = (9 \<le> c \<and> c \<le> 13 \<or> c = 32) \<and>
     bit b 0 = (0 \<le> c \<and> c < 32 \<or> c = 127) \<and>
     bit b 7 = (alnum_range c \<or> c = 95 \<or> 128 \<le> c) \<and>
     bit b 2 = (33 \<le> c \<and> c < 127 \<and> \<not> alnum_range c)"

lemma lj_char_bits_length: "length lj_char_bits = 257"
  by (simp add: lj_char_bits_def)

lemma table_rows: "list_all (\<lambda>(c, b). row_spec c b) (zip lj_chars lj_char_bits)"
  by code_simp

lemma row_spec_at:
  assumes "-1 \<le> c" and "c \<le> 255"
  shows "row_spec c (lj_char_bits ! nat (c + 1))"
proof -
  have len: "length lj_chars = 257" by (simp add: lj_chars_def)
  have i: "nat (c + 1) < 257" using assms by simp
  then have "(lj_chars ! nat (c + 1), lj_char_bits ! nat (c + 1)) \<in> set (zip lj_chars lj_char_bits)"
    using len lj_char_bits_length by (auto simp: in_set_zip)
  moreover have "lj_chars ! nat (c + 1) = c"
    using assms i by (simp add: lj_chars_def nth_upto)
  ultimately show ?thesis using table_rows by (auto simp: list_all_iff)
qed

lemma and_one_bit_iff: "b AND 2 ^ n \<noteq> 0 \<longleftrightarrow> bit (b :: byte) n"
  using and_exp_eq_0_iff_not_bit [of b n] by simp

lemma isa_bit_iffs:
  "lj_char_isa c 0x01 \<noteq> 0 \<longleftrightarrow> bit (lj_char_bits ! nat (c + 1)) 0"
  "lj_char_isa c 0x02 \<noteq> 0 \<longleftrightarrow> bit (lj_char_bits ! nat (c + 1)) 1"
  "lj_char_isa c 0x04 \<noteq> 0 \<longleftrightarrow> bit (lj_char_bits ! nat (c + 1)) 2"
  "lj_char_isa c 0x08 \<noteq> 0 \<longleftrightarrow> bit (lj_char_bits ! nat (c + 1)) 3"
  "lj_char_isa c 0x10 \<noteq> 0 \<longleftrightarrow> bit (lj_char_bits ! nat (c + 1)) 4"
  "lj_char_isa c 0x20 \<noteq> 0 \<longleftrightarrow> bit (lj_char_bits ! nat (c + 1)) 5"
  "lj_char_isa c 0x40 \<noteq> 0 \<longleftrightarrow> bit (lj_char_bits ! nat (c + 1)) 6"
  "lj_char_isa c 0x80 \<noteq> 0 \<longleftrightarrow> bit (lj_char_bits ! nat (c + 1)) 7"
  unfolding lj_char_isa_def
  using and_one_bit_iff [of "lj_char_bits ! nat (c + 1)" 0]
    and_one_bit_iff [of "lj_char_bits ! nat (c + 1)" 1]
    and_one_bit_iff [of "lj_char_bits ! nat (c + 1)" 2]
    and_one_bit_iff [of "lj_char_bits ! nat (c + 1)" 3]
    and_one_bit_iff [of "lj_char_bits ! nat (c + 1)" 4]
    and_one_bit_iff [of "lj_char_bits ! nat (c + 1)" 5]
    and_one_bit_iff [of "lj_char_bits ! nat (c + 1)" 6]
    and_one_bit_iff [of "lj_char_bits ! nat (c + 1)" 7]
  by simp_all

lemmas char_mask_defs =
  LJ_CHAR_CNTRL_def LJ_CHAR_SPACE_def LJ_CHAR_PUNCT_def LJ_CHAR_DIGIT_def
  LJ_CHAR_XDIGIT_def LJ_CHAR_UPPER_def LJ_CHAR_LOWER_def LJ_CHAR_IDENT_def

lemma char_classes:
  assumes "-1 \<le> c" and "c \<le> 255"
  shows lj_char_isdigit_iff: "lj_char_isdigit c \<longleftrightarrow> 48 \<le> c \<and> c \<le> 57"
    and lj_char_isupper_iff: "lj_char_isupper c \<longleftrightarrow> 65 \<le> c \<and> c \<le> 90"
    and lj_char_islower_iff: "lj_char_islower c \<longleftrightarrow> 97 \<le> c \<and> c \<le> 122"
    and lj_char_isxdigit_iff: "lj_char_isxdigit c \<longleftrightarrow>
      48 \<le> c \<and> c \<le> 57 \<or> 65 \<le> c \<and> c \<le> 70 \<or> 97 \<le> c \<and> c \<le> 102"
    and lj_char_isspace_iff: "lj_char_isspace c \<longleftrightarrow> 9 \<le> c \<and> c \<le> 13 \<or> c = 32"
    and lj_char_iscntrl_iff: "lj_char_iscntrl c \<longleftrightarrow> 0 \<le> c \<and> c < 32 \<or> c = 127"
    and lj_char_isident_iff: "lj_char_isident c \<longleftrightarrow> alnum_range c \<or> c = 95 \<or> 128 \<le> c"
    and lj_char_ispunct_iff: "lj_char_ispunct c \<longleftrightarrow> 33 \<le> c \<and> c < 127 \<and> \<not> alnum_range c"
  using row_spec_at [OF assms]
  by (simp_all only: lj_char_defs char_mask_defs isa_bit_iffs row_spec_def)

lemma and_mask_cases: "(b :: byte) AND 2 ^ n = 0 \<or> b AND 2 ^ n = 2 ^ n"
proof -
  have "b AND 2 ^ n = (if bit b n then 2 ^ n else 0)"
    by (rule bit_word_eqI) (auto simp: bit_simps)
  then show ?thesis by simp
qed

lemma lj_char_toupper_eq:
  assumes "-1 \<le> c" and "c \<le> 255"
  shows "lj_char_toupper c = (if 97 \<le> c \<and> c \<le> 122 then c - 32 else c)"
proof -
  have "lj_char_isa c 0x40 = 0 \<or> lj_char_isa c 0x40 = 0x40"
    using and_mask_cases [of _ 6] by (simp add: lj_char_isa_def)
  moreover have "lj_char_isa c 0x40 \<noteq> 0 \<longleftrightarrow> 97 \<le> c \<and> c \<le> 122"
    using lj_char_islower_iff [OF assms] by (simp add: lj_char_islower_def LJ_CHAR_LOWER_def)
  ultimately show ?thesis by (auto simp: lj_char_toupper_def LJ_CHAR_LOWER_def)
qed

lemma lj_char_tolower_eq:
  assumes "-1 \<le> c" and "c \<le> 255"
  shows "lj_char_tolower c = (if 65 \<le> c \<and> c \<le> 90 then c + 32 else c)"
proof -
  have "lj_char_isa c 0x20 = 0 \<or> lj_char_isa c 0x20 = 0x20"
    using and_mask_cases [of _ 5] by (simp add: lj_char_isa_def)
  moreover have "lj_char_isa c 0x20 \<noteq> 0 \<longleftrightarrow> 65 \<le> c \<and> c \<le> 90"
    using lj_char_isupper_iff [OF assms] by (simp add: lj_char_isupper_def LJ_CHAR_UPPER_def)
  ultimately show ?thesis by (auto simp: lj_char_tolower_def LJ_CHAR_UPPER_def)
qed



end
