(* ===== verification/Lj_Str.thy ===== *)
theory Lj_Str
  imports Lj_Char
begin

text \<open>
  String handling (\<open>src/src/lj_str.c\<close>): ordered comparison, fixed-string search and the string hash.
  String data in memory is a function from byte offsets: the word-wise loops read up to three bytes
  past the end of a string, and those bytes are arbitrary. The comparison is proved against the
  lexicographic order \<open>bytes_cmp\<close>, the search against the first occurrence.
\<close>

section \<open>Comparison\<close>

type_synonym strmem = "nat \<Rightarrow> byte"

definition word_at :: "strmem \<Rightarrow> nat \<Rightarrow> u32" where
  "word_at m i = le32 (m i) (m (i + 1)) (m (i + 2)) (m (i + 3))"

text \<open>
  The loop of \<open>lj_str_cmp\<close>: \<open>None\<close> is falling out of the loop (or \<open>break\<close>), \<open>Some r\<close> the early
  return. \<open>i -= n\<close> leaves a 32-bit difference whose shifted value selects the valid high bytes.
\<close>

function str_cmp_loop :: "strmem \<Rightarrow> strmem \<Rightarrow> nat \<Rightarrow> nat \<Rightarrow> int option" where
  "str_cmp_loop a b i n =
     (if i < n then
        let va = word_at a i; vb = word_at b i in
        if va \<noteq> vb then
          let va = lj_bswap va; vb = lj_bswap vb; d = int i - int n in
          if d \<ge> -3 then
            let sh = nat (32 + d * 8); va = drop_bit sh va; vb = drop_bit sh vb in
            if va = vb then None else Some (if va < vb then -1 else 1)
          else Some (if va < vb then -1 else 1)
        else str_cmp_loop a b (i + 4) n
      else None)"
  by pat_completeness auto
termination by (relation "measure (\<lambda>(a, b, i, n). n - i)") auto

declare str_cmp_loop.simps [simp del, loop_simps]

definition lj_str_cmp :: "strmem \<Rightarrow> nat \<Rightarrow> strmem \<Rightarrow> nat \<Rightarrow> int" where
  "lj_str_cmp a alen b blen =
     (case str_cmp_loop a b 0 (if alen > blen then blen else alen) of
        Some r \<Rightarrow> r
      | None \<Rightarrow> int alen - int blen)"

text \<open>\<open>str_fastcmp\<close> on a nonempty range: zero exactly when the first \<open>len\<close> bytes agree.\<close>

function fastcmp_loop :: "strmem \<Rightarrow> strmem \<Rightarrow> nat \<Rightarrow> nat \<Rightarrow> u32" where
  "fastcmp_loop a b i len =
     (let v = word_at a i XOR word_at b i in
      if v \<noteq> 0 then
        let d = int i - int len in
        (if d \<ge> -3 then push_bit (nat (32 + d * 8)) v else 1)
      else if i + 4 < len then fastcmp_loop a b (i + 4) len else 0)"
  by pat_completeness auto
termination by (relation "measure (\<lambda>(a, b, i, len). len - i)") auto

declare fastcmp_loop.simps [simp del, loop_simps]

definition str_fastcmp :: "strmem \<Rightarrow> strmem \<Rightarrow> nat \<Rightarrow> u32" where
  "str_fastcmp a b len = fastcmp_loop a b 0 len"

section \<open>Search\<close>

text \<open>\<open>memchr(s, c, n)\<close> of the C library on the bytes from offset \<open>i\<close>.\<close>

fun memchr :: "bytes \<Rightarrow> nat \<Rightarrow> byte \<Rightarrow> nat \<Rightarrow> nat option" where
  "memchr s i c 0 = None"
| "memchr s i c (Suc n) = (if s ! i = c then Some i else memchr s (Suc i) c n)"

lemma memchr_Some:
  "memchr s i c n = Some q \<Longrightarrow> i \<le> q \<and> q < i + n \<and> s ! q = c \<and> (\<forall>j. i \<le> j \<and> j < q \<longrightarrow> s ! j \<noteq> c)"
  by (induction s i c n rule: memchr.induct) (auto split: if_splits simp: less_Suc_eq le_less_Suc_eq dest: le_neq_implies_less)

lemma memchr_None: "memchr s i c n = None \<Longrightarrow> i \<le> j \<Longrightarrow> j < i + n \<Longrightarrow> s ! j \<noteq> c"
  by (induction s i c n rule: memchr.induct) (auto split: if_splits, metis add_Suc_right le_antisym not_less_eq_eq)

text \<open>The loop of \<open>lj_str_find\<close>: \<open>c\<close> and \<open>p\<close> are the first byte and the rest of the pattern.\<close>

function str_find_loop :: "bytes \<Rightarrow> nat \<Rightarrow> nat \<Rightarrow> byte \<Rightarrow> bytes \<Rightarrow> nat option" where
  "str_find_loop s i slen c p =
     (if slen \<noteq> 0 then
        (case memchr s i c slen of
           None \<Rightarrow> None
         | Some q \<Rightarrow>
             if take (length p) (drop (q + 1) s) = p then Some q
             else str_find_loop s (q + 1) (slen - (q + 1 - i)) c p)
      else None)"
  by pat_completeness auto
termination
  by (relation "measure (\<lambda>(s, i, slen, c, p). slen)") (auto dest!: memchr_Some)

declare str_find_loop.simps [simp del, loop_simps]

definition lj_str_find :: "bytes \<Rightarrow> bytes \<Rightarrow> nat option" where
  "lj_str_find s p =
     (if length p \<le> length s then
        (case p of
           [] \<Rightarrow> Some 0
         | c # p' \<Rightarrow> str_find_loop s 0 (length s - length p') c p')
      else None)"

text \<open>\<open>lj_str_haspattern\<close>; \<open>strchr("^$*+?.([%-", c)\<close> also finds the terminating NUL, which is no
  punctuation character.\<close>

definition pattern_chars :: "byte list" where
  "pattern_chars = [94, 36, 42, 43, 63, 46, 40, 91, 37, 45]"

fun lj_str_haspattern :: "bytes \<Rightarrow> bool" where
  "lj_str_haspattern [] = False"
| "lj_str_haspattern (c # q) =
     (if lj_char_ispunct (uint c) \<and> c \<in> set (pattern_chars @ [0]) then True
      else lj_str_haspattern q)"

section \<open>Hash\<close>

definition getu32 :: "bytes \<Rightarrow> nat \<Rightarrow> u32" where
  "getu32 s i = le32 (s ! i) (s ! (i + 1)) (s ! (i + 2)) (s ! (i + 3))"

text \<open>The hash of a nonempty string as \<open>lj_str_new\<close> computes it.\<close>

definition str_hash :: "bytes \<Rightarrow> u32" where
  "str_hash str =
     (let len = length str; h = (of_nat len :: u32);
          (a, b, h) =
            (if len \<ge> 4 then
               let a = getu32 str 0;
                   h = h XOR getu32 str (len - 4);
                   b = getu32 str (len div 2 - 2);
                   h = h XOR b; h = h - lj_rol b 14;
                   b = b + getu32 str (len div 4 - 1)
               in (a, b, h)
             else
               let a = ucast (str ! 0);
                   h = h XOR ucast (str ! (len - 1));
                   b = ucast (str ! (len div 2));
                   h = h XOR b; h = h - lj_rol b 14
               in (a, b, h));
          a = a XOR h; a = a - lj_rol h 11;
          b = b XOR a; b = b - lj_rol a 25;
          h = h XOR b; h = h - lj_rol b 16
      in h)"

section \<open>Properties of the comparison\<close>

text \<open>The lexicographic order of byte strings, and a byte string read as a big-endian number.\<close>

fun bytes_cmp :: "bytes \<Rightarrow> bytes \<Rightarrow> int" where
  "bytes_cmp [] [] = 0"
| "bytes_cmp [] (y # ys) = -1"
| "bytes_cmp (x # xs) [] = 1"
| "bytes_cmp (x # xs) (y # ys) = (if x < y then -1 else if y < x then 1 else bytes_cmp xs ys)"

fun be_num :: "bytes \<Rightarrow> nat" where
  "be_num [] = 0"
| "be_num (x # xs) = unat x * 256 ^ length xs + be_num xs"

lemma be_num_bound: "be_num xs < 256 ^ length xs"
proof (induction xs)
  case (Cons x xs)
  have "Suc (unat x) \<le> 256" using unat_byte_bound [of x] by simp
  then have "Suc (unat x) * 256 ^ length xs \<le> 256 * 256 ^ length xs" by (rule mult_right_mono) simp
  then show ?case using Cons by (simp only: be_num.simps list.size power_Suc power_add power_0 mult_Suc)
qed simp

lemma be_num_step:
  assumes "unat x < unat y" and "length xs = length ys"
  shows "be_num (x # xs) < be_num (y # ys)"
proof -
  have "unat x + 1 \<le> unat y" using assms(1) by simp
  then have "(unat x + 1) * 256 ^ length ys \<le> unat y * 256 ^ length ys" by (rule mult_right_mono) simp
  then show ?thesis using be_num_bound [of xs] assms(2) by simp
qed

lemma be_num_cmp:
  assumes "length xs = length ys"
  shows "bytes_cmp xs ys = (if be_num xs < be_num ys then -1 else if be_num ys < be_num xs then 1 else 0)"
  using assms
proof (induction xs ys rule: list_induct2)
  case (Cons x xs y ys)
  consider "unat x < unat y" | "unat y < unat x" | "x = y" by (metis linorder_neqE_nat word_unat_eq_iff)
  then show ?case
  proof cases
    case 1
    then show ?thesis using be_num_step [of x y xs ys] Cons by (simp add: word_less_nat_alt)
  next
    case 2
    then show ?thesis using be_num_step [of y x ys xs] Cons by (simp add: word_less_nat_alt)
  next
    case 3
    then show ?thesis using Cons by simp
  qed
qed simp

lemma bytes_cmp_append: "length xs = length ys \<Longrightarrow>
    bytes_cmp (xs @ us) (ys @ vs) = (if bytes_cmp xs ys = 0 then bytes_cmp us vs else bytes_cmp xs ys)"
  by (induction xs ys rule: list_induct2) auto

lemma bytes_cmp_eq_0: "length xs = length ys \<Longrightarrow> bytes_cmp xs ys = 0 \<longleftrightarrow> xs = ys"
  by (induction xs ys rule: list_induct2) auto


lemma bit_byte_above [simp]: "8 \<le> k \<Longrightarrow> \<not> bit (x :: byte) k"
  using bit_byte_bound [of x k] by linarith

lemma bit_le32:
  "bit (le32 a b c d) n \<longleftrightarrow>
     (if n < 8 then bit a n else if n < 16 then bit b (n - 8) else if n < 24 then bit c (n - 16)
      else n < 32 \<and> bit d (n - 24))"
  unfolding le32_def by (simp only: word_bits) auto

lemma bswap_le32: "lj_bswap (le32 a b c d) = le32 d c b a"
proof (rule bit_word_eqI)
  fix n :: nat
  assume "n < LENGTH(32)"
  then have n: "n < 32" by simp
  consider "n < 8" | "8 \<le> n" "n < 16" | "16 \<le> n" "n < 24" | "24 \<le> n" by linarith
  then show "bit (lj_bswap (le32 a b c d)) n = bit (le32 d c b a) n"
    unfolding lj_bswap_def using n
    by cases (simp_all only: word_bits bit_ff00 bit_le32, simp_all add: add.commute)
qed

lemma le32_inject: "le32 a b c d = le32 a' b' c' d' \<longleftrightarrow> a = a' \<and> b = b' \<and> c = c' \<and> d = d'"
proof
  assume e: "le32 a b c d = le32 a' b' c' d'"
  have q: "bit (le32 a b c d) n = bit (le32 a' b' c' d') n" for n using e by simp
  have "bit a n = bit a' n" if "n < 8" for n using q [of n] that by (simp add: bit_le32)
  moreover have "bit b n = bit b' n" if "n < 8" for n using q [of "n + 8"] that by (simp add: bit_le32)
  moreover have "bit c n = bit c' n" if "n < 8" for n using q [of "n + 16"] that by (simp add: bit_le32)
  moreover have "bit d n = bit d' n" if "n < 8" for n using q [of "n + 24"] that by (simp add: bit_le32)
  ultimately show "a = a' \<and> b = b' \<and> c = c' \<and> d = d'" by (intro conjI bit_word_eqI) simp_all
qed simp

lemma unat_add_small:
  "unat x + unat y < 2 ^ 32 \<Longrightarrow> unat (x + y :: u32) = unat x + unat y"
  by (simp add: unat_word_ariths)

lemma unat_ucast_byte: "unat (ucast (x :: byte) :: u32) = unat x"
  using unat_byte_bound [of x] by (simp add: unsigned_ucast_eq take_bit_nat_eq_self)

lemma unat_push_ucast: "m \<le> 24 \<Longrightarrow> unat (push_bit m (ucast (x :: byte) :: u32)) = unat x * 2 ^ m"
proof -
  assume m: "m \<le> 24"
  have "(2::nat) ^ m \<le> 2 ^ 24" using m by (rule power_increasing) simp
  then have "unat x * 2 ^ m < 256 * 2 ^ 24"
    using unat_byte_bound [of x] by (intro mult_less_le_imp_less) simp_all
  then have "unat x * 2 ^ m < 2 ^ 32" by simp
  then have "take_bit 32 (unat x * 2 ^ m) = unat x * 2 ^ m" by (rule take_bit_nat_eq_self)
  then show ?thesis
    by (simp only: unsigned_push_bit_eq unat_ucast_byte) (simp add: push_bit_eq_mult)
qed

lemma unat_or_disjoint:
  assumes "x AND y = (0 :: u32)"
  shows "unat (x OR y) = unat x + unat y"
proof -
  have "unat x AND unat y = 0" using assms by (metis unsigned_and_eq unsigned_0)
  then show ?thesis by (simp add: unsigned_or_eq disjunctive_add_eq_or)
qed

lemma unat_le32: "unat (le32 d c b a) = be_num [a, b, c, d]"
proof -
  let ?a = "push_bit 24 (ucast a :: u32)" and ?b = "push_bit 16 (ucast b :: u32)"
  let ?c = "push_bit 8 (ucast c :: u32)" and ?d = "ucast d :: u32"
  have 1: "?d AND ?c = 0" "(?d OR ?c) AND ?b = 0" "((?d OR ?c) OR ?b) AND ?a = 0"
    by (rule bit_word_eqI, simp only: word_bits, (auto simp: not_le)[1])+
  have "le32 d c b a = ((?d OR ?c) OR ?b) OR ?a" by (simp add: le32_def or.assoc)
  also have "unat \<dots> = unat ?d + unat ?c + unat ?b + unat ?a"
    by (simp only: unat_or_disjoint 1)
  finally show ?thesis
    by (simp only: unat_push_ucast unat_ucast_byte) simp
qed

lemma le32_less: "le32 d c b a < le32 h g f e \<longleftrightarrow> be_num [a, b, c, d] < be_num [e, f, g, h]"
  by (simp only: word_less_nat_alt unat_le32)

lemma be_num_append: "be_num (xs @ ys) = be_num xs * 256 ^ length ys + be_num ys"
  by (induction xs) (simp_all add: power_add algebra_simps)

lemma be_num_div: "be_num (xs @ ys) div 256 ^ length ys = be_num xs"
  using be_num_bound [of ys] by (simp add: be_num_append)

definition rng :: "strmem \<Rightarrow> nat \<Rightarrow> nat \<Rightarrow> bytes" where
  "rng a i n = map a [i..<n]"

lemma rng_empty [simp]: "n \<le> i \<Longrightarrow> rng a i n = []"
  by (simp add: rng_def)

lemma length_rng [simp]: "length (rng a i n) = n - i"
  by (simp add: rng_def)

lemma rng_split: "i \<le> k \<Longrightarrow> k \<le> n \<Longrightarrow> rng a i n = rng a i k @ rng a k n"
  by (metis map_append rng_def upt_add_eq_append le_add_diff_inverse)

lemma unat_bswap_word_at: "unat (lj_bswap (word_at a i)) = be_num (rng a i (i + 4))"
proof -
  have "rng a i (i + 4) = [a i, a (i + 1), a (i + 2), a (i + 3)]"
    by (simp add: rng_def upt_conv_Cons eval_nat_numeral)
  then show ?thesis by (simp only: word_at_def bswap_le32 unat_le32)
qed

lemma word_at_eq: "word_at a i = word_at b i \<longleftrightarrow> rng a i (i + 4) = rng b i (i + 4)"
  by (simp add: word_at_def le32_inject rng_def upt_conv_Cons eval_nat_numeral)

lemma bswap_inject: "lj_bswap (word_at a i) = lj_bswap (word_at b i) \<longleftrightarrow> word_at a i = word_at b i"
  unfolding word_at_def bswap_le32 le32_inject by auto

lemma unat_drop_tail:
  assumes "i < n" and "n < i + 4"
  shows "unat (drop_bit (nat (32 + (int i - int n) * 8)) (lj_bswap (word_at a i))) = be_num (rng a i n)"
proof -
  let ?k = "i + 4 - n"
  have "int (8 * ?k) = 32 + (int i - int n) * 8" using assms by (simp add: of_nat_diff)
  then have k: "nat (32 + (int i - int n) * 8) = 8 * ?k" by (metis nat_int)
  have "unat (drop_bit (8 * ?k) (lj_bswap (word_at a i))) = be_num (rng a i (i + 4)) div 2 ^ (8 * ?k)"
    by (simp only: unat_drop_bit_eq unat_bswap_word_at) (simp only: drop_bit_eq_div)
  also have "\<dots> = be_num (rng a i n @ rng a n (i + 4)) div 256 ^ length (rng a n (i + 4))"
    using assms by (simp add: power_mult rng_split [of i n "i + 4"])
  finally show ?thesis by (simp only: be_num_div k)
qed

lemma str_cmp_loop_tail:
  assumes "i < n" and "- 3 \<le> int i - int n" and "word_at a i \<noteq> word_at b i"
  defines "sh \<equiv> nat (32 + (int i - int n) * 8)"
  shows "str_cmp_loop a b i n =
    (if drop_bit sh (lj_bswap (word_at a i)) = drop_bit sh (lj_bswap (word_at b i)) then None
     else Some (if drop_bit sh (lj_bswap (word_at a i)) < drop_bit sh (lj_bswap (word_at b i)) then -1 else 1))"
  using assms by (subst str_cmp_loop.simps) (simp only: Let_def if_True not_False_eq_True)

lemma str_cmp_loop_eq:
  "i \<le> n \<Longrightarrow> str_cmp_loop a b i n =
     (if bytes_cmp (rng a i n) (rng b i n) = 0 then None else Some (bytes_cmp (rng a i n) (rng b i n)))"
proof (induction a b i n rule: str_cmp_loop.induct)
  case (1 a b i n)
  show ?case
  proof (cases "i < n")
    case False
    then show ?thesis using "1.prems" by (subst str_cmp_loop.simps) simp
  next
    case i: True
    let ?va = "lj_bswap (word_at a i)" and ?vb = "lj_bswap (word_at b i)"
    show ?thesis
    proof (cases "n < i + 4")
      case tail: True
      let ?sh = "nat (32 + (int i - int n) * 8)"
      have d: "- 3 \<le> int i - int n" using tail by linarith
      have u: "unat (drop_bit ?sh ?va) = be_num (rng a i n)" "unat (drop_bit ?sh ?vb) = be_num (rng b i n)"
        using unat_drop_tail [OF i tail] by simp_all
      have c: "bytes_cmp (rng a i n) (rng b i n) = (if drop_bit ?sh ?va < drop_bit ?sh ?vb then -1
          else if drop_bit ?sh ?vb < drop_bit ?sh ?va then 1 else 0)"
        unfolding word_less_nat_alt u by (rule be_num_cmp) simp
      show ?thesis
      proof (cases "word_at a i = word_at b i")
        case True
        have "str_cmp_loop a b (i + 4) n = None"
          using tail by (subst str_cmp_loop.simps) simp
        then show ?thesis using i True c by (subst str_cmp_loop.simps) simp
      next
        case False
        show ?thesis
          unfolding str_cmp_loop_tail [OF i d False] c by (auto simp: neq_iff)
      qed
    next
      case full: False
      then have s: "rng a i n = rng a i (i + 4) @ rng a (i + 4) n" "rng b i n = rng b i (i + 4) @ rng b (i + 4) n"
        by (auto intro!: rng_split)
      have d: "\<not> - 3 \<le> int i - int n" using full by linarith
      have c: "bytes_cmp (rng a i (i + 4)) (rng b i (i + 4)) = (if ?va < ?vb then -1 else if ?vb < ?va then 1 else 0)"
        unfolding word_less_nat_alt unat_bswap_word_at by (rule be_num_cmp) simp
      show ?thesis
      proof (cases "word_at a i = word_at b i")
        case True
        then have "bytes_cmp (rng a i n) (rng b i n) = bytes_cmp (rng a (i + 4) n) (rng b (i + 4) n)"
          using c unfolding s by (subst bytes_cmp_append) simp_all
        moreover have "str_cmp_loop a b i n = str_cmp_loop a b (i + 4) n"
          using i True by (subst str_cmp_loop.simps) simp
        ultimately show ?thesis using "1.IH" [OF i refl refl] True full by simp
      next
        case False
        then have ne: "?va \<noteq> ?vb" by (simp add: bswap_inject)
        then have "bytes_cmp (rng a i n) (rng b i n) = (if ?va < ?vb then -1 else 1)"
          using c unfolding s by (subst bytes_cmp_append) (auto simp: neq_iff)
        moreover have "str_cmp_loop a b i n = Some (if ?va < ?vb then -1 else 1)"
          using i False d by (subst str_cmp_loop.simps) (simp add: Let_def)
        ultimately show ?thesis by simp
      qed
    qed
  qed
qed

lemma bytes_cmp_sgn: "sgn (bytes_cmp xs ys) = bytes_cmp xs ys"
  by (induction xs ys rule: bytes_cmp.induct) auto

lemma bytes_cmp_length:
  "us = [] \<or> vs = [] \<Longrightarrow> bytes_cmp us vs = sgn (int (length us) - int (length vs))"
  by (cases us; cases vs) auto

text \<open>
  C13: \<open>lj_str_cmp\<close> orders strings by the lexicographic order of their unsigned bytes, a proper prefix
  first, although its loop compares byte-swapped words and reads past the end of both strings.
\<close>

theorem lj_str_cmp_lexicographic:
  "sgn (lj_str_cmp a alen b blen) = bytes_cmp (map a [0..<alen]) (map b [0..<blen])"
proof -
  let ?n = "min alen blen"
  have s: "map a [0..<alen] = rng a 0 ?n @ rng a ?n alen" "map b [0..<blen] = rng b 0 ?n @ rng b ?n blen"
    using rng_split [of 0 ?n alen a] rng_split [of 0 ?n blen b] by (simp_all add: rng_def)
  have t: "bytes_cmp (rng a ?n alen) (rng b ?n blen) = sgn (int alen - int blen)"
    using bytes_cmp_length [of "rng a ?n alen" "rng b ?n blen"]
    by (auto simp: min_def)
  show ?thesis
    unfolding s bytes_cmp_append [of "rng a 0 ?n" "rng b 0 ?n", simplified] t lj_str_cmp_def
    using str_cmp_loop_eq [of 0 ?n a b] by (auto simp: min_def bytes_cmp_sgn)
qed

lemma push_bit_eq_0: "push_bit s (v :: u32) = 0 \<longleftrightarrow> (\<forall>k < 32 - s. \<not> bit v k)"
proof
  assume "push_bit s v = 0"
  then have "\<not> bit (push_bit s v) (k + s)" for k by simp
  then have "k + s < 32 \<Longrightarrow> \<not> bit v k" for k by (simp add: bit_push_bit_iff possible_bit_word)
  then show "\<forall>k < 32 - s. \<not> bit v k" by (simp add: less_diff_conv)
next
  assume "\<forall>k < 32 - s. \<not> bit v k"
  then show "push_bit s v = 0"
    by (intro bit_word_eqI) (auto simp: bit_push_bit_iff possible_bit_word)
qed

lemma rng_eq_iff: "rng a i n = rng b i n \<longleftrightarrow> (\<forall>k. i \<le> k \<and> k < n \<longrightarrow> a k = b k)"
  by (auto simp: rng_def)

lemma byte_eq_bits: "(x :: byte) = y \<longleftrightarrow> (\<forall>k < 8. bit x k = bit y k)"
  by (auto intro: bit_word_eqI)

lemma word_at_bits: "k < 32 \<Longrightarrow> bit (word_at a i) k = bit (a (i + k div 8)) (k mod 8)"
proof -
  assume k: "k < 32"
  consider "k < 8" | "8 \<le> k" "k < 16" | "16 \<le> k" "k < 24" | "24 \<le> k" by linarith
  then show ?thesis
  proof cases
    case 1
    then show ?thesis by (simp add: word_at_def bit_le32)
  next
    case 2
    then have "k div 8 = 1" "k mod 8 = k - 8" by presburger+
    then show ?thesis using 2 by (simp add: word_at_def bit_le32)
  next
    case 3
    then have "k div 8 = 2" "k mod 8 = k - 16" by presburger+
    then show ?thesis using 3 by (simp add: word_at_def bit_le32)
  next
    case 4
    then have "k div 8 = 3" "k mod 8 = k - 24" using k by presburger+
    then show ?thesis using 4 k by (simp add: word_at_def bit_le32)
  qed
qed

lemma xor_low_bytes:
  assumes "m \<le> 4"
  shows "(\<forall>k < 8 * m. \<not> bit (word_at a i XOR word_at b i) k) \<longleftrightarrow> rng a i (i + m) = rng b i (i + m)"
proof
  assume L: "\<forall>k < 8 * m. \<not> bit (word_at a i XOR word_at b i) k"
  show "rng a i (i + m) = rng b i (i + m)"
    unfolding rng_eq_iff byte_eq_bits
  proof (intro allI impI)
    fix j k :: nat
    assume j: "i \<le> j \<and> j < i + m" and k: "k < 8"
    let ?q = "8 * (j - i) + k"
    have q: "?q < 8 * m" "?q div 8 = j - i" "?q mod 8 = k" using j k by auto
    then show "bit (a j) k = bit (b j) k"
      using L [rule_format, of ?q] assms j word_at_bits [of ?q a i] word_at_bits [of ?q b i]
      by (simp add: bit_xor_iff)
  qed
next
  assume R: "rng a i (i + m) = rng b i (i + m)"
  show "\<forall>k < 8 * m. \<not> bit (word_at a i XOR word_at b i) k"
  proof (intro allI impI)
    fix k :: nat
    assume k: "k < 8 * m"
    then have "i + k div 8 < i + m" by auto
    then have "a (i + k div 8) = b (i + k div 8)" using R by (simp add: rng_eq_iff)
    then show "\<not> bit (word_at a i XOR word_at b i) k"
      using k assms word_at_bits [of k a i] word_at_bits [of k b i] by (simp add: bit_xor_iff)
  qed
qed

lemma xor_0_iff: "x XOR y = 0 \<longleftrightarrow> x = (y :: u32)"
proof
  assume "x XOR y = 0"
  then have "(x XOR y) XOR y = y" by simp
  then show "x = y" by (simp add: xor.assoc)
qed simp

lemma xor_eq_0: "word_at a i XOR word_at b i = 0 \<longleftrightarrow> rng a i (i + 4) = rng b i (i + 4)"
  by (simp add: xor_0_iff word_at_eq)

lemma fastcmp_loop_eq:
  "i < len \<Longrightarrow> fastcmp_loop a b i len = 0 \<longleftrightarrow> rng a i len = rng b i len"
proof (induction a b i len rule: fastcmp_loop.induct)
  case (1 a b i len)
  show ?case
  proof (cases "i + 4 < len")
    case full: True
    have s: "rng a i len = rng a i (i + 4) @ rng a (i + 4) len" "rng b i len = rng b i (i + 4) @ rng b (i + 4) len"
      using full by (auto intro!: rng_split)
    have d: "\<not> - 3 \<le> int i - int len" using full by linarith
    show ?thesis
    proof (cases "word_at a i XOR word_at b i = 0")
      case True
      then have "fastcmp_loop a b i len = fastcmp_loop a b (i + 4) len"
        using full by (subst fastcmp_loop.simps) simp
      then show ?thesis using "1.IH" full True s xor_eq_0 [of a i b] by simp
    next
      case False
      then have "fastcmp_loop a b i len = 1"
        using d by (subst fastcmp_loop.simps) (simp only: Let_def if_False if_True not_False_eq_True)
      then show ?thesis using False s xor_eq_0 [of a i b] by simp
    qed
  next
    case tail: False
    show ?thesis
    proof (cases "word_at a i XOR word_at b i = 0")
      case True
      then have "fastcmp_loop a b i len = 0" using tail by (subst fastcmp_loop.simps) simp
      moreover have "rng a i len = rng b i len"
        using True tail xor_eq_0 [of a i b] by (auto simp: rng_eq_iff)
      ultimately show ?thesis by simp
    next
      case ne: False
      show ?thesis
      proof (cases "len = i + 4")
        case True
        then have d: "\<not> - 3 \<le> int i - int len" by linarith
        then have "fastcmp_loop a b i len = 1"
          using ne by (subst fastcmp_loop.simps) (simp only: Let_def if_False if_True not_False_eq_True)
        then show ?thesis using ne True xor_eq_0 [of a i b] by simp
      next
        case False
        define m where "m = len - i"
        have m: "len = i + m" "m \<le> 3" using "1.prems" tail False by (auto simp: m_def)
        then have d: "- 3 \<le> int i - int len" by linarith
        have "int (32 - 8 * m) = 32 + (int i - int len) * 8" using m by (simp add: of_nat_diff)
        then have k: "nat (32 + (int i - int len) * 8) = 32 - 8 * m" by (metis nat_int)
        have "fastcmp_loop a b i len = push_bit (32 - 8 * m) (word_at a i XOR word_at b i)"
          using ne d k by (subst fastcmp_loop.simps) (simp only: Let_def if_False if_True not_False_eq_True)
        moreover have "32 - (32 - 8 * m) = 8 * m" using m by linarith
        moreover have "m \<le> 4" using m by simp
        ultimately show ?thesis using xor_low_bytes [of m a i b] m(1) by (simp only: push_bit_eq_0)
      qed
    qed
  qed
qed

text \<open>
  C18: \<open>str_fastcmp\<close> is zero exactly when the first \<open>len\<close> bytes agree, whatever the bytes after them are.
\<close>

theorem str_fastcmp_correct:
  assumes "0 < len"
  shows "str_fastcmp a b len = 0 \<longleftrightarrow> (\<forall>k < len. a k = b k)"
  using fastcmp_loop_eq [OF assms, of a b] by (simp add: str_fastcmp_def rng_eq_iff)

lemma str_fastcmp_correct_witness:
  "str_fastcmp (\<lambda>k. of_nat k) (\<lambda>k. if k < 5 then of_nat k else 0) 5 = 0"
  using str_fastcmp_correct [of 5 "\<lambda>k. of_nat k" "\<lambda>k. if k < 5 then of_nat k else 0"] by simp

section \<open>Properties of the search\<close>

definition occurs_at :: "bytes \<Rightarrow> bytes \<Rightarrow> nat \<Rightarrow> bool" where
  "occurs_at s p q \<longleftrightarrow> take (length p) (drop q s) = p"

lemma occurs_at_Cons: "q < length s \<Longrightarrow> occurs_at s (c # p) q \<longleftrightarrow> s ! q = c \<and> take (length p) (drop (q + 1) s) = p"
  by (simp add: occurs_at_def Cons_nth_drop_Suc [symmetric])

lemma str_find_loop_eq:
  "i + slen + length p \<le> length s \<Longrightarrow>
    (\<forall>q. str_find_loop s i slen c p = Some q \<longrightarrow>
       i \<le> q \<and> q < i + slen \<and> occurs_at s (c # p) q \<and> (\<forall>j. i \<le> j \<and> j < q \<longrightarrow> \<not> occurs_at s (c # p) j))
    \<and> (str_find_loop s i slen c p = None \<longrightarrow> (\<forall>j. i \<le> j \<and> j < i + slen \<longrightarrow> \<not> occurs_at s (c # p) j))"
proof (induction s i slen c p rule: str_find_loop.induct)
  case (1 s i slen c p)
  show ?case
  proof (cases "memchr s i c slen")
    case None
    then have "str_find_loop s i slen c p = None" by (subst str_find_loop.simps) simp
    moreover have "\<not> occurs_at s (c # p) j" if "i \<le> j" "j < i + slen" for j
      using memchr_None [OF None that] that "1.prems" by (simp add: occurs_at_Cons)
    ultimately show ?thesis by simp
  next
    case (Some q)
    note m = memchr_Some [OF Some]
    have n: "slen \<noteq> 0" using m by auto
    have before: "\<not> occurs_at s (c # p) j" if "i \<le> j" "j < q" for j
      using m that "1.prems" by (simp add: occurs_at_Cons)
    show ?thesis
    proof (cases "take (length p) (drop (q + 1) s) = p")
      case True
      then have "str_find_loop s i slen c p = Some q" using n Some by (subst str_find_loop.simps) simp
      moreover have "occurs_at s (c # p) q" using m True "1.prems" by (simp add: occurs_at_Cons)
      ultimately show ?thesis using m before by simp
    next
      case False
      then have e: "str_find_loop s i slen c p = str_find_loop s (q + 1) (slen - (q + 1 - i)) c p"
        using n Some by (subst str_find_loop.simps) simp
      have "\<not> occurs_at s (c # p) q" using m False "1.prems" by (simp add: occurs_at_Cons)
      then have b: "\<not> occurs_at s (c # p) j" if "i \<le> j" "j < q + 1" for j
        using before that by (cases "j = q") auto
      have r: "q + 1 + (slen - (q + 1 - i)) = i + slen" using m by linarith
      note IH = "1.IH" [OF n Some False, unfolded r, OF "1.prems"]
      have nb: "\<not> occurs_at s (c # p) j" if "i \<le> j" "j < k" "\<forall>j. q + 1 \<le> j \<and> j < k \<longrightarrow> \<not> occurs_at s (c # p) j" for j k
        using b that by (cases "j < q + 1") auto
      show ?thesis unfolding e
      proof (rule conjI; intro allI impI)
        fix k assume "str_find_loop s (q + 1) (slen - (q + 1 - i)) c p = Some k"
        then have "q + 1 \<le> k \<and> k < i + slen \<and> occurs_at s (c # p) k \<and> (\<forall>j. q + 1 \<le> j \<and> j < k \<longrightarrow> \<not> occurs_at s (c # p) j)"
          using IH by blast
        then show "i \<le> k \<and> k < i + slen \<and> occurs_at s (c # p) k \<and> (\<forall>j. i \<le> j \<and> j < k \<longrightarrow> \<not> occurs_at s (c # p) j)"
          using nb [of _ k] m by auto
      next
        fix j assume "str_find_loop s (q + 1) (slen - (q + 1 - i)) c p = None" "i \<le> j \<and> j < i + slen"
        then show "\<not> occurs_at s (c # p) j" using IH nb [of j "i + slen"] by blast
      qed
    qed
  qed
qed

lemma occurs_at_length: "occurs_at s p q \<Longrightarrow> p \<noteq> [] \<Longrightarrow> q + length p \<le> length s"
proof -
  assume o: "occurs_at s p q" and "p \<noteq> []"
  have "min (length s - q) (length p) = length p"
    using arg_cong [OF o [unfolded occurs_at_def], of length] by (simp add: min.commute)
  moreover have "length p \<noteq> 0" using \<open>p \<noteq> []\<close> by simp
  ultimately show ?thesis by linarith
qed

lemma lj_str_find_spec:
  "lj_str_find s p = Some q \<longleftrightarrow> occurs_at s p q \<and> (\<forall>j. j < q \<longrightarrow> \<not> occurs_at s p j)"
proof (cases p)
  case Nil
  then show ?thesis by (auto simp: lj_str_find_def occurs_at_def)
next
  case (Cons c p')
  show ?thesis
  proof (cases "length p \<le> length s")
    case True
    let ?r = "str_find_loop s 0 (length s - length p') c p'"
    have r: "lj_str_find s p = ?r" using True Cons by (simp add: lj_str_find_def)
    have L: "0 + (length s - length p') + length p' \<le> length s" using True Cons by simp
    note S = str_find_loop_eq [OF L, of c, folded Cons]
    have lt: "j < length s - length p'" if "occurs_at s p j" for j
      using occurs_at_length [OF that] Cons by simp
    show ?thesis
    proof (cases ?r)
      case None
      then show ?thesis using S r lt by auto
    next
      case (Some k)
      then have k: "occurs_at s p k" "\<And>j. j < k \<Longrightarrow> \<not> occurs_at s p j" using S by auto
      then have "occurs_at s p q \<and> (\<forall>j. j < q \<longrightarrow> \<not> occurs_at s p j) \<longleftrightarrow> q = k"
        by (metis linorder_neqE_nat)
      then show ?thesis using r Some by auto
    qed
  next
    case False
    then have "lj_str_find s p = None" by (simp add: lj_str_find_def)
    moreover have "\<not> occurs_at s p q" using occurs_at_length [of s p q] False Cons by auto
    ultimately show ?thesis by simp
  qed
qed

text \<open>
  C19: \<open>lj_str_find\<close> returns the offset of the first occurrence of the pattern, and fails only when the
  pattern does not occur.
\<close>

theorem lj_str_find_first:
  "lj_str_find s p = Some q \<longleftrightarrow> occurs_at s p q \<and> (\<forall>j. j < q \<longrightarrow> \<not> occurs_at s p j)"
  by (rule lj_str_find_spec)

lemma lj_str_find_first_witness: "lj_str_find [1, 2, 1, 3] [1, 3] = Some 2"
  using lj_str_find_first [of "[1, 2, 1, 3]" "[1, 3]" 2] by (simp add: occurs_at_def less_Suc_eq numeral_2_eq_2)

lemma pattern_chars_punct: "c \<in> set pattern_chars \<Longrightarrow> lj_char_ispunct (uint c)"
  by (auto simp: pattern_chars_def lj_char_ispunct_iff alnum_range_def)

lemma haspattern_iff:
  "lj_str_haspattern p \<longleftrightarrow> (\<exists>c \<in> set p. c \<in> set pattern_chars)"
proof (induction p)
  case (Cons c p)
  have "\<not> lj_char_ispunct 0" by (simp add: lj_char_ispunct_iff)
  then show ?case using Cons pattern_chars_punct [of c] by auto
qed simp

end
