(* ===== verification/Lib_Match.thy ===== *)
theory Lib_Match
  imports Lj_Str
begin

text \<open>
  Pattern matching of the string library (\<open>src/src/lib_string.c\<close>): \<open>string.find\<close>, \<open>string.match\<close>,
  \<open>string.gmatch\<close> and \<open>string.gsub\<close>. A pointer into the subject or the pattern is its offset. Reads
  go through \<open>with_char\<close>, which fails with \<open>StrayRead\<close> outside of the string and its terminator. The
  nesting depth is limited by \<open>LJ_MAX_XLEVEL\<close>, so the recursion on \<open>match\<close> is structural in the
  depth that is left; the loops inside of one level are recursions of their own.
\<close>

section \<open>Errors and reads\<close>

datatype match_error =
    ERR_STRCAPI | ERR_STRPATC | ERR_STRPATE | ERR_STRPATM | ERR_STRPATU | ERR_STRPATB | ERR_STRPATX
  | ERR_STRCAPN | ERR_STRCAPU | ERR_STRGSRV | StrayRead

type_synonym 'a res = "match_error + 'a"

definition with_char :: "bytes \<Rightarrow> nat \<Rightarrow> (byte \<Rightarrow> 'a res) \<Rightarrow> 'a res" where
  "with_char str i k =
     (if i < length str then k (str ! i) else if i = length str then k 0 else Inl StrayRead)"

definition with_res :: "'a res \<Rightarrow> ('a \<Rightarrow> 'b res) \<Rightarrow> 'b res" where
  "with_res r k = (case r of Inl e \<Rightarrow> Inl e | Inr x \<Rightarrow> k x)"

lemma with_char_cong [fundef_cong]:
  "str = str' \<Longrightarrow> i = i' \<Longrightarrow> (\<And>c. i \<le> length str \<Longrightarrow> (i = length str \<Longrightarrow> c = 0) \<Longrightarrow> k c = k' c) \<Longrightarrow>
   with_char str i k = with_char str' i' k'"
  by (auto simp: with_char_def)

lemma with_res_cong [fundef_cong]:
  "r = r' \<Longrightarrow> (\<And>x. r' = Inr x \<Longrightarrow> k x = k' x) \<Longrightarrow> with_res r k = with_res r' k'"
  by (auto simp: with_res_def split: sum.splits)

section \<open>Match state\<close>

definition CAP_UNFINISHED :: int where "CAP_UNFINISHED = - 1"
definition CAP_POSITION :: int where "CAP_POSITION = - 2"
definition LUA_MAXCAPTURES :: nat where "LUA_MAXCAPTURES = 32"
definition LJ_MAX_XLEVEL :: nat where "LJ_MAX_XLEVEL = 200"

abbreviation L_ESC :: byte where "L_ESC \<equiv> 0x25"

record match_state =
  level :: nat
  cap_init :: "nat \<Rightarrow> nat"
  cap_len :: "nat \<Rightarrow> int"

definition check_capture :: "match_state \<Rightarrow> byte \<Rightarrow> nat res" where
  "check_capture ms l =
     (let l = uint l - 0x31 in
      if l < 0 \<or> l \<ge> int (level ms) \<or> cap_len ms (nat l) = CAP_UNFINISHED then Inl ERR_STRCAPI
      else Inr (nat l))"

fun close_from :: "match_state \<Rightarrow> nat \<Rightarrow> nat res" where
  "close_from ms 0 = Inl ERR_STRPATC"
| "close_from ms (Suc l) = (if cap_len ms l = CAP_UNFINISHED then Inr l else close_from ms l)"

definition capture_to_close :: "match_state \<Rightarrow> nat res" where
  "capture_to_close ms = close_from ms (level ms)"

section \<open>Classes and sets\<close>

text \<open>The loop over a set, entered behind \<open>[\<close> and \<open>^\<close>.\<close>

function class_loop :: "bytes \<Rightarrow> nat \<Rightarrow> nat res" where
  "class_loop pat p =
     with_char pat p (\<lambda>c.
       if c = 0 then Inl ERR_STRPATM
       else with_char pat (p + 1) (\<lambda>d.
         let q = (if c = L_ESC \<and> d \<noteq> 0 then p + 2 else p + 1) in
         with_char pat q (\<lambda>e. if e = 0x5D then Inr (q + 1) else class_loop pat q)))"
  by pat_completeness auto
termination
  by (relation "measure (\<lambda>(pat, p). length pat + 1 - p)") (auto split: if_splits)

declare class_loop.simps [simp del, loop_simps]

definition classend :: "bytes \<Rightarrow> nat \<Rightarrow> nat res" where
  "classend pat p =
     with_char pat p (\<lambda>c.
       if c = L_ESC then with_char pat (p + 1) (\<lambda>d. if d = 0 then Inl ERR_STRPATE else Inr (p + 2))
       else if c = 0x5B then
         with_char pat (p + 1) (\<lambda>d. class_loop pat (if d = 0x5E then p + 2 else p + 1))
       else Inr (p + 1))"

definition match_class_map :: "byte list" where
  "match_class_map =
     [0, LJ_CHAR_ALPHA, 0, LJ_CHAR_CNTRL, LJ_CHAR_DIGIT, 0, 0, LJ_CHAR_GRAPH, 0, 0, 0, 0,
      LJ_CHAR_LOWER, 0, 0, 0, LJ_CHAR_PUNCT, 0, 0, LJ_CHAR_SPACE, 0,
      LJ_CHAR_UPPER, 0, LJ_CHAR_ALNUM, LJ_CHAR_XDIGIT, 0, 0, 0, 0, 0, 0, 0]"

definition match_class :: "byte \<Rightarrow> byte \<Rightarrow> bool" where
  "match_class c cl =
     (if cl AND 0xC0 = 0x40 then
        let t = match_class_map ! unat (cl AND 0x1F) in
        if t \<noteq> 0 then
          let t = lj_char_isa (uint c) t in if cl AND 0x20 \<noteq> 0 then t \<noteq> 0 else t = 0
        else if cl = 0x7A then c = 0
        else if cl = 0x5A then c \<noteq> 0
        else cl = c
      else cl = c)"

function set_loop :: "bytes \<Rightarrow> byte \<Rightarrow> nat \<Rightarrow> nat \<Rightarrow> bool \<Rightarrow> bool res" where
  "set_loop pat c p ec sig =
     (let p = p + 1 in
      if p < ec then
        with_char pat p (\<lambda>a.
          if a = L_ESC then
            with_char pat (p + 1) (\<lambda>b. if match_class c b then Inr sig else set_loop pat c (p + 1) ec sig)
          else with_char pat (p + 1) (\<lambda>b.
            if b = 0x2D \<and> p + 2 < ec then
              with_char pat (p + 2) (\<lambda>d. if a \<le> c \<and> c \<le> d then Inr sig else set_loop pat c (p + 2) ec sig)
            else if a = c then Inr sig
            else set_loop pat c p ec sig))
      else Inr (\<not> sig))"
  by pat_completeness auto
termination by (relation "measure (\<lambda>(pat, c, p, ec, sig). ec - p)") auto

declare set_loop.simps [simp del, loop_simps]

definition matchbracketclass :: "bytes \<Rightarrow> byte \<Rightarrow> nat \<Rightarrow> nat \<Rightarrow> bool res" where
  "matchbracketclass pat c p ec =
     with_char pat (p + 1) (\<lambda>d. if d = 0x5E then set_loop pat c (p + 1) ec False else set_loop pat c p ec True)"

definition singlematch :: "bytes \<Rightarrow> byte \<Rightarrow> nat \<Rightarrow> nat \<Rightarrow> bool res" where
  "singlematch pat c p ep =
     with_char pat p (\<lambda>a.
       if a = 0x2E then Inr True
       else if a = L_ESC then with_char pat (p + 1) (\<lambda>b. Inr (match_class c b))
       else if a = 0x5B then matchbracketclass pat c p (ep - 1)
       else Inr (a = c))"

section \<open>Balanced strings\<close>

function balance_loop :: "bytes \<Rightarrow> byte \<Rightarrow> byte \<Rightarrow> nat \<Rightarrow> nat \<Rightarrow> nat option res" where
  "balance_loop src b e s cont =
     (let s = s + 1 in
      if s < length src then
        with_char src s (\<lambda>c.
          if c = e then if cont - 1 = 0 then Inr (Some (s + 1)) else balance_loop src b e s (cont - 1)
          else if c = b then balance_loop src b e s (cont + 1)
          else balance_loop src b e s cont)
      else Inr None)"
  by pat_completeness auto
termination by (relation "measure (\<lambda>(src, b, e, s, cont). length src - s)") auto

declare balance_loop.simps [simp del, loop_simps]

definition matchbalance :: "bytes \<Rightarrow> bytes \<Rightarrow> nat \<Rightarrow> nat \<Rightarrow> nat option res" where
  "matchbalance src pat s p =
     with_char pat p (\<lambda>b.
       if b = 0 then Inl ERR_STRPATU
       else with_char pat (p + 1) (\<lambda>e.
         if e = 0 then Inl ERR_STRPATU
         else with_char src s (\<lambda>c. if c \<noteq> b then Inr None else balance_loop src b e s 1)))"

section \<open>Matching\<close>

text \<open>
  The result of a match: the state with the captures, and the end of the match. The argument \<open>rec\<close> is
  \<open>match\<close> one level deeper.
\<close>

type_synonym mres = "(match_state \<times> nat option) res"
type_synonym matcher = "match_state \<Rightarrow> nat \<Rightarrow> nat \<Rightarrow> mres"

text \<open>\<open>s < src_end && singlematch(*s, p, ep)\<close>\<close>

definition item_match :: "bytes \<Rightarrow> bytes \<Rightarrow> nat \<Rightarrow> nat \<Rightarrow> nat \<Rightarrow> bool res" where
  "item_match src pat s p ep =
     (if s < length src then with_char src s (\<lambda>c. singlematch pat c p ep) else Inr False)"

function count_items :: "bytes \<Rightarrow> bytes \<Rightarrow> nat \<Rightarrow> nat \<Rightarrow> nat \<Rightarrow> nat \<Rightarrow> nat res" where
  "count_items src pat s p ep i =
     with_res (item_match src pat (s + i) p ep) (\<lambda>m. if m then count_items src pat s p ep (i + 1) else Inr i)"
  by pat_completeness auto
termination
  by (relation "measure (\<lambda>(src, pat, s, p, ep, i). length src - (s + i))")
    (auto simp: item_match_def split: if_splits)

declare count_items.simps [simp del, loop_simps]

fun max_try :: "matcher \<Rightarrow> match_state \<Rightarrow> nat \<Rightarrow> nat \<Rightarrow> nat \<Rightarrow> mres" where
  "max_try rec ms s q i =
     with_res (rec ms (s + i) q) (\<lambda>(ms, r).
       case r of Some e \<Rightarrow> Inr (ms, Some e)
       | None \<Rightarrow> (case i of 0 \<Rightarrow> Inr (ms, None) | Suc j \<Rightarrow> max_try rec ms s q j))"

declare max_try.simps [simp del, loop_simps]

definition max_expand :: "bytes \<Rightarrow> bytes \<Rightarrow> matcher \<Rightarrow> match_state \<Rightarrow> nat \<Rightarrow> nat \<Rightarrow> nat \<Rightarrow> mres" where
  "max_expand src pat rec ms s p ep =
     with_res (count_items src pat s p ep 0) (\<lambda>i. max_try rec ms s (ep + 1) i)"

function min_expand :: "bytes \<Rightarrow> bytes \<Rightarrow> matcher \<Rightarrow> match_state \<Rightarrow> nat \<Rightarrow> nat \<Rightarrow> nat \<Rightarrow> mres" where
  "min_expand src pat rec ms s p ep =
     with_res (rec ms s (ep + 1)) (\<lambda>(ms, r).
       case r of Some e \<Rightarrow> Inr (ms, Some e)
       | None \<Rightarrow> with_res (item_match src pat s p ep) (\<lambda>m.
           if m then min_expand src pat rec ms (s + 1) p ep else Inr (ms, None)))"
  by pat_completeness auto
termination
  by (relation "measure (\<lambda>(src, pat, rec, ms, s, p, ep). length src - s)")
    (auto simp: item_match_def split: if_splits)

declare min_expand.simps [simp del, loop_simps]

definition start_capture :: "matcher \<Rightarrow> match_state \<Rightarrow> nat \<Rightarrow> nat \<Rightarrow> int \<Rightarrow> mres" where
  "start_capture rec ms s p what =
     (if level ms \<ge> LUA_MAXCAPTURES then Inl ERR_STRCAPN
      else with_res (rec (ms\<lparr>cap_init := (cap_init ms)(level ms := s), cap_len := (cap_len ms)(level ms := what),
                           level := level ms + 1\<rparr>) s p) (\<lambda>(ms, r).
        case r of None \<Rightarrow> Inr (ms\<lparr>level := level ms - 1\<rparr>, None) | Some e \<Rightarrow> Inr (ms, Some e)))"

definition end_capture :: "matcher \<Rightarrow> match_state \<Rightarrow> nat \<Rightarrow> nat \<Rightarrow> mres" where
  "end_capture rec ms s p =
     with_res (capture_to_close ms) (\<lambda>l.
       with_res (rec (ms\<lparr>cap_len := (cap_len ms)(l := int s - int (cap_init ms l))\<rparr>) s p) (\<lambda>(ms, r).
         case r of None \<Rightarrow> Inr (ms\<lparr>cap_len := (cap_len ms)(l := CAP_UNFINISHED)\<rparr>, None)
         | Some e \<Rightarrow> Inr (ms, Some e)))"

text \<open>\<open>(size_t)len\<close> of a position capture is larger than every string.\<close>

definition match_capture :: "bytes \<Rightarrow> match_state \<Rightarrow> nat \<Rightarrow> byte \<Rightarrow> nat option res" where
  "match_capture src ms s l =
     with_res (check_capture ms l) (\<lambda>l.
       let len = cap_len ms l in
       if 0 \<le> len \<and> len \<le> int (length src - s) \<and>
          take (nat len) (drop (cap_init ms l) src) = take (nat len) (drop s src)
       then Inr (Some (s + nat len)) else Inr None)"

lemma class_loop_gt: "class_loop pat p = Inr ep \<Longrightarrow> p < ep"
proof (induction pat p rule: class_loop.induct)
  case (1 pat p)
  then show ?case
    by (subst (asm) (2) class_loop.simps)
      (force simp: with_char_def Let_def split: if_splits)
qed

lemma classend_gt: "classend pat p = Inr ep \<Longrightarrow> p < ep"
  using class_loop_gt [of pat "p + 1" ep] class_loop_gt [of pat "p + 2" ep]
  by (auto simp: classend_def with_char_def split: if_splits)

text \<open>The character before the position, for the frontier pattern.\<close>

definition previous_char :: "bytes \<Rightarrow> nat \<Rightarrow> byte res" where
  "previous_char src s = (if s = 0 then Inr 0 else with_char src (s - 1) Inr)"

text \<open>One level of \<open>match\<close>, from the label \<open>init\<close> on.\<close>

function match_item :: "bytes \<Rightarrow> bytes \<Rightarrow> matcher \<Rightarrow> match_state \<Rightarrow> nat \<Rightarrow> nat \<Rightarrow> mres" where
  "match_item src pat rec ms s p =
     with_char pat p (\<lambda>c. with_char pat (if c = 0 then p else p + 1) (\<lambda>d.
       if c = 0x28 then
         if d = 0x29 then start_capture rec ms s (p + 2) CAP_POSITION
         else start_capture rec ms s (p + 1) CAP_UNFINISHED
       else if c = 0x29 then end_capture rec ms s (p + 1)
       else if c = L_ESC \<and> d = 0x62 then
         with_res (matchbalance src pat s (p + 2)) (\<lambda>r.
           case r of None \<Rightarrow> Inr (ms, None) | Some s \<Rightarrow> match_item src pat rec ms s (p + 4))
       else if c = L_ESC \<and> d = 0x66 then
         with_char pat (p + 2) (\<lambda>f.
           if f \<noteq> 0x5B then Inl ERR_STRPATB
           else with_res (classend pat (p + 2)) (\<lambda>ep.
             with_res (previous_char src s) (\<lambda>previous.
               with_res (matchbracketclass pat previous (p + 2) (ep - 1)) (\<lambda>before.
                 if before then Inr (ms, None)
                 else with_char src s (\<lambda>next.
                   with_res (matchbracketclass pat next (p + 2) (ep - 1)) (\<lambda>after.
                     if \<not> after then Inr (ms, None) else match_item src pat rec ms s ep))))))
       else if c = L_ESC \<and> lj_char_isdigit (uint d) then
         with_res (match_capture src ms s d) (\<lambda>r.
           case r of None \<Rightarrow> Inr (ms, None) | Some s \<Rightarrow> match_item src pat rec ms s (p + 2))
       else if c = 0 then Inr (ms, Some s)
       else if c = 0x24 \<and> d = 0 then Inr (ms, if s \<noteq> length src then None else Some s)
       else
         with_res (classend pat p) (\<lambda>ep.
           with_res (item_match src pat s p ep) (\<lambda>m.
             with_char pat ep (\<lambda>k.
               if k = 0x3F then
                 if m then
                   with_res (rec ms (s + 1) (ep + 1)) (\<lambda>(ms, r).
                     case r of Some e \<Rightarrow> Inr (ms, Some e) | None \<Rightarrow> match_item src pat rec ms s (ep + 1))
                 else match_item src pat rec ms s (ep + 1)
               else if k = 0x2A then max_expand src pat rec ms s p ep
               else if k = 0x2B then if m then max_expand src pat rec ms (s + 1) p ep else Inr (ms, None)
               else if k = 0x2D then min_expand src pat rec ms s p ep
               else if m then match_item src pat rec ms (s + 1) ep
               else Inr (ms, None))))))"
  by pat_completeness auto
termination
  by (relation "measure (\<lambda>(src, pat, rec, ms, s, p). length pat + 1 - p)")
    (auto dest: classend_gt split: if_splits)

declare match_item.simps [simp del, loop_simps]

text \<open>\<open>match\<close> with the number of levels that are left.\<close>

fun match_at :: "bytes \<Rightarrow> bytes \<Rightarrow> nat \<Rightarrow> matcher" where
  "match_at src pat 0 ms s p = Inl ERR_STRPATX"
| "match_at src pat (Suc n) ms s p = match_item src pat (match_at src pat n) ms s p"

section \<open>Captures\<close>

definition match_init :: match_state where
  "match_init = \<lparr>level = 0, cap_init = (\<lambda>_. 0), cap_len = (\<lambda>_. 0)\<rparr>"

definition do_match :: "bytes \<Rightarrow> bytes \<Rightarrow> nat \<Rightarrow> nat \<Rightarrow> mres" where
  "do_match src pat s p = match_at src pat LJ_MAX_XLEVEL match_init s p"

datatype capture = CapStr bytes | CapPos nat

definition substr :: "bytes \<Rightarrow> nat \<Rightarrow> nat \<Rightarrow> bytes" where
  "substr src s n = take n (drop s src)"

definition push_onecapture :: "bytes \<Rightarrow> match_state \<Rightarrow> nat \<Rightarrow> nat \<Rightarrow> nat \<Rightarrow> capture res" where
  "push_onecapture src ms i s e =
     (if i \<ge> level ms then if i = 0 then Inr (CapStr (substr src s (e - s))) else Inl ERR_STRCAPI
      else
        let l = cap_len ms i in
        if l = CAP_UNFINISHED then Inl ERR_STRCAPU
        else if l = CAP_POSITION then Inr (CapPos (cap_init ms i + 1))
        else Inr (CapStr (substr src (cap_init ms i) (nat l))))"

fun push_list :: "bytes \<Rightarrow> match_state \<Rightarrow> nat list \<Rightarrow> nat \<Rightarrow> nat \<Rightarrow> capture list res" where
  "push_list src ms [] s e = Inr []"
| "push_list src ms (i # is) s e =
     with_res (push_onecapture src ms i s e) (\<lambda>c. with_res (push_list src ms is s e) (\<lambda>cs. Inr (c # cs)))"

text \<open>With \<open>None\<close> for the null pointers \<open>string.find\<close> passes.\<close>

definition push_captures :: "bytes \<Rightarrow> match_state \<Rightarrow> (nat \<times> nat) option \<Rightarrow> capture list res" where
  "push_captures src ms se =
     (case se of
        None \<Rightarrow> push_list src ms [0..<level ms] 0 0
      | Some (s, e) \<Rightarrow> push_list src ms [0..<(if level ms = 0 then 1 else level ms)] s e)"

section \<open>string.find and string.match\<close>

datatype find_result = NotFound | FindAt nat nat "capture list" | MatchCaps "capture list"

function find_loop :: "bytes \<Rightarrow> bytes \<Rightarrow> nat \<Rightarrow> nat \<Rightarrow> bool \<Rightarrow> bool \<Rightarrow> find_result res" where
  "find_loop src pat s p anchor fnd =
     with_res (do_match src pat s p) (\<lambda>(ms, r).
       case r of
         Some q \<Rightarrow>
           if fnd then with_res (push_captures src ms None) (\<lambda>cs. Inr (FindAt (s + 1) q cs))
           else with_res (push_captures src ms (Some (s, q))) (\<lambda>cs. Inr (MatchCaps cs))
       | None \<Rightarrow>
           if s < length src \<and> \<not> anchor then find_loop src pat (s + 1) p anchor fnd else Inr NotFound)"
  by pat_completeness auto
termination by (relation "measure (\<lambda>(src, pat, s, p, anchor, fnd). length src - s)") auto

declare find_loop.simps [simp del, loop_simps]

definition str_find_aux :: "bytes \<Rightarrow> bytes \<Rightarrow> int \<Rightarrow> bool \<Rightarrow> bool \<Rightarrow> find_result res" where
  "str_find_aux src pat start plain fnd =
     (let start = (if start < 0 then start + int (length src) else start - 1);
          start = (if start < 0 then 0 else start);
          st = (if nat start > length src then length src else nat start) in
      if fnd \<and> (plain \<or> \<not> lj_str_haspattern pat) then
        (case lj_str_find (drop st src) pat of
           Some q \<Rightarrow> Inr (FindAt (st + q + 1) (st + q + length pat) [])
         | None \<Rightarrow> Inr NotFound)
      else
        with_char pat 0 (\<lambda>c.
          if c = 0x5E then find_loop src pat st 1 True fnd else find_loop src pat st 0 False fnd))"

section \<open>string.gmatch\<close>

text \<open>One call of the iterator with the position in the upvalue; the new position and the captures.\<close>

function gmatch_aux :: "bytes \<Rightarrow> bytes \<Rightarrow> nat \<Rightarrow> (nat \<times> capture list) option res" where
  "gmatch_aux str pat src =
     (if src \<le> length str then
        with_res (do_match str pat src 0) (\<lambda>(ms, r).
          case r of
            Some e \<Rightarrow>
              let pos = (if e = src then e + 1 else e) in
              with_res (push_captures str ms (Some (src, e))) (\<lambda>cs. Inr (Some (pos, cs)))
          | None \<Rightarrow> gmatch_aux str pat (src + 1))
      else Inr None)"
  by pat_completeness auto
termination by (relation "measure (\<lambda>(str, pat, src). length str + 1 - src)") auto

declare gmatch_aux.simps [simp del, loop_simps]

section \<open>string.gsub\<close>

text \<open>
  The replacement: a string, or a function or table as a HOL function from the captures to a value,
  which is false or nil, a string (or number as a string), or something else.
\<close>

datatype repl_value = Falsy | StrVal bytes | OtherVal

datatype repl = RString bytes | RFunction "capture list \<Rightarrow> repl_value" | RTable "capture \<Rightarrow> repl_value"

text \<open>\<open>num\<close> formats a position capture, as \<open>luaL_addvalue\<close> does.\<close>

fun cap_bytes :: "(nat \<Rightarrow> bytes) \<Rightarrow> capture \<Rightarrow> bytes" where
  "cap_bytes num (CapStr b) = b"
| "cap_bytes num (CapPos n) = num n"

text \<open>An escape at the end of the replacement reads its terminator.\<close>

function add_s :: "(nat \<Rightarrow> bytes) \<Rightarrow> bytes \<Rightarrow> match_state \<Rightarrow> bytes \<Rightarrow> nat \<Rightarrow> bytes \<Rightarrow> nat \<Rightarrow> nat \<Rightarrow> bytes res" where
  "add_s num src ms news i b s e =
     (if i < length news then
        if news ! i \<noteq> L_ESC then add_s num src ms news (i + 1) (b @ [news ! i]) s e
        else with_char news (i + 1) (\<lambda>c.
          if \<not> lj_char_isdigit (uint c) then add_s num src ms news (i + 2) (b @ [c]) s e
          else if c = 0x30 then add_s num src ms news (i + 2) (b @ substr src s (e - s)) s e
          else with_res (push_onecapture src ms (unat c - 0x31) s e) (\<lambda>x.
            add_s num src ms news (i + 2) (b @ cap_bytes num x) s e))
      else Inr b)"
  by pat_completeness auto
termination by (relation "measure (\<lambda>(num, src, ms, news, i, b, s, e). length news - i)") auto

declare add_s.simps [simp del, loop_simps]

definition add_value :: "(nat \<Rightarrow> bytes) \<Rightarrow> repl \<Rightarrow> bytes \<Rightarrow> match_state \<Rightarrow> bytes \<Rightarrow> nat \<Rightarrow> nat \<Rightarrow> bytes res" where
  "add_value num r src ms b s e =
     (let fin = (\<lambda>v. case v of
            Falsy \<Rightarrow> Inr (b @ substr src s (e - s))
          | OtherVal \<Rightarrow> Inl ERR_STRGSRV
          | StrVal x \<Rightarrow> Inr (b @ x)) in
      case r of
        RString news \<Rightarrow> add_s num src ms news 0 b s e
      | RFunction f \<Rightarrow> with_res (push_captures src ms (Some (s, e))) (\<lambda>cs. fin (f cs))
      | RTable t \<Rightarrow> with_res (push_onecapture src ms 0 s e) (\<lambda>c. fin (t c)))"

function gsub_loop :: "(nat \<Rightarrow> bytes) \<Rightarrow> repl \<Rightarrow> bytes \<Rightarrow> bytes \<Rightarrow> bool \<Rightarrow> nat \<Rightarrow> int \<Rightarrow> bytes \<Rightarrow> nat \<Rightarrow> nat \<Rightarrow> (bytes \<times> nat \<times> nat) res" where
  "gsub_loop num r src pat anchor p max_s b n s =
     (if int n < max_s then
        with_res (do_match src pat s p) (\<lambda>(ms, m).
          with_res (case m of Some e \<Rightarrow> with_res (add_value num r src ms b s e) (\<lambda>b. Inr (b, n + 1)) | None \<Rightarrow> Inr (b, n))
            (\<lambda>(b, n).
              case (case m of Some e \<Rightarrow> if e > s then Some (b, e) else None | None \<Rightarrow> None) of
                Some (b, e) \<Rightarrow> if anchor then Inr (b, n, e) else if e \<le> length src then gsub_loop num r src pat anchor p max_s b n e
                   else Inl StrayRead
              | None \<Rightarrow>
                  if s < length src then
                    if anchor then Inr (b @ [src ! s], n, s + 1)
                    else gsub_loop num r src pat anchor p max_s (b @ [src ! s]) n (s + 1)
                  else Inr (b, n, s)))
      else Inr (b, n, s))"
  by pat_completeness auto
termination by (relation "measure (\<lambda>(num, r, src, pat, anchor, p, max_s, b, n, s). length src - s)") (auto split: if_splits option.splits)

declare gsub_loop.simps [simp del, loop_simps]

definition string_gsub :: "(nat \<Rightarrow> bytes) \<Rightarrow> bytes \<Rightarrow> bytes \<Rightarrow> repl \<Rightarrow> int \<Rightarrow> (bytes \<times> nat) res" where
  "string_gsub num src pat r max_s =
     with_char pat 0 (\<lambda>c.
       let anchor = (c = 0x5E) in
       with_res (gsub_loop num r src pat anchor (if anchor then 1 else 0) max_s [] 0 0) (\<lambda>(b, n, s).
         Inr (b @ drop s src, n)))"

end
