(* ===== verification/Lib_Match_Props.thy ===== *)
theory Lib_Match_Props
  imports Lib_Match
begin

text \<open>
  The matcher of \<open>Lib_Match\<close> against a reference definition, \<open>runs\<close>: the list of all ways in which the
  rest of a pattern can match at a position, in the order of preference of Lua, each with the captures
  and the end of the match. The matcher, with its one mutable array of captures that is undone on
  failure, finds the head of that list.
\<close>

section \<open>Outcomes\<close>

text \<open>A result is neither one of the errors \<open>E\<close> nor a value outside of \<open>Q\<close>.\<close>

definition ok :: "match_error set \<Rightarrow> 'a res \<Rightarrow> ('a \<Rightarrow> bool) \<Rightarrow> bool" where
  "ok E r Q = (case r of Inl e \<Rightarrow> e \<notin> E | Inr x \<Rightarrow> Q x)"

definition chr :: "bytes \<Rightarrow> nat \<Rightarrow> byte" where
  "chr str i = (if i < length str then str ! i else 0)"

definition internal :: "match_error set \<Rightarrow> bool" where
  "internal E = (StrayRead \<in> E \<and> E \<subseteq> {StrayRead, ERR_STRPATX})"

lemma ok_simps [simp]:
  "ok E (Inr x) Q = Q x"
  "ok E (with_res r k) Q = ok E r (\<lambda>x. ok E (k x) Q)"
  by (auto simp: ok_def with_res_def split: sum.splits)

lemma ok_Inl [simp]: "internal E \<Longrightarrow> e \<noteq> StrayRead \<Longrightarrow> e \<noteq> ERR_STRPATX \<Longrightarrow> ok E (Inl e) Q"
  by (auto simp: ok_def internal_def)

lemma ok_with_char [simp]:
  "internal E \<Longrightarrow> ok E (with_char str i k) Q \<longleftrightarrow> i \<le> length str \<and> ok E (k (chr str i)) Q"
  by (auto simp: ok_def with_char_def chr_def internal_def)

lemma ok_mono: "ok E r Q \<Longrightarrow> (\<And>x. r = Inr x \<Longrightarrow> Q x \<Longrightarrow> Q' x) \<Longrightarrow> ok E r Q'"
  by (auto simp: ok_def split: sum.splits)

lemma ok_conj: "ok E r Q \<Longrightarrow> ok E r Q' \<Longrightarrow> ok E r (\<lambda>x. Q x \<and> Q' x)"
  by (auto simp: ok_def split: sum.splits)

lemma chr_nz: "chr str i \<noteq> 0 \<Longrightarrow> i < length str"
  by (auto simp: chr_def split: if_splits)

lemma chr_lt: "chr str i = c \<Longrightarrow> c \<noteq> 0 \<Longrightarrow> i < length str"
  by (auto simp: chr_def split: if_splits)

section \<open>Classes and sets\<close>

definition class_next :: "bytes \<Rightarrow> nat \<Rightarrow> nat" where
  "class_next pat p = (if chr pat p = L_ESC \<and> chr pat (p + 1) \<noteq> 0 then p + 2 else p + 1)"

lemma ok_class_loop:
  "internal E \<Longrightarrow> ok E (class_loop pat p) Q \<longleftrightarrow>
     p \<le> length pat \<and> (chr pat p \<noteq> 0 \<longrightarrow> p + 1 \<le> length pat \<and> class_next pat p \<le> length pat \<and>
       ok E (if chr pat (class_next pat p) = 0x5D then Inr (class_next pat p + 1)
             else class_loop pat (class_next pat p)) Q)"
  by (subst class_loop.simps) (simp add: class_next_def Let_def)

lemma class_next: "chr pat p \<noteq> 0 \<Longrightarrow> p < class_next pat p \<and> class_next pat p \<le> length pat"
  using chr_nz [of pat p] chr_nz [of pat "p + 1"] by (auto simp: class_next_def)

lemma class_loop_ok:
  assumes E: "internal E"
  shows "p \<le> length pat \<Longrightarrow> ok E (class_loop pat p) (\<lambda>ep. p + 1 < ep \<and> ep \<le> length pat)"
proof (induction "length pat - p" arbitrary: p rule: less_induct)
  case less
  let ?q = "class_next pat p"
  have "ok E (class_loop pat ?q) (\<lambda>ep. p + 1 < ep \<and> ep \<le> length pat)" if "chr pat p \<noteq> 0"
  proof (rule ok_mono [OF less(1)])
    show "length pat - ?q < length pat - p" "?q \<le> length pat" using class_next [OF that] by auto
  qed (use class_next [OF that] in auto)
  then show ?case
    using less(2) class_next [of pat p] chr_nz [of pat p] chr_nz [of pat ?q] E
    by (auto simp: ok_class_loop)
qed

text \<open>The end of an item, and what an item reads up to there.\<close>

definition item_shape :: "bytes \<Rightarrow> nat \<Rightarrow> nat \<Rightarrow> bool" where
  "item_shape pat p ep \<longleftrightarrow> p < ep \<and> ep \<le> length pat \<and> (chr pat p = L_ESC \<longrightarrow> ep = p + 2) \<and>
     (chr pat p = 0x5B \<longrightarrow> p + 2 < ep)"

lemma classend_ok: "internal E \<Longrightarrow> p < length pat \<Longrightarrow> ok E (classend pat p) (item_shape pat p)"
proof -
  assume a: "internal E" "p < length pat"
  have "ok E (class_loop pat q) (item_shape pat p)"
    if "chr pat p = 0x5B" "q \<le> length pat" "p < q" for q
    using class_loop_ok [OF a(1) that(2)] that by (auto elim!: ok_mono simp: item_shape_def)
  then show ?thesis
    using a chr_nz [of pat "p + 1"] by (auto simp: classend_def item_shape_def)
qed

lemma set_loop_ok:
  "internal E \<Longrightarrow> ec < length pat \<Longrightarrow> ok E (set_loop pat c p ec sig) (\<lambda>_. True)"
proof (induction pat c p ec sig rule: set_loop.induct)
  case (1 pat c p ec sig)
  show ?case
    using 1(4,5) 1(1) [of "p + 1" "chr pat (p + 1)" "chr pat (p + 2)"]
      1(2,3) [of "p + 1" "chr pat (p + 1)" "chr pat (p + 2)"]
    by (subst set_loop.simps) (auto simp: Let_def chr_def numeral_2_eq_2)
qed

lemma matchbracketclass_ok:
  "internal E \<Longrightarrow> p < length pat \<Longrightarrow> ec < length pat \<Longrightarrow> ok E (matchbracketclass pat c p ec) (\<lambda>_. True)"
  by (simp add: matchbracketclass_def set_loop_ok)

lemma singlematch_ok:
  "internal E \<Longrightarrow> item_shape pat p ep \<Longrightarrow> ok E (singlematch pat c p ep) (\<lambda>_. True)"
  by (auto simp: singlematch_def item_shape_def intro!: matchbracketclass_ok)

text \<open>Whether a character matches an item; whether an item matches at a position; how often.\<close>

definition single :: "bytes \<Rightarrow> nat \<Rightarrow> nat \<Rightarrow> byte \<Rightarrow> bool" where
  "single pat p ep c \<longleftrightarrow> singlematch pat c p ep = Inr True"

definition repeats :: "bytes \<Rightarrow> bytes \<Rightarrow> nat \<Rightarrow> nat \<Rightarrow> nat \<Rightarrow> nat" where
  "repeats src pat s p ep = length (takeWhile (single pat p ep) (drop s src))"

lemma repeats_le: "s \<le> length src \<Longrightarrow> s + repeats src pat s p ep \<le> length src"
  using length_takeWhile_le [of "single pat p ep" "drop s src"] by (simp add: repeats_def)

lemma repeats_step:
  "s < length src \<Longrightarrow> repeats src pat s p ep =
     (if single pat p ep (src ! s) then Suc (repeats src pat (s + 1) p ep) else 0)"
  by (simp add: repeats_def Cons_nth_drop_Suc [symmetric])

lemma repeats_end: "length src \<le> s \<Longrightarrow> repeats src pat s p ep = 0"
  by (simp add: repeats_def)

lemma repeats_pos: "0 < repeats src pat s p ep \<Longrightarrow> s < length src \<and> single pat p ep (src ! s)"
  by (metis not_less repeats_end repeats_step less_irrefl)

lemma item_match_ok:
  "internal E \<Longrightarrow> item_shape pat p ep \<Longrightarrow>
   ok E (item_match src pat s p ep) (\<lambda>m. m = (0 < repeats src pat s p ep))"
  using singlematch_ok [of E pat p ep "src ! s"]
  by (auto simp: item_match_def with_char_def repeats_step repeats_end single_def ok_def split: sum.splits)

lemma count_items_ok:
  "internal E \<Longrightarrow> item_shape pat p ep \<Longrightarrow>
   ok E (count_items src pat s p ep i) (\<lambda>n. n = i + repeats src pat (s + i) p ep)"
proof (induction src pat s p ep i rule: count_items.induct)
  case (1 src pat s p ep i)
  have "ok E (item_match src pat (s + i) p ep) (\<lambda>m. ok E (if m then count_items src pat s p ep (i + 1) else Inr i)
          (\<lambda>n. n = i + repeats src pat (s + i) p ep))"
  proof (rule ok_mono [OF item_match_ok [OF 1(2,3)]])
    fix m assume m: "item_match src pat (s + i) p ep = Inr m" "m = (0 < repeats src pat (s + i) p ep)"
    have "ok E (count_items src pat s p ep (i + 1)) (\<lambda>n. n = i + repeats src pat (s + i) p ep)" if m
    proof (rule ok_mono [OF 1(1) [OF m(1) that 1(2,3)]])
      fix n assume "n = i + 1 + repeats src pat (s + (i + 1)) p ep"
      then show "n = i + repeats src pat (s + i) p ep"
        using repeats_pos [of src pat "s + i" p ep] m(2) that by (simp add: repeats_step)
    qed
    then show "ok E (if m then count_items src pat s p ep (i + 1) else Inr i)
                 (\<lambda>n. n = i + repeats src pat (s + i) p ep)" using m by simp
  qed
  then show ?case by (subst count_items.simps) simp
qed

lemma previous_char_ok:
  "internal E \<Longrightarrow> s \<le> length src \<Longrightarrow> ok E (previous_char src s) (\<lambda>c. c = (if s = 0 then 0 else src ! (s - 1)))"
  by (auto simp: previous_char_def chr_def)

lemma balance_loop_ok:
  "internal E \<Longrightarrow> ok E (balance_loop src b e s cont) (\<lambda>r. \<forall>t. r = Some t \<longrightarrow> s < t \<and> t \<le> length src)"
proof (induction src b e s cont rule: balance_loop.induct)
  case (1 src b e s cont)
  have "ok E (balance_loop src b e (s + 1) n) (\<lambda>r. \<forall>t. r = Some t \<longrightarrow> s < t \<and> t \<le> length src)"
    if "ok E (balance_loop src b e (s + 1) n) (\<lambda>r. \<forall>t. r = Some t \<longrightarrow> s + 1 < t \<and> t \<le> length src)" for n
    using that by (auto elim!: ok_mono)
  then show ?case using 1 by (subst balance_loop.simps) (auto simp: Let_def)
qed

lemma matchbalance_ok:
  "internal E \<Longrightarrow> s \<le> length src \<Longrightarrow> p \<le> length pat \<Longrightarrow>
   ok E (matchbalance src pat s p) (\<lambda>r. \<forall>t. r = Some t \<longrightarrow> s < t \<and> t \<le> length src \<and> p + 2 \<le> length pat)"
  using chr_nz [of pat p] chr_nz [of pat "p + 1"]
  by (auto simp: matchbalance_def intro!: ok_mono [OF balance_loop_ok])

section \<open>Captures as a list\<close>

type_synonym caps = "(nat \<times> int) list"

definition caps :: "match_state \<Rightarrow> caps" where
  "caps ms = map (\<lambda>i. (cap_init ms i, cap_len ms i)) [0..<level ms]"

text \<open>
  The invariant of the captures at position \<open>s\<close>: at most \<open>LUA_MAXCAPTURES\<close>, and every one starts and,
  when it is closed, ends at or before \<open>s\<close>.
\<close>

definition cap_ok :: "nat \<Rightarrow> nat \<times> int \<Rightarrow> bool" where
  "cap_ok s c \<longleftrightarrow> fst c \<le> s \<and>
     (snd c = CAP_UNFINISHED \<or> snd c = CAP_POSITION \<or> 0 \<le> snd c \<and> int (fst c) + snd c \<le> int s)"

definition caps_ok :: "nat \<Rightarrow> caps \<Rightarrow> bool" where
  "caps_ok s cs \<longleftrightarrow> length cs \<le> LUA_MAXCAPTURES \<and> list_all (cap_ok s) cs"

lemma length_caps [simp]: "length (caps ms) = level ms" by (simp add: caps_def)

lemma nth_caps [simp]: "i < level ms \<Longrightarrow> caps ms ! i = (cap_init ms i, cap_len ms i)"
  by (simp add: caps_def)

lemma caps_ok_mono: "caps_ok s cs \<Longrightarrow> s \<le> s' \<Longrightarrow> caps_ok s' cs"
  by (force simp: caps_ok_def cap_ok_def list_all_iff)

lemma caps_ok_open:
  "caps_ok s cs \<Longrightarrow> length cs < LUA_MAXCAPTURES \<Longrightarrow> l = CAP_UNFINISHED \<or> l = CAP_POSITION \<Longrightarrow>
   caps_ok s (cs @ [(s, l)])"
  by (auto simp: caps_ok_def cap_ok_def)

lemma caps_ok_close:
  "caps_ok s cs \<Longrightarrow> l < length cs \<Longrightarrow> caps_ok s (cs[l := (fst (cs ! l), int s - int (fst (cs ! l)))])"
  by (auto simp: caps_ok_def cap_ok_def list_all_length nth_list_update)

lemma caps_open:
  "caps (ms\<lparr>cap_init := (cap_init ms)(level ms := s), cap_len := (cap_len ms)(level ms := l), level := level ms + 1\<rparr>) =
   caps ms @ [(s, l)]"
  by (auto simp: caps_def intro!: nth_equalityI)

lemma caps_set_len:
  "l < level ms \<Longrightarrow> caps (ms\<lparr>cap_len := (cap_len ms)(l := x)\<rparr>) = (caps ms)[l := (cap_init ms l, x)]"
  by (auto intro!: nth_equalityI simp: nth_list_update)

lemma caps_pop: "caps ms' = caps ms @ [c] \<Longrightarrow> caps (ms'\<lparr>level := level ms' - 1\<rparr>) = caps ms"
proof -
  assume a: "caps ms' = caps ms @ [c]"
  then have "level ms' = level ms + 1" by (metis length_append_singleton length_caps Suc_eq_plus1)
  then have "caps (ms'\<lparr>level := level ms' - 1\<rparr>) = take (level ms) (caps ms')"
    by (auto intro!: nth_equalityI)
  then show ?thesis using a by simp
qed

text \<open>The last capture that is open.\<close>

definition last_open :: "caps \<Rightarrow> nat option" where
  "last_open cs = find (\<lambda>l. snd (cs ! l) = CAP_UNFINISHED) (rev [0..<length cs])"

lemma close_from_ok:
  "internal E \<Longrightarrow> n \<le> level ms \<Longrightarrow>
   ok E (close_from ms n) (\<lambda>l. find (\<lambda>l. snd (caps ms ! l) = CAP_UNFINISHED) (rev [0..<n]) = Some l \<and>
     l < n \<and> cap_len ms l = CAP_UNFINISHED)"
  by (induction n) (auto elim: ok_mono)

lemma capture_to_close_ok:
  "internal E \<Longrightarrow> ok E (capture_to_close ms)
     (\<lambda>l. last_open (caps ms) = Some l \<and> l < level ms \<and> cap_len ms l = CAP_UNFINISHED)"
  unfolding capture_to_close_def last_open_def length_caps by (rule close_from_ok) auto

section \<open>Reference definition\<close>

text \<open>
  All ways to match the pattern from \<open>p\<close> on at \<open>s\<close>, preferred ones first. An item with \<open>*\<close> or \<open>+\<close>
  prefers many repetitions, one with \<open>-\<close> few, one with \<open>?\<close> prefers one to none.
\<close>

function runs :: "bytes \<Rightarrow> bytes \<Rightarrow> nat \<Rightarrow> nat \<Rightarrow> caps \<Rightarrow> (caps \<times> nat) list" where
  "runs src pat s p cs =
     (let c = chr pat p; d = chr pat (p + 1) in
      if c = 0 then [(cs, s)]
      else if c = 0x28 then
        if d = 0x29 then runs src pat s (p + 2) (cs @ [(s, CAP_POSITION)])
        else runs src pat s (p + 1) (cs @ [(s, CAP_UNFINISHED)])
      else if c = 0x29 then
        (case last_open cs of
           None \<Rightarrow> []
         | Some l \<Rightarrow> runs src pat s (p + 1) (cs[l := (fst (cs ! l), int s - int (fst (cs ! l)))]))
      else if c = L_ESC \<and> d = 0x62 then
        (case matchbalance src pat s (p + 2) of
           Inr (Some t) \<Rightarrow> runs src pat t (p + 4) cs
         | _ \<Rightarrow> [])
      else if c = L_ESC \<and> d = 0x66 then
        (case classend pat (p + 2) of
           Inr ep \<Rightarrow>
             if single pat (p + 2) ep (if s = 0 then 0 else src ! (s - 1)) then []
             else if single pat (p + 2) ep (chr src s) then runs src pat s ep cs else []
         | _ \<Rightarrow> [])
      else if c = L_ESC \<and> lj_char_isdigit (uint d) then
        (let (i, l) = cs ! (unat d - 0x31) in
         if 0 \<le> l \<and> s + nat l \<le> length src \<and> take (nat l) (drop i src) = take (nat l) (drop s src)
         then runs src pat (s + nat l) (p + 2) cs else [])
      else if c = 0x24 \<and> d = 0 then if s = length src then [(cs, s)] else []
      else
        (case classend pat p of
           Inr ep \<Rightarrow>
             let n = repeats src pat s p ep; k = chr pat ep in
             if k = 0x3F then (if 0 < n then runs src pat (s + 1) (ep + 1) cs else []) @ runs src pat s (ep + 1) cs
             else if k = 0x2A then concat (map (\<lambda>i. runs src pat (s + i) (ep + 1) cs) (rev [0..<n + 1]))
             else if k = 0x2B then concat (map (\<lambda>i. runs src pat (s + i) (ep + 1) cs) (rev [1..<n + 1]))
             else if k = 0x2D then concat (map (\<lambda>i. runs src pat (s + i) (ep + 1) cs) [0..<n + 1])
             else if 0 < n then runs src pat (s + 1) ep cs else []
         | _ \<Rightarrow> []))"
  by pat_completeness auto
termination
  by (relation "measure (\<lambda>(src, pat, s, p, cs). length pat - p)")
    (auto dest!: chr_nz chr_lt classend_gt)

declare runs.simps [simp del]

section \<open>The contract of the recursive calls\<close>

text \<open>The result that the reference allows for a state with captures \<open>cs\<close>.\<close>

definition allowed :: "nat \<Rightarrow> caps \<Rightarrow> nat \<Rightarrow> (caps \<times> nat) list \<Rightarrow> match_state \<times> nat option \<Rightarrow> bool" where
  "allowed len cs s rs res =
     (case rs of
        [] \<Rightarrow> snd res = None \<and> caps (fst res) = cs
      | (cs', e) # _ \<Rightarrow> snd res = Some e \<and> caps (fst res) = cs' \<and> s \<le> e \<and> e \<le> len \<and> caps_ok e cs')"

lemma allowed_simps [simp]:
  "allowed len cs s [] (ms, None) \<longleftrightarrow> caps ms = cs"
  "allowed len cs s ((cs', e) # rs) (ms, Some t) \<longleftrightarrow>
     t = e \<and> caps ms = cs' \<and> s \<le> e \<and> e \<le> len \<and> caps_ok e cs'"
  by (auto simp: allowed_def)

lemma allowed_le: "allowed len cs (Suc s) rs x \<Longrightarrow> allowed len cs s rs x"
  by (auto simp: allowed_def split: list.splits)

text \<open>
  What one level of the matcher assumes of the next: at the positions after \<open>p0\<close> the result is the one
  of the reference, and no error of \<open>E\<close> is raised.
\<close>

locale matcher =
  fixes src pat :: bytes and rec :: "match_state \<Rightarrow> nat \<Rightarrow> nat \<Rightarrow> (match_state \<times> nat option) res"
    and E :: "match_error set" and p0 :: nat
  assumes E: "internal E"
    and rec: "p0 < p \<Longrightarrow> p \<le> length pat \<Longrightarrow> s \<le> length src \<Longrightarrow> caps_ok s (caps ms) \<Longrightarrow>
      ok E (rec ms s p) (allowed (length src) (caps ms) s (runs src pat s p (caps ms)))"
begin

lemma rec_cases:
  assumes "p0 < p" "p \<le> length pat" "s \<le> length src" "caps_ok s (caps ms)"
    and some: "\<And>ms' e cs rs. runs src pat s p (caps ms) = (cs, e) # rs \<Longrightarrow> caps ms' = cs \<Longrightarrow> s \<le> e \<Longrightarrow>
      e \<le> length src \<Longrightarrow> caps_ok e cs \<Longrightarrow> ok E (k (ms', Some e)) Q"
    and none: "\<And>ms'. runs src pat s p (caps ms) = [] \<Longrightarrow> caps ms' = caps ms \<Longrightarrow> ok E (k (ms', None)) Q"
  shows "ok E (rec ms s p) (\<lambda>x. ok E (k x) Q)"
  by (rule ok_mono [OF rec [OF assms(1-4)]])
    (auto simp: allowed_def intro: some none split: list.splits)

lemmas rec_cases' = rec_cases [folded ok_simps(2)]

lemma max_try_ok:
  assumes "p0 < q" "q \<le> length pat"
  shows "s + i \<le> length src \<Longrightarrow> caps_ok s (caps ms) \<Longrightarrow>
    ok E (max_try rec ms s q i)
      (allowed (length src) (caps ms) s (concat (map (\<lambda>i. runs src pat (s + i) q (caps ms)) (rev [0..<i + 1]))))"
proof (induction i arbitrary: ms)
  case 0
  then show ?case
    by (subst max_try.simps) (auto intro!: rec_cases assms simp: allowed_def)
next
  case (Suc i)
  have c: "caps_ok (s + Suc i) (caps ms)" using Suc.prems caps_ok_mono by simp
  show ?case
  proof (subst max_try.simps, rule rec_cases' [OF assms Suc.prems(1) c], goal_cases)
    case (1 ms' e cs rs)
    then show ?case by (simp add: allowed_def)
  next
    case (2 ms')
    then show ?case using Suc.IH [of ms'] Suc.prems by simp
  qed
qed

lemma max_expand_ok:
  assumes "item_shape pat p ep" "p0 < ep + 1" "ep + 1 \<le> length pat" "s \<le> length src" "caps_ok s (caps ms)"
  shows "ok E (max_expand src pat rec ms s p ep)
    (allowed (length src) (caps ms) s
      (concat (map (\<lambda>i. runs src pat (s + i) (ep + 1) (caps ms)) (rev [0..<repeats src pat s p ep + 1]))))"
proof -
  have "ok E (count_items src pat s p ep 0) (\<lambda>i. ok E (max_try rec ms s (ep + 1) i)
    (allowed (length src) (caps ms) s
      (concat (map (\<lambda>i. runs src pat (s + i) (ep + 1) (caps ms)) (rev [0..<repeats src pat s p ep + 1])))))"
    using max_try_ok [OF assms(2,3), of s "repeats src pat s p ep" ms] repeats_le [OF assms(4)] assms(5)
    by (auto intro!: ok_mono [OF count_items_ok [OF E assms(1)]])
  then show ?thesis by (simp add: max_expand_def)
qed

lemma upt_shift: "[0..<Suc (Suc n)] = 0 # map Suc [0..<Suc n]"
  by (simp add: map_Suc_upt upt_conv_Cons)

lemma min_expand_ok:
  assumes "item_shape pat p ep" "p0 < ep + 1" "ep + 1 \<le> length pat"
  shows "s \<le> length src \<Longrightarrow> caps_ok s (caps ms) \<Longrightarrow> ok E (min_expand src pat rec ms s p ep)
    (allowed (length src) (caps ms) s
      (concat (map (\<lambda>i. runs src pat (s + i) (ep + 1) (caps ms)) [0..<repeats src pat s p ep + 1])))"
proof (induction "length src - s" arbitrary: s ms rule: less_induct)
  case less
  let ?n = "repeats src pat s p ep"
  show ?case
  proof (subst min_expand.simps, rule rec_cases' [OF assms(2,3) less.prems], goal_cases)
    case (1 ms' e cs rs)
    then show ?case by (simp add: allowed_def upt_conv_Cons del: upt_Suc)
  next
    case (2 ms')
    have "ok E (if m then min_expand src pat rec ms' (s + 1) p ep else Inr (ms', None))
      (allowed (length src) (caps ms) s
        (concat (map (\<lambda>i. runs src pat (s + i) (ep + 1) (caps ms)) [0..<?n + 1])))" if m: "m = (0 < ?n)" for m
    proof (cases m)
      case True
      then have s: "s < length src" "?n = Suc (repeats src pat (s + 1) p ep)"
        using repeats_pos [of src pat s p ep] repeats_step [of s src pat p ep] m by auto
      have "ok E (min_expand src pat rec ms' (s + 1) p ep) (allowed (length src) (caps ms) (s + 1)
        (concat (map (\<lambda>i. runs src pat (s + 1 + i) (ep + 1) (caps ms)) [0..<repeats src pat (s + 1) p ep + 1])))"
        using less.hyps [of "s + 1" ms'] s 2 less.prems caps_ok_mono [of s "caps ms" "s + 1"] by simp
      moreover have "concat (map (\<lambda>i. runs src pat (s + i) (ep + 1) (caps ms)) [0..<?n + 1]) =
        concat (map (\<lambda>i. runs src pat (s + 1 + i) (ep + 1) (caps ms)) [0..<repeats src pat (s + 1) p ep + 1])"
        using 2(1) by (simp add: s(2) upt_shift comp_def del: upt_Suc)
      ultimately show ?thesis using True by (auto elim!: ok_mono dest: allowed_le)
    next
      case False
      then show ?thesis using 2 m by (simp add: allowed_def)
    qed
    then show ?case by (auto intro!: ok_mono [OF item_match_ok [OF E assms(1)]])
  qed
qed

lemma start_capture_ok:
  assumes "p0 < p" "p \<le> length pat" "s \<le> length src" "caps_ok s (caps ms)" "l = CAP_UNFINISHED \<or> l = CAP_POSITION"
  shows "ok E (start_capture rec ms s p l)
    (allowed (length src) (caps ms) s (runs src pat s p (caps ms @ [(s, l)])))"
proof (cases "level ms \<ge> LUA_MAXCAPTURES")
  case True
  then show ?thesis using E by (simp add: start_capture_def)
next
  case False
  show ?thesis using False caps_ok_open [of s "caps ms" l] assms
    by (auto simp: start_capture_def caps_open [simplified] allowed_def caps_pop [simplified] intro!: rec_cases)
qed

lemma end_capture_ok:
  assumes "p0 < p" "p \<le> length pat" "s \<le> length src" "caps_ok s (caps ms)"
  shows "ok E (end_capture rec ms s p)
    (allowed (length src) (caps ms) s (case last_open (caps ms) of None \<Rightarrow> []
       | Some l \<Rightarrow> runs src pat s p ((caps ms)[l := (fst (caps ms ! l), int s - int (fst (caps ms ! l)))])))"
proof -
  have "ok E (with_res (rec (ms\<lparr>cap_len := (cap_len ms)(l := int s - int (cap_init ms l))\<rparr>) s p) (\<lambda>(ms, r).
         case r of None \<Rightarrow> Inr (ms\<lparr>cap_len := (cap_len ms)(l := CAP_UNFINISHED)\<rparr>, None)
         | Some e \<Rightarrow> Inr (ms, Some e)))
      (allowed (length src) (caps ms) s (runs src pat s p ((caps ms)[l := (cap_init ms l, int s - int (cap_init ms l))])))"
    if l: "l < level ms" "cap_len ms l = CAP_UNFINISHED" for l
  proof (rule rec_cases' [OF assms(1-3)], goal_cases)
    case 1
    then show ?case using l caps_ok_close [OF assms(4), of l] by (simp add: caps_set_len)
  next
    case (2 ms' e cs rs)
    then show ?case using l by (simp add: caps_set_len allowed_def)
  next
    case (3 ms')
    then have c: "caps ms' = (caps ms)[l := (cap_init ms l, int s - int (cap_init ms l))]"
      using l by (simp add: caps_set_len)
    then have "level ms' = level ms" by (metis length_caps length_list_update)
    moreover have "cap_init ms' l = cap_init ms l"
      using c l calculation by (metis fst_conv length_caps nth_caps nth_list_update_eq)
    ultimately show ?case using 3 l c
      by (auto simp: caps_set_len allowed_def list_update_same_conv nth_caps)
  qed
  then show ?thesis unfolding end_capture_def
    by (auto intro!: ok_mono [OF capture_to_close_ok [OF E, of ms]])
qed

lemma check_capture_ok: "ok E (check_capture ms d) (\<lambda>l. l = unat d - 0x31 \<and> l < level ms)"
proof (cases "uint d < 0x31 \<or> int (level ms) \<le> uint d - 0x31 \<or> cap_len ms (nat (uint d - 0x31)) = CAP_UNFINISHED")
  case True
  then show ?thesis using E by (auto simp: check_capture_def Let_def)
next
  case False
  then have "nat (uint d - 0x31) = unat d - 0x31" "unat d - 0x31 < level ms"
    by (simp_all add: nat_diff_distrib nat_uint_eq) (metis of_nat_diff of_nat_less_iff not_less of_nat_numeral uint_nat zle_int)
  then show ?thesis using False by (simp add: check_capture_def Let_def)
qed

lemma match_capture_ok:
  assumes "s \<le> length src"
  shows "ok E (match_capture src ms s d) (\<lambda>r. r =
    (let (i, l) = caps ms ! (unat d - 0x31) in
       if 0 \<le> l \<and> s + nat l \<le> length src \<and> take (nat l) (drop i src) = take (nat l) (drop s src)
       then Some (s + nat l) else None))"
  using assms by (auto simp: match_capture_def Let_def intro!: ok_mono [OF check_capture_ok])

lemma goto_init:
  "ok E r (allowed (length src) cs t rs) \<Longrightarrow> s \<le> t \<Longrightarrow> ok E r (allowed (length src) cs s rs)"
  by (erule ok_mono) (auto simp: allowed_def split: list.splits)

lemma balance_case:
  assumes c: "chr pat p = L_ESC" "chr pat (p + 1) = 0x62" and p: "p0 \<le> p" "s \<le> length src"
    and IH: "\<And>t q ms. p < q \<Longrightarrow> q \<le> length pat \<Longrightarrow> t \<le> length src \<Longrightarrow> caps_ok t (caps ms) \<Longrightarrow>
      ok E (match_item src pat rec ms t q) (allowed (length src) (caps ms) t (runs src pat t q (caps ms)))"
    and C: "caps_ok s (caps ms)"
  shows "ok E (match_item src pat rec ms s p) (allowed (length src) (caps ms) s (runs src pat s p (caps ms)))"
proof -
  have l: "p < length pat" "p + 1 < length pat" using c chr_lt by auto
  show ?thesis
    using c l p E by (subst match_item.simps, subst runs.simps)
      (auto simp: Let_def intro!: ok_mono [OF matchbalance_ok] goto_init [OF IH] caps_ok_mono [OF C]
        split: option.splits)
qed

lemma frontier_case:
  assumes c: "chr pat p = L_ESC" "chr pat (p + 1) = 0x66" and p: "p0 \<le> p" "s \<le> length src"
    and IH: "\<And>t q ms. p < q \<Longrightarrow> q \<le> length pat \<Longrightarrow> t \<le> length src \<Longrightarrow> caps_ok t (caps ms) \<Longrightarrow>
      ok E (match_item src pat rec ms t q) (allowed (length src) (caps ms) t (runs src pat t q (caps ms)))"
    and C: "caps_ok s (caps ms)"
  shows "ok E (match_item src pat rec ms s p) (allowed (length src) (caps ms) s (runs src pat s p (caps ms)))"
proof (cases "chr pat (p + 2) = 0x5B")
  case True
  have l: "p + 2 < length pat" using True chr_lt by fastforce
  have set: "singlematch pat a (p + 2) ep = matchbracketclass pat a (p + 2) (ep - 1)" for a ep
    using True l by (simp add: singlematch_def with_char_def chr_def)
  have in_set: "ok E (matchbracketclass pat a (p + 2) (ep - 1)) (\<lambda>m. m = single pat (p + 2) ep a)"
    if "item_shape pat (p + 2) ep" for a ep
    using singlematch_ok [OF E that, of a] by (auto simp: ok_def single_def set [of a ep, simplified] split: sum.splits)
  have "ok E (match_item src pat rec ms s ep) (allowed (length src) (caps ms) s (runs src pat s ep (caps ms)))"
    if "item_shape pat (p + 2) ep" for ep
    using IH [of ep s ms] that p C by (simp add: item_shape_def)
  then show ?thesis
    using True l c E p
    by (subst match_item.simps, subst runs.simps)
      (auto simp: Let_def intro!: ok_mono [OF classend_ok] ok_mono [OF previous_char_ok] ok_mono [OF in_set [simplified]])
next
  case False
  have l: "p < length pat" "p + 1 < length pat" using c chr_lt by auto
  show ?thesis
    using False l c E p by (subst match_item.simps) (simp add: Let_def)
qed

lemma backref_case:
  assumes c: "chr pat p = L_ESC" "chr pat (p + 1) = d" "d \<noteq> 0x62" "d \<noteq> 0x66" "lj_char_isdigit (uint d)"
    and p: "p0 \<le> p" "s \<le> length src"
    and IH: "\<And>t q ms. p < q \<Longrightarrow> q \<le> length pat \<Longrightarrow> t \<le> length src \<Longrightarrow> caps_ok t (caps ms) \<Longrightarrow>
      ok E (match_item src pat rec ms t q) (allowed (length src) (caps ms) t (runs src pat t q (caps ms)))"
    and C: "caps_ok s (caps ms)"
  shows "ok E (match_item src pat rec ms s p) (allowed (length src) (caps ms) s (runs src pat s p (caps ms)))"
proof -
  have "d \<noteq> 0" using c(5) by (auto simp: lj_char_isdigit_iff uint_lt2p [where 'a = 8, simplified])
  then have l: "p + 1 < length pat" using c chr_lt by auto
  have g: "ok E (match_item src pat rec ms t (p + 2)) (allowed (length src) (caps ms) s (runs src pat t (p + 2) (caps ms)))"
    if "s \<le> t" "t \<le> length src" for t
    by (rule goto_init [OF IH]) (use that l caps_ok_mono [OF C] in auto)
  show ?thesis
    using c l p E by (subst match_item.simps, subst runs.simps)
      (auto simp: Let_def intro!: ok_mono [OF match_capture_ok] g [simplified] split: option.splits prod.splits)
qed

lemma item_case:
  assumes c: "chr pat p = c" "c \<notin> {0, 0x28, 0x29}"
      "c = L_ESC \<longrightarrow> chr pat (p + 1) \<notin> {0x62, 0x66} \<and> \<not> lj_char_isdigit (uint (chr pat (p + 1)))"
      "\<not> (c = 0x24 \<and> chr pat (p + 1) = 0)"
    and p: "p0 \<le> p" "s \<le> length src"
    and IH: "\<And>t q ms. p < q \<Longrightarrow> q \<le> length pat \<Longrightarrow> t \<le> length src \<Longrightarrow> caps_ok t (caps ms) \<Longrightarrow>
      ok E (match_item src pat rec ms t q) (allowed (length src) (caps ms) t (runs src pat t q (caps ms)))"
    and C: "caps_ok s (caps ms)"
  shows "ok E (match_item src pat rec ms s p) (allowed (length src) (caps ms) s (runs src pat s p (caps ms)))"
proof -
  have l: "p < length pat" using c chr_lt by auto
  have "ok E (with_res (item_match src pat s p ep) (\<lambda>m.
             with_char pat ep (\<lambda>k.
               if k = 0x3F then
                 if m then
                   with_res (rec ms (s + 1) (ep + 1)) (\<lambda>(ms, r).
                     case r of Some e \<Rightarrow> Inr (ms, Some e) | None \<Rightarrow> match_item src pat rec ms s (ep + 1))
                 else match_item src pat rec ms s (ep + 1)
               else if k = 0x2A then max_expand src pat rec ms s p ep
               else if k = 0x2B then if m then max_expand src pat rec ms (s + 1) p ep else Inr (ms, None)
               else if k = 0x2D then min_expand src pat rec ms s p ep
               else if m then match_item src pat rec ms (s + 1) ep
               else Inr (ms, None))))
     (allowed (length src) (caps ms) s (runs src pat s p (caps ms)))"
    if ep: "classend pat p = Inr ep" "item_shape pat p ep" for ep
  proof -
    let ?n = "repeats src pat s p ep" and ?k = "chr pat ep"
    have e: "p < ep" "ep \<le> length pat" using ep by (auto simp: item_shape_def)
    have k: "ep < length pat" if "?k \<noteq> 0" using that by (rule chr_nz)
    have C1: "caps_ok (s + 1) (caps ms)" using caps_ok_mono [OF C] by simp
    have r: "runs src pat s p (caps ms) =
      (if ?k = 0x3F then (if 0 < ?n then runs src pat (s + 1) (ep + 1) (caps ms) else []) @ runs src pat s (ep + 1) (caps ms)
             else if ?k = 0x2A then concat (map (\<lambda>i. runs src pat (s + i) (ep + 1) (caps ms)) (rev [0..<?n + 1]))
             else if ?k = 0x2B then concat (map (\<lambda>i. runs src pat (s + i) (ep + 1) (caps ms)) (rev [1..<?n + 1]))
             else if ?k = 0x2D then concat (map (\<lambda>i. runs src pat (s + i) (ep + 1) (caps ms)) [0..<?n + 1])
             else if 0 < ?n then runs src pat (s + 1) ep (caps ms) else [])"
    proof -
      have "(c = L_ESC \<and> chr pat (p + 1) = 0x62) = False" "(c = L_ESC \<and> chr pat (p + 1) = 0x66) = False"
        "(c = L_ESC \<and> lj_char_isdigit (uint (chr pat (p + 1)))) = False" "c \<noteq> 0" "c \<noteq> 0x28" "c \<noteq> 0x29"
        "(c = 0x24 \<and> chr pat (p + 1) = 0) = False"
        using c by auto
      then show ?thesis using ep(1) unfolding runs.simps [of src pat s p] Let_def c(1)
        by (simp only: if_False sum.case)
    qed
    have I: "ok E (match_item src pat rec ms' t q) (allowed (length src) (caps ms) s (runs src pat t q (caps ms)))"
      if "p < q" "q \<le> length pat" "t \<le> length src" "s \<le> t" "caps ms' = caps ms" for t q ms'
      using goto_init [OF IH [of q t ms'] that(4)] that caps_ok_mono [OF C that(4)] by simp
    show ?thesis unfolding r
    proof (subst ok_simps(2), rule ok_mono [OF item_match_ok [OF E ep(2)]], goal_cases)
      case (1 m)
      have s1: "m \<Longrightarrow> s + 1 \<le> length src" using 1 repeats_pos [of src pat s p ep] by simp
      consider "?k = 0x3F" "\<not> m" | "?k = 0x3F" m | "?k = 0x2A" | "?k = 0x2B" | "?k = 0x2D"
        | "?k \<notin> {0x3F, 0x2A, 0x2B, 0x2D}" by auto
      then show ?case
      proof cases
        case a: 1
        then show ?thesis using 1 e k I [of "ep + 1" s ms] E p by simp
      next
        case a: 2
        have "ok E (with_res (rec ms (s + 1) (ep + 1)) (\<lambda>(ms, r).
                     case r of Some e \<Rightarrow> Inr (ms, Some e) | None \<Rightarrow> match_item src pat rec ms s (ep + 1)))
          (allowed (length src) (caps ms) s (runs src pat (s + 1) (ep + 1) (caps ms) @ runs src pat s (ep + 1) (caps ms)))"
        proof (rule rec_cases' [OF _ _ s1 [OF a(2)] C1], goal_cases)
          case (4 ms')
          then show ?case using I [of "ep + 1" s ms'] e k a p by simp
        qed (use a e k p in auto)
        then show ?thesis using a 1 e k E by simp
      next
        case 3
        then show ?thesis
          using max_expand_ok [OF ep(2), of s ms] e k E p C by (simp del: upt_Suc)
      next
        case 4
        have "ok E (max_expand src pat rec ms (s + 1) p ep) (allowed (length src) (caps ms) s
            (concat (map (\<lambda>i. runs src pat (s + i) (ep + 1) (caps ms)) (rev [1..<?n + 1]))))" if m
        proof -
          have n: "?n = Suc (repeats src pat (s + 1) p ep)"
            using that s1 1 repeats_step [of s src pat p ep] by (auto split: if_splits)
          have "[1..<?n + 1] = map Suc [0..<repeats src pat (s + 1) p ep + 1]"
            by (simp add: n map_Suc_upt del: upt_Suc)
          then have "concat (map (\<lambda>i. runs src pat (s + i) (ep + 1) (caps ms)) (rev [1..<?n + 1])) =
            concat (map (\<lambda>i. runs src pat (s + 1 + i) (ep + 1) (caps ms)) (rev [0..<repeats src pat (s + 1) p ep + 1]))"
            by (simp add: rev_map comp_def del: upt_Suc)
          then show ?thesis
            using goto_init [OF max_expand_ok [OF ep(2) _ _ s1 [OF that] C1], of s] k 4 p e by simp
        qed
        then show ?thesis using 1 4 e k E by (cases m) (auto simp del: upt_Suc)
      next
        case 5
        then show ?thesis
          using min_expand_ok [OF ep(2), of s ms] e k E p C by (simp del: upt_Suc)
      next
        case 6
        then show ?thesis using 1 e I [of ep "s + 1" ms] E s1 by auto
      qed
    qed
  qed
  then have "ok E (with_res (classend pat p) (\<lambda>ep. with_res (item_match src pat s p ep) (\<lambda>m.
             with_char pat ep (\<lambda>k.
               if k = 0x3F then
                 if m then
                   with_res (rec ms (s + 1) (ep + 1)) (\<lambda>(ms, r).
                     case r of Some e \<Rightarrow> Inr (ms, Some e) | None \<Rightarrow> match_item src pat rec ms s (ep + 1))
                 else match_item src pat rec ms s (ep + 1)
               else if k = 0x2A then max_expand src pat rec ms s p ep
               else if k = 0x2B then if m then max_expand src pat rec ms (s + 1) p ep else Inr (ms, None)
               else if k = 0x2D then min_expand src pat rec ms s p ep
               else if m then match_item src pat rec ms (s + 1) ep
               else Inr (ms, None)))))
     (allowed (length src) (caps ms) s (runs src pat s p (caps ms)))"
    by (subst ok_simps(2)) (rule ok_mono [OF classend_ok [OF E l]])
  then show ?thesis using c l E by (subst match_item.simps) (auto simp: Let_def)
qed

lemma match_item_ok:
  "p0 \<le> p \<Longrightarrow> p \<le> length pat \<Longrightarrow> s \<le> length src \<Longrightarrow> caps_ok s (caps ms) \<Longrightarrow>
   ok E (match_item src pat rec ms s p) (allowed (length src) (caps ms) s (runs src pat s p (caps ms)))"
proof (induction "length pat - p" arbitrary: ms s p rule: less_induct)
  case less
  let ?c = "chr pat p" and ?d = "chr pat (p + 1)"
  have IH: "ok E (match_item src pat rec ms t q) (allowed (length src) (caps ms) t (runs src pat t q (caps ms)))"
    if "p < q" "q \<le> length pat" "t \<le> length src" "caps_ok t (caps ms)" for t q ms
    using less.hyps [of q t ms] less.prems that by simp
  have l: "?c \<noteq> 0 \<Longrightarrow> p < length pat" and l1: "?d \<noteq> 0 \<Longrightarrow> p + 1 < length pat" by (auto simp: chr_nz)
  consider "?c = 0" | "?c = 0x28" | "?c = 0x29" | "?c = L_ESC" "?d = 0x62" | "?c = L_ESC" "?d = 0x66"
    | "?c = L_ESC" "?d \<noteq> 0x62" "?d \<noteq> 0x66" "lj_char_isdigit (uint ?d)" | "?c = 0x24" "?d = 0"
    | "?c \<notin> {0, 0x28, 0x29}" "?c = L_ESC \<longrightarrow> ?d \<notin> {0x62, 0x66} \<and> \<not> lj_char_isdigit (uint ?d)" "\<not> (?c = 0x24 \<and> ?d = 0)"
    by auto
  then show ?case
  proof cases
    case 1
    then show ?thesis using less.prems E
      by (subst match_item.simps, subst runs.simps) (simp add: Let_def)
  next
    case 2
    then show ?thesis using less.prems E l l1
      by (subst match_item.simps, subst runs.simps) (auto simp: Let_def intro!: start_capture_ok)
  next
    case 3
    have "ok E (match_item src pat rec ms s p) Q = ok E (end_capture rec ms s (p + 1)) Q" for Q
      using 3 E l by (subst match_item.simps) (simp add: Let_def)
    moreover have "runs src pat s p (caps ms) = (case last_open (caps ms) of None \<Rightarrow> []
       | Some l \<Rightarrow> runs src pat s (p + 1) ((caps ms)[l := (fst (caps ms ! l), int s - int (fst (caps ms ! l)))]))"
      using 3 by (subst runs.simps) (simp add: Let_def)
    ultimately show ?thesis using 3 l less.prems end_capture_ok [of "p + 1" s ms] by simp
  next
    case 4
    then show ?thesis using balance_case less.prems IH by blast
  next
    case 5
    then show ?thesis using frontier_case less.prems IH by blast
  next
    case 6
    then show ?thesis using backref_case [OF 6(1) refl 6(2-4)] less.prems IH by blast
  next
    case 7
    then show ?thesis using less.prems E l
      by (subst match_item.simps, subst runs.simps) (auto simp: Let_def)
  next
    case 8
    then show ?thesis using item_case [OF refl 8] less.prems IH by blast
  qed
qed

end

section \<open>The matcher\<close>

text \<open>
  A recursive call is always further in the pattern. So the limit on the depth is only reached by
  patterns with at least as many characters.
\<close>

lemma match_at_matcher:
  "internal E \<Longrightarrow> ERR_STRPATX \<in> E \<longrightarrow> length pat \<le> n + p0 \<Longrightarrow> matcher src pat (match_at src pat n) E p0"
proof (induction n arbitrary: p0)
  case 0
  then show ?case by unfold_locales (auto simp: ok_def)
next
  case (Suc n)
  show ?case
  proof (unfold_locales, goal_cases)
    case (2 p s ms)
    then have "matcher src pat (match_at src pat n) E p" using Suc by auto
    then show ?case using matcher.match_item_ok [of src pat "match_at src pat n" E p p s ms] 2 by simp
  qed (rule Suc.prems)
qed

interpretation level: matcher src pat "match_at src pat n" "{StrayRead}" p0 for src pat n p0
  by (rule match_at_matcher) (auto simp: internal_def)

interpretation deep: matcher src pat "match_at src pat (length pat)" "{StrayRead, ERR_STRPATX}" 0 for src pat
  by (rule match_at_matcher) (auto simp: internal_def)

lemma match_at_ok:
  "p \<le> length pat \<Longrightarrow> s \<le> length src \<Longrightarrow> caps_ok s (caps ms) \<Longrightarrow>
   ok {StrayRead} (match_at src pat n ms s p) (allowed (length src) (caps ms) s (runs src pat s p (caps ms)))"
  using level.match_item_ok [of p p pat s src ms] by (cases n) (auto simp: ok_def)

lemma match_init [simp]: "caps match_init = []" "caps_ok s []"
  by (simp_all add: match_init_def caps_def caps_ok_def)

lemma do_match_ok:
  "p \<le> length pat \<Longrightarrow> s \<le> length src \<Longrightarrow>
   ok {StrayRead} (do_match src pat s p) (allowed (length src) [] s (runs src pat s p []))"
  using match_at_ok [of p pat s src match_init] by (simp add: do_match_def)

text \<open>
  C4: Started with captures that lie before the position, the matcher returns the first of the ways the
  reference lists, with its captures; when there is none it fails, with the captures as they were.
\<close>

theorem match_first_run:
  assumes "match_at src pat n ms s p = Inr (ms', r)"
    and "p \<le> length pat" "s \<le> length src" "caps_ok s (caps ms)"
  shows "case runs src pat s p (caps ms) of
      [] \<Rightarrow> r = None \<and> caps ms' = caps ms
    | (cs, e) # _ \<Rightarrow> r = Some e \<and> caps ms' = cs"
  using match_at_ok [OF assms(2-4), of n] assms(1) by (auto simp: ok_def allowed_def split: list.splits)

text \<open>Executable checks of an outcome, for the examples.\<close>

fun found :: "mres \<Rightarrow> nat option \<Rightarrow> caps \<Rightarrow> bool" where
  "found (Inr (ms, r)) r' cs \<longleftrightarrow> r = r' \<and> caps ms = cs"
| "found (Inl e) r' cs \<longleftrightarrow> False"

lemma foundE: "found m r cs \<Longrightarrow> \<exists>ms. m = Inr (ms, r) \<and> caps ms = cs"
  by (cases m) auto

lemma match_first_run_witness:
  "case runs [0x61, 0x62] [0x28, 0x2E, 0x29, 0x62] 0 0 [] of
      [] \<Rightarrow> False
    | (cs, e) # _ \<Rightarrow> e = 2 \<and> cs = [(0, 1)]"
proof -
  have "found (match_at [0x61, 0x62] [0x28, 0x2E, 0x29, 0x62] 3 match_init 0 0) (Some 2) [(0, 1)]"
    by code_simp
  then obtain ms where "match_at [0x61, 0x62] [0x28, 0x2E, 0x29, 0x62] 3 match_init 0 0 = Inr (ms, Some 2)"
    "caps ms = [(0, 1)]" by (auto dest: foundE)
  then show ?thesis using match_first_run [of "[0x61, 0x62]" "[0x28, 0x2E, 0x29, 0x62]" 3 match_init 0 0 ms "Some 2"]
    by (auto split: list.splits)
qed



text \<open>
  C20: A pattern shorter than \<open>LJ_MAX_XLEVEL\<close> never exceeds the limit on the depth of the recursion.
\<close>

theorem match_depth:
  assumes "length pat < LJ_MAX_XLEVEL" "p \<le> length pat" "s \<le> length src"
  shows "do_match src pat s p \<noteq> Inl ERR_STRPATX"
proof -
  have "matcher src pat (match_at src pat (LJ_MAX_XLEVEL - 1)) {StrayRead, ERR_STRPATX} 0"
    by (rule match_at_matcher) (use assms in \<open>auto simp: internal_def\<close>)
  then have "ok {StrayRead, ERR_STRPATX} (match_item src pat (match_at src pat (LJ_MAX_XLEVEL - 1)) match_init s p)
      (allowed (length src) [] s (runs src pat s p []))"
    using matcher.match_item_ok [of src pat _ _ 0 p s match_init] assms by simp
  moreover have "match_at src pat LJ_MAX_XLEVEL = match_at src pat (Suc (LJ_MAX_XLEVEL - 1))"
    by (simp add: LJ_MAX_XLEVEL_def)
  ultimately show ?thesis by (auto simp: do_match_def ok_def)
qed

lemma match_depth_witness: "do_match [0x61] [0x2E, 0x2A] 0 0 \<noteq> Inl ERR_STRPATX"
  by (rule match_depth) (simp_all add: LJ_MAX_XLEVEL_def)

end
