(* ===== verification/Lib_Match_Funcs.thy ===== *)
theory Lib_Match_Funcs
  imports Lib_Match_Props
begin

text \<open>
  The functions of the string library that use the matcher: progress of \<open>string.gmatch\<close>, the text that
  \<open>string.gsub\<close> keeps, the fixed search of \<open>string.find\<close> against the matcher, and the balanced
  strings of \<open>%b\<close>.
\<close>

lemma do_match_cases:
  assumes "do_match src pat s p = Inr (ms, r)" "p \<le> length pat" "s \<le> length src"
  shows "r = Some e \<Longrightarrow> s \<le> e \<and> e \<le> length src \<and> caps_ok e (caps ms)"
    and "r = None \<Longrightarrow> caps ms = []"
  using do_match_ok [OF assms(2,3)] assms(1) by (auto simp: ok_def allowed_def split: list.splits)

lemma no_stray:
  "with_res r k \<noteq> Inl StrayRead \<longleftrightarrow> r \<noteq> Inl StrayRead \<and> (\<forall>x. r = Inr x \<longrightarrow> k x \<noteq> Inl StrayRead)"
  by (auto simp: with_res_def split: sum.splits)

lemma with_res_Inr: "with_res r k = Inr y \<longleftrightarrow> (\<exists>x. r = Inr x \<and> k x = Inr y)"
  by (auto simp: with_res_def split: sum.splits)

section \<open>string.gmatch\<close>

lemma gmatch_progress:
  "gmatch_aux str pat src = Inr (Some (pos, cs)) \<Longrightarrow> src < pos \<and> pos \<le> length str + 1"
proof (induction str pat src rule: gmatch_aux.induct)
  case (1 str pat src)
  then show ?case
    by (subst (asm) (2) gmatch_aux.simps)
      (fastforce simp: with_res_Inr Let_def dest: do_match_cases split: if_splits option.splits prod.splits)
qed

text \<open>
  C14: Iterating over the matches of a string of length \<open>n\<close> ends after at most \<open>n + 1\<close> results, even for
  patterns that match the empty string.
\<close>

theorem gmatch_ends:
  assumes "pos 0 = 0"
    and "\<forall>i < n. \<exists>cs. gmatch_aux str pat (pos i) = Inr (Some (pos (Suc i), cs))"
  shows "n \<le> length str + 1"
proof -
  have "i \<le> pos i \<and> (0 < i \<longrightarrow> pos i \<le> length str + 1)" if "i \<le> n" for i
    using that
  proof (induction i)
    case (Suc i)
    then obtain cs where "gmatch_aux str pat (pos i) = Inr (Some (pos (Suc i), cs))"
      using assms(2) Suc.prems by (meson Suc_le_lessD)
    then show ?case using Suc gmatch_progress [of str pat "pos i" "pos (Suc i)"] by auto
  qed simp
  from this [of n] show ?thesis by (cases "n = 0") auto
qed

lemma gmatch_ends_witness: "(2::nat) \<le> length [0x61 :: byte] + 1"
proof (rule gmatch_ends [where pos = "\<lambda>i. i" and pat = "[]"])
  have "gmatch_aux [0x61] [] 0 = Inr (Some (1, [CapStr []]))" "gmatch_aux [0x61] [] 1 = Inr (Some (2, [CapStr []]))"
    by code_simp+
  then show "\<forall>i < 2. \<exists>cs. gmatch_aux [0x61] [] i = Inr (Some (Suc i, cs))"
    by (auto simp: less_Suc_eq numeral_2_eq_2)
qed simp

section \<open>string.gsub\<close>

lemma substr_drop: "s \<le> e \<Longrightarrow> e \<le> length src \<Longrightarrow> substr src s (e - s) @ drop e src = drop s src"
  by (metis append_take_drop_id drop_drop le_add_diff_inverse2 substr_def)

text \<open>A replacement that puts back what was matched.\<close>

definition repl_keeps :: "(nat \<Rightarrow> bytes) \<Rightarrow> repl \<Rightarrow> bytes \<Rightarrow> bool" where
  "repl_keeps num r src \<longleftrightarrow> (\<forall>ms b s e b'. add_value num r src ms b s e = Inr b' \<longrightarrow> b' = b @ substr src s (e - s))"

lemma keeps_false: "repl_keeps num (RFunction (\<lambda>_. Falsy)) src" "repl_keeps num (RTable (\<lambda>_. Falsy)) src"
  by (auto simp: repl_keeps_def add_value_def with_res_Inr)

lemma keeps_whole: "repl_keeps num (RString [L_ESC, 0x30]) src"
proof -
  have "lj_char_isdigit (uint (0x30 :: byte))" by (simp add: lj_char_isdigit_iff)
  then show ?thesis
    by (simp add: repl_keeps_def add_value_def add_s.simps [of num src _ "[L_ESC, 0x30]" 0]
      add_s.simps [of num src _ "[L_ESC, 0x30]" "Suc (Suc 0)"] with_char_def)
qed

lemma gsub_loop_keeps:
  assumes "repl_keeps num r src" "p \<le> length pat"
  shows "gsub_loop num r src pat anchor p max_s b n s = Inr (b', n', s') \<Longrightarrow> s \<le> length src \<Longrightarrow>
    b' @ drop s' src = b @ drop s src \<and> int n' \<le> max (int n) max_s \<and> n' + s \<le> n + length src + 1"
proof (induction "length src - s" arbitrary: b n s rule: less_induct)
  case less
  show ?case
  proof (cases "int n < max_s")
    case False
    then show ?thesis using less.prems by (subst (asm) gsub_loop.simps) simp
  next
    case True
    obtain ms m where m: "do_match src pat s p = Inr (ms, m)"
      using less.prems(1) True by (subst (asm) gsub_loop.simps) (auto simp: with_res_Inr)
    have av: "add_value num r src ms b s e = Inr (b @ substr src s (e - s))" if "m = Some e" for e
      using less.prems(1) True m that assms(1)
      by (subst (asm) gsub_loop.simps) (auto simp: with_res_Inr repl_keeps_def)
    define b1 n1 where "b1 = (case m of Some e \<Rightarrow> b @ substr src s (e - s) | None \<Rightarrow> b)"
      and "n1 = (case m of Some e \<Rightarrow> n + 1 | None \<Rightarrow> n)"
    have "gsub_loop num r src pat anchor p max_s b n s = (case (case m of Some e \<Rightarrow> if e > s then Some (b1, e) else None | None \<Rightarrow> None) of
                Some (b, e) \<Rightarrow> if anchor then Inr (b, n1, e) else if e \<le> length src then gsub_loop num r src pat anchor p max_s b n1 e
                   else Inl StrayRead
              | None \<Rightarrow>
                  if s < length src then
                    if anchor then Inr (b1 @ [src ! s], n1, s + 1)
                    else gsub_loop num r src pat anchor p max_s (b1 @ [src ! s]) n1 (s + 1)
                  else Inr (b1, n1, s))"
      using True m av by (subst gsub_loop.simps) (cases m, simp_all add: with_res_def b1_def n1_def)
    note r = this [unfolded less.prems(1)]
    have n1: "int n1 \<le> max (int n) max_s" "n1 \<le> n + 1" using True by (auto simp: n1_def split: option.splits)
    have b1: "b1 @ drop (case m of Some e \<Rightarrow> e | None \<Rightarrow> s) src = b @ drop s src"
      using do_match_cases(1) [OF m assms(2) less.prems(2)] by (auto simp: b1_def substr_drop split: option.splits)
    show ?thesis
    proof (cases "\<exists>e. m = Some e \<and> e > s")
      case True
      then obtain e where e: "m = Some e" "s < e" by blast
      then have el: "e \<le> length src" using do_match_cases(1) [OF m assms(2) less.prems(2)] by blast
      have "length src - e < length src - s" using e el by arith
      then show ?thesis using r n1 b1 e el less.hyps [of e b1 n1] by (auto split: if_splits)
    next
      case False
      then have z: "(case m of Some e \<Rightarrow> if e > s then Some (b1, e) else None | None \<Rightarrow> None) = None"
        "(case m of Some e \<Rightarrow> e | None \<Rightarrow> s) = s"
        using do_match_cases(1) [OF m assms(2) less.prems(2)] by (auto split: option.splits)
      show ?thesis
      proof (cases "s < length src")
        case True
        then have "src ! s # drop (s + 1) src = drop s src" "length src - (s + 1) < length src - s"
          by (auto simp: Cons_nth_drop_Suc)
        then show ?thesis using r z n1 b1 True less.hyps [of "s + 1" "b1 @ [src ! s]" n1]
          by (auto split: if_splits)
      qed (use r z n1 b1 less.prems(2) in auto)
    qed
  qed
qed

text \<open>
  C21: Substituting the matches by themselves, with a function or table that gives false or nil or with
  the replacement \<open>%0\<close>, gives the subject unchanged, and counts at most \<open>max_s\<close> and at most one match
  more than the subject has characters.
\<close>

theorem gsub_keeps:
  assumes "string_gsub num src pat r max_s = Inr (b, n)"
    and "r = RFunction (\<lambda>_. Falsy) \<or> r = RTable (\<lambda>_. Falsy) \<or> r = RString [L_ESC, 0x30]"
  shows "b = src \<and> int n \<le> max 0 max_s \<and> n \<le> length src + 1"
proof -
  have k: "repl_keeps num r src" using assms(2) keeps_false keeps_whole by auto
  obtain b' s' where l: "gsub_loop num r src pat (chr pat 0 = 0x5E) (if chr pat 0 = 0x5E then 1 else 0) max_s [] 0 0 = Inr (b', n, s')"
    and b: "b = b' @ drop s' src"
    using assms(1) by (auto simp: string_gsub_def with_char_def chr_def with_res_Inr Let_def split: if_splits)
  have "(if chr pat 0 = 0x5E then 1 else 0) \<le> length pat" using chr_nz [of pat 0] by (auto simp: Suc_le_eq)
  then show ?thesis using gsub_loop_keeps [OF k _ l] b by simp
qed

lemma gsub_keeps_witness: "[0x61, 0x62] = [0x61, 0x62 :: byte] \<and> (2::int) \<le> max 0 9 \<and> (2::nat) \<le> 2 + 1"
proof -
  have "string_gsub (\<lambda>_. []) [0x61, 0x62] [0x2E] (RString [L_ESC, 0x30]) 9 = Inr ([0x61, 0x62], 2)"
    by code_simp
  from gsub_keeps [OF this] show ?thesis by simp
qed

section \<open>Balanced strings\<close>

text \<open>The number of openings without a closing in \<open>[s, t)\<close>.\<close>

definition opened :: "bytes \<Rightarrow> byte \<Rightarrow> byte \<Rightarrow> nat \<Rightarrow> nat \<Rightarrow> int" where
  "opened src b e s t = (\<Sum>i \<in> {s..<t}. if src ! i = e then - 1 else if src ! i = b then 1 else 0)"

lemma opened_Suc:
  "s < t \<Longrightarrow> opened src b e s t =
     (if src ! s = e then - 1 else if src ! s = b then 1 else 0) + opened src b e (Suc s) t"
  by (simp add: opened_def sum.atLeast_Suc_lessThan)

lemma balance_loop_spec:
  "balance_loop src b e s n = Inr r \<Longrightarrow> 0 < n \<Longrightarrow>
   r = Some t \<longleftrightarrow> Suc s < t \<and> t \<le> length src \<and> int n + opened src b e (Suc s) t = 0 \<and>
     (\<forall>u. Suc s < u \<and> u < t \<longrightarrow> int n + opened src b e (Suc s) u \<noteq> 0)"
proof (induction "length src - s" arbitrary: s n rule: less_induct)
  case less
  let ?o = "opened src b e (Suc s)"
  show ?case
  proof (cases "Suc s < length src")
    case False
    then show ?thesis using less.prems by (subst (asm) balance_loop.simps) (auto simp: Let_def)
  next
    case True
    define d :: int where "d = (if src ! Suc s = e then - 1 else if src ! Suc s = b then 1 else 0)"
    have o: "?o u = d + opened src b e (Suc (Suc s)) u" if "Suc s < u" for u
      using opened_Suc [OF that, of src b e] by (simp add: d_def)
    have o2: "?o (Suc (Suc s)) = d" using o [of "Suc (Suc s)"] by (simp add: opened_def)
    show ?thesis
    proof (cases "src ! Suc s = e \<and> n = 1")
      case e: True
      then have "r = Some (Suc (Suc s))" using less.prems True
        by (subst (asm) balance_loop.simps) (auto simp: Let_def with_char_def)
      then show ?thesis using e True o2
        by (auto simp: d_def less_Suc_eq)
    next
      case F: False
      define m where "m = nat (int n + d)"
      have m: "int m = int n + d" "0 < m" using F less.prems(2) by (auto simp: m_def d_def split: if_splits)
      have l: "balance_loop src b e (Suc s) m = Inr r"
        using less.prems True F by (subst (asm) balance_loop.simps)
           (auto simp: Let_def with_char_def m_def d_def nat_diff_distrib nat_add_distrib split: if_splits)
      have IH: "r = Some t \<longleftrightarrow> Suc (Suc s) < t \<and> t \<le> length src \<and> int m + opened src b e (Suc (Suc s)) t = 0 \<and>
         (\<forall>u. Suc (Suc s) < u \<and> u < t \<longrightarrow> int m + opened src b e (Suc (Suc s)) u \<noteq> 0)"
        by (rule less.hyps [OF _ l m(2)]) (use True in auto)
      have ne: "int n + ?o (Suc (Suc s)) \<noteq> 0" using o2 m by simp
      have eq: "int n + ?o u = int m + opened src b e (Suc (Suc s)) u" if "Suc s < u" for u
        using o [OF that] m by simp
      have "Suc (Suc s) < t" if "Suc s < t" "int n + ?o t = 0" for t
        using that ne by (metis Suc_lessI)
      then show ?thesis unfolding IH using eq ne
        by (metis Suc_lessD Suc_lessI)
    qed
  qed
qed

text \<open>
  C22: \<open>%bxy\<close> matches the shortest text from \<open>s\<close> on that starts with \<open>x\<close> and closes every \<open>x\<close> with a \<open>y\<close>.
\<close>

theorem matchbalance_shortest:
  assumes "matchbalance src pat s p = Inr r" "pat ! p \<noteq> pat ! (p + 1)" "p + 1 < length pat" "s < length src"
  shows "r = Some t \<longleftrightarrow> src ! s = pat ! p \<and> s < t \<and> t \<le> length src \<and>
     opened src (pat ! p) (pat ! (p + 1)) s t = 0 \<and>
     (\<forall>u. s < u \<and> u < t \<longrightarrow> opened src (pat ! p) (pat ! (p + 1)) s u \<noteq> 0)"
proof (cases "src ! s = pat ! p")
  case True
  let ?o = "opened src (pat ! p) (pat ! (p + 1))"
  have "balance_loop src (pat ! p) (pat ! (p + 1)) s 1 = Inr r"
    using assms True by (auto simp: matchbalance_def with_char_def split: if_splits)
  from balance_loop_spec [OF this, of t]
  have b: "r = Some t \<longleftrightarrow> Suc s < t \<and> t \<le> length src \<and> 1 + ?o (Suc s) t = 0 \<and>
     (\<forall>u. Suc s < u \<and> u < t \<longrightarrow> 1 + ?o (Suc s) u \<noteq> 0)" by simp
  have o: "?o s u = 1 + ?o (Suc s) u" if "s < u" for u
    using opened_Suc [OF that] True assms(2) by simp
  have o1: "?o s (Suc s) = 1" using o [of "Suc s"] by (simp add: opened_def)
  have "Suc s < u" if "s < u" "?o s u = 0" for u using that o1 by (metis Suc_lessI zero_neq_one)
  then show ?thesis unfolding b using True o o1 by (metis Suc_lessD Suc_lessI zero_neq_one)
next
  case False
  then show ?thesis using assms by (auto simp: matchbalance_def with_char_def split: if_splits)
qed

lemma matchbalance_shortest_witness:
  "opened [0x28, 0x28, 0x29, 0x29, 0x29] 0x28 0x29 0 4 = 0"
proof -
  have "matchbalance [0x28, 0x28, 0x29, 0x29, 0x29] [0x28, 0x29] 0 0 = Inr (Some 4)" by code_simp
  from matchbalance_shortest [OF this, of 4] show ?thesis by simp
qed

section \<open>Fixed search\<close>

text \<open>A pattern of plain characters from \<open>p\<close> on.\<close>

definition plain_char :: "byte \<Rightarrow> bool" where
  "plain_char c \<longleftrightarrow> c \<notin> set pattern_chars \<and> c \<noteq> 0 \<and> c \<noteq> 0x29"

lemma plain_item:
  assumes "\<forall>c \<in> set pat. plain_char c" "p < length pat" "s \<le> length src"
  shows "match_item src pat rec ms s p =
    (if s < length src \<and> src ! s = pat ! p then match_item src pat rec ms (s + 1) (p + 1) else Inr (ms, None))"
proof -
  have c: "plain_char (pat ! p)" "p + 1 < length pat \<longrightarrow> plain_char (pat ! (p + 1))" using assms by auto
  show ?thesis
    using c assms(2,3)
    by (subst match_item.simps)
      (auto simp: plain_char_def pattern_chars_def with_char_def with_res_def Let_def classend_def
         item_match_def singlematch_def)
qed

lemma plain_match:
  assumes "\<forall>c \<in> set pat. plain_char c"
  shows "p \<le> length pat \<Longrightarrow> s \<le> length src \<Longrightarrow> match_item src pat rec ms s p =
    Inr (ms, if take (length pat - p) (drop s src) = drop p pat then Some (s + (length pat - p)) else None)"
proof (induction "length pat - p" arbitrary: p s)
  case 0
  then show ?case by (subst match_item.simps) (simp add: with_char_def Let_def)
next
  case (Suc n)
  then have p: "p < length pat" "length pat - p = Suc n" "length pat - (p + 1) = n" by auto
  have d: "drop p pat = pat ! p # drop (p + 1) pat" using p by (simp add: Cons_nth_drop_Suc)
  show ?case
  proof (cases "s < length src \<and> src ! s = pat ! p")
    case True
    then have "drop s src = src ! s # drop (s + 1) src" by (metis Cons_nth_drop_Suc Suc_eq_plus1)
    then show ?thesis using True Suc p d plain_item [OF assms p(1) Suc.prems(2)] Suc.hyps(1) [of "p + 1" "s + 1"]
      by auto
  next
    case False
    have "take (length pat - p) (drop s src) \<noteq> drop p pat"
    proof
      assume t: "take (length pat - p) (drop s src) = drop p pat"
      then have "drop s src \<noteq> []" using p d by auto
      then have "s < length src" by simp
      then have "drop s src = src ! s # drop (s + 1) src" by (metis Cons_nth_drop_Suc Suc_eq_plus1)
      then show False using t p d False \<open>s < length src\<close> by simp
    qed
    then show ?thesis using False plain_item [OF assms p(1) Suc.prems(2)] by auto
  qed
qed

lemma plain_find_loop:
  assumes "\<forall>c \<in> set pat. plain_char c"
  shows "s \<le> length src \<Longrightarrow> find_loop src pat s 0 False True =
    (case lj_str_find (drop s src) pat of
       Some q \<Rightarrow> Inr (FindAt (s + q + 1) (s + q + length pat) []) | None \<Rightarrow> Inr NotFound)"
proof (induction "length src - s" arbitrary: s rule: less_induct)
  case less
  have m: "do_match src pat s 0 = Inr (match_init, if occurs_at (drop s src) pat 0 then Some (s + length pat) else None)"
    using plain_match [OF assms, of 0 s src] less.prems
    by (simp add: do_match_def LJ_MAX_XLEVEL_def numeral_eq_Suc occurs_at_def)
  have c: "push_captures src match_init None = Inr []" by (simp add: push_captures_def match_init_def)
  show ?case
  proof (cases "occurs_at (drop s src) pat 0")
    case True
    then have "lj_str_find (drop s src) pat = Some 0" by (simp add: lj_str_find_spec)
    then show ?thesis using m c True by (subst find_loop.simps) (simp add: with_res_def)
  next
    case False
    show ?thesis
    proof (cases "s < length src")
      case True
      have sh: "occurs_at (drop s src) pat (Suc j) = occurs_at (drop (s + 1) src) pat j" for j
        by (simp add: occurs_at_def add.commute)
      have "lj_str_find (drop s src) pat = map_option Suc (lj_str_find (drop (s + 1) src) pat)"
      proof (cases "lj_str_find (drop (s + 1) src) pat")
        case None
        then have "\<not> occurs_at (drop (s + 1) src) pat j" for j
          by (induction j rule: less_induct) (metis lj_str_find_spec option.distinct(1))
        then have "\<not> occurs_at (drop s src) pat j" for j using sh False by (cases j) auto
        then show ?thesis using None lj_str_find_spec [of "drop s src" pat] by (cases "lj_str_find (drop s src) pat") auto
      next
        case (Some q)
        then have "occurs_at (drop s src) pat (Suc q) \<and> (\<forall>j < Suc q. \<not> occurs_at (drop s src) pat j)"
          using sh False by (auto simp: lj_str_find_spec less_Suc_eq_0_disj)
        then have "lj_str_find (drop s src) pat = Some (Suc q)" by (subst lj_str_find_spec)
        then show ?thesis using Some by simp
      qed
      then show ?thesis using m False True less.hyps [of "s + 1"]
        by (subst find_loop.simps) (auto simp: with_res_def split: option.splits)
    next
      case F: False
      then have "\<not> occurs_at (drop s src) pat j" for j
        using False less.prems by (auto simp: occurs_at_def)
      then have "lj_str_find (drop s src) pat = None"
        using lj_str_find_spec [of "drop s src" pat] by (cases "lj_str_find (drop s src) pat") auto
      then show ?thesis using m False F by (subst find_loop.simps) (simp add: with_res_def)
    qed
  qed
qed

text \<open>
  C23: For a pattern without special characters, \<open>)\<close> and NUL, the fixed search \<open>string.find\<close> switches to
  gives the result the matcher would give at the same start.
\<close>

theorem find_fixed_search:
  assumes "\<forall>c \<in> set pat. c \<notin> set pattern_chars \<and> c \<noteq> 0 \<and> c \<noteq> 0x29"
    and "1 \<le> start" "start - 1 \<le> int (length src)"
  shows "str_find_aux src pat start plain True = find_loop src pat (nat (start - 1)) 0 False True"
proof -
  have "\<not> lj_str_haspattern pat" using assms(1) by (simp add: haspattern_iff)
  then show ?thesis
    using plain_find_loop [of pat "nat (start - 1)" src] assms
    by (auto simp: str_find_aux_def Let_def plain_char_def)
qed

lemma find_fixed_search_witness:
  "str_find_aux [0x61, 0x62, 0x63] [0x62, 0x63] 1 False True = find_loop [0x61, 0x62, 0x63] [0x62, 0x63] 0 0 False True"
  using find_fixed_search [of "[0x62, 0x63]" 1 "[0x61, 0x62, 0x63]" False] by (simp add: pattern_chars_def)

section \<open>Class letters\<close>

text \<open>The bytes of the class with a lower case letter, in ASCII.\<close>

definition class_letters :: "(byte \<times> (byte \<Rightarrow> bool)) list" where
  "class_letters =
     [(0x61, \<lambda>c. 0x41 \<le> c \<and> c \<le> 0x5A \<or> 0x61 \<le> c \<and> c \<le> 0x7A),
      (0x63, \<lambda>c. c < 0x20 \<or> c = 0x7F),
      (0x64, \<lambda>c. 0x30 \<le> c \<and> c \<le> 0x39),
      (0x67, \<lambda>c. 0x21 \<le> c \<and> c \<le> 0x7E),
      (0x6C, \<lambda>c. 0x61 \<le> c \<and> c \<le> 0x7A),
      (0x70, \<lambda>c. 0x21 \<le> c \<and> c \<le> 0x2F \<or> 0x3A \<le> c \<and> c \<le> 0x40 \<or> 0x5B \<le> c \<and> c \<le> 0x60 \<or> 0x7B \<le> c \<and> c \<le> 0x7E),
      (0x73, \<lambda>c. 0x09 \<le> c \<and> c \<le> 0x0D \<or> c = 0x20),
      (0x75, \<lambda>c. 0x41 \<le> c \<and> c \<le> 0x5A),
      (0x77, \<lambda>c. 0x30 \<le> c \<and> c \<le> 0x39 \<or> 0x41 \<le> c \<and> c \<le> 0x5A \<or> 0x61 \<le> c \<and> c \<le> 0x7A),
      (0x78, \<lambda>c. 0x30 \<le> c \<and> c \<le> 0x39 \<or> 0x41 \<le> c \<and> c \<le> 0x46 \<or> 0x61 \<le> c \<and> c \<le> 0x66),
      (0x7A, \<lambda>c. c = 0)]"

lemma isa_or: "lj_char_isa c (s OR t) = 0 \<longleftrightarrow> lj_char_isa c s = 0 \<and> lj_char_isa c t = 0"
  by (auto simp: lj_char_isa_def bit_eq_iff bit_simps)

lemma isa_classes:
  fixes c :: byte
  shows "lj_char_isa (uint c) LJ_CHAR_LOWER = 0 \<longleftrightarrow> \<not> (0x61 \<le> c \<and> c \<le> 0x7A)"
    and "lj_char_isa (uint c) LJ_CHAR_UPPER = 0 \<longleftrightarrow> \<not> (0x41 \<le> c \<and> c \<le> 0x5A)"
    and "lj_char_isa (uint c) LJ_CHAR_DIGIT = 0 \<longleftrightarrow> \<not> (0x30 \<le> c \<and> c \<le> 0x39)"
    and "lj_char_isa (uint c) LJ_CHAR_XDIGIT = 0 \<longleftrightarrow>
      \<not> (0x30 \<le> c \<and> c \<le> 0x39 \<or> 0x41 \<le> c \<and> c \<le> 0x46 \<or> 0x61 \<le> c \<and> c \<le> 0x66)"
    and "lj_char_isa (uint c) LJ_CHAR_SPACE = 0 \<longleftrightarrow> \<not> (0x09 \<le> c \<and> c \<le> 0x0D \<or> c = 0x20)"
    and "lj_char_isa (uint c) LJ_CHAR_CNTRL = 0 \<longleftrightarrow> \<not> (c < 0x20 \<or> c = 0x7F)"
    and "lj_char_isa (uint c) LJ_CHAR_PUNCT = 0 \<longleftrightarrow> \<not> (0x21 \<le> c \<and> c \<le> 0x2F \<or> 0x3A \<le> c \<and> c \<le> 0x40 \<or>
      0x5B \<le> c \<and> c \<le> 0x60 \<or> 0x7B \<le> c \<and> c \<le> 0x7E)"
proof -
  have r: "-1 \<le> uint c" "uint c \<le> 255" using uint_lt2p [of c] order_trans [of "- 1" 0 "uint c"] by simp_all
  note w = word_le_def word_less_def word_uint_eq_iff [of c]
  show "lj_char_isa (uint c) LJ_CHAR_LOWER = 0 \<longleftrightarrow> \<not> (0x61 \<le> c \<and> c \<le> 0x7A)"
    using lj_char_islower_iff [OF r] by (auto simp: lj_char_islower_def w)
  show "lj_char_isa (uint c) LJ_CHAR_UPPER = 0 \<longleftrightarrow> \<not> (0x41 \<le> c \<and> c \<le> 0x5A)"
    using lj_char_isupper_iff [OF r] by (auto simp: lj_char_isupper_def w)
  show "lj_char_isa (uint c) LJ_CHAR_DIGIT = 0 \<longleftrightarrow> \<not> (0x30 \<le> c \<and> c \<le> 0x39)"
    using lj_char_isdigit_iff [OF r] by (auto simp: lj_char_isdigit_def w)
  show "lj_char_isa (uint c) LJ_CHAR_XDIGIT = 0 \<longleftrightarrow>
      \<not> (0x30 \<le> c \<and> c \<le> 0x39 \<or> 0x41 \<le> c \<and> c \<le> 0x46 \<or> 0x61 \<le> c \<and> c \<le> 0x66)"
    using lj_char_isxdigit_iff [OF r] by (auto simp: lj_char_isxdigit_def w)
  show "lj_char_isa (uint c) LJ_CHAR_SPACE = 0 \<longleftrightarrow> \<not> (0x09 \<le> c \<and> c \<le> 0x0D \<or> c = 0x20)"
    using lj_char_isspace_iff [OF r] by (auto simp: lj_char_isspace_def w)
  show "lj_char_isa (uint c) LJ_CHAR_CNTRL = 0 \<longleftrightarrow> \<not> (c < 0x20 \<or> c = 0x7F)"
    using lj_char_iscntrl_iff [OF r] by (auto simp: lj_char_iscntrl_def w)
  show "lj_char_isa (uint c) LJ_CHAR_PUNCT = 0 \<longleftrightarrow> \<not> (0x21 \<le> c \<and> c \<le> 0x2F \<or> 0x3A \<le> c \<and> c \<le> 0x40 \<or>
      0x5B \<le> c \<and> c \<le> 0x60 \<or> 0x7B \<le> c \<and> c \<le> 0x7E)"
    using lj_char_ispunct_iff [OF r] by (auto simp: lj_char_ispunct_def w alnum_range_def)
qed

lemma class_masks: "LJ_CHAR_LOWER \<noteq> 0" "LJ_CHAR_UPPER \<noteq> 0" "LJ_CHAR_DIGIT \<noteq> 0" "LJ_CHAR_XDIGIT \<noteq> 0"
  "LJ_CHAR_SPACE \<noteq> 0" "LJ_CHAR_CNTRL \<noteq> 0" "LJ_CHAR_PUNCT \<noteq> 0" "LJ_CHAR_ALPHA \<noteq> 0" "LJ_CHAR_ALNUM \<noteq> 0" "LJ_CHAR_GRAPH \<noteq> 0"
  by (simp_all add: char_mask_defs LJ_CHAR_ALPHA_def LJ_CHAR_ALNUM_def LJ_CHAR_GRAPH_def)

lemma isa_unions:
  "lj_char_isa c LJ_CHAR_ALPHA = 0 \<longleftrightarrow> lj_char_isa c LJ_CHAR_LOWER = 0 \<and> lj_char_isa c LJ_CHAR_UPPER = 0"
  "lj_char_isa c LJ_CHAR_ALNUM = 0 \<longleftrightarrow> lj_char_isa c LJ_CHAR_ALPHA = 0 \<and> lj_char_isa c LJ_CHAR_DIGIT = 0"
  "lj_char_isa c LJ_CHAR_GRAPH = 0 \<longleftrightarrow> lj_char_isa c LJ_CHAR_ALNUM = 0 \<and> lj_char_isa c LJ_CHAR_PUNCT = 0"
  by (simp_all add: LJ_CHAR_ALPHA_def LJ_CHAR_ALNUM_def LJ_CHAR_GRAPH_def isa_or)

lemma graph_range:
  fixes c :: byte
  shows "0x21 \<le> c \<and> c \<le> 0x7E \<longleftrightarrow> (0x61 \<le> c \<and> c \<le> 0x7A \<or> 0x41 \<le> c \<and> c \<le> 0x5A \<or> 0x30 \<le> c \<and> c \<le> 0x39) \<or>
      0x21 \<le> c \<and> c \<le> 0x2F \<or> 0x3A \<le> c \<and> c \<le> 0x40 \<or> 0x5B \<le> c \<and> c \<le> 0x60 \<or> 0x7B \<le> c \<and> c \<le> 0x7E"
proof -
  have "33 \<le> x \<and> x \<le> 126 \<longleftrightarrow> (97 \<le> x \<and> x \<le> 122 \<or> 65 \<le> x \<and> x \<le> 90 \<or> 48 \<le> x \<and> x \<le> 57) \<or>
      33 \<le> x \<and> x \<le> 47 \<or> 58 \<le> x \<and> x \<le> 64 \<or> 91 \<le> x \<and> x \<le> 96 \<or> 123 \<le> x \<and> x \<le> 126" for x :: int
    by presburger
  from this [of "uint c"] show ?thesis by (simp add: word_le_def)
qed

lemma class_by_map:
  assumes "cl AND 0xC0 = 0x40" "match_class_map ! unat (cl AND 0x1F) = t" "t \<noteq> 0"
  shows "match_class c cl = (if cl AND 0x20 \<noteq> 0 then lj_char_isa (uint c) t \<noteq> 0 else lj_char_isa (uint c) t = 0)"
  using assms by (simp add: match_class_def Let_def)

lemma class_isa:
  "match_class c 0x61 = (lj_char_isa (uint c) LJ_CHAR_ALPHA \<noteq> 0)"
  "match_class c 0x41 = (lj_char_isa (uint c) LJ_CHAR_ALPHA = 0)"
  "match_class c 0x63 = (lj_char_isa (uint c) LJ_CHAR_CNTRL \<noteq> 0)"
  "match_class c 0x43 = (lj_char_isa (uint c) LJ_CHAR_CNTRL = 0)"
  "match_class c 0x64 = (lj_char_isa (uint c) LJ_CHAR_DIGIT \<noteq> 0)"
  "match_class c 0x44 = (lj_char_isa (uint c) LJ_CHAR_DIGIT = 0)"
  "match_class c 0x67 = (lj_char_isa (uint c) LJ_CHAR_GRAPH \<noteq> 0)"
  "match_class c 0x47 = (lj_char_isa (uint c) LJ_CHAR_GRAPH = 0)"
  "match_class c 0x6C = (lj_char_isa (uint c) LJ_CHAR_LOWER \<noteq> 0)"
  "match_class c 0x4C = (lj_char_isa (uint c) LJ_CHAR_LOWER = 0)"
  "match_class c 0x70 = (lj_char_isa (uint c) LJ_CHAR_PUNCT \<noteq> 0)"
  "match_class c 0x50 = (lj_char_isa (uint c) LJ_CHAR_PUNCT = 0)"
  "match_class c 0x73 = (lj_char_isa (uint c) LJ_CHAR_SPACE \<noteq> 0)"
  "match_class c 0x53 = (lj_char_isa (uint c) LJ_CHAR_SPACE = 0)"
  "match_class c 0x75 = (lj_char_isa (uint c) LJ_CHAR_UPPER \<noteq> 0)"
  "match_class c 0x55 = (lj_char_isa (uint c) LJ_CHAR_UPPER = 0)"
  "match_class c 0x77 = (lj_char_isa (uint c) LJ_CHAR_ALNUM \<noteq> 0)"
  "match_class c 0x57 = (lj_char_isa (uint c) LJ_CHAR_ALNUM = 0)"
  "match_class c 0x78 = (lj_char_isa (uint c) LJ_CHAR_XDIGIT \<noteq> 0)"
  "match_class c 0x58 = (lj_char_isa (uint c) LJ_CHAR_XDIGIT = 0)"
  by (simp_all add: class_by_map [OF _ refl] match_class_map_def class_masks)

lemma class_letter:
  assumes "(l, P) \<in> set class_letters"
  shows "match_class c l = P c \<and> match_class c (l - 0x20) = (\<not> P c)"
proof -
  have z: "match_class c 0x7A = (c = 0)" "match_class c 0x5A = (c \<noteq> 0)"
    by (simp_all add: match_class_def match_class_map_def)
  note i = class_isa [of c] z isa_unions isa_classes graph_range
  show ?thesis
    using assms unfolding class_letters_def set_simps insert_iff empty_iff prod.inject
    by (elim disjE conjE FalseE) (simp_all add: i, blast+)
qed

text \<open>
  C24: Every class letter stands for its ASCII class and the upper case letter for the complement.
\<close>

theorem match_class_letters:
  assumes "(l, P) \<in> set class_letters"
  shows "match_class c l = P c \<and> match_class c (l - 0x20) = (\<not> P c)"
  using assms by (rule class_letter)

lemma match_class_letters_witness: "match_class 0x41 0x75 \<and> \<not> match_class 0x41 0x55"
  using match_class_letters [of "0x75" "\<lambda>c. 0x41 \<le> c \<and> c \<le> 0x5A" "0x41"] by (simp add: class_letters_def)

end
