(* ===== verification/Lj_Strfmt.thy ===== *)
theory Lj_Strfmt
  imports Lj_Prelude
begin

text \<open>
  Raw conversions of \<open>src/src/lj_strfmt.c\<close> (integers and ULEB128 values to bytes) and the matching
  ULEB128 reader of \<open>src/src/lj_buf.c\<close>. A writer that advances a \<open>char *\<close> returns the bytes it
  wrote; a reader that advances \<open>const char **\<close> takes the bytes left and returns the rest.
\<close>

section \<open>Integers in decimal\<close>

text \<open>
  The macro \<open>WINT_R(x, sh, sc)\<close>: the digit by reciprocal multiplication and the reduced \<open>x\<close>, in
  32-bit arithmetic.
\<close>

definition WINT_R :: "u32 \<Rightarrow> nat \<Rightarrow> u32 \<Rightarrow> u32 \<times> u32" where
  "WINT_R x sh sc =
     (let d = drop_bit sh (x * ((push_bit sh 1 + sc - 1) div sc)) in (d, x - d * sc))"

definition digit_char :: "u32 \<Rightarrow> byte" where
  "digit_char d = ucast (48 + d)"

text \<open>The labels \<open>dig1\<close> to \<open>dig3\<close> on \<open>u\<close>, and the fall-through that enters them.\<close>

definition dig1 :: "u32 \<Rightarrow> bytes" where
  "dig1 u = [digit_char u]"
definition dig2 :: "u32 \<Rightarrow> bytes" where
  "dig2 u = (let (d, u') = WINT_R u 10 10 in digit_char d # dig1 u')"
definition dig3 :: "u32 \<Rightarrow> bytes" where
  "dig3 u = (let (d, u') = WINT_R u 12 100 in digit_char d # dig2 u')"
definition dig4 :: "u32 \<Rightarrow> bytes" where
  "dig4 u = (let (d, u') = WINT_R u 23 1000 in digit_char d # dig3 u')"

text \<open>The labels \<open>dig5\<close> to \<open>dig7\<close> on \<open>v\<close>; they end in the four digits of \<open>u\<close>.\<close>

definition dig5 :: "u32 \<Rightarrow> u32 \<Rightarrow> bytes" where
  "dig5 v u = digit_char v # dig4 u"
definition dig6 :: "u32 \<Rightarrow> u32 \<Rightarrow> bytes" where
  "dig6 v u = (let (d, v') = WINT_R v 10 10 in digit_char d # dig5 v' u)"
definition dig7 :: "u32 \<Rightarrow> u32 \<Rightarrow> bytes" where
  "dig7 v u = (let (d, v') = WINT_R v 12 100 in digit_char d # dig6 v' u)"
definition dig8 :: "u32 \<Rightarrow> u32 \<Rightarrow> bytes" where
  "dig8 v u = (let (d, v') = WINT_R v 23 1000 in digit_char d # dig7 v' u)"

definition wint_abs :: "u32 \<Rightarrow> bytes" where
  "wint_abs u =
     (if u < 10000 then
        if u < 10 then dig1 u
        else if u < 100 then dig2 u
        else if u < 1000 then dig3 u
        else dig4 u
      else
        let v = u div 10000; u = u - v * 10000 in
        if v < 10000 then
          if v < 10 then dig5 v u
          else if v < 100 then dig6 v u
          else if v < 1000 then dig7 v u
          else dig8 v u
        else
          let w = v div 10000; v = v - w * 10000 in
          if w \<ge> 10 then
            (let (d, w') = WINT_R w 10 10 in digit_char d # digit_char w' # dig8 v u)
          else digit_char w # dig8 v u)"

text \<open>\<open>(uint32_t)-k\<close> is two's complement negation, also for the smallest \<open>k\<close>.\<close>

definition lj_strfmt_wint :: "u32 \<Rightarrow> bytes" where
  "lj_strfmt_wint k = (if sint k < 0 then 45 # wint_abs (- k) else wint_abs k)"

subsection \<open>Reference: positional decimal digits\<close>

fun dec_digits :: "nat \<Rightarrow> bytes" where
  "dec_digits n = (if n < 10 then [of_nat (48 + n)] else dec_digits (n div 10) @ [of_nat (48 + n mod 10)])"

declare dec_digits.simps [simp del]

fun pad_digits :: "nat \<Rightarrow> nat \<Rightarrow> bytes" where
  "pad_digits 0 b = []"
| "pad_digits (Suc k) b = of_nat (48 + b div 10 ^ k) # pad_digits k (b mod 10 ^ k)"

definition dec_int :: "int \<Rightarrow> bytes" where
  "dec_int i = (if i < 0 then 45 # dec_digits (nat (- i)) else dec_digits (nat i))"

lemma dec_digits_less_10: "n < 10 \<Longrightarrow> dec_digits n = [of_nat (48 + n)]"
  by (simp add: dec_digits.simps)

lemma dec_digits_snoc: "0 < a \<Longrightarrow> d < 10 \<Longrightarrow> dec_digits (a * 10 + d) = dec_digits a @ [of_nat (48 + d)]"
  by (subst dec_digits.simps) simp

lemma dec_digits_pad:
  "0 < a \<Longrightarrow> b < 10 ^ k \<Longrightarrow> dec_digits (a * 10 ^ k + b) = dec_digits a @ pad_digits k b"
proof (induction k arbitrary: a b)
  case (Suc k)
  let ?d = "b div 10 ^ k"
  have d: "?d < 10" using Suc.prems(2) by (simp add: less_mult_imp_div_less mult.commute)
  have "a * 10 ^ Suc k + b = (a * 10 + ?d) * 10 ^ k + b mod 10 ^ k"
    by (simp add: algebra_simps)
  then have "dec_digits (a * 10 ^ Suc k + b) = dec_digits (a * 10 + ?d) @ pad_digits k (b mod 10 ^ k)"
    using Suc.IH [of "a * 10 + ?d" "b mod 10 ^ k"] Suc.prems by simp
  then show ?case using dec_digits_snoc [OF Suc.prems(1) d] by simp
qed simp

lemma pad_digits_head:
  assumes "10 ^ k \<le> b" and "b < 10 ^ Suc k"
  shows "dec_digits b = pad_digits (Suc k) b"
proof -
  have "0 < b div 10 ^ k" using assms(1) by (simp add: div_greater_zero_iff)
  then have "dec_digits (b div 10 ^ k * 10 ^ k + b mod 10 ^ k)
      = dec_digits (b div 10 ^ k) @ pad_digits k (b mod 10 ^ k)"
    by (rule dec_digits_pad) simp
  moreover have "b div 10 ^ k < 10" using assms(2) by (simp add: less_mult_imp_div_less mult.commute)
  ultimately show ?thesis by (simp only: div_mult_mod_eq) (simp add: dec_digits_less_10)
qed

subsection \<open>The reciprocal digits are the decimal digits\<close>

lemma unat_of_nat_small: "n < 2 ^ 32 \<Longrightarrow> unat (of_nat n :: u32) = n"
  by (simp add: unat_of_nat)

lemma drop_bit_of_nat_small:
  "n < 2 ^ 32 \<Longrightarrow> drop_bit m (of_nat n :: u32) = of_nat (n div 2 ^ m)"
  using order_le_less_trans [OF div_le_dividend, of n "2 ^ 32" "2 ^ m"]
  by (simp only: word_unat_eq_iff unat_drop_bit_eq unat_of_nat_small drop_bit_eq_div [of m n])

lemma digit_char_of_nat: "d < 100 \<Longrightarrow> digit_char (of_nat d) = of_nat (48 + d)"
  by (simp add: digit_char_def word_unat_eq_iff unat_of_nat unsigned_ucast_eq unat_word_ariths take_bit_eq_mod)

lemma WINT_R_eq:
  assumes "n * m div 2 ^ sh = n div sc" and "n * m < 2 ^ 32" and "(push_bit sh 1 + of_nat sc - 1) div of_nat sc = (of_nat m :: u32)"
    and "n < 2 ^ 32"
  shows "WINT_R (of_nat n) sh (of_nat sc) = (of_nat (n div sc), of_nat (n mod sc))"
proof -
  have "of_nat n * of_nat m = (of_nat (n * m) :: u32)" by simp
  then have d: "drop_bit sh (of_nat n * of_nat m :: u32) = of_nat (n div sc)"
    using drop_bit_of_nat_small [OF assms(2)] assms(1) by simp
  have "n mod sc = n - n div sc * sc" by (simp add: minus_div_mult_eq_mod)
  then have "(of_nat n - of_nat (n div sc) * of_nat sc :: u32) = of_nat (n mod sc)"
    by (simp add: of_nat_diff)
  then show ?thesis using d assms(3) by (simp add: WINT_R_def Let_def)
qed

lemma WINT_R_1000: "n < 10000 \<Longrightarrow> WINT_R (of_nat n) 23 1000 = (of_nat (n div 1000), of_nat (n mod 1000))"
  using WINT_R_eq [of n 8389 23 1000] by simp

lemma WINT_R_100: "n < 1000 \<Longrightarrow> WINT_R (of_nat n) 12 100 = (of_nat (n div 100), of_nat (n mod 100))"
  using WINT_R_eq [of n 41 12 100] by simp

lemma WINT_R_10: "n < 100 \<Longrightarrow> WINT_R (of_nat n) 10 10 = (of_nat (n div 10), of_nat (n mod 10))"
  using WINT_R_eq [of n 103 10 10] by simp

lemmas dig_defs = dig1_def dig2_def dig3_def dig4_def dig5_def dig6_def dig7_def dig8_def

lemma dig1_eq: "n < 10 \<Longrightarrow> dig1 (of_nat n) = pad_digits (Suc 0) n"
  by (simp add: dig1_def digit_char_of_nat)

lemma dig2_eq: "n < 100 \<Longrightarrow> dig2 (of_nat n) = pad_digits (Suc (Suc 0)) n"
  using dig1_eq [of "n mod 10"] by (simp add: dig2_def WINT_R_10 digit_char_of_nat)

lemma dig3_eq: "n < 1000 \<Longrightarrow> dig3 (of_nat n) = pad_digits (Suc (Suc (Suc 0))) n"
  using dig2_eq [of "n mod 100"]
  by (simp add: dig3_def WINT_R_100 digit_char_of_nat less_mult_imp_div_less)

lemma dig4_eq: "n < 10000 \<Longrightarrow> dig4 (of_nat n) = pad_digits (Suc (Suc (Suc (Suc 0)))) n"
  using dig3_eq [of "n mod 1000"]
  by (simp add: dig4_def WINT_R_1000 digit_char_of_nat less_mult_imp_div_less)

lemma dig5_eq: "n < 10 \<Longrightarrow> dig5 (of_nat n) u = pad_digits (Suc 0) n @ dig4 u"
  by (simp add: dig5_def digit_char_of_nat)

lemma dig6_eq: "n < 100 \<Longrightarrow> dig6 (of_nat n) u = pad_digits (Suc (Suc 0)) n @ dig4 u"
  using dig5_eq [of "n mod 10"] by (simp add: dig6_def WINT_R_10 digit_char_of_nat)

lemma dig7_eq: "n < 1000 \<Longrightarrow> dig7 (of_nat n) u = pad_digits (Suc (Suc (Suc 0))) n @ dig4 u"
  using dig6_eq [of "n mod 100"]
  by (simp add: dig7_def WINT_R_100 digit_char_of_nat less_mult_imp_div_less)

lemma dig8_eq: "n < 10000 \<Longrightarrow> dig8 (of_nat n) u = pad_digits (Suc (Suc (Suc (Suc 0)))) n @ dig4 u"
  using dig7_eq [of "n mod 1000"]
  by (simp add: dig8_def WINT_R_1000 digit_char_of_nat less_mult_imp_div_less)

lemma of_nat_less_small: "n < 2 ^ 32 \<Longrightarrow> m < 2 ^ 32 \<Longrightarrow> (of_nat n < (of_nat m :: u32)) = (n < m)"
  by (simp add: word_less_nat_alt unat_of_nat)

lemma pad4: "pad_digits 4 b = pad_digits (Suc (Suc (Suc (Suc 0)))) b"
  by (rule arg_cong [where f = "\<lambda>k. pad_digits k b"]) simp

lemma wint_abs_of_nat:
  assumes "n < 2 ^ 32"
  shows "wint_abs (of_nat n) = dec_digits n"
proof (cases "n < 10000")
  case True
  have c: "(of_nat n < (10000::u32)) = (n < 10000)" "(of_nat n < (10::u32)) = (n < 10)"
    "(of_nat n < (100::u32)) = (n < 100)" "(of_nat n < (1000::u32)) = (n < 1000)"
    using of_nat_less_small [OF assms, of 10000] of_nat_less_small [OF assms, of 10]
      of_nat_less_small [OF assms, of 100] of_nat_less_small [OF assms, of 1000] by simp_all
  consider "n < 10" | "10 \<le> n" "n < 100" | "100 \<le> n" "n < 1000" | "1000 \<le> n" by linarith
  then show ?thesis
  proof cases
    case 1
    then show ?thesis by (simp add: wint_abs_def c dig1_eq dec_digits_less_10)
  next
    case 2
    then show ?thesis using pad_digits_head [of 1 n] by (simp add: wint_abs_def c dig2_eq)
  next
    case 3
    then show ?thesis using pad_digits_head [of 2 n] by (simp add: wint_abs_def c dig3_eq numeral_2_eq_2)
  next
    case 4
    then show ?thesis using True pad_digits_head [of 3 n]
      by (simp add: wint_abs_def c dig4_eq numeral_3_eq_3)
  qed
next
  case False
  let ?v = "n div 10000" and ?u = "n mod 10000"
  have dv: "(of_nat n div 10000 :: u32) = of_nat ?v"
    using assms by (simp add: word_unat_eq_iff unat_div unat_of_nat)
  have v32: "?v < 2 ^ 32" using assms by (simp add: less_mult_imp_div_less)
  have un: "of_nat n - of_nat ?v * 10000 = (of_nat ?u :: u32)"
    by (simp add: minus_div_mult_eq_mod [symmetric] of_nat_diff)
  have d4: "dig4 (of_nat ?u) = pad_digits (Suc (Suc (Suc (Suc 0)))) ?u" by (rule dig4_eq) simp
  have vpos: "0 < ?v" using False by simp
  have split: "dec_digits n = dec_digits ?v @ pad_digits 4 ?u"
    using dec_digits_pad [OF vpos, of ?u 4] by simp
  have p4: "pad_digits 4 ?u = dig4 (of_nat ?u)" using d4 by (simp only: pad4)
  have nf: "(of_nat n < (10000::u32)) = False"
    using of_nat_less_small [OF assms, of 10000] False by simp
  have c: "(of_nat ?v < (10000::u32)) = (?v < 10000)" "(of_nat ?v < (10::u32)) = (?v < 10)"
    "(of_nat ?v < (100::u32)) = (?v < 100)" "(of_nat ?v < (1000::u32)) = (?v < 1000)"
    using of_nat_less_small [OF v32, of 10000] of_nat_less_small [OF v32, of 10]
      of_nat_less_small [OF v32, of 100] of_nat_less_small [OF v32, of 1000] by simp_all
  consider "?v < 10" | "10 \<le> ?v" "?v < 100" | "100 \<le> ?v" "?v < 1000"
    | "1000 \<le> ?v" "?v < 10000" | "10000 \<le> ?v" by linarith
  then show ?thesis
  proof cases
    case 1
    then show ?thesis
      unfolding wint_abs_def Let_def dv un nf c split p4
      by (simp only: if_False if_True dig5_eq dec_digits_less_10) simp
  next
    case 2
    then show ?thesis using pad_digits_head [of 1 ?v]
      unfolding wint_abs_def Let_def dv un nf c split p4
      by (simp only: if_False if_True dig6_eq) simp
  next
    case 3
    then show ?thesis using pad_digits_head [of 2 ?v]
      unfolding wint_abs_def Let_def dv un nf c split p4
      by (simp only: if_False if_True dig7_eq numeral_2_eq_2) simp
  next
    case 4
    then show ?thesis using pad_digits_head [of 3 ?v]
      unfolding wint_abs_def Let_def dv un nf c split p4
      by (simp only: if_False if_True dig8_eq numeral_3_eq_3) simp
  next
    case 5
    let ?w = "?v div 10000" and ?v' = "?v mod 10000"
    have w: "?w < 43" using assms by simp
    have dw: "(of_nat ?v div 10000 :: u32) = of_nat ?w"
      using v32 by (simp add: word_unat_eq_iff unat_div unat_of_nat)
    have vn: "of_nat ?v - of_nat ?w * 10000 = (of_nat ?v' :: u32)"
      by (simp add: minus_div_mult_eq_mod [symmetric] of_nat_diff)
    have cw: "((10::u32) \<le> of_nat ?w) = (10 \<le> ?w)"
      using of_nat_less_small [of ?w 10] w by (simp flip: not_less)
    have wpos: "0 < ?w" using 5 by simp
    have "dec_digits ?v = dec_digits ?w @ pad_digits 4 ?v'"
      using dec_digits_pad [OF wpos, of ?v' 4] by simp
    then have sp: "dec_digits n = dec_digits ?w @ dig8 (of_nat ?v') (of_nat ?u)"
      using split dig8_eq [of ?v' "of_nat ?u"] d4 by (simp only: pad4) simp
    show ?thesis
    proof (cases "10 \<le> ?w")
      case True
      then have "dec_digits ?w = pad_digits (Suc (Suc 0)) ?w"
        using w pad_digits_head [of 1 ?w] by simp
      then show ?thesis using True w 5
        unfolding wint_abs_def Let_def dv un nf c dw vn cw sp
        by (simp add: WINT_R_10 digit_char_of_nat)
    next
      case False
      then show ?thesis using 5
        unfolding wint_abs_def Let_def dv un nf c dw vn cw sp
        by (simp add: digit_char_of_nat dec_digits_less_10)
    qed
  qed
qed

lemma lj_strfmt_wint_decimal_aux: "lj_strfmt_wint k = dec_int (sint k)"
proof (cases "sint k < 0")
  case True
  have e: "- k = of_nat (nat (- sint k))"
    using True by (simp add: of_nat_nat)
  have "nat (- sint k) < 2 ^ 32"
    using sint_ge [of k] by simp
  then have "wint_abs (- k) = dec_digits (nat (- sint k))"
    by (subst e) (rule wint_abs_of_nat)
  then show ?thesis using True by (simp add: lj_strfmt_wint_def dec_int_def)
next
  case False
  have "k = of_nat (nat (sint k))" using False by simp
  moreover have "nat (sint k) < 2 ^ 32"
    using sint_lt [of k] by simp
  ultimately show ?thesis using False wint_abs_of_nat [of "nat (sint k)"]
    by (simp add: lj_strfmt_wint_def dec_int_def)
qed

text \<open>C31: \<open>lj_strfmt_wint\<close>, which avoids division by reciprocal multiplications and jumps into the
  digit chain, writes exactly the decimal representation of its argument, for every 32-bit integer
  including the smallest one.\<close>

theorem lj_strfmt_wint_decimal: "lj_strfmt_wint k = dec_int (sint k)"
  by (rule lj_strfmt_wint_decimal_aux)

lemma length_dec_digits: "n < 10 ^ Suc k \<Longrightarrow> length (dec_digits n) \<le> Suc k"
proof (induction k arbitrary: n)
  case (Suc k)
  show ?case
  proof (cases "n < 10")
    case False
    have "n div 10 < 10 ^ Suc k" using Suc.prems by (simp add: less_mult_imp_div_less)
    then show ?thesis using Suc.IH False by (subst dec_digits.simps) simp
  qed (simp add: dec_digits.simps)
qed (simp add: dec_digits.simps)

text \<open>\<open>STRFMT_MAXBUF_INT\<close> of \<open>src/src/lj_strfmt.h\<close>: the space callers reserve.\<close>

definition STRFMT_MAXBUF_INT :: nat where "STRFMT_MAXBUF_INT = 1 + 10"

lemma lj_strfmt_wint_length: "length (lj_strfmt_wint k) \<le> STRFMT_MAXBUF_INT"
proof -
  have "nat (- sint k) < 10 ^ Suc 9" "nat (sint k) < 10 ^ Suc 9"
    using sint_ge [of k] sint_lt [of k] by simp_all
  then show ?thesis
    using length_dec_digits [of "nat (- sint k)" 9] length_dec_digits [of "nat (sint k)" 9]
    by (simp add: lj_strfmt_wint_decimal_aux dec_int_def STRFMT_MAXBUF_INT_def)
qed

section \<open>ULEB128\<close>

function lj_strfmt_wuleb128 :: "u32 \<Rightarrow> bytes" where
  "lj_strfmt_wuleb128 v =
     (if v \<ge> 0x80 then ucast ((v AND 0x7f) OR 0x80) # lj_strfmt_wuleb128 (drop_bit 7 v)
      else [ucast v])"
  by pat_completeness auto
termination
  by (relation "measure unat")
    (auto simp: unat_drop_bit_eq drop_bit_eq_div [of 7 "unat _"] word_le_nat_alt)

declare lj_strfmt_wuleb128.simps [simp del, loop_simps]

text \<open>
  The reader takes 7 bits per byte, \<open>sh += 7\<close> before each shift. \<open>None\<close> stands for undefined
  behaviour: a read past the block, or a shift by 32 and more in a malformed sequence.
\<close>

fun ruleb128_loop :: "u32 \<Rightarrow> nat \<Rightarrow> bytes \<Rightarrow> (u32 \<times> bytes) option" where
  "ruleb128_loop v sh [] = None"
| "ruleb128_loop v sh (p # ps) =
     (if 32 \<le> sh + 7 then None
      else
        let v' = v OR push_bit (sh + 7) (ucast p AND 0x7f) in
        if p \<ge> 0x80 then ruleb128_loop v' (sh + 7) ps else Some (v', ps))"

fun lj_buf_ruleb128 :: "bytes \<Rightarrow> (u32 \<times> bytes) option" where
  "lj_buf_ruleb128 [] = None"
| "lj_buf_ruleb128 (p # ps) =
     (let v = (ucast p :: u32) in
      if v \<ge> 0x80 then ruleb128_loop (v AND 0x7f) 0 ps else Some (v, ps))"

lemma uleb_more_mark: "(0x80 :: byte) \<le> ucast ((v AND 0x7f) OR 0x80 :: u32)"
proof (rule ccontr)
  assume "\<not> ?thesis"
  then have "unat (ucast ((v AND 0x7f) OR 0x80 :: u32) :: byte) < 2 ^ 7" by (simp add: word_le_nat_alt)
  from word_bit_above [OF this, of 7] show False by (simp only: word_bits) simp
qed

lemma uleb_more_payload [simp]:
  "(ucast (ucast ((v AND 0x7f) OR 0x80 :: u32) :: byte) :: u32) AND 0x7f = v AND 0x7f"
  by (rule bit_word_eqI, simp only: word_bits) auto

lemma u32_bit_bound: "unat (w :: u32) < 2 ^ m \<Longrightarrow> bit w n \<Longrightarrow> n < m"
  using word_bit_above [of w m n] not_le by blast

lemma uleb_last:
  assumes "unat (w :: u32) < 2 ^ 7"
  shows "(ucast (ucast w :: byte) :: u32) = w" "w AND 0x7f = w"
  by (rule bit_word_eqI, simp only: word_bits, use u32_bit_bound [OF assms] in force)+

lemma uleb_join:
  "push_bit k (w AND 0x7f) OR push_bit (k + 7) (drop_bit 7 w) = push_bit k (w :: u32)"
proof (rule bit_word_eqI)
  fix n :: nat
  assume n: "n < LENGTH(32)"
  consider "n < k" | "k \<le> n" "n < k + 7" | "k + 7 \<le> n" by linarith
  then show "bit (push_bit k (w AND 0x7f) OR push_bit (k + 7) (drop_bit 7 w)) n = bit (push_bit k w) n"
    using n by cases (simp_all only: word_bits, auto)
qed

lemma ucast_ge_0x80: "((0x80 :: u32) \<le> ucast (p :: byte)) = (0x80 \<le> p)"
  by (simp add: word_le_nat_alt unsigned_ucast_eq take_bit_nat_eq_self unsigned_less [of p, simplified] order_less_trans [OF unsigned_less [of p]])

lemma ruleb128_loop_wuleb128:
  "sh + 7 < 32 \<Longrightarrow> unat w < 2 ^ (32 - (sh + 7)) \<Longrightarrow>
   ruleb128_loop acc sh (lj_strfmt_wuleb128 w @ r) = Some (acc OR push_bit (sh + 7) w, r)"
proof (induction w arbitrary: acc sh rule: lj_strfmt_wuleb128.induct)
  case (1 w)
  show ?case
  proof (cases "w \<ge> 0x80")
    case True
    have "2 ^ 7 < (2::nat) ^ (32 - (sh + 7))"
      using True "1.prems"(2) by (simp add: word_le_nat_alt)
    then have "7 < 32 - (sh + 7)" by (rule power_less_imp_less_exp [rotated]) simp
    then have sh: "sh + 7 + 7 < 32" by simp
    have "unat (drop_bit 7 w) < 2 ^ (32 - (sh + 7 + 7))"
    proof -
      have "unat (drop_bit 7 w) = unat w div 2 ^ 7"
        by (simp only: unat_drop_bit_eq drop_bit_eq_div [of 7 "unat w"])
      moreover have "(2::nat) ^ (32 - (sh + 7)) = 2 ^ (32 - (sh + 7 + 7)) * 2 ^ 7"
      proof -
        have "32 - (sh + 7) = (32 - (sh + 7 + 7)) + 7" using sh by simp
        then show ?thesis by (simp only: power_add)
      qed
      ultimately show ?thesis using "1.prems"(2) by (simp add: less_mult_imp_div_less)
    qed
    then show ?thesis
      using True sh "1.prems" "1.IH" [OF True sh] uleb_more_mark [of w] uleb_join [of "sh + 7" w]
      by (subst lj_strfmt_wuleb128.simps) (simp add: Let_def or.assoc del: push_bit_and)
  next
    case False
    then have w: "unat w < 2 ^ 7" by (simp add: word_le_nat_alt)
    have "\<not> (0x80 :: byte) \<le> ucast w"
      using False uleb_last(1) [OF w] ucast_ge_0x80 [of "ucast w"] by simp
    then show ?thesis using False "1.prems" uleb_last [OF w]
      by (subst lj_strfmt_wuleb128.simps) (simp add: Let_def)
  qed
qed

lemma ruleb128_wuleb128_aux: "lj_buf_ruleb128 (lj_strfmt_wuleb128 v @ r) = Some (v, r)"
proof (cases "v \<ge> 0x80")
  case True
  have "unat (drop_bit 7 v) < 2 ^ (32 - (0 + 7))"
    using unat_u32_bound [of v] by (simp only: unat_drop_bit_eq drop_bit_eq_div [of 7 "unat v"]) simp
  then have "ruleb128_loop (v AND 0x7f) 0 (lj_strfmt_wuleb128 (drop_bit 7 v) @ r)
      = Some (v AND 0x7f OR push_bit (0 + 7) (drop_bit 7 v), r)"
    by (intro ruleb128_loop_wuleb128) simp_all
  then show ?thesis using True uleb_more_mark [of v] uleb_join [of 0 v]
      ucast_ge_0x80 [of "ucast ((v AND 0x7f) OR 0x80)"]
    by (subst lj_strfmt_wuleb128.simps) (simp add: Let_def)
next
  case False
  then have w: "unat v < 2 ^ 7" by (simp add: word_le_nat_alt)
  show ?thesis using False uleb_last(1) [OF w]
    by (subst lj_strfmt_wuleb128.simps) (simp add: Let_def)
qed

text \<open>C33: \<open>lj_buf_ruleb128\<close> reads back every 32-bit value \<open>lj_strfmt_wuleb128\<close> wrote and leaves the
  bytes behind it untouched.\<close>

theorem uleb128_roundtrip: "lj_buf_ruleb128 (lj_strfmt_wuleb128 v @ r) = Some (v, r)"
  by (rule ruleb128_wuleb128_aux)

lemma lj_strfmt_wuleb128_nonempty [simp]: "lj_strfmt_wuleb128 v \<noteq> []"
  by (subst lj_strfmt_wuleb128.simps) simp

lemma wuleb128_length_bound: "unat v < 2 ^ (7 * Suc k) \<Longrightarrow> length (lj_strfmt_wuleb128 v) \<le> Suc k"
proof (induction k arbitrary: v)
  case 0
  then show ?case by (subst lj_strfmt_wuleb128.simps) (simp add: word_le_nat_alt)
next
  case (Suc k)
  have "unat (drop_bit 7 v) < 2 ^ (7 * Suc k)"
    using Suc.prems by (simp only: unat_drop_bit_eq drop_bit_eq_div [of 7 "unat v"])
      (simp add: less_mult_imp_div_less power_add)
  with Suc.IH show ?case by (subst lj_strfmt_wuleb128.simps) simp
qed

lemma lj_strfmt_wuleb128_length: "length (lj_strfmt_wuleb128 v) \<le> 5"
proof -
  have "unat v < 2 ^ (7 * Suc 4)" using unat_u32_bound [of v] by simp
  then show ?thesis using wuleb128_length_bound [of v 4] by simp
qed

end
