(* ===== verification/Lj_Buf.thy ===== *)
theory Lj_Buf
  imports Lj_Strfmt
begin

text \<open>
  String buffers (\<open>src/src/lj_buf.c\<close>, \<open>src/src/lj_buf.h\<close>). An \<open>SBuf\<close> is three pointers \<open>b\<close>, \<open>p\<close>,
  \<open>e\<close>; the model keeps the allocated size \<open>e - b\<close> and the bytes between \<open>b\<close> and \<open>p\<close>. The bytes
  between \<open>p\<close> and \<open>e\<close> are never read before they are written. Sizes are naturals: the checks against
  \<open>LJ_MAX_BUF\<close> keep every \<open>MSize\<close> sum below 2^32 (lemma \<open>buf_grow_size_bound\<close>).
  \<open>lj_err_mem\<close> does not return: it is the \<open>Inl\<close> result.
\<close>

section \<open>Buffer management\<close>

record sbuf =
  sbufsz :: nat
  sbufdata :: bytes

datatype buf_error = ErrMem

abbreviation sbuflen :: "sbuf \<Rightarrow> nat" where
  "sbuflen sb \<equiv> length (sbufdata sb)"

definition sbufleft :: "sbuf \<Rightarrow> nat" where
  "sbufleft sb = sbufsz sb - sbuflen sb"

definition LJ_MIN_SBUF :: nat where "LJ_MIN_SBUF = 32"

definition lj_buf_init :: sbuf where
  "lj_buf_init = \<lparr>sbufsz = 0, sbufdata = []\<rparr>"

definition lj_buf_reset :: "sbuf \<Rightarrow> sbuf" where
  "lj_buf_reset sb = sb\<lparr>sbufdata := []\<rparr>"

text \<open>\<open>while (nsz < sz) nsz += nsz;\<close> starting from at least \<open>LJ_MIN_SBUF\<close>.\<close>

function double_until :: "nat \<Rightarrow> nat \<Rightarrow> nat" where
  "double_until nsz sz = (if 0 < nsz \<and> nsz < sz then double_until (nsz + nsz) sz else nsz)"
  by pat_completeness auto
termination by (relation "measure (\<lambda>(nsz, sz). sz - nsz)") auto

declare double_until.simps [simp del, loop_simps]

definition buf_grow :: "sbuf \<Rightarrow> nat \<Rightarrow> sbuf" where
  "buf_grow sb sz =
     (let nsz = (if sbufsz sb < LJ_MIN_SBUF then LJ_MIN_SBUF else sbufsz sb) in
      sb\<lparr>sbufsz := double_until nsz sz\<rparr>)"

definition lj_buf_need2 :: "sbuf \<Rightarrow> nat \<Rightarrow> buf_error + sbuf" where
  "lj_buf_need2 sb sz = (if sz > LJ_MAX_BUF then Inl ErrMem else Inr (buf_grow sb sz))"

definition lj_buf_more2 :: "sbuf \<Rightarrow> nat \<Rightarrow> buf_error + sbuf" where
  "lj_buf_more2 sb sz =
     (let len = sbuflen sb in
      if sz > LJ_MAX_BUF \<or> len + sz > LJ_MAX_BUF then Inl ErrMem else Inr (buf_grow sb (len + sz)))"

definition lj_buf_need :: "sbuf \<Rightarrow> nat \<Rightarrow> buf_error + sbuf" where
  "lj_buf_need sb sz = (if sz > sbufsz sb then lj_buf_need2 sb sz else Inr sb)"

definition lj_buf_more :: "sbuf \<Rightarrow> nat \<Rightarrow> buf_error + sbuf" where
  "lj_buf_more sb sz = (if sz > sbufleft sb then lj_buf_more2 sb sz else Inr sb)"

text \<open>
  \<open>lj_buf_shrink\<close> halves a large allocation; its callers reset the buffer first. A content longer
  than the half would be cut by the reallocation.
\<close>

definition lj_buf_shrink :: "sbuf \<Rightarrow> sbuf" where
  "lj_buf_shrink sb =
     (let osz = sbufsz sb in
      if osz > 2 * LJ_MIN_SBUF then sb\<lparr>sbufsz := osz div 2\<rparr> else sb)"

text \<open>The temporary buffer \<open>G(L)->tmpbuf\<close>: \<open>lj_buf_tmp\<close> makes room, \<open>lj_buf_tmp_\<close> resets it.\<close>

definition lj_buf_tmp :: "sbuf \<Rightarrow> nat \<Rightarrow> buf_error + sbuf" where
  "lj_buf_tmp sb sz = lj_buf_need sb sz"

section \<open>Put operations\<close>

text \<open>
  Writing \<open>w\<close> at \<open>p\<close> after \<open>lj_buf_more(sb, n)\<close> and \<open>setsbufP\<close>: the common shape of all put
  operations.
\<close>

definition buf_put :: "sbuf \<Rightarrow> nat \<Rightarrow> bytes \<Rightarrow> buf_error + sbuf" where
  "buf_put sb n w =
     (case lj_buf_more sb n of
        Inl e \<Rightarrow> Inl e
      | Inr sb' \<Rightarrow> Inr (sb'\<lparr>sbufdata := sbufdata sb' @ w\<rparr>))"

definition lj_buf_putmem :: "sbuf \<Rightarrow> bytes \<Rightarrow> buf_error + sbuf" where
  "lj_buf_putmem sb q = buf_put sb (length q) q"

definition lj_buf_putchar :: "sbuf \<Rightarrow> byte \<Rightarrow> buf_error + sbuf" where
  "lj_buf_putchar sb c = buf_put sb 1 [c]"

definition lj_buf_putstr :: "sbuf \<Rightarrow> bytes \<Rightarrow> buf_error + sbuf" where
  "lj_buf_putstr sb s = buf_put sb (length s) s"

text \<open>\<open>while (p < e) *p++ = *q--\<close> with \<open>q\<close> at the last byte: \<open>n\<close> bytes are left, \<open>q\<close> is at \<open>n - 1\<close>.\<close>

fun rev_copy :: "bytes \<Rightarrow> nat \<Rightarrow> bytes" where
  "rev_copy s 0 = []"
| "rev_copy s (Suc n) = s ! n # rev_copy s n"

definition lj_buf_putstr_reverse :: "sbuf \<Rightarrow> bytes \<Rightarrow> buf_error + sbuf" where
  "lj_buf_putstr_reverse sb s = buf_put sb (length s) (rev_copy s (length s))"

definition lower_char :: "byte \<Rightarrow> byte" where
  "lower_char c = (if c \<ge> 65 \<and> c \<le> 90 then c + 0x20 else c)"

definition upper_char :: "byte \<Rightarrow> byte" where
  "upper_char c = (if c \<ge> 97 \<and> c \<le> 122 then c - 0x20 else c)"

definition lj_buf_putstr_lower :: "sbuf \<Rightarrow> bytes \<Rightarrow> buf_error + sbuf" where
  "lj_buf_putstr_lower sb s = buf_put sb (length s) (map lower_char s)"

definition lj_buf_putstr_upper :: "sbuf \<Rightarrow> bytes \<Rightarrow> buf_error + sbuf" where
  "lj_buf_putstr_upper sb s = buf_put sb (length s) (map upper_char s)"

text \<open>
  \<open>do ... while (--rep > 0)\<close> for a positive count: \<open>rep\<close> rounds of one character, or of the
  whole string copied by \<open>do *p++ = *q++ while (q < e)\<close>.
\<close>

fun rep_char :: "byte \<Rightarrow> nat \<Rightarrow> bytes" where
  "rep_char c 0 = []"
| "rep_char c (Suc n) = c # rep_char c n"

fun rep_str :: "bytes \<Rightarrow> nat \<Rightarrow> bytes" where
  "rep_str s 0 = []"
| "rep_str s (Suc n) = s @ rep_str s n"

definition lj_buf_putstr_rep :: "sbuf \<Rightarrow> bytes \<Rightarrow> int \<Rightarrow> buf_error + sbuf" where
  "lj_buf_putstr_rep sb s rep =
     (let len = length s in
      if rep > 0 \<and> len \<noteq> 0 then
        let tlen = nat rep * len in
        if tlen > LJ_MAX_STR then Inl ErrMem
        else buf_put sb tlen (if len = 1 then rep_char (s ! 0) (nat rep) else rep_str s (nat rep))
      else Inr sb)"

text \<open>\<open>lj_strfmt_putint\<close> of \<open>src/src/lj_strfmt.c\<close>.\<close>

definition lj_strfmt_putint :: "sbuf \<Rightarrow> u32 \<Rightarrow> buf_error + sbuf" where
  "lj_strfmt_putint sb k = buf_put sb STRFMT_MAXBUF_INT (lj_strfmt_wint k)"

section \<open>Invariant: content within an allocation of doubled size\<close>

definition sbuf_ok :: "sbuf \<Rightarrow> bool" where
  "sbuf_ok sb \<longleftrightarrow> sbuflen sb \<le> sbufsz sb \<and> sbufsz sb \<le> 2 ^ 31
     \<and> (sbufsz sb = 0 \<or> (\<exists>k. sbufsz sb = LJ_MIN_SBUF * 2 ^ k))"

lemma sbuf_ok_init [simp]: "sbuf_ok lj_buf_init"
  by (simp add: sbuf_ok_def lj_buf_init_def)

lemma sbuf_ok_reset [simp]: "sbuf_ok sb \<Longrightarrow> sbuf_ok (lj_buf_reset sb)"
  by (simp add: sbuf_ok_def lj_buf_reset_def)

lemma double_until_spec:
  "0 < nsz \<Longrightarrow> sz \<le> double_until nsz sz \<and> nsz \<le> double_until nsz sz
     \<and> (\<exists>k. double_until nsz sz = nsz * 2 ^ k)
     \<and> (double_until nsz sz = nsz \<or> double_until nsz sz < 2 * sz)"
proof (induction nsz sz rule: double_until.induct)
  case (1 nsz sz)
  show ?case
  proof (cases "nsz < sz")
    case True
    let ?d = "double_until (nsz + nsz) sz"
    have IH: "sz \<le> ?d \<and> nsz + nsz \<le> ?d \<and> (\<exists>k. ?d = (nsz + nsz) * 2 ^ k)
        \<and> (?d = nsz + nsz \<or> ?d < 2 * sz)"
      using 1 True by simp
    then obtain k where "?d = (nsz + nsz) * 2 ^ k" by blast
    then have "?d = nsz * 2 ^ Suc k" by simp
    then show ?thesis using IH True "1.prems"
      by (subst (1 2 3 4 5) double_until.simps) (auto simp del: power_Suc)
  next
    case False
    then show ?thesis by (subst (1 2 3 4 5) double_until.simps) (auto intro: exI [of _ 0])
  qed
qed

lemma pow_between:
  assumes "(32::nat) * 2 ^ k < 2 * sz" and "sz \<le> 2 ^ 31"
  shows "(32::nat) * 2 ^ k \<le> 2 ^ 31"
proof -
  have "(2::nat) ^ (k + 5) < 2 ^ 32" using assms by (simp add: power_add)
  then have "k + 5 < 32" by (rule power_less_imp_less_exp [rotated]) simp
  then have "(2::nat) ^ (k + 5) \<le> 2 ^ 31" by (intro power_increasing) simp_all
  then show ?thesis by (simp add: power_add)
qed

lemma buf_grow_size_bound:
  assumes "sbuf_ok sb" and "sz \<le> LJ_MAX_BUF"
  shows "sbuf_ok (buf_grow sb sz) \<and> sz \<le> sbufsz (buf_grow sb sz)
     \<and> sbufdata (buf_grow sb sz) = sbufdata sb"
proof -
  let ?n = "if sbufsz sb < LJ_MIN_SBUF then LJ_MIN_SBUF else sbufsz sb"
  let ?d = "double_until ?n sz"
  have n: "0 < ?n" by (simp add: LJ_MIN_SBUF_def)
  obtain j where j: "?n = 32 * 2 ^ j"
    using assms(1) by (auto simp: sbuf_ok_def LJ_MIN_SBUF_def intro: that [of 0])
  obtain k where k: "?d = ?n * 2 ^ k" using double_until_spec [OF n, of sz] by blast
  have dk: "?d = 32 * 2 ^ (j + k)" using j k by (simp add: power_add)
  have "?d \<le> 2 ^ 31"
  proof (cases "?d = ?n")
    case True
    then show ?thesis using assms(1) by (simp add: sbuf_ok_def LJ_MIN_SBUF_def)
  next
    case False
    then have "32 * 2 ^ (j + k) < 2 * sz" using double_until_spec [OF n, of sz] dk by simp
    then show ?thesis using assms(2) pow_between [of "j + k" sz] dk by (simp add: LJ_MAX_MEM32_def)
  qed
  moreover have "sbufsz sb \<le> ?n" by simp
  then have "sbuflen sb \<le> ?d"
    using double_until_spec [OF n, of sz] assms(1) by (simp only: sbuf_ok_def) linarith
  moreover have "sbufsz (buf_grow sb sz) = ?d" "sbufdata (buf_grow sb sz) = sbufdata sb"
    by (simp_all add: buf_grow_def Let_def)
  ultimately show ?thesis
    using double_until_spec [OF n, of sz] dk by (auto simp: sbuf_ok_def LJ_MIN_SBUF_def)
qed

lemma lj_buf_more_spec:
  assumes "sbuf_ok sb"
  shows "case lj_buf_more sb n of
      Inl e \<Rightarrow> sbuflen sb + n > LJ_MAX_BUF
    | Inr sb' \<Rightarrow> sbuf_ok sb' \<and> n \<le> sbufleft sb' \<and> sbufdata sb' = sbufdata sb"
  using buf_grow_size_bound [OF assms, of "sbuflen sb + n"] assms
  by (auto simp: lj_buf_more_def lj_buf_more2_def Let_def sbufleft_def split: if_splits)

lemma buf_put_spec:
  assumes "sbuf_ok sb" and "length w \<le> n"
  shows "case buf_put sb n w of
      Inl e \<Rightarrow> sbuflen sb + n > LJ_MAX_BUF
    | Inr sb' \<Rightarrow> sbuf_ok sb' \<and> sbufdata sb' = sbufdata sb @ w"
  using lj_buf_more_spec [OF assms(1), of n] assms(2)
  by (auto simp: buf_put_def sbuf_ok_def sbufleft_def split: sum.splits)

lemma rev_copy_eq: "n \<le> length s \<Longrightarrow> rev_copy s n = rev (take n s)"
  by (induction n) (simp_all add: take_Suc_conv_app_nth)

lemma rep_char_eq: "rep_char c n = replicate n c"
  by (induction n) simp_all

lemma rep_str_eq: "rep_str s n = concat (replicate n s)"
  by (induction n) simp_all

lemma length_rep_str: "length (rep_str s n) = n * length s"
  by (induction n) simp_all



text \<open>C35: repetition and integers: \<open>lj_buf_putstr_rep\<close> appends \<open>rep\<close> copies (none for a count that
  is not positive) or fails only where the result would exceed the string or buffer limit, and
  \<open>lj_strfmt_putint\<close> appends the decimal digits and never writes past the space it reserved.\<close>

theorem buf_put_rep_int:
  assumes ok: "sbuf_ok sb"
  shows "(case lj_buf_putstr_rep sb s rep of
      Inl e \<Rightarrow> sbuflen sb + nat rep * length s > LJ_MAX_BUF
    | Inr sb' \<Rightarrow> sbuf_ok sb' \<and> sbufdata sb' = sbufdata sb @ concat (replicate (nat rep) s))
   \<and> (case lj_strfmt_putint sb k of
      Inl e \<Rightarrow> sbuflen sb + STRFMT_MAXBUF_INT > LJ_MAX_BUF
    | Inr sb' \<Rightarrow> sbuf_ok sb' \<and> sbufdata sb' = sbufdata sb @ dec_int (sint k))"
proof
  show "case lj_strfmt_putint sb k of
      Inl e \<Rightarrow> sbuflen sb + STRFMT_MAXBUF_INT > LJ_MAX_BUF
    | Inr sb' \<Rightarrow> sbuf_ok sb' \<and> sbufdata sb' = sbufdata sb @ dec_int (sint k)"
    using buf_put_spec [OF ok lj_strfmt_wint_length, of k]
    by (simp add: lj_strfmt_putint_def lj_strfmt_wint_decimal_aux split: sum.splits)
next
  let ?w = "concat (replicate (nat rep) s)"
  have len: "length ?w = nat rep * length s" by (simp flip: rep_str_eq add: length_rep_str)
  have one: "rep_char (s ! 0) (nat rep) = ?w" if "length s = 1"
  proof -
    from that obtain c where "s = [c]" by (cases s) auto
    then show ?thesis by (simp add: rep_char_eq)
  qed
  show "case lj_buf_putstr_rep sb s rep of
      Inl e \<Rightarrow> sbuflen sb + nat rep * length s > LJ_MAX_BUF
    | Inr sb' \<Rightarrow> sbuf_ok sb' \<and> sbufdata sb' = sbufdata sb @ ?w"
  proof (cases "rep > 0 \<and> length s \<noteq> 0")
    case False
    then have "?w = []" by auto
    then show ?thesis using False ok by (auto simp: lj_buf_putstr_rep_def)
  next
    case True
    then show ?thesis
      using buf_put_spec [OF ok, of ?w "nat rep * length s"] len one
      by (auto simp: lj_buf_putstr_rep_def rep_str_eq Let_def)
  qed
qed

theorem buf_put_rep_int_witness:
  "(case lj_buf_putstr_rep lj_buf_init [97, 98] 2 of
      Inl e \<Rightarrow> sbuflen lj_buf_init + 4 > LJ_MAX_BUF
    | Inr sb' \<Rightarrow> sbuf_ok sb' \<and> sbufdata sb' = [97, 98, 97, 98])
   \<and> (case lj_strfmt_putint lj_buf_init 12 of
      Inl e \<Rightarrow> sbuflen lj_buf_init + STRFMT_MAXBUF_INT > LJ_MAX_BUF
    | Inr sb' \<Rightarrow> sbuf_ok sb' \<and> sbufdata sb' = dec_int 12)"
  using buf_put_rep_int [OF sbuf_ok_init, of 2 "[97, 98]" 12]
  by (simp add: lj_buf_init_def numeral_2_eq_2 split: sum.splits)

end
