(* ===== verification/Lj_Obj.thy ===== *)
theory Lj_Obj
  imports Lj_Str
begin

text \<open>
  Tagged values (\<open>src/src/lj_obj.h\<close>, \<open>lj_obj.c\<close>). A string value carries its contents: strings are
  interned, so two string references are equal exactly when their contents are (theory
  \<open>Lj_Str_Table\<close>). A number is the 64-bit pattern of its double. Other collectable objects are an
  internal tag and a 32-bit reference.
\<close>

datatype tvalue =
    TNil
  | TFalse
  | TTrue
  | TLightud u64
  | TStr bytes
  | TNum u64
  | TGC nat u32

definition tvisnil :: "tvalue \<Rightarrow> bool" where "tvisnil o1 \<longleftrightarrow> o1 = TNil"
definition tvisstr :: "tvalue \<Rightarrow> bool" where "tvisstr o1 \<longleftrightarrow> (case o1 of TStr _ \<Rightarrow> True | _ \<Rightarrow> False)"
definition tvisnum :: "tvalue \<Rightarrow> bool" where "tvisnum o1 \<longleftrightarrow> (case o1 of TNum _ \<Rightarrow> True | _ \<Rightarrow> False)"
definition tvistruecond :: "tvalue \<Rightarrow> bool" where "tvistruecond o1 \<longleftrightarrow> o1 \<noteq> TNil \<and> o1 \<noteq> TFalse"

lemmas tvis_defs = tvisnil_def tvisstr_def tvisnum_def tvistruecond_def

section \<open>Doubles as bit patterns\<close>

definition num_sign :: "u64 \<Rightarrow> nat" where "num_sign n = unat n div 2 ^ 63"
definition num_exp :: "u64 \<Rightarrow> nat" where "num_exp n = unat n div 2 ^ 52 mod 2 ^ 11"
definition num_man :: "u64 \<Rightarrow> nat" where "num_man n = unat n mod 2 ^ 52"

definition num_nan :: "u64 \<Rightarrow> bool" where
  "num_nan n \<longleftrightarrow> num_exp n = 2047 \<and> num_man n \<noteq> 0"

definition num_zero :: "u64 \<Rightarrow> bool" where
  "num_zero n \<longleftrightarrow> num_exp n = 0 \<and> num_man n = 0"

text \<open>The comparison \<open>==\<close> of two doubles.\<close>

definition num_eq :: "u64 \<Rightarrow> u64 \<Rightarrow> bool" where
  "num_eq a b \<longleftrightarrow> \<not> num_nan a \<and> \<not> num_nan b \<and> (a = b \<or> num_zero a \<and> num_zero b)"

text \<open>
  \<open>(int32_t)n\<close> as the x86-64 instruction \<open>cvttsd2si\<close> computes it: truncation towards zero, and
  \<open>0x80000000\<close> for everything that does not fit.
\<close>

definition num_trunc :: "u64 \<Rightarrow> nat" where
  "num_trunc n =
     (if num_exp n < 1023 then 0
      else if num_exp n > 1023 + 52 then 2 ^ 52
      else (2 ^ 52 + num_man n) div 2 ^ (1075 - num_exp n))"

definition lj_num2int :: "u64 \<Rightarrow> int" where
  "lj_num2int n =
     (let m = num_trunc n in
      if num_sign n = 0 \<and> m < 2 ^ 31 then int m
      else if num_sign n = 1 \<and> m \<le> 2 ^ 31 then - int m
      else - (2 ^ 31))"

text \<open>\<open>(lua_Number)k\<close> for a 32-bit integer, which is exact.\<close>

definition num_of_int :: "int \<Rightarrow> u64" where
  "num_of_int k =
     (if k = 0 then 0
      else let m = nat (abs k); f = fls_nat m in
        of_nat ((if k < 0 then 2 ^ 63 else 0) + (1023 + f) * 2 ^ 52 + (m - 2 ^ f) * 2 ^ (52 - f)))"

definition int32 :: "int \<Rightarrow> bool" where "int32 k \<longleftrightarrow> - (2 ^ 31) \<le> k \<and> k < 2 ^ 31"

text \<open>\<open>lj_obj_equal\<close>.\<close>

definition lj_obj_equal :: "tvalue \<Rightarrow> tvalue \<Rightarrow> bool" where
  "lj_obj_equal o1 o2 =
     (case (o1, o2) of
        (TNum a, TNum b) \<Rightarrow> num_eq a b
      | _ \<Rightarrow> o1 = o2)"

section \<open>Lemmas on doubles\<close>

lemma fields_sum:
  assumes "s < 2" and "e < 2 ^ 11" and "m < 2 ^ 52"
  shows "unat (of_nat (s * 2 ^ 63 + e * 2 ^ 52 + m) :: u64) = s * 2 ^ 63 + e * 2 ^ 52 + m"
proof -
  have "s * 2 ^ 63 + e * 2 ^ 52 + m < 2 ^ 64" using assms by simp
  then show ?thesis by (simp only: unsigned_of_nat) (simp add: take_bit_nat_eq_self)
qed

lemma num_fields:
  assumes "s < 2" and "e < 2 ^ 11" and "m < 2 ^ 52"
  defines "n \<equiv> of_nat (s * 2 ^ 63 + e * 2 ^ 52 + m) :: u64"
  shows "num_sign n = s" and "num_exp n = e" and "num_man n = m"
proof -
  have u: "unat n = s * 2 ^ 63 + e * 2 ^ 52 + m" using fields_sum [OF assms(1-3)] by (simp add: n_def)
  have "(s * 2 ^ 63 + (e * 2 ^ 52 + m)) div 2 ^ 63 = s" using assms(1-3) by simp
  then show "num_sign n = s" by (simp add: num_sign_def u add.assoc)
  have "((s * 2 ^ 11 + e) * 2 ^ 52 + m) div 2 ^ 52 = s * 2 ^ 11 + e" using assms(3) by simp
  moreover have "(s * 2 ^ 11 + e) mod 2 ^ 11 = e" using assms(2) by simp
  moreover have "unat n = (s * 2 ^ 11 + e) * 2 ^ 52 + m" using u by simp
  ultimately show "num_exp n = e" by (simp only: num_exp_def)
  have "(m + (s * 2 ^ 11 + e) * 2 ^ 52) mod 2 ^ 52 = m"
    unfolding mod_mult_self1 using assms(3) by simp
  moreover have "unat n = m + (s * 2 ^ 11 + e) * 2 ^ 52" using u by simp
  ultimately show "num_man n = m" by (simp only: num_man_def)
qed

text \<open>The fields of a converted 32-bit integer.\<close>

lemma num_of_int_fields:
  assumes k: "k \<noteq> 0" "int32 k"
  defines "m \<equiv> nat (abs k)" 
  defines "f \<equiv> fls_nat m"
  shows "num_sign (num_of_int k) = (if k < 0 then 1 else 0)"
    and "num_exp (num_of_int k) = 1023 + f"
    and "num_man (num_of_int k) = (m - 2 ^ f) * 2 ^ (52 - f)"
    and "f \<le> 31" and "2 ^ f \<le> m" and "m < 2 ^ Suc f"
proof -
  have "m < 2 ^ Suc 31" using k(2) by (auto simp: m_def int32_def)
  then show f: "f \<le> 31" unfolding f_def by (rule fls_nat_le)
  have m0: "0 < m" using k(1) by (simp add: m_def)
  show lo: "2 ^ f \<le> m" unfolding f_def using m0 by (rule fls_nat_lower)
  show hi: "m < 2 ^ Suc f" unfolding f_def by (rule fls_nat_upper)
  have "m - 2 ^ f < 2 ^ f" using lo hi by simp
  then have "(m - 2 ^ f) * 2 ^ (52 - f) < 2 ^ f * 2 ^ (52 - f)" by simp
  also have "\<dots> = 2 ^ 52" using f by (simp flip: power_add)
  finally have man: "(m - 2 ^ f) * 2 ^ (52 - f) < 2 ^ 52" .
  have e: "1023 + f < 2 ^ 11" using f by simp
  have n: "num_of_int k = of_nat ((if k < 0 then 1 else 0) * 2 ^ 63 + (1023 + f) * 2 ^ 52 + (m - 2 ^ f) * 2 ^ (52 - f))"
    unfolding num_of_int_def Let_def using k(1) by (simp only: m_def f_def if_False) (simp split: if_splits)
  have s: "(if k < 0 then 1 else 0 :: nat) < 2" by simp
  show "num_sign (num_of_int k) = (if k < 0 then 1 else 0)"
    "num_exp (num_of_int k) = 1023 + f"
    "num_man (num_of_int k) = (m - 2 ^ f) * 2 ^ (52 - f)"
    unfolding n using num_fields [OF s e man] by simp_all
qed

lemma num_of_int_0 [simp]: "num_of_int 0 = 0" by (simp add: num_of_int_def)

lemma num_fields_0 [simp]: "num_sign 0 = 0" "num_exp 0 = 0" "num_man 0 = 0"
  by (simp_all add: num_sign_def num_exp_def num_man_def)

lemma num2int_num_of_int [simp]: "int32 k \<Longrightarrow> lj_num2int (num_of_int k) = k"
proof (cases "k = 0")
  case True
  then show ?thesis by (simp add: lj_num2int_def num_trunc_def)
next
  case False
  assume i: "int32 k"
  note F = num_of_int_fields [OF False i]
  let ?m = "nat (abs k)" and ?n = "num_of_int k"
  let ?f = "fls_nat ?m"
  have p: "(2 ^ 52 :: nat) = 2 ^ ?f * 2 ^ (52 - ?f)" using F(4) by (simp flip: power_add)
  have "2 ^ ?f + (?m - 2 ^ ?f) = ?m" using F(5) by (rule le_add_diff_inverse)
  then have "2 ^ 52 + num_man ?n = ?m * 2 ^ (52 - ?f)"
    unfolding p F(3) by (simp only: distrib_right [symmetric])
  moreover have "1075 - num_exp ?n = 52 - ?f" using F(2) by simp
  ultimately have t: "num_trunc ?n = ?m"
    using F(2,4) by (simp add: num_trunc_def)
  show ?thesis
    using t F(1) i False unfolding lj_num2int_def Let_def int32_def by (auto split: if_splits)
qed

lemma num_of_int_inject: "int32 j \<Longrightarrow> int32 k \<Longrightarrow> num_of_int j = num_of_int k \<longleftrightarrow> j = k"
  by (metis num2int_num_of_int)

lemma int32_num2int [simp]: "int32 (lj_num2int n)"
  by (auto simp: lj_num2int_def int32_def Let_def)

lemma num_of_int_not_nan [simp]: "int32 k \<Longrightarrow> \<not> num_nan (num_of_int k)"
  using num_of_int_fields(2,4) [of k] by (cases "k = 0") (auto simp: num_nan_def)

lemma num_of_int_zero [simp]: "int32 k \<Longrightarrow> num_zero (num_of_int k) \<longleftrightarrow> k = 0"
  using num_of_int_fields(2) [of k] by (cases "k = 0") (auto simp: num_zero_def)

lemma num_eq_refl [simp]: "num_eq a a \<longleftrightarrow> \<not> num_nan a"
  by (simp add: num_eq_def)

lemma num_eq_sym: "num_eq a b \<Longrightarrow> num_eq b a"
  by (auto simp: num_eq_def)

lemma num_eq_trans: "num_eq a b \<Longrightarrow> num_eq b c \<Longrightarrow> num_eq a c"
  by (auto simp: num_eq_def)

lemma num_zero_cases: "num_zero n \<Longrightarrow> n = 0 \<or> n = 2 ^ 63"
proof -
  assume z: "num_zero n"
  have b: "unat n < 2 ^ 64" using unsigned_less [of n, where 'a = nat] by simp
  have e: "unat n div 2 ^ 52 mod 2 ^ 11 = 0" and m: "unat n mod 2 ^ 52 = 0"
    using z by (simp_all add: num_zero_def num_exp_def num_man_def)
  have "unat n div 2 ^ 52 div 2 ^ 11 < 2" using b by (simp add: div_mult2_eq [symmetric])
  then have "unat n div 2 ^ 52 = 0 \<or> unat n div 2 ^ 52 = 2 ^ 11"
    using e div_mult_mod_eq [of "unat n div 2 ^ 52" "2 ^ 11"] by (auto simp: less_2_cases_iff)
  then have "unat n = 0 \<or> unat n = 2 ^ 63"
    using m div_mult_mod_eq [of "unat n" "2 ^ 52"] by auto
  then show ?thesis
    by (auto simp: word_unat_eq_iff)
qed

lemma lj_obj_equal_refl: "(\<forall>a. x = TNum a \<longrightarrow> \<not> num_nan a) \<Longrightarrow> lj_obj_equal x x"
  by (cases x) (auto simp: lj_obj_equal_def)

lemma lj_obj_equal_sym: "lj_obj_equal x y \<Longrightarrow> lj_obj_equal y x"
  by (cases x; cases y) (auto simp: lj_obj_equal_def num_eq_sym)

lemma lj_obj_equal_trans: "lj_obj_equal x y \<Longrightarrow> lj_obj_equal y z \<Longrightarrow> lj_obj_equal x z"
  by (cases x; cases y; cases z) (auto simp: lj_obj_equal_def intro: num_eq_trans)

lemma lj_obj_equal_simps [simp]:
  "lj_obj_equal TNil y \<longleftrightarrow> y = TNil" "lj_obj_equal x TNil \<longleftrightarrow> x = TNil"
  "lj_obj_equal (TStr s) y \<longleftrightarrow> y = TStr s" "lj_obj_equal x (TStr s) \<longleftrightarrow> x = TStr s"
  "lj_obj_equal (TNum a) (TNum b) \<longleftrightarrow> num_eq a b"
  by (cases x; cases y; auto simp: lj_obj_equal_def)+

end
