(* ===== verification/Lj_Tab.thy ===== *)
theory Lj_Tab
  imports Lj_Obj
begin

text \<open>
  Tables (\<open>src/src/lj_tab.c\<close>, \<open>lj_tab.h\<close>): an array part for the integer keys \<open>0 .. asize - 1\<close> and a hash
  part of \<open>hmask + 1\<close> nodes with chained scatter (Brent's variation). A node pointer is an index into
  the node vector, \<open>NULL\<close> is \<open>None\<close>; a table without a hash part (\<open>hmask = 0\<close>) has the shared fallback
  node \<open>nilnode\<close>, whose \<open>freetop\<close> is the node itself. A setter returns the slot of the key, as the
  code returns its address, and \<open>tab_store\<close> is the store through that address. Memory allocation
  always succeeds here.
\<close>

section \<open>Data\<close>

definition LJ_MAX_HBITS :: nat where "LJ_MAX_HBITS = 26"
definition LJ_MAX_ABITS :: nat where "LJ_MAX_ABITS = 28"
definition LJ_MAX_ASIZE :: nat where "LJ_MAX_ASIZE = 2 ^ (LJ_MAX_ABITS - 1) + 1"
definition LJ_MAX_COLOSIZE :: nat where "LJ_MAX_COLOSIZE = 16"

record node =
  nval :: tvalue
  nkey :: tvalue
  nnext :: "nat option"

record gctab =
  nomm :: byte
  colo :: int
  tarray :: "tvalue list"
  metatable :: "u32 option"
  tnode :: "node list"
  freetop :: nat

datatype tab_error = ErrTABOV | ErrNANIDX | ErrNILIDX | ErrNEXTIDX | ErrChain | ErrNesting

datatype slot = SArr nat | SHash nat

definition nilnode :: node where
  "nilnode = \<lparr>nval = TNil, nkey = TNil, nnext = None\<rparr>"

abbreviation asize :: "gctab \<Rightarrow> nat" where "asize t \<equiv> length (tarray t)"

definition hmask :: "gctab \<Rightarrow> nat" where "hmask t = length (tnode t) - 1"

section \<open>Hashing\<close>

definition HASH_BIAS :: u32 where "HASH_BIAS = - 0x04c11db7"

definition hashrot :: "u32 \<Rightarrow> u32 \<Rightarrow> u32" where
  "hashrot lo hi =
     (let lo = lo XOR hi; hi = lj_rol hi 14;
          lo = lo - hi; hi = lj_rol hi 5;
          hi = hi XOR lo; hi = hi - lj_rol lo 13
      in hi)"

definition hashmask :: "gctab \<Rightarrow> u32 \<Rightarrow> nat" where
  "hashmask t h = unat (h AND of_nat (hmask t))"

text \<open>The cached hash of a string object; the empty string has its own object, with hash 0.\<close>

definition gcstr_hash :: "bytes \<Rightarrow> u32" where
  "gcstr_hash s = (if s = [] then 0 else str_hash s)"

definition hashstr :: "gctab \<Rightarrow> bytes \<Rightarrow> nat" where
  "hashstr t s = hashmask t (gcstr_hash s)"

definition hashnum :: "gctab \<Rightarrow> u64 \<Rightarrow> nat" where
  "hashnum t n = hashmask t (hashrot (ucast n) (push_bit 1 (ucast (drop_bit 32 n))))"

definition hashgcref :: "gctab \<Rightarrow> u32 \<Rightarrow> nat" where
  "hashgcref t r = hashmask t (hashrot r (r + HASH_BIAS))"

definition hashkey :: "gctab \<Rightarrow> tvalue \<Rightarrow> nat" where
  "hashkey t key =
     (case key of
        TStr s \<Rightarrow> hashstr t s
      | TNum n \<Rightarrow> hashnum t n
      | TFalse \<Rightarrow> hashmask t 0
      | TTrue \<Rightarrow> hashmask t 1
      | TLightud u \<Rightarrow> hashgcref t (ucast u)
      | TGC _ r \<Rightarrow> hashgcref t r
      | TNil \<Rightarrow> hashgcref t 0)"

section \<open>Creation\<close>

definition hsize2hbits :: "nat \<Rightarrow> nat" where
  "hsize2hbits s = (if s \<noteq> 0 then (if s = 1 then 1 else 1 + fls_nat (s - 1)) else 0)"

text \<open>\<open>newhpart\<close> followed by \<open>clearhpart\<close>.\<close>

definition newhpart :: "gctab \<Rightarrow> nat \<Rightarrow> tab_error + gctab" where
  "newhpart t hbits =
     (if hbits > LJ_MAX_HBITS then Inl ErrTABOV
      else Inr (t\<lparr>tnode := replicate (2 ^ hbits) nilnode, freetop := 2 ^ hbits\<rparr>))"

definition newtab :: "nat \<Rightarrow> nat \<Rightarrow> tab_error + gctab" where
  "newtab as hbits =
     (if as > LJ_MAX_COLOSIZE \<and> as > LJ_MAX_ASIZE then Inl ErrTABOV
      else
        let t = \<lparr>nomm = - 1, colo = (if 0 < as \<and> as \<le> LJ_MAX_COLOSIZE then int as else 0),
                 tarray = replicate as TNil, metatable = None, tnode = [nilnode], freetop = 0\<rparr>
        in if hbits \<noteq> 0 then newhpart t hbits else Inr t)"

definition lj_tab_new :: "nat \<Rightarrow> nat \<Rightarrow> tab_error + gctab" where
  "lj_tab_new as hbits = newtab as hbits"

definition lj_tab_new_ah :: "int \<Rightarrow> int \<Rightarrow> tab_error + gctab" where
  "lj_tab_new_ah a h = lj_tab_new (if a > 0 then nat (a + 1) else 0) (hsize2hbits (nat (h mod 2 ^ 32)))"

definition lj_tab_new1 :: "u32 \<Rightarrow> tab_error + gctab" where
  "lj_tab_new1 ahsize = newtab (unat (ahsize AND 0xffffff)) (unat (drop_bit 24 ahsize))"

definition lj_tab_dup :: "gctab \<Rightarrow> tab_error + gctab" where
  "lj_tab_dup kt =
     (case newtab (asize kt) (if hmask kt > 0 then fls_nat (hmask kt) + 1 else 0) of
        Inl e \<Rightarrow> Inl e
      | Inr t \<Rightarrow>
          let t = t\<lparr>nomm := 0, tarray := tarray kt\<rparr> in
          Inr (if hmask kt > 0 then t\<lparr>tnode := tnode kt, freetop := freetop kt\<rparr> else t))"

definition lj_tab_clear :: "gctab \<Rightarrow> gctab" where
  "lj_tab_clear t =
     (let t = t\<lparr>tarray := replicate (asize t) TNil\<rparr> in
      if hmask t > 0
      then t\<lparr>freetop := hmask t + 1, tnode := replicate (length (tnode t)) nilnode\<rparr> else t)"

section \<open>Getters\<close>

text \<open>The chain walk of every getter and setter; the fuel is the number of nodes.\<close>

fun find_node :: "(tvalue \<Rightarrow> bool) \<Rightarrow> node list \<Rightarrow> nat \<Rightarrow> nat \<Rightarrow> nat option" where
  "find_node P nodes 0 n = None"
| "find_node P nodes (Suc fuel) n =
     (if P (nkey (nodes ! n)) then Some n
      else case nnext (nodes ! n) of None \<Rightarrow> None | Some m \<Rightarrow> find_node P nodes fuel m)"

definition chain_find :: "gctab \<Rightarrow> (tvalue \<Rightarrow> bool) \<Rightarrow> nat \<Rightarrow> nat option" where
  "chain_find t P n = find_node P (tnode t) (length (tnode t)) n"

definition is_num_key :: "u64 \<Rightarrow> tvalue \<Rightarrow> bool" where
  "is_num_key k o1 = (case o1 of TNum n \<Rightarrow> num_eq n k | _ \<Rightarrow> False)"

definition is_str_key :: "bytes \<Rightarrow> tvalue \<Rightarrow> bool" where
  "is_str_key k o1 = (case o1 of TStr s \<Rightarrow> s = k | _ \<Rightarrow> False)"

definition nodeval :: "gctab \<Rightarrow> nat \<Rightarrow> tvalue" where
  "nodeval t n = nval (tnode t ! n)"

definition lj_tab_getinth :: "gctab \<Rightarrow> int \<Rightarrow> tvalue option" where
  "lj_tab_getinth t key =
     (let k = num_of_int key in
      map_option (nodeval t) (chain_find t (is_num_key k) (hashnum t k)))"

definition lj_tab_getstr :: "gctab \<Rightarrow> bytes \<Rightarrow> tvalue option" where
  "lj_tab_getstr t key = map_option (nodeval t) (chain_find t (is_str_key key) (hashstr t key))"

definition inarray :: "gctab \<Rightarrow> int \<Rightarrow> bool" where
  "inarray t key \<longleftrightarrow> nat (key mod 2 ^ 32) < asize t"

definition arrayslot :: "gctab \<Rightarrow> int \<Rightarrow> tvalue" where
  "arrayslot t key = tarray t ! nat key"

definition lj_tab_getint :: "gctab \<Rightarrow> int \<Rightarrow> tvalue option" where
  "lj_tab_getint t key =
     (if inarray t key then Some (arrayslot t key) else lj_tab_getinth t key)"

definition or_nil :: "tvalue option \<Rightarrow> tvalue" where
  "or_nil tv = (case tv of Some v \<Rightarrow> v | None \<Rightarrow> TNil)"

definition genlookup :: "gctab \<Rightarrow> tvalue \<Rightarrow> tvalue" where
  "genlookup t key =
     or_nil (map_option (nodeval t) (chain_find t (\<lambda>k. lj_obj_equal k key) (hashkey t key)))"

definition lj_tab_get :: "gctab \<Rightarrow> tvalue \<Rightarrow> tvalue" where
  "lj_tab_get t key =
     (case key of
        TStr s \<Rightarrow> or_nil (lj_tab_getstr t s)
      | TNum nk \<Rightarrow>
          (let k = lj_num2int nk in
           if num_eq nk (num_of_int k) then or_nil (lj_tab_getint t k) else genlookup t key)
      | TNil \<Rightarrow> TNil
      | _ \<Rightarrow> genlookup t key)"

section \<open>Counting for a rehash\<close>

definition bump :: "nat list \<Rightarrow> nat \<Rightarrow> nat \<Rightarrow> nat list" where
  "bump bins b n = bins[b := bins ! b + n]"

definition countint :: "tvalue \<Rightarrow> nat list \<Rightarrow> nat \<times> nat list" where
  "countint key bins =
     (case key of
        TNum nk \<Rightarrow>
          (let k = lj_num2int nk in
           if nat (k mod 2 ^ 32) < LJ_MAX_ASIZE \<and> num_eq nk (num_of_int k)
           then (1, bump bins (if k > 2 then fls_nat (nat (k - 1)) else 0) 1) else (0, bins))
      | _ \<Rightarrow> (0, bins))"

text \<open>The inner loop of \<open>countarray\<close>: live slots from \<open>i\<close> to \<open>tp\<close>.\<close>

definition count_range :: "tvalue list \<Rightarrow> nat \<Rightarrow> nat \<Rightarrow> nat" where
  "count_range a i tp = length (filter (\<lambda>v. \<not> tvisnil v) (map ((!) a) [i..<tp + 1]))"

function countarray_loop :: "tvalue list \<Rightarrow> nat \<Rightarrow> nat \<Rightarrow> nat \<Rightarrow> nat list \<Rightarrow> nat \<times> nat list" where
  "countarray_loop a b i na bins =
     (if b < LJ_MAX_ABITS then
        let tp = 2 * 2 ^ b in
        if tp \<ge> length a \<and> i > length a - 1 then (na, bins)
        else
          let tp = (if tp \<ge> length a then length a - 1 else tp); n = count_range a i tp in
          countarray_loop a (b + 1) (max i (tp + 1)) (na + n) (bump bins b n)
      else (na, bins))"
  by pat_completeness auto
termination by (relation "measure (\<lambda>(a, b, i, na, bins). LJ_MAX_ABITS - b)") auto

declare countarray_loop.simps [simp del, loop_simps]

definition countarray :: "gctab \<Rightarrow> nat list \<Rightarrow> nat \<times> nat list" where
  "countarray t bins = (if asize t = 0 then (0, bins) else countarray_loop (tarray t) 0 0 0 bins)"

fun counthash_loop :: "node list \<Rightarrow> nat \<Rightarrow> nat \<Rightarrow> nat list \<Rightarrow> nat \<times> nat \<times> nat list" where
  "counthash_loop [] tot na bins = (tot, na, bins)"
| "counthash_loop (n # ns) tot na bins =
     (if \<not> tvisnil (nval n) then
        let (c, bins) = countint (nkey n) bins in counthash_loop ns (tot + 1) (na + c) bins
      else counthash_loop ns tot na bins)"

text \<open>The tot, the array count with the integer keys added, and the bins.\<close>

definition counthash :: "gctab \<Rightarrow> nat list \<Rightarrow> nat \<Rightarrow> nat \<times> nat \<times> nat list" where
  "counthash t bins narray =
     (let (tot, na, bins) = counthash_loop (tnode t) 0 0 bins in (tot, narray + na, bins))"

lemma bins_measure: "2 ^ b < 2 * nn \<Longrightarrow> 2 * nn - Suc b < 2 * nn - b" for nn b :: nat
  using less_exp [of b] by linarith

function bestasize_loop :: "nat list \<Rightarrow> nat \<Rightarrow> nat \<Rightarrow> nat \<Rightarrow> nat \<Rightarrow> nat \<Rightarrow> nat \<times> nat" where
  "bestasize_loop bins nn b sm na sz =
     (if 2 * nn > 2 ^ b \<and> sm \<noteq> nn then
        if bins ! b > 0 then
          let sm = sm + bins ! b in
          if 2 * sm > 2 ^ b then bestasize_loop bins nn (b + 1) sm sm (2 * 2 ^ b + 1)
          else bestasize_loop bins nn (b + 1) sm na sz
        else bestasize_loop bins nn (b + 1) sm na sz
      else (na, sz))"
  by pat_completeness auto
termination
  by (relation "measure (\<lambda>(bins, nn, b, sm, na, sz). 2 * nn - b)") (auto intro!: bins_measure)

declare bestasize_loop.simps [simp del, loop_simps]

text \<open>The keys the new array part will hold, and its size.\<close>

definition bestasize :: "nat list \<Rightarrow> nat \<Rightarrow> nat \<times> nat" where
  "bestasize bins narray = bestasize_loop bins narray 0 0 0 0"

section \<open>Setters\<close>

text \<open>
  \<open>lj_tab_newkey\<close>, \<open>lj_tab_resize\<close> and \<open>lj_tab_set\<close> call each other: a new key may need a rehash, whose
  resize inserts the old keys again. The operations below take the \<open>lj_tab_newkey\<close> of the next nesting
  level as the argument \<open>newkey\<close>, and \<open>lj_tab_newkey d\<close> closes the recursion for \<open>d\<close> levels.
\<close>

type_synonym setter = "gctab \<Rightarrow> tvalue \<Rightarrow> tab_error + (gctab \<times> slot)"

definition tab_store :: "gctab \<Rightarrow> slot \<Rightarrow> tvalue \<Rightarrow> gctab" where
  "tab_store t s v =
     (case s of
        SArr i \<Rightarrow> t\<lparr>tarray := (tarray t)[i := v]\<rparr>
      | SHash n \<Rightarrow> t\<lparr>tnode := (tnode t)[n := (tnode t ! n)\<lparr>nval := v\<rparr>]\<rparr>)"

definition setinth_with :: "setter \<Rightarrow> gctab \<Rightarrow> int \<Rightarrow> tab_error + (gctab \<times> slot)" where
  "setinth_with newkey t key =
     (let k = num_of_int key in
      case chain_find t (is_num_key k) (hashnum t k) of
        Some n \<Rightarrow> Inr (t, SHash n)
      | None \<Rightarrow> newkey t (TNum k))"

definition setint_with :: "setter \<Rightarrow> gctab \<Rightarrow> int \<Rightarrow> tab_error + (gctab \<times> slot)" where
  "setint_with newkey t key =
     (if inarray t key then Inr (t, SArr (nat key)) else setinth_with newkey t key)"

definition setstr_with :: "setter \<Rightarrow> gctab \<Rightarrow> bytes \<Rightarrow> tab_error + (gctab \<times> slot)" where
  "setstr_with newkey t key =
     (case chain_find t (is_str_key key) (hashstr t key) of
        Some n \<Rightarrow> Inr (t, SHash n)
      | None \<Rightarrow> newkey t (TStr key))"

definition setgen_with :: "setter \<Rightarrow> gctab \<Rightarrow> tvalue \<Rightarrow> tab_error + (gctab \<times> slot)" where
  "setgen_with newkey t key =
     (case chain_find t (\<lambda>k. lj_obj_equal k key) (hashkey t key) of
        Some n \<Rightarrow> Inr (t, SHash n)
      | None \<Rightarrow> newkey t key)"

definition set_with :: "setter \<Rightarrow> gctab \<Rightarrow> tvalue \<Rightarrow> tab_error + (gctab \<times> slot)" where
  "set_with newkey t key =
     (let t = t\<lparr>nomm := 0\<rparr> in
      case key of
        TStr s \<Rightarrow> setstr_with newkey t s
      | TNum nk \<Rightarrow>
          (let k = lj_num2int nk in
           if num_eq nk (num_of_int k) then setint_with newkey t k
           else if num_nan nk then Inl ErrNANIDX
           else setgen_with newkey t key)
      | TNil \<Rightarrow> Inl ErrNILIDX
      | _ \<Rightarrow> setgen_with newkey t key)"

text \<open>The two reinsertion loops of \<open>lj_tab_resize\<close>: array slots from index \<open>i\<close> on, then old nodes.\<close>

fun reinsert_array :: "setter \<Rightarrow> gctab \<Rightarrow> nat \<Rightarrow> tvalue list \<Rightarrow> tab_error + gctab" where
  "reinsert_array newkey t i [] = Inr t"
| "reinsert_array newkey t i (v # vs) =
     (if \<not> tvisnil v then
        case setinth_with newkey t (int i) of
          Inl e \<Rightarrow> Inl e
        | Inr (t, s) \<Rightarrow> reinsert_array newkey (tab_store t s v) (i + 1) vs
      else reinsert_array newkey t (i + 1) vs)"

fun reinsert_hash :: "setter \<Rightarrow> gctab \<Rightarrow> node list \<Rightarrow> tab_error + gctab" where
  "reinsert_hash newkey t [] = Inr t"
| "reinsert_hash newkey t (n # ns) =
     (if \<not> tvisnil (nval n) then
        case set_with newkey t (nkey n) of
          Inl e \<Rightarrow> Inl e
        | Inr (t, s) \<Rightarrow> reinsert_hash newkey (tab_store t s (nval n)) ns
      else reinsert_hash newkey t ns)"

definition grow_array :: "gctab \<Rightarrow> nat \<Rightarrow> tab_error + gctab" where
  "grow_array t as =
     (if as > asize t then
        if as > LJ_MAX_ASIZE then Inl ErrTABOV
        else Inr (t\<lparr>colo := (if colo t > 0 then colo t - 128 else colo t),
                    tarray := tarray t @ replicate (as - asize t) TNil\<rparr>)
      else Inr t)"

definition new_hash :: "gctab \<Rightarrow> nat \<Rightarrow> tab_error + gctab" where
  "new_hash t hbits =
     (if hbits \<noteq> 0 then newhpart t hbits
      else Inr (t\<lparr>tnode := [nilnode], freetop := 0\<rparr>))"

definition shrink_array :: "setter \<Rightarrow> gctab \<Rightarrow> nat \<Rightarrow> tvalue list \<Rightarrow> tab_error + gctab" where
  "shrink_array newkey t as old =
     (if as < length old
      then reinsert_array newkey (t\<lparr>tarray := take as (tarray t)\<rparr>) as (drop as old)
      else Inr t)"

definition resize_with :: "setter \<Rightarrow> gctab \<Rightarrow> nat \<Rightarrow> nat \<Rightarrow> tab_error + gctab" where
  "resize_with newkey t as hbits =
     (case grow_array t as of
        Inl e \<Rightarrow> Inl e
      | Inr t1 \<Rightarrow>
          (case new_hash t1 hbits of
             Inl e \<Rightarrow> Inl e
           | Inr t2 \<Rightarrow>
               (case shrink_array newkey t2 as (tarray t) of
                  Inl e \<Rightarrow> Inl e
                | Inr t3 \<Rightarrow>
                    if hmask t > 0 then reinsert_hash newkey t3 (tnode t) else Inr t3)))"

definition rehash_with :: "setter \<Rightarrow> gctab \<Rightarrow> tvalue \<Rightarrow> tab_error + gctab" where
  "rehash_with newkey t ek =
     (let (as, bins) = countarray t (replicate LJ_MAX_ABITS 0);
          tot = 1 + as;
          (tot', as, bins) = counthash t bins as;
          tot = tot + tot';
          (c, bins) = countint ek bins;
          (na, as) = bestasize bins (as + c)
      in resize_with newkey t as (hsize2hbits (tot - na)))"

text \<open>The free node below \<open>freetop\<close>, the predecessor on a chain, and the rechaining loop.\<close>

fun free_search :: "node list \<Rightarrow> nat \<Rightarrow> nat option" where
  "free_search nodes 0 = None"
| "free_search nodes (Suc k) =
     (if tvisnil (nkey (nodes ! k)) then Some k else free_search nodes k)"

fun find_pred :: "node list \<Rightarrow> nat \<Rightarrow> nat \<Rightarrow> nat \<Rightarrow> nat option" where
  "find_pred nodes n 0 collide = None"
| "find_pred nodes n (Suc fuel) collide =
     (case nnext (nodes ! collide) of
        None \<Rightarrow> None
      | Some m \<Rightarrow> if m = n then Some collide else find_pred nodes n fuel m)"

definition set_next :: "node list \<Rightarrow> nat \<Rightarrow> nat option \<Rightarrow> node list" where
  "set_next nodes n m = nodes[n := (nodes ! n)\<lparr>nnext := m\<rparr>]"

fun rechain :: "gctab \<Rightarrow> nat \<Rightarrow> node list \<Rightarrow> nat \<Rightarrow> nat \<Rightarrow> node list" where
  "rechain t n nodes 0 f = nodes"
| "rechain t n nodes (Suc fuel) f =
     (case nnext (nodes ! f) of
        None \<Rightarrow> nodes
      | Some nn \<Rightarrow>
          (case nkey (nodes ! nn) of
             TStr s \<Rightarrow>
               if \<not> tvisnil (nval (nodes ! nn)) \<and> hashstr t s = n then
                 let nodes = set_next nodes f (nnext (nodes ! nn));
                     nodes = set_next nodes nn (nnext (nodes ! n));
                     nodes = set_next nodes n (Some nn)
                 in rechain t n nodes fuel f
               else rechain t n nodes fuel nn
           | _ \<Rightarrow> rechain t n nodes fuel nn))"

definition tvismzero :: "tvalue \<Rightarrow> bool" where
  "tvismzero o1 \<longleftrightarrow> o1 = TNum 0x8000000000000000"

definition set_key :: "gctab \<Rightarrow> nat \<Rightarrow> tvalue \<Rightarrow> gctab" where
  "set_key t n key =
     t\<lparr>tnode := (tnode t)[n := (tnode t ! n)\<lparr>nkey := (if tvismzero key then TNum 0 else key)\<rparr>]\<rparr>"

text \<open>Move the colliding node of another chain into the free node and free its main position.\<close>

definition evict :: "gctab \<Rightarrow> nat \<Rightarrow> nat \<Rightarrow> nat \<Rightarrow> gctab" where
  "evict t n p f =
     (let nodes = set_next (tnode t) p (Some f);
          nodes = nodes[f := nodes ! n];
          nodes = nodes[n := (nodes ! n)\<lparr>nnext := None, nval := TNil\<rparr>]
      in t\<lparr>tnode := rechain t n nodes (length nodes) f\<rparr>)"

definition newkey_with :: "setter \<Rightarrow> setter" where
  "newkey_with newkey t key =
     (let n = hashkey t key in
      if \<not> tvisnil (nval (tnode t ! n)) \<or> hmask t = 0 then
        case free_search (tnode t) (freetop t) of
          None \<Rightarrow>
            (case rehash_with newkey t key of
               Inl e \<Rightarrow> Inl e
             | Inr t \<Rightarrow> set_with newkey t key)
        | Some f \<Rightarrow>
            let t = t\<lparr>freetop := f\<rparr>; collide = hashkey t (nkey (tnode t ! n)) in
            if collide \<noteq> n then
              case find_pred (tnode t) n (length (tnode t)) collide of
                None \<Rightarrow> Inl ErrChain
              | Some p \<Rightarrow> Inr (set_key (evict t n p f) n key, SHash n)
            else
              let nodes = set_next (tnode t) f (nnext (tnode t ! n));
                  nodes = set_next nodes n (Some f)
              in Inr (set_key (t\<lparr>tnode := nodes\<rparr>) f key, SHash f)
      else Inr (set_key t n key, SHash n))"

fun lj_tab_newkey :: "nat \<Rightarrow> setter" where
  "lj_tab_newkey 0 = (\<lambda>t key. Inl ErrNesting)"
| "lj_tab_newkey (Suc d) = newkey_with (lj_tab_newkey d)"

definition lj_tab_resize :: "gctab \<Rightarrow> nat \<Rightarrow> nat \<Rightarrow> tab_error + gctab" where
  "lj_tab_resize t as hbits = resize_with (lj_tab_newkey 2) t as hbits"

definition lj_tab_rehash :: "gctab \<Rightarrow> tab_error + gctab" where
  "lj_tab_rehash t = rehash_with (lj_tab_newkey 2) t TNil"

definition lj_tab_reasize :: "gctab \<Rightarrow> nat \<Rightarrow> tab_error + gctab" where
  "lj_tab_reasize t nasize =
     lj_tab_resize t (nasize + 1) (if hmask t > 0 then fls_nat (hmask t) + 1 else 0)"

definition lj_tab_setinth :: "gctab \<Rightarrow> int \<Rightarrow> tab_error + (gctab \<times> slot)" where
  "lj_tab_setinth = setinth_with (lj_tab_newkey 2)"

definition lj_tab_setint :: "gctab \<Rightarrow> int \<Rightarrow> tab_error + (gctab \<times> slot)" where
  "lj_tab_setint = setint_with (lj_tab_newkey 2)"

definition lj_tab_setstr :: "gctab \<Rightarrow> bytes \<Rightarrow> tab_error + (gctab \<times> slot)" where
  "lj_tab_setstr = setstr_with (lj_tab_newkey 2)"

definition lj_tab_set :: "gctab \<Rightarrow> tvalue \<Rightarrow> tab_error + (gctab \<times> slot)" where
  "lj_tab_set = set_with (lj_tab_newkey 2)"

section \<open>Traversal\<close>

definition keyindex_hash :: "gctab \<Rightarrow> tvalue \<Rightarrow> tab_error + nat" where
  "keyindex_hash t key =
     (case chain_find t (\<lambda>k. lj_obj_equal k key) (hashkey t key) of
        Some n \<Rightarrow> Inr (asize t + n)
      | None \<Rightarrow>
          (case key of
             TNum u \<Rightarrow>
               if ucast (drop_bit 32 u) = (0xfffe7fff :: u32) then Inr (nat ((uint (ucast u :: u32) - 1) mod 2 ^ 32))
               else Inl ErrNEXTIDX
           | _ \<Rightarrow> Inl ErrNEXTIDX))"

definition keyindex :: "gctab \<Rightarrow> tvalue \<Rightarrow> tab_error + nat" where
  "keyindex t key =
     (case key of
        TNum nk \<Rightarrow>
          (let k = lj_num2int nk in
           if nat (k mod 2 ^ 32) < asize t \<and> num_eq nk (num_of_int k) then Inr (nat (k mod 2 ^ 32))
           else keyindex_hash t key)
      | TNil \<Rightarrow> Inr (2 ^ 32 - 1)
      | _ \<Rightarrow> keyindex_hash t key)"

function next_array :: "tvalue list \<Rightarrow> nat \<Rightarrow> (tvalue \<times> tvalue) option" where
  "next_array a i =
     (if i < length a then
        if \<not> tvisnil (a ! i) then Some (TNum (num_of_int (int i)), a ! i) else next_array a (i + 1)
      else None)"
  by pat_completeness auto
termination by (relation "measure (\<lambda>(a, i). length a - i)") auto

function next_hash :: "node list \<Rightarrow> nat \<Rightarrow> (tvalue \<times> tvalue) option" where
  "next_hash ns i =
     (if i < length ns then
        if \<not> tvisnil (nval (ns ! i)) then Some (nkey (ns ! i), nval (ns ! i)) else next_hash ns (i + 1)
      else None)"
  by pat_completeness auto
termination by (relation "measure (\<lambda>(ns, i). length ns - i)") auto

declare next_array.simps [simp del, loop_simps] next_hash.simps [simp del, loop_simps]

text \<open>\<open>None\<close> is the end of the traversal.\<close>

definition lj_tab_next :: "gctab \<Rightarrow> tvalue \<Rightarrow> tab_error + (tvalue \<times> tvalue) option" where
  "lj_tab_next t key =
     (case keyindex t key of
        Inl e \<Rightarrow> Inl e
      | Inr i \<Rightarrow>
          let i = (i + 1) mod 2 ^ 32 in
          Inr (case next_array (tarray t) i of
                 Some kv \<Rightarrow> Some kv
               | None \<Rightarrow> next_hash (tnode t) (i - asize t)))"

section \<open>Length\<close>

text \<open>The linear search never ends on a table whose every integer key is set: the value is then
  \<open>None\<close>. In \<open>unbound_search\<close> the index \<open>j\<close> starts at 1 or more, so its test for 0 never fires.\<close>

definition present :: "gctab \<Rightarrow> nat \<Rightarrow> bool" where
  "present t j = (case lj_tab_getint t (sint (of_nat j :: u32)) of None \<Rightarrow> False | Some v \<Rightarrow> \<not> tvisnil v)"

partial_function (option) linear_search :: "gctab \<Rightarrow> nat \<Rightarrow> nat option" where
  "linear_search t i = (if present t i then linear_search t (i + 1) else Some (i - 1))"

function bin_search :: "(nat \<Rightarrow> bool) \<Rightarrow> nat \<Rightarrow> nat \<Rightarrow> nat" where
  "bin_search P i j =
     (if j - i > 1 then
        let m = (i + j) div 2 in if P m then bin_search P m j else bin_search P i m
      else i)"
  by pat_completeness auto
termination by (relation "measure (\<lambda>(P, i, j). j - i)") auto

declare bin_search.simps [simp del, loop_simps]

function unbound_loop :: "gctab \<Rightarrow> nat \<Rightarrow> nat \<Rightarrow> nat option" where
  "unbound_loop t i j =
     (if present t j then
        if 2 * j > 2 ^ 31 - 3 \<or> j = 0 then linear_search t 1
        else unbound_loop t j (2 * j)
      else Some (bin_search (present t) i j))"
  by pat_completeness auto
termination by (relation "measure (\<lambda>(t, i, j). 2 ^ 31 - j)") auto

declare unbound_loop.simps [simp del, loop_simps]

definition unbound_search :: "gctab \<Rightarrow> nat \<Rightarrow> nat option" where
  "unbound_search t j = unbound_loop t j (j + 1)"

definition lj_tab_len :: "gctab \<Rightarrow> nat option" where
  "lj_tab_len t =
     (let j = asize t in
      if j > 1 \<and> tvisnil (arrayslot t (int j - 1))
      then Some (bin_search (\<lambda>m. \<not> tvisnil (arrayslot t (int m - 1))) 1 j - 1)
      else
        let j = (if j \<noteq> 0 then j - 1 else j) in
        if hmask t \<le> 0 then Some j else unbound_search t j)"

end
