(* ===== verification/Lj_Tab_Hash.thy ===== *)
theory Lj_Tab_Hash
  imports Lj_Tab
begin

text \<open>
  The hash part of a table (\<open>src/src/lj_tab.c\<close>, \<open>lj_tab_newkey\<close>): its chains, its invariant \<open>hash_ok\<close>, and
  the three ways a new key enters it: over a dead main position, behind the node at its main position,
  or at its main position after the node of another chain has been moved away. With the contents
  of strings as keys, no live key can hash to a position held by another chain, so that the loop of
  the code that rechains resurrected string keys has nothing to do (\<open>rechain_idle\<close>).
\<close>

section \<open>Chains\<close>

definition edge :: "node list \<Rightarrow> (nat \<times> nat) set" where
  "edge ns = {(x, y). x < length ns \<and> nnext (ns ! x) = Some y}"

definition ranked :: "node list \<Rightarrow> (nat \<Rightarrow> nat) \<Rightarrow> bool" where
  "ranked ns r \<longleftrightarrow> (\<forall>x y. (x, y) \<in> edge ns \<longrightarrow> y < length ns \<and> r x < r y)"

definition above :: "node list \<Rightarrow> (nat \<Rightarrow> nat) \<Rightarrow> nat \<Rightarrow> nat" where
  "above ns r x = card {y. y < length ns \<and> r x < r y}"

lemma above_less: "x < length ns \<Longrightarrow> above ns r x < length ns"
proof -
  assume x: "x < length ns"
  have "{y. y < length ns \<and> r x < r y} \<subset> {..<length ns}" using x by auto
  then have "above ns r x < card {..<length ns}" unfolding above_def by (intro psubset_card_mono) auto
  then show ?thesis by simp
qed

lemma above_edge: "ranked ns r \<Longrightarrow> (x, y) \<in> edge ns \<Longrightarrow> above ns r y < above ns r x"
  unfolding above_def by (intro psubset_card_mono) (auto simp: ranked_def psubset_eq intro: less_trans)

lemma edge_next: "x < length ns \<Longrightarrow> nnext (ns ! x) = Some y \<Longrightarrow> (x, y) \<in> edge ns"
  by (simp add: edge_def)

lemma edge_none: "nnext (ns ! x) = None \<Longrightarrow> (x, y) \<in> (edge ns)\<^sup>* \<Longrightarrow> y = x"
  by (erule converse_rtranclE) (auto simp: edge_def)

lemma edge_some: "nnext (ns ! x) = Some m \<Longrightarrow> (x, y) \<in> (edge ns)\<^sup>* \<Longrightarrow> y = x \<or> (m, y) \<in> (edge ns)\<^sup>*"
  by (erule converse_rtranclE) (auto simp: edge_def)

lemma reach_less: "ranked ns r \<Longrightarrow> (x, y) \<in> (edge ns)\<^sup>* \<Longrightarrow> x < length ns \<Longrightarrow> y < length ns"
  by (erule rtranclE) (auto simp: ranked_def)

lemma find_node_sound:
  "find_node P ns fuel x = Some y \<Longrightarrow> x < length ns \<Longrightarrow> ranked ns r \<Longrightarrow>
    (x, y) \<in> (edge ns)\<^sup>* \<and> y < length ns \<and> P (nkey (ns ! y))"
proof (induction P ns fuel x rule: find_node.induct)
  case (2 P ns fuel x)
  show ?case
  proof (cases "P (nkey (ns ! x))")
    case False
    then obtain m where m: "nnext (ns ! x) = Some m" "find_node P ns fuel m = Some y"
      using "2.prems"(1) by (auto split: option.splits)
    then have e: "(x, m) \<in> edge ns" using "2.prems"(2) by (intro edge_next)
    then have "m < length ns" using "2.prems"(3) by (simp add: ranked_def)
    then show ?thesis using "2.IH" [OF False m(1) m(2)] "2.prems"(3) e by (auto intro: converse_rtrancl_into_rtrancl)
  qed (use 2 in simp)
qed simp

lemma find_node_complete:
  "find_node P ns fuel x = None \<Longrightarrow> x < length ns \<Longrightarrow> ranked ns r \<Longrightarrow> above ns r x < fuel \<Longrightarrow>
    (x, y) \<in> (edge ns)\<^sup>* \<Longrightarrow> \<not> P (nkey (ns ! y))"
proof (induction P ns fuel x rule: find_node.induct)
  case (2 P ns fuel x)
  have nP: "\<not> P (nkey (ns ! x))" using "2.prems"(1) by (auto split: if_splits)
  show ?case
  proof (cases "nnext (ns ! x)")
    case None
    then show ?thesis using edge_none [OF None "2.prems"(5)] nP by simp
  next
    case (Some m)
    then have e: "(x, m) \<in> edge ns" using "2.prems"(2) by (intro edge_next)
    then have m: "m < length ns" using "2.prems"(3) by (simp add: ranked_def)
    have a: "above ns r m < fuel" using above_edge [OF "2.prems"(3) e] "2.prems"(4) by simp
    have n: "find_node P ns fuel m = None" using "2.prems"(1) Some nP by simp
    show ?thesis
      using edge_some [OF Some "2.prems"(5)] "2.IH" [OF nP Some n m "2.prems"(3) a] nP by blast
  qed
qed simp

lemma find_pred_correct:
  "(x, n) \<in> (edge ns)\<^sup>* \<Longrightarrow> x \<noteq> n \<Longrightarrow> x < length ns \<Longrightarrow> ranked ns r \<Longrightarrow> above ns r x < fuel \<Longrightarrow>
    \<exists>p. find_pred ns n fuel x = Some p \<and> (p, n) \<in> edge ns"
proof (induction ns n fuel x rule: find_pred.induct)
  case (2 ns n fuel x)
  obtain m where m: "nnext (ns ! x) = Some m"
    using "2.prems"(1,2) edge_none by (cases "nnext (ns ! x)") blast+
  then have e: "(x, m) \<in> edge ns" using "2.prems"(3) by (intro edge_next)
  then have l: "m < length ns" using "2.prems"(4) by (simp add: ranked_def)
  have a: "above ns r m < fuel" using above_edge [OF "2.prems"(4) e] "2.prems"(5) by simp
  have mn: "(m, n) \<in> (edge ns)\<^sup>*" using edge_some [OF m "2.prems"(1)] "2.prems"(2) by simp
  show ?case
  proof (cases "m = n")
    case True
    then show ?thesis using m e by simp
  next
    case False
    then show ?thesis using "2.IH" [OF m False mn False l "2.prems"(4) a] m by simp
  qed
qed simp

section \<open>Keys\<close>

definition key_ok :: "tvalue \<Rightarrow> bool" where
  "key_ok k \<longleftrightarrow> k \<noteq> TNil \<and> \<not> tvismzero k \<and> (\<forall>n. k = TNum n \<longrightarrow> \<not> num_nan n)"

definition norm_key :: "tvalue \<Rightarrow> tvalue" where
  "norm_key k = (if tvismzero k then TNum 0 else k)"

lemma mzero_fields: "num_exp 0x8000000000000000 = 0" "num_man 0x8000000000000000 = 0"
  by (simp_all add: num_exp_def num_man_def)

lemma key_ok_eq: "key_ok a \<Longrightarrow> key_ok b \<Longrightarrow> lj_obj_equal a b \<longleftrightarrow> a = b"
proof -
  assume "key_ok a" "key_ok b"
  then have "num_zero n \<Longrightarrow> n = 0" if "a = TNum n \<or> b = TNum n" for n
    using that num_zero_cases [of n] by (auto simp: key_ok_def tvismzero_def)
  then show ?thesis
    using \<open>key_ok a\<close> \<open>key_ok b\<close>
    by (cases a; cases b) (auto simp: lj_obj_equal_def num_eq_def key_ok_def)
qed

lemma norm_key_ok: "k \<noteq> TNil \<Longrightarrow> (\<And>n. k = TNum n \<Longrightarrow> \<not> num_nan n) \<Longrightarrow> key_ok (norm_key k)"
  by (auto simp: norm_key_def key_ok_def tvismzero_def num_nan_def)

lemma norm_key_id [simp]: "key_ok k \<Longrightarrow> norm_key k = k"
  by (simp add: norm_key_def key_ok_def)

lemma norm_key_eq:
  assumes "a \<noteq> TNil" "b \<noteq> TNil" "\<And>n. a = TNum n \<Longrightarrow> \<not> num_nan n" "\<And>n. b = TNum n \<Longrightarrow> \<not> num_nan n"
  shows "norm_key a = norm_key b \<longleftrightarrow> lj_obj_equal a b"
proof -
  have z: "num_zero 0x8000000000000000" "num_zero 0" by (simp_all add: num_zero_def mzero_fields)
  have c: "num_zero n \<Longrightarrow> n = 0 \<or> n = 0x8000000000000000" for n using num_zero_cases [of n] by simp
  show ?thesis
    using assms z c
    by (cases a; cases b) (auto simp: norm_key_def tvismzero_def lj_obj_equal_def num_eq_def)
qed

text \<open>The integer a key denotes, if it is one of 32 bits.\<close>

definition int_key :: "tvalue \<Rightarrow> int option" where
  "int_key k = (case k of TNum n \<Rightarrow> if num_eq n (num_of_int (lj_num2int n)) then Some (lj_num2int n) else None | _ \<Rightarrow> None)"

lemma int_key_num_of_int: "int32 i \<Longrightarrow> int_key (TNum (num_of_int i)) = Some i"
  by (simp add: int_key_def)

lemma num_eq_num_of_int:
  assumes "\<not> tvismzero (TNum n)" "int32 i" "num_eq n (num_of_int i)"
  shows "n = num_of_int i"
  using assms num_zero_cases [of n] by (auto simp: num_eq_def tvismzero_def)

lemma int_key_Some: "key_ok k \<Longrightarrow> int_key k = Some i \<Longrightarrow> k = TNum (num_of_int i) \<and> int32 i"
  by (auto simp: int_key_def key_ok_def split: tvalue.splits if_splits intro!: num_eq_num_of_int)

lemma int_key_ok: "int32 i \<Longrightarrow> key_ok (TNum (num_of_int i))"
proof -
  assume i: "int32 i"
  have "num_of_int i \<noteq> 0x8000000000000000"
  proof
    assume e: "num_of_int i = 0x8000000000000000"
    then have "num_zero (num_of_int i)" by (simp add: num_zero_def mzero_fields)
    then have "i = 0" using i by simp
    then show False using e by simp
  qed
  then show ?thesis using i by (simp add: key_ok_def tvismzero_def)
qed

section \<open>The invariant of the hash part\<close>

definition hash_ok :: "(tvalue \<Rightarrow> nat) \<Rightarrow> node list \<Rightarrow> bool" where
  "hash_ok H ns \<longleftrightarrow>
     (\<exists>r. ranked ns r) \<and>
     (\<forall>x y. (x, y) \<in> edge ns \<longrightarrow> nkey (ns ! y) \<noteq> TNil) \<and>
     (\<forall>x < length ns. nkey (ns ! x) = TNil \<longrightarrow> nval (ns ! x) = TNil \<and> nnext (ns ! x) = None) \<and>
     (\<forall>x < length ns. nkey (ns ! x) \<noteq> TNil \<longrightarrow>
        key_ok (nkey (ns ! x)) \<and> (H (nkey (ns ! x)), x) \<in> (edge ns)\<^sup>* \<and>
        nkey (ns ! H (nkey (ns ! x))) \<noteq> TNil \<and> H (nkey (ns ! H (nkey (ns ! x)))) = H (nkey (ns ! x))) \<and>
     (\<forall>x x' y. (x, y) \<in> edge ns \<longrightarrow> (x', y) \<in> edge ns \<longrightarrow> x = x') \<and>
     (\<forall>x < length ns. \<forall>y < length ns. nkey (ns ! x) = nkey (ns ! y) \<longrightarrow> nkey (ns ! x) \<noteq> TNil \<longrightarrow> x = y)"

lemma hash_okD:
  assumes "hash_ok H ns"
  shows "\<exists>r. ranked ns r"
    and "\<And>x y. (x, y) \<in> edge ns \<Longrightarrow> nkey (ns ! y) \<noteq> TNil"
    and "\<And>x. x < length ns \<Longrightarrow> nkey (ns ! x) = TNil \<Longrightarrow> nval (ns ! x) = TNil \<and> nnext (ns ! x) = None"
    and "\<And>x. x < length ns \<Longrightarrow> nkey (ns ! x) \<noteq> TNil \<Longrightarrow>
        key_ok (nkey (ns ! x)) \<and> (H (nkey (ns ! x)), x) \<in> (edge ns)\<^sup>* \<and>
        nkey (ns ! H (nkey (ns ! x))) \<noteq> TNil \<and> H (nkey (ns ! H (nkey (ns ! x)))) = H (nkey (ns ! x))"
    and "\<And>x x' y. (x, y) \<in> edge ns \<Longrightarrow> (x', y) \<in> edge ns \<Longrightarrow> x = x'"
    and "\<And>x y. x < length ns \<Longrightarrow> y < length ns \<Longrightarrow> nkey (ns ! x) = nkey (ns ! y) \<Longrightarrow> nkey (ns ! x) \<noteq> TNil \<Longrightarrow> x = y"
  using assms unfolding hash_ok_def by blast+

definition keyed :: "node list \<Rightarrow> nat set" where
  "keyed ns = {x. x < length ns \<and> nkey (ns ! x) \<noteq> TNil}"

lemma finite_keyed [simp]: "finite (keyed ns)"
  by (simp add: keyed_def)

text \<open>The value the hash part holds for a key.\<close>

definition hget :: "node list \<Rightarrow> tvalue \<Rightarrow> tvalue" where
  "hget ns k = (case find (\<lambda>nd. nkey nd = k) ns of None \<Rightarrow> TNil | Some nd \<Rightarrow> nval nd)"

lemma hget_present:
  assumes "hash_ok H ns" "x < length ns" "nkey (ns ! x) = k" "k \<noteq> TNil"
  shows "hget ns k = nval (ns ! x)"
proof (cases "find (\<lambda>nd. nkey nd = k) ns")
  case None
  then show ?thesis using assms by (auto simp: find_None_iff in_set_conv_nth)
next
  case (Some nd)
  then obtain i where "i < length ns" "nkey (ns ! i) = k" "nd = ns ! i" by (auto simp: find_Some_iff)
  moreover have "i = x" using hash_okD(6) [OF assms(1)] assms calculation by metis
  ultimately show ?thesis using Some by (simp add: hget_def)
qed

lemma hget_absent:
  assumes "\<And>x. x < length ns \<Longrightarrow> nkey (ns ! x) \<noteq> k"
  shows "hget ns k = TNil"
proof -
  have "find (\<lambda>nd. nkey nd = k) ns = None" using assms by (auto simp: find_None_iff in_set_conv_nth)
  then show ?thesis by (simp add: hget_def)
qed

text \<open>What every insertion of a new key \<open>k\<close> achieves; \<open>x\<close> is the node that holds it.\<close>

definition inserted :: "(tvalue \<Rightarrow> nat) \<Rightarrow> node list \<Rightarrow> tvalue \<Rightarrow> node list \<Rightarrow> nat \<Rightarrow> bool" where
  "inserted H ns k ns' x \<longleftrightarrow>
     length ns' = length ns \<and> hash_ok H ns' \<and> x < length ns \<and> nkey (ns' ! x) = k \<and>
     (\<forall>k'. k' \<noteq> TNil \<longrightarrow> hget ns' k' = hget ns k') \<and> keyed ns \<subseteq> keyed ns' \<and>
     (\<exists>z. keyed ns' \<subseteq> insert z (keyed ns)) \<and>
     (\<forall>y < length ns. nkey (ns' ! y) = k \<or> (\<exists>z < length ns. nkey (ns ! z) = nkey (ns' ! y)))"

text \<open>
  The contents part of \<open>inserted\<close>: an old node \<open>y\<close> keeps key and value at \<open>g y\<close>, except a dead one that
  is overwritten.
\<close>

lemma hget_moved:
  assumes ok: "hash_ok H ns" "hash_ok H ns'" and len: "length ns' = length ns"
    and new: "\<And>y. y < length ns \<Longrightarrow> nkey (ns ! y) \<noteq> k"
    and x: "x < length ns" "nkey (ns' ! x) = k" "nval (ns' ! x) = TNil"
    and old: "\<And>y. y < length ns \<Longrightarrow> nkey (ns ! y) \<noteq> TNil \<Longrightarrow> nval (ns ! y) \<noteq> TNil \<Longrightarrow>
        \<exists>z < length ns. nkey (ns' ! z) = nkey (ns ! y) \<and> nval (ns' ! z) = nval (ns ! y)"
    and bwd: "\<And>z. z < length ns \<Longrightarrow> nkey (ns' ! z) \<noteq> TNil \<Longrightarrow> nkey (ns' ! z) \<noteq> k \<Longrightarrow>
        \<exists>y < length ns. nkey (ns ! y) = nkey (ns' ! z) \<and> nval (ns ! y) = nval (ns' ! z)"
    and k': "k' \<noteq> TNil"
  shows "hget ns' k' = hget ns k'"
proof (cases "k' = k")
  case True
  then show ?thesis
    using hget_present [OF ok(2), of x k] hget_absent [of ns k] new x len k' by simp
next
  case False
  show ?thesis
  proof (cases "\<exists>z < length ns. nkey (ns' ! z) = k'")
    case True
    then obtain z where z: "z < length ns" "nkey (ns' ! z) = k'" by blast
    then obtain y where "y < length ns" "nkey (ns ! y) = k'" "nval (ns ! y) = nval (ns' ! z)"
      using bwd [of z] False k' by auto
    then show ?thesis using hget_present [OF ok(2), of z k'] hget_present [OF ok(1), of y k'] z len k' by simp
  next
    case no: False
    then have h: "hget ns' k' = TNil" using len by (intro hget_absent) auto
    show ?thesis
    proof (cases "\<exists>y < length ns. nkey (ns ! y) = k'")
      case True
      then obtain y where y: "y < length ns" "nkey (ns ! y) = k'" by blast
      then have "nval (ns ! y) = TNil" using old [of y] no k' by auto
      then show ?thesis using hget_present [OF ok(1), of y k'] y k' h by simp
    next
      case False
      then show ?thesis using h hget_absent [of ns k'] by auto
    qed
  qed
qed

subsection \<open>Overwriting the main position\<close>

lemma insert_main:
  assumes ok: "hash_ok H ns" and k: "key_ok k" and new: "\<And>y. y < length ns \<Longrightarrow> nkey (ns ! y) \<noteq> k"
    and x: "x = H k" "x < length ns" "nval (ns ! x) = TNil"
    and ns': "ns' = ns[x := (ns ! x)\<lparr>nkey := k\<rparr>]"
  shows "inserted H ns k ns' x"
proof -
  note D = hash_okD [OF ok]
  have kn: "k \<noteq> TNil" using k by (simp add: key_ok_def)
  have len: "length ns' = length ns" by (simp add: ns')
  have nth: "ns' ! y = (if y = x then (ns ! x)\<lparr>nkey := k\<rparr> else ns ! y)" if "y < length ns" for y
    using that x by (simp add: ns' nth_list_update)
  have nx: "nnext (ns' ! y) = nnext (ns ! y)" if "y < length ns" for y using nth [OF that] by simp
  have e: "edge ns' = edge ns" using nx len by (auto simp: edge_def)
  obtain r where r: "ranked ns r" using D(1) by blast
  then have r': "ranked ns' r" by (simp add: ranked_def e len)
  have lt: "y < length ns" if "(z, y) \<in> edge ns" for z y using that r by (simp add: ranked_def)
  have ok': "hash_ok H ns'"
    unfolding hash_ok_def e len
  proof (intro conjI allI impI)
    show "\<exists>r. ranked ns' r" using r' by blast
    show "nkey (ns' ! y) \<noteq> TNil" if "(z, y) \<in> edge ns" for z y
      using D(2) [OF that] lt [OF that] nth [of y] kn by auto
    fix y assume y: "y < length ns"
    show "nval (ns' ! y) = TNil" "nnext (ns' ! y) = None" if "nkey (ns' ! y) = TNil"
      using that D(3) [OF y] nth [OF y] kn by (auto split: if_splits)
    assume ky: "nkey (ns' ! y) \<noteq> TNil"
    have *: "key_ok (nkey (ns' ! y)) \<and> (H (nkey (ns' ! y)), y) \<in> (edge ns)\<^sup>* \<and> nkey (ns' ! H (nkey (ns' ! y))) \<noteq> TNil
       \<and> H (nkey (ns' ! H (nkey (ns' ! y)))) = H (nkey (ns' ! y))"
    proof (cases "y = x")
      case True
      then show ?thesis using nth [OF x(2)] k x kn by simp
    next
      case False
      then have e1: "ns' ! y = ns ! y" using nth [OF y] by simp
      let ?z = "H (nkey (ns ! y))"
      have b: "key_ok (nkey (ns ! y)) \<and> (?z, y) \<in> (edge ns)\<^sup>* \<and> nkey (ns ! ?z) \<noteq> TNil \<and> H (nkey (ns ! ?z)) = ?z"
        using D(4) [OF y] ky e1 by simp
      have "nkey (ns' ! ?z) = (if ?z = x then k else nkey (ns ! ?z))"
        using x(2) by (cases "x = ?z") (simp_all add: ns' nth_list_update)
      then show ?thesis using b e1 x kn by auto
    qed
    show "key_ok (nkey (ns' ! y))" "(H (nkey (ns' ! y)), y) \<in> (edge ns)\<^sup>*" "nkey (ns' ! H (nkey (ns' ! y))) \<noteq> TNil"
      "H (nkey (ns' ! H (nkey (ns' ! y)))) = H (nkey (ns' ! y))"
      using * by blast+
  next
    show "z = z'" if "(z, y) \<in> edge ns" "(z', y) \<in> edge ns" for z z' y using D(5) that by blast
    show "y = z" if "y < length ns" "z < length ns" "nkey (ns' ! y) = nkey (ns' ! z)" "nkey (ns' ! y) \<noteq> TNil" for y z
      using that new D(6) [of y z] nth [of y] nth [of z] by (auto split: if_splits)
  qed
  have h: "hget ns' k' = hget ns k'" if "k' \<noteq> TNil" for k'
  proof (rule hget_moved [OF ok ok' len new, of x])
    show "nkey (ns' ! x) = k" "nval (ns' ! x) = TNil" "x < length ns" using nth [OF x(2)] x by simp_all
    show "\<exists>z < length ns. nkey (ns' ! z) = nkey (ns ! y) \<and> nval (ns' ! z) = nval (ns ! y)"
      if "y < length ns" "nkey (ns ! y) \<noteq> TNil" "nval (ns ! y) \<noteq> TNil" for y
      using that nth [of y] x by (intro exI [of _ y]) auto
    show "\<exists>y < length ns. nkey (ns ! y) = nkey (ns' ! z) \<and> nval (ns ! y) = nval (ns' ! z)"
      if "z < length ns" "nkey (ns' ! z) \<noteq> TNil" "nkey (ns' ! z) \<noteq> k" for z
      using that nth [of z] by (intro exI [of _ z]) (auto split: if_splits)
  qed (use that in auto)
  have "keyed ns' \<subseteq> insert x (keyed ns)" "keyed ns \<subseteq> keyed ns'"
    using nth len kn by (auto simp: keyed_def split: if_splits)
  moreover have "\<forall>y < length ns. nkey (ns' ! y) = k \<or> (\<exists>z < length ns. nkey (ns ! z) = nkey (ns' ! y))"
    using nth by force
  ultimately show ?thesis
    unfolding inserted_def using ok' len x(2) nth [OF x(2)] h by (intro conjI exI [of _ x]) simp_all
qed

subsection \<open>Inserting behind the main node\<close>

lemma insert_chain:
  assumes ok: "hash_ok H ns" and k: "key_ok k" and new: "\<And>y. y < length ns \<Longrightarrow> nkey (ns ! y) \<noteq> k"
    and n: "n = H k" "n < length ns" "nkey (ns ! n) \<noteq> TNil" "H (nkey (ns ! n)) = n"
    and f: "f < length ns" "nkey (ns ! f) = TNil"
    and ns': "ns' = ns[f := \<lparr>nval = nval (ns ! f), nkey = k, nnext = nnext (ns ! n)\<rparr>, n := (ns ! n)\<lparr>nnext := Some f\<rparr>]"
  shows "inserted H ns k ns' f"
proof -
  note D = hash_okD [OF ok]
  have kn: "k \<noteq> TNil" using k by (simp add: key_ok_def)
  have fn: "f \<noteq> n" using n f by auto
  have fv: "nval (ns ! f) = TNil" "nnext (ns ! f) = None" using D(3) [OF f] by simp_all
  have len: "length ns' = length ns" by (simp add: ns')
  have nf: "ns' ! f = \<lparr>nval = TNil, nkey = k, nnext = nnext (ns ! n)\<rparr>"
    and nn: "ns' ! n = (ns ! n)\<lparr>nnext := Some f\<rparr>"
    using f n fn fv by (simp_all add: ns')
  have no: "ns' ! y = ns ! y" if "y \<noteq> f" "y \<noteq> n" for y using that by (simp add: ns')
  have key: "nkey (ns' ! y) = (if y = f then k else nkey (ns ! y))" and val: "nval (ns' ! y) = nval (ns ! y)" for y
    using nf nn no [of y] fv by (cases "y = n"; cases "y = f"; simp)+
  obtain r where r: "ranked ns r" using D(1) by blast
  have lt: "y < length ns" "r z < r y" if "(z, y) \<in> edge ns" for z y using that r by (simp_all add: ranked_def)
  have no_f: "(z, f) \<notin> edge ns" "(f, z) \<notin> edge ns" for z using D(2) [of z f] f fv by (auto simp: edge_def)
  have e': "(z, y) \<in> edge ns' \<longleftrightarrow> (if z = n then y = f else if z = f then (n, y) \<in> edge ns else (z, y) \<in> edge ns)" for z y
    using nf nn no [of z] fn n f len by (auto simp: edge_def)
  have sub: "edge ns \<subseteq> (edge ns')\<^sup>*"
  proof
    fix p assume "p \<in> edge ns"
    then obtain z y where p: "p = (z, y)" "(z, y) \<in> edge ns" by (cases p) auto
    show "p \<in> (edge ns')\<^sup>*"
    proof (cases "z = n")
      case True
      have "(n, f) \<in> edge ns'" "(f, y) \<in> edge ns'" using e' p True fn by auto
      then show ?thesis using p True by (meson r_into_rtrancl rtrancl_trans)
    next
      case False
      then have "(z, y) \<in> edge ns'" using e' [of z y] p no_f by auto
      then show ?thesis using p by auto
    qed
  qed
  then have sub': "(edge ns)\<^sup>* \<subseteq> (edge ns')\<^sup>*" by (rule rtrancl_subset_rtrancl)
  define r' where "r' x = (if x = f then 2 * r n + 1 else 2 * r x)" for x
  have r': "ranked ns' r'"
    unfolding ranked_def
  proof (intro allI impI)
    fix z y assume "(z, y) \<in> edge ns'"
    then show "y < length ns' \<and> r' z < r' y"
      using e' [of z y] lt [of z y] lt [of n y] no_f [of n] no_f [of z] f len fn by (auto simp: r'_def split: if_splits)
  qed
  have ok': "hash_ok H ns'"
    unfolding hash_ok_def len
  proof (intro conjI allI impI)
    show "\<exists>r. ranked ns' r" using r' by blast
    show "nkey (ns' ! y) \<noteq> TNil" if "(z, y) \<in> edge ns'" for z y
      using that e' [of z y] D(2) [of z y] D(2) [of n y] key kn by (auto split: if_splits)
    fix y assume y: "y < length ns"
    show "nval (ns' ! y) = TNil" "nnext (ns' ! y) = None" if "nkey (ns' ! y) = TNil"
    proof -
      have yy: "nkey (ns ! y) = TNil" "y \<noteq> f" using that key [of y] kn by (auto split: if_splits)
      moreover have "y \<noteq> n" using yy(1) n(3) by metis
      ultimately show "nval (ns' ! y) = TNil" "nnext (ns' ! y) = None" using D(3) [OF y] no [of y] by simp_all
    qed
    assume ky: "nkey (ns' ! y) \<noteq> TNil"
    have *: "key_ok (nkey (ns' ! y)) \<and> (H (nkey (ns' ! y)), y) \<in> (edge ns')\<^sup>* \<and> nkey (ns' ! H (nkey (ns' ! y))) \<noteq> TNil
       \<and> H (nkey (ns' ! H (nkey (ns' ! y)))) = H (nkey (ns' ! y))"
    proof (cases "y = f")
      case True
      have "(n, f) \<in> edge ns'" using e' [of n f] by simp
      moreover have "nkey (ns' ! f) = k" "nkey (ns' ! n) = nkey (ns ! n)" using key fn by simp_all
      ultimately show ?thesis using True k n(1,3,4) by auto
    next
      case False
      let ?z = "H (nkey (ns ! y))"
      have b: "key_ok (nkey (ns ! y)) \<and> (?z, y) \<in> (edge ns)\<^sup>* \<and> nkey (ns ! ?z) \<noteq> TNil \<and> H (nkey (ns ! ?z)) = ?z"
        using D(4) [OF y] ky key False by simp
      then have "?z \<noteq> f" using f by auto
      then show ?thesis using b sub' key False by auto
    qed
    show "key_ok (nkey (ns' ! y))" "(H (nkey (ns' ! y)), y) \<in> (edge ns')\<^sup>*" "nkey (ns' ! H (nkey (ns' ! y))) \<noteq> TNil"
      "H (nkey (ns' ! H (nkey (ns' ! y)))) = H (nkey (ns' ! y))"
      using * by blast+
  next
    have pre: "y \<noteq> f \<and> ((z = f \<and> (n, y) \<in> edge ns) \<or> (z \<noteq> f \<and> z \<noteq> n \<and> (z, y) \<in> edge ns)) \<or> y = f \<and> z = n"
      if "(z, y) \<in> edge ns'" for z y
      using that e' [of z y] no_f(1) [of n] no_f(1) [of z] fn by (cases "z = n"; cases "z = f"; auto)
    show "z = z'" if zz: "(z, y) \<in> edge ns'" "(z', y) \<in> edge ns'" for z z' y
    proof (cases "y = f")
      case True
      then show ?thesis using pre [OF zz(1)] pre [OF zz(2)] by simp
    next
      case False
      then have "(if z = f then n else z, y) \<in> edge ns" "(if z' = f then n else z', y) \<in> edge ns" "z \<noteq> n" "z' \<noteq> n"
        using pre [OF zz(1)] pre [OF zz(2)] fn by auto
      then have "(if z = f then n else z) = (if z' = f then n else z')" by (intro D(5))
      then show ?thesis using \<open>z \<noteq> n\<close> \<open>z' \<noteq> n\<close> by (auto split: if_splits)
    qed
    show "y = z" if "y < length ns" "z < length ns" "nkey (ns' ! y) = nkey (ns' ! z)" "nkey (ns' ! y) \<noteq> TNil" for y z
      using that new D(6) [of y z] key by (auto split: if_splits)
  qed
  have h: "hget ns' k' = hget ns k'" if "k' \<noteq> TNil" for k'
  proof (rule hget_moved [OF ok ok' len new, of f])
    show "nkey (ns' ! f) = k" "nval (ns' ! f) = TNil" "f < length ns" using nf f by simp_all
    show "\<exists>z < length ns. nkey (ns' ! z) = nkey (ns ! y) \<and> nval (ns' ! z) = nval (ns ! y)"
      if "y < length ns" "nkey (ns ! y) \<noteq> TNil" "nval (ns ! y) \<noteq> TNil" for y
      using that key [of y] val f by (intro exI [of _ y]) auto
    show "\<exists>y < length ns. nkey (ns ! y) = nkey (ns' ! z) \<and> nval (ns ! y) = nval (ns' ! z)"
      if "z < length ns" "nkey (ns' ! z) \<noteq> TNil" "nkey (ns' ! z) \<noteq> k" for z
      using that key [of z] val by (intro exI [of _ z]) (auto split: if_splits)
  qed (use that in auto)
  have "keyed ns' \<subseteq> insert f (keyed ns)" "keyed ns \<subseteq> keyed ns'"
    using key len kn by (auto simp: keyed_def split: if_splits)
  moreover have "\<forall>y < length ns. nkey (ns' ! y) = k \<or> (\<exists>z < length ns. nkey (ns ! z) = nkey (ns' ! y))"
    using key by metis
  ultimately show ?thesis
    unfolding inserted_def using ok' len f(1) key [of f] h by (intro conjI exI [of _ f]) simp_all
qed

subsection \<open>Evicting a node of another chain\<close>

text \<open>With distinct live keys no key hashes to a position that holds a node of another chain.\<close>

lemma no_main_at:
  assumes ok: "hash_ok H ns" and n: "n < length ns" "H (nkey (ns ! n)) \<noteq> n"
    and y: "y < length ns" "nkey (ns ! y) \<noteq> TNil"
  shows "H (nkey (ns ! y)) \<noteq> n"
proof
  assume e: "H (nkey (ns ! y)) = n"
  show False using hash_okD(4) [OF ok y] n(2) unfolding e by simp
qed

lemma rechain_idle:
  assumes "\<And>y s. y < length ns \<Longrightarrow> nkey (ns ! y) = TStr s \<Longrightarrow> hashstr t s \<noteq> n"
    and "\<And>x y. (x, y) \<in> edge ns \<Longrightarrow> y < length ns" and "f < length ns"
  shows "rechain t n ns fuel f = ns"
  using assms
proof (induction fuel arbitrary: f)
  case (Suc fuel)
  show ?case
  proof (cases "nnext (ns ! f)")
    case (Some m)
    then have m: "m < length ns" using Suc.prems(2,3) by (auto simp: edge_def)
    then have "rechain t n ns fuel m = ns" using Suc by blast
    moreover have "hashstr t s \<noteq> n" if "nkey (ns ! m) = TStr s" for s using Suc.prems(1) m that by blast
    ultimately show ?thesis using Some by (auto split: tvalue.splits)
  qed simp
qed simp

lemma insert_evict:
  assumes ok: "hash_ok H ns" and k: "key_ok k" and new: "\<And>y. y < length ns \<Longrightarrow> nkey (ns ! y) \<noteq> k"
    and n: "n = H k" "n < length ns" "nkey (ns ! n) \<noteq> TNil" "H (nkey (ns ! n)) \<noteq> n"
    and f: "f < length ns" "nkey (ns ! f) = TNil" and p: "(p, n) \<in> edge ns"
    and ns': "ns' = ns[p := (ns ! p)\<lparr>nnext := Some f\<rparr>, f := ns ! n, n := \<lparr>nval = TNil, nkey = k, nnext = None\<rparr>]"
  shows "inserted H ns k ns' n"
proof -
  note D = hash_okD [OF ok]
  have kn: "k \<noteq> TNil" using k by (simp add: key_ok_def)
  have fn: "f \<noteq> n" using n f by auto
  have fv: "nval (ns ! f) = TNil" "nnext (ns ! f) = None" using D(3) [OF f] by simp_all
  obtain r where r: "ranked ns r" using D(1) by blast
  have lt: "y < length ns" "r z < r y" if "(z, y) \<in> edge ns" for z y using that r by (simp_all add: ranked_def)
  have pl: "p < length ns" "nnext (ns ! p) = Some n" using p by (simp_all add: edge_def)
  have pn: "p \<noteq> n" using lt(2) [OF p] by auto
  have pf: "p \<noteq> f" using pl fv by auto
  have len: "length ns' = length ns" by (simp add: ns')
  have np: "ns' ! p = (ns ! p)\<lparr>nnext := Some f\<rparr>" and nf: "ns' ! f = ns ! n"
    and nn: "ns' ! n = \<lparr>nval = TNil, nkey = k, nnext = None\<rparr>"
    using f n fn pl pn pf by (simp_all add: ns')
  have no: "ns' ! y = ns ! y" if "y \<noteq> f" "y \<noteq> n" "y \<noteq> p" for y using that by (simp add: ns')
  have key: "nkey (ns' ! y) = (if y = n then k else if y = f then nkey (ns ! n) else nkey (ns ! y))"
    and val: "nval (ns' ! y) = (if y = n then TNil else if y = f then nval (ns ! n) else nval (ns ! y))" for y
    using np nf nn no [of y] fn pn pf by (cases "y = n"; cases "y = f"; cases "y = p"; simp)+
  have no_f: "(z, f) \<notin> edge ns" "(f, z) \<notin> edge ns" for z using D(2) [of z f] f fv by (auto simp: edge_def)
  have nmain: "H (nkey (ns ! y)) \<noteq> n" if "y < length ns" "nkey (ns ! y) \<noteq> TNil" for y
    using no_main_at [OF ok n(2,4) that] .
  define g where "g x = (if x = n then f else x)" for x
  have e': "(z, y) \<in> edge ns' \<longleftrightarrow> z \<noteq> n \<and> (\<exists>y'. (if z = f then n else z, y') \<in> edge ns \<and> y = g y')" for z y
  proof -
    consider "z = n" | "z = f" | "z = p" | "z \<noteq> n" "z \<noteq> f" "z \<noteq> p" by blast
    then show ?thesis
    proof cases
      case 1
      then show ?thesis using nn by (auto simp: edge_def)
    next
      case 2
      have "(n, n) \<notin> edge ns" using lt(2) [of n n] by auto
      then have "g y' = y'" if "(n, y') \<in> edge ns" for y' using that by (auto simp: g_def)
      then show ?thesis using 2 nf fn f n len by (auto simp: edge_def)
    next
      case 3
      then show ?thesis using np pn pf pl len p by (auto simp: edge_def g_def)
    next
      case 4
      have "g y' = y'" if "(z, y') \<in> edge ns" for y' using that D(5) [OF p, of z] 4 by (auto simp: g_def)
      then show ?thesis using 4 no [of z] len by (auto simp: edge_def)
    qed
  qed
  have step: "(g z, g y) \<in> edge ns'" if "(z, y) \<in> edge ns" for z y
    using e' [of "g z" "g y"] that fn no_f by (auto simp: g_def)
  have reach: "(g z, g y) \<in> (edge ns')\<^sup>*" if "(z, y) \<in> (edge ns)\<^sup>*" for z y
    using that by (induction rule: rtrancl_induct) (auto dest: step intro: rtrancl_into_rtrancl)
  define r' where "r' x = (if x = f then r n else r x)" for x
  have r': "ranked ns' r'"
    unfolding ranked_def
  proof (intro allI impI)
    fix z y assume z: "(z, y) \<in> edge ns'"
    then obtain y' where y: "(if z = f then n else z, y') \<in> edge ns" "y = g y'" using iffD1 [OF e' z] by auto
    have "y' \<noteq> f" using y no_f by auto
    then show "y < length ns' \<and> r' z < r' y"
      using lt [OF y(1)] y(2) f len fn by (auto simp: r'_def g_def split: if_splits)
  qed
  have ok': "hash_ok H ns'"
    unfolding hash_ok_def len
  proof (intro conjI allI impI)
    show "\<exists>r. ranked ns' r" using r' by blast
    show "nkey (ns' ! y) \<noteq> TNil" if zy: "(z, y) \<in> edge ns'" for z y
    proof -
      obtain y' where y: "(if z = f then n else z, y') \<in> edge ns" "y = g y'" using iffD1 [OF e' zy] by auto
      then show ?thesis using D(2) [OF y(1)] n key kn by (auto simp: g_def)
    qed
    fix y assume y: "y < length ns"
    show "nval (ns' ! y) = TNil" "nnext (ns' ! y) = None" if "nkey (ns' ! y) = TNil"
    proof -
      have yy: "y \<noteq> n" "y \<noteq> f" "nkey (ns ! y) = TNil" using that key [of y] kn n by (auto split: if_splits)
      then have "y \<noteq> p" using D(3) [OF y] pl by auto
      then show "nval (ns' ! y) = TNil" "nnext (ns' ! y) = None" using no yy D(3) [OF y] by simp_all
    qed
    assume ky: "nkey (ns' ! y) \<noteq> TNil"
    have *: "key_ok (nkey (ns' ! y)) \<and> (H (nkey (ns' ! y)), y) \<in> (edge ns')\<^sup>* \<and> nkey (ns' ! H (nkey (ns' ! y))) \<noteq> TNil
       \<and> H (nkey (ns' ! H (nkey (ns' ! y)))) = H (nkey (ns' ! y))"
    proof (cases "y = n")
      case True
      then show ?thesis using key k n kn by simp
    next
      case False
      define x where "x = (if y = f then n else y)"
      have x: "x < length ns" "nkey (ns' ! y) = nkey (ns ! x)" "nkey (ns ! x) \<noteq> TNil" "g x = y"
        using key [of y] False ky y n by (auto simp: x_def g_def split: if_splits)
      let ?z = "H (nkey (ns ! x))"
      have b: "key_ok (nkey (ns ! x)) \<and> (?z, x) \<in> (edge ns)\<^sup>* \<and> nkey (ns ! ?z) \<noteq> TNil \<and> H (nkey (ns ! ?z)) = ?z"
        using D(4) [OF x(1,3)] .
      then have z: "?z \<noteq> f" "?z \<noteq> n" using f nmain [OF x(1,3)] by auto
      then have "(?z, y) \<in> (edge ns')\<^sup>*" using reach [of ?z x] b x by (simp add: g_def)
      then show ?thesis using b z key [of ?z] x by simp
    qed
    show "key_ok (nkey (ns' ! y))" "(H (nkey (ns' ! y)), y) \<in> (edge ns')\<^sup>*" "nkey (ns' ! H (nkey (ns' ! y))) \<noteq> TNil"
      "H (nkey (ns' ! H (nkey (ns' ! y)))) = H (nkey (ns' ! y))"
      using * by blast+
  next
    show "z = z'" if zz: "(z, y) \<in> edge ns'" "(z', y) \<in> edge ns'" for z z' y
    proof -
      obtain a b where ab: "(if z = f then n else z, a) \<in> edge ns" "y = g a" "(if z' = f then n else z', b) \<in> edge ns" "y = g b"
        "z \<noteq> n" "z' \<noteq> n" using iffD1 [OF e' zz(1)] iffD1 [OF e' zz(2)] by auto
      have "a \<noteq> f" "b \<noteq> f" using ab no_f by auto
      then have "a = b" using ab(2,4) unfolding g_def by (metis (full_types))
      then have "(if z = f then n else z) = (if z' = f then n else z')" using ab D(5) by blast
      then show ?thesis using ab by (auto split: if_splits)
    qed
    show "y = z" if "y < length ns" "z < length ns" "nkey (ns' ! y) = nkey (ns' ! z)" "nkey (ns' ! y) \<noteq> TNil" for y z
      using that new n(2) D(6) [of y z] D(6) [of n z] D(6) [of y n] key by (auto split: if_splits)
  qed
  have h: "hget ns' k' = hget ns k'" if "k' \<noteq> TNil" for k'
  proof (rule hget_moved [OF ok ok' len new, of n])
    show "nkey (ns' ! n) = k" "nval (ns' ! n) = TNil" "n < length ns" using nn n by simp_all
    show "\<exists>z < length ns. nkey (ns' ! z) = nkey (ns ! y) \<and> nval (ns' ! z) = nval (ns ! y)"
      if "y < length ns" "nkey (ns ! y) \<noteq> TNil" "nval (ns ! y) \<noteq> TNil" for y
      using that key [of "g y"] val [of "g y"] f fn by (intro exI [of _ "g y"]) (auto simp: g_def split: if_splits)
    show "\<exists>y < length ns. nkey (ns ! y) = nkey (ns' ! z) \<and> nval (ns ! y) = nval (ns' ! z)"
      if "z < length ns" "nkey (ns' ! z) \<noteq> TNil" "nkey (ns' ! z) \<noteq> k" for z
      using that key [of z] val [of z] n(2)
      by (intro exI [of _ "if z = f then n else z"]) (auto split: if_splits)
  qed (use that in auto)
  have "keyed ns' \<subseteq> insert f (keyed ns)" "keyed ns \<subseteq> keyed ns'"
    using key len kn n by (auto simp: keyed_def split: if_splits)
  moreover have "\<forall>y < length ns. nkey (ns' ! y) = k \<or> (\<exists>z < length ns. nkey (ns ! z) = nkey (ns' ! y))"
    using key n(2) by metis
  ultimately show ?thesis
    unfolding inserted_def using ok' len n(2) key [of n] h by (intro conjI exI [of _ f]) simp_all
qed

end
