(* ===== verification/Lj_Tab_Set.thy ===== *)
theory Lj_Tab_Set
  imports Lj_Tab_Hash
begin

text \<open>
  The table invariant \<open>tab_ok\<close> and the setters of \<open>src/src/lj_tab.c\<close>: lookup against the finite map \<open>tget\<close>,
  insertion, reinsertion, resize and rehash. The counting lemmas show that a rehash chooses parts that
  hold all live keys and the new one, so that the reinsertion never needs a second rehash.
\<close>

section \<open>The invariant of a table\<close>

lemma unat_and_mask:
  assumes "k \<le> 31"
  shows "unat ((h :: u32) AND of_nat (2 ^ k - 1)) < 2 ^ k"
proof -
  have "(of_nat (2 ^ k - 1) :: u32) = mask k"
    by (simp add: mask_eq_exp_minus_1 of_nat_diff)
  then have "h AND of_nat (2 ^ k - 1) = take_bit k h" by (simp add: take_bit_eq_mask)
  then show ?thesis by (simp add: unsigned_take_bit_eq)
qed

definition tab_ok :: "gctab \<Rightarrow> bool" where
  "tab_ok t \<longleftrightarrow>
     asize t \<le> LJ_MAX_ASIZE \<and> (\<exists>k \<le> LJ_MAX_HBITS. length (tnode t) = 2 ^ k) \<and>
     hash_ok (hashkey t) (tnode t) \<and>
     (if length (tnode t) = 1 then tnode t = [nilnode] \<and> freetop t = 0
      else freetop t \<le> length (tnode t) \<and>
        (\<forall>x. freetop t \<le> x \<longrightarrow> x < length (tnode t) \<longrightarrow> nkey (tnode t ! x) \<noteq> TNil)) \<and>
     (\<forall>x < length (tnode t). \<forall>i. int_key (nkey (tnode t ! x)) = Some i \<longrightarrow> \<not> inarray t i)"

lemma tab_okD:
  assumes "tab_ok t"
  shows "asize t \<le> LJ_MAX_ASIZE" and "\<exists>k \<le> LJ_MAX_HBITS. length (tnode t) = 2 ^ k"
    and "hash_ok (hashkey t) (tnode t)"
    and "length (tnode t) = 1 \<Longrightarrow> tnode t = [nilnode] \<and> freetop t = 0"
    and "length (tnode t) \<noteq> 1 \<Longrightarrow> freetop t \<le> length (tnode t)"
    and "\<And>x. length (tnode t) \<noteq> 1 \<Longrightarrow> freetop t \<le> x \<Longrightarrow> x < length (tnode t) \<Longrightarrow> nkey (tnode t ! x) \<noteq> TNil"
    and "\<And>x i. x < length (tnode t) \<Longrightarrow> int_key (nkey (tnode t ! x)) = Some i \<Longrightarrow> \<not> inarray t i"
  using assms unfolding tab_ok_def by (auto split: if_splits)

definition capacity :: "gctab \<Rightarrow> nat" where
  "capacity t = (if length (tnode t) = 1 then 0 else length (tnode t))"

definition room :: "gctab \<Rightarrow> bool" where
  "room t \<longleftrightarrow> card (keyed (tnode t)) < capacity t"

lemma hashkey_less: "tab_ok t \<Longrightarrow> hashkey t k < length (tnode t)"
proof -
  assume "tab_ok t"
  then obtain b where b: "b \<le> LJ_MAX_HBITS" "length (tnode t) = 2 ^ b" using tab_okD(2) by blast
  then have "hashmask t h < length (tnode t)" for h
    using unat_and_mask [of b h] by (simp add: hashmask_def hmask_def LJ_MAX_HBITS_def)
  then show ?thesis by (cases k) (simp_all add: hashkey_def hashstr_def hashnum_def hashgcref_def)
qed

lemma hashkey_cong: "length (tnode t') = length (tnode t) \<Longrightarrow> hashkey t' = hashkey t"
  by (rule ext) (auto simp: hashkey_def hashstr_def hashnum_def hashgcref_def hashmask_def hmask_def split: tvalue.splits)

lemma LJ_MAX_ASIZE_less: "LJ_MAX_ASIZE < 2 ^ 31"
  by (simp add: LJ_MAX_ASIZE_def LJ_MAX_ABITS_def)

lemma inarray_iff: "asize t \<le> LJ_MAX_ASIZE \<Longrightarrow> int32 i \<Longrightarrow> inarray t i \<longleftrightarrow> 0 \<le> i \<and> nat i < asize t"
proof -
  assume a: "asize t \<le> LJ_MAX_ASIZE" and i: "int32 i"
  show ?thesis
  proof (cases "0 \<le> i")
    case True
    then have "i mod 2 ^ 32 = i" using i by (intro mod_pos_pos_trivial) (auto simp: int32_def)
    then show ?thesis using True by (simp add: inarray_def)
  next
    case False
    have "i mod 2 ^ 32 = (i + 2 ^ 32) mod 2 ^ 32" by simp
    also have "\<dots> = i + 2 ^ 32" using False i by (intro mod_pos_pos_trivial) (auto simp: int32_def)
    finally have "i mod 2 ^ 32 \<ge> 2 ^ 31" using i by (simp add: int32_def)
    then have "nat (i mod 2 ^ 32) \<ge> 2 ^ 31" by (simp add: le_nat_iff)
    then show ?thesis using False a LJ_MAX_ASIZE_less by (simp add: inarray_def)
  qed
qed

section \<open>Lookup\<close>

text \<open>The value of a normalised key: its array slot, or what the hash part holds.\<close>

definition tget :: "gctab \<Rightarrow> tvalue \<Rightarrow> tvalue" where
  "tget t k =
     (case int_key k of
        Some i \<Rightarrow> if inarray t i then tarray t ! nat i else hget (tnode t) k
      | None \<Rightarrow> hget (tnode t) k)"

lemma chain_find_spec:
  assumes t: "tab_ok t" and k: "key_ok k"
    and P: "\<And>k'. key_ok k' \<or> k' = TNil \<Longrightarrow> P k' \<longleftrightarrow> k' = k" and h: "h = hashkey t k"
  shows "chain_find t P h = Some x \<Longrightarrow> x < length (tnode t) \<and> nkey (tnode t ! x) = k"
    and "chain_find t P h = None \<Longrightarrow> \<forall>x < length (tnode t). nkey (tnode t ! x) \<noteq> k"
proof -
  note D = hash_okD [OF tab_okD(3) [OF t]]
  obtain r where r: "ranked (tnode t) r" using D(1) by blast
  have hl: "h < length (tnode t)" using hashkey_less [OF t] h by simp
  have ok: "key_ok (nkey (tnode t ! y)) \<or> nkey (tnode t ! y) = TNil" if "y < length (tnode t)" for y
    using D(4) [OF that] by blast
  show "x < length (tnode t) \<and> nkey (tnode t ! x) = k" if "chain_find t P h = Some x"
    using find_node_sound [OF that [unfolded chain_find_def] hl r] P ok by blast
  show "\<forall>x < length (tnode t). nkey (tnode t ! x) \<noteq> k" if f: "chain_find t P h = None"
  proof (intro allI impI notI)
    fix x assume x: "x < length (tnode t)" "nkey (tnode t ! x) = k"
    then have "(h, x) \<in> (edge (tnode t))\<^sup>*" using D(4) [of x] k h by (simp add: key_ok_def)
    then have "\<not> P (nkey (tnode t ! x))"
      using find_node_complete [OF f [unfolded chain_find_def] hl r above_less [OF hl]] by blast
    then show False using P x k by blast
  qed
qed

lemma is_num_key_ok:
  "int32 i \<Longrightarrow> key_ok k' \<or> k' = TNil \<Longrightarrow> is_num_key (num_of_int i) k' \<longleftrightarrow> k' = TNum (num_of_int i)"
  by (cases k') (auto simp: is_num_key_def key_ok_def intro: num_eq_num_of_int)

lemma is_str_key_ok: "is_str_key s k' \<longleftrightarrow> k' = TStr s"
  by (auto simp: is_str_key_def split: tvalue.splits)

lemma obj_equal_ok: "key_ok k \<Longrightarrow> key_ok k' \<or> k' = TNil \<Longrightarrow> lj_obj_equal k' k \<longleftrightarrow> k' = k"
  using key_ok_eq by (auto simp: key_ok_def)

lemma chain_find_hget:
  assumes "tab_ok t" "key_ok k" "\<And>k'. key_ok k' \<or> k' = TNil \<Longrightarrow> P k' \<longleftrightarrow> k' = k" "h = hashkey t k"
  shows "or_nil (map_option (nodeval t) (chain_find t P h)) = hget (tnode t) k"
proof (cases "chain_find t P h")
  case None
  then show ?thesis using chain_find_spec(2) [OF assms None] hget_absent by (simp add: or_nil_def)
next
  case (Some x)
  then show ?thesis
    using chain_find_spec(1) [OF assms Some] hget_present [OF tab_okD(3) [OF assms(1)], of x k] assms(2)
    by (simp add: or_nil_def nodeval_def key_ok_def)
qed

lemma getinth_hget:
  assumes t: "tab_ok t" and i: "int32 i"
  shows "or_nil (lj_tab_getinth t i) = hget (tnode t) (TNum (num_of_int i))"
  unfolding lj_tab_getinth_def Let_def
  by (rule chain_find_hget [OF t int_key_ok [OF i] is_num_key_ok [OF i]]) (auto simp: hashkey_def)

lemma getint_tget:
  assumes t: "tab_ok t" and i: "int32 i"
  shows "or_nil (lj_tab_getint t i) = tget t (TNum (num_of_int i))"
  using getinth_hget [OF t i] int_key_num_of_int [OF i]
  by (simp add: lj_tab_getint_def tget_def arrayslot_def or_nil_def)

lemma genlookup_hget:
  assumes t: "tab_ok t" and k: "key_ok k"
  shows "genlookup t k = hget (tnode t) k"
  unfolding genlookup_def by (rule chain_find_hget [OF t k obj_equal_ok [OF k]]) auto

lemma num_norm_key: "norm_key (TNum n) = (if n = 0x8000000000000000 then TNum 0 else TNum n)"
  by (simp add: norm_key_def tvismzero_def)

lemma num2int_mzero: "lj_num2int 0x8000000000000000 = 0"
  by (simp add: lj_num2int_def num_trunc_def num_sign_def mzero_fields)

lemma num_int_norm:
  assumes "num_eq n (num_of_int (lj_num2int n))"
  shows "norm_key (TNum n) = TNum (num_of_int (lj_num2int n))"
  using assms num_eq_num_of_int [of n "lj_num2int n"] num2int_mzero
  by (cases "n = 0x8000000000000000") (auto simp: norm_key_def tvismzero_def)

definition valid_key :: "tvalue \<Rightarrow> bool" where
  "valid_key k \<longleftrightarrow> k \<noteq> TNil \<and> (\<forall>n. k = TNum n \<longrightarrow> \<not> num_nan n)"

lemma valid_norm: "valid_key k \<Longrightarrow> key_ok (norm_key k)"
  using norm_key_ok by (auto simp: valid_key_def)

lemma key_ok_valid: "key_ok k \<Longrightarrow> valid_key k"
  by (auto simp: valid_key_def key_ok_def)

lemma lj_tab_get_spec:
  assumes t: "tab_ok t" and v: "valid_key key"
  shows "lj_tab_get t key = tget t (norm_key key)"
proof (cases key)
  case (TStr s)
  have "key_ok (TStr s)" by (simp add: key_ok_def tvismzero_def)
  then show ?thesis using chain_find_hget [OF t, of "TStr s" "is_str_key s"] TStr
    by (simp add: lj_tab_get_def lj_tab_getstr_def is_str_key_ok hashkey_def norm_key_def tvismzero_def tget_def int_key_def)
next
  case (TNum n)
  show ?thesis
  proof (cases "num_eq n (num_of_int (lj_num2int n))")
    case True
    then show ?thesis using TNum getint_tget [OF t int32_num2int] num_int_norm [OF True]
      by (simp add: lj_tab_get_def)
  next
    case False
    have "n \<noteq> 0x8000000000000000"
    proof
      assume "n = 0x8000000000000000"
      then have "num_eq n (num_of_int (lj_num2int n))"
        by (simp add: num2int_mzero num_eq_def num_zero_def num_nan_def mzero_fields)
      then show False using False by simp
    qed
    then have k: "key_ok (TNum n)" using v TNum by (simp add: key_ok_def valid_key_def tvismzero_def)
    then show ?thesis using TNum False genlookup_hget [OF t k]
      by (simp add: lj_tab_get_def tget_def int_key_def)
  qed
qed (use v genlookup_hget [OF t, of key] in
  \<open>auto simp: lj_tab_get_def tget_def int_key_def norm_key_def tvismzero_def key_ok_def valid_key_def\<close>)

section \<open>Insertion of a new key\<close>

definition slot_for :: "gctab \<Rightarrow> slot \<Rightarrow> tvalue \<Rightarrow> bool" where
  "slot_for t s key \<longleftrightarrow>
     (case s of
        SArr i \<Rightarrow> int_key key = Some (int i) \<and> i < asize t
      | SHash x \<Rightarrow> x < length (tnode t) \<and> nkey (tnode t ! x) = key \<and>
          (\<forall>i. int_key key = Some i \<longrightarrow> \<not> inarray t i))"

definition same_table :: "gctab \<Rightarrow> gctab \<Rightarrow> bool" where
  "same_table t t' \<longleftrightarrow> tarray t' = tarray t \<and> metatable t' = metatable t \<and>
     length (tnode t') = length (tnode t) \<and> (\<forall>k. key_ok k \<longrightarrow> tget t' k = tget t k)"

lemma set_key_id: "key_ok k \<Longrightarrow> set_key t n k = t\<lparr>tnode := (tnode t)[n := (tnode t ! n)\<lparr>nkey := k\<rparr>]\<rparr>"
  by (simp add: set_key_def key_ok_def)

lemma free_search_Some:
  "free_search ns ft = Some f \<Longrightarrow> f < ft \<and> nkey (ns ! f) = TNil \<and> (\<forall>x. f < x \<and> x < ft \<longrightarrow> nkey (ns ! x) \<noteq> TNil)"
proof (induction ft)
  case (Suc k)
  show ?case
  proof (cases "nkey (ns ! k) = TNil")
    case True
    then show ?thesis using Suc.prems by (auto simp: tvisnil_def)
  next
    case False
    then have "free_search ns k = Some f" using Suc.prems by (simp add: tvisnil_def)
    then show ?thesis using Suc.IH False by (auto simp: less_Suc_eq)
  qed
qed simp

lemma free_search_None: "free_search ns ft = None \<Longrightarrow> x < ft \<Longrightarrow> nkey (ns ! x) \<noteq> TNil"
proof (induction ft)
  case (Suc k)
  then have "nkey (ns ! k) \<noteq> TNil" "free_search ns k = None"
    by (auto simp: tvisnil_def split: if_splits)
  then show ?case using Suc by (cases "x = k") auto
qed simp

lemma card_keyed_le: "card (keyed ns) \<le> length ns"
  using card_mono [of "{..<length ns}" "keyed ns"] by (auto simp: keyed_def)

lemma room_free:
  assumes t: "tab_ok t" and r: "room t"
  obtains f where "free_search (tnode t) (freetop t) = Some f"
proof (cases "free_search (tnode t) (freetop t)")
  case None
  have l: "length (tnode t) \<noteq> 1" using r by (auto simp: room_def capacity_def)
  have "{..<length (tnode t)} \<subseteq> keyed (tnode t)"
  proof
    fix x assume "x \<in> {..<length (tnode t)}"
    then have x: "x < length (tnode t)" by simp
    then have "nkey (tnode t ! x) \<noteq> TNil"
      using free_search_None [OF None] tab_okD(6) [OF t l _ x] by (cases "x < freetop t") auto
    then show "x \<in> keyed (tnode t)" using x by (simp add: keyed_def)
  qed
  then have "length (tnode t) \<le> card (keyed (tnode t))" using card_mono [OF finite_keyed, of "{..<length (tnode t)}" "tnode t"] by simp
  then show ?thesis using r l by (simp add: room_def capacity_def)
qed (rule that)

text \<open>The new table after an insertion into its node vector.\<close>

lemma inserted_tab:
  assumes t: "tab_ok t" and k: "key_ok key"
    and int: "\<And>i. int_key key = Some i \<Longrightarrow> \<not> inarray t i"
    and ins: "inserted (hashkey t) (tnode t) key ns' x" and l: "length (tnode t) \<noteq> 1"
    and ft: "ft \<le> freetop t" "\<And>y. ft \<le> y \<Longrightarrow> y < freetop t \<Longrightarrow> nkey (ns' ! y) \<noteq> TNil"
    and t': "t' = t\<lparr>tnode := ns', freetop := ft\<rparr>"
  shows "tab_ok t' \<and> slot_for t' (SHash x) key \<and> same_table t t' \<and>
    card (keyed (tnode t')) \<le> Suc (card (keyed (tnode t)))"
proof -
  note D = tab_okD [OF t]
  have I: "length ns' = length (tnode t)" "hash_ok (hashkey t) ns'" "x < length (tnode t)" "nkey (ns' ! x) = key"
    "\<And>k'. k' \<noteq> TNil \<Longrightarrow> hget ns' k' = hget (tnode t) k'" "keyed (tnode t) \<subseteq> keyed ns'"
    "\<exists>z. keyed ns' \<subseteq> insert z (keyed (tnode t))"
    "\<And>y. y < length (tnode t) \<Longrightarrow> nkey (ns' ! y) = key \<or> (\<exists>z < length (tnode t). nkey (tnode t ! z) = nkey (ns' ! y))"
    using ins by (auto simp: inserted_def)
  have hk: "hashkey t' = hashkey t" by (rule hashkey_cong) (simp add: t' I(1))
  have arr: "inarray t' i = inarray t i" for i by (simp add: inarray_def t')
  have kx: "nkey (ns' ! y) \<noteq> TNil" if y: "ft \<le> y" "y < length ns'" for y
  proof (cases "y < freetop t")
    case True
    then show ?thesis using ft y by blast
  next
    case False
    then have "y \<in> keyed (tnode t)" using D(6) [OF l, of y] y I(1) by (simp add: keyed_def)
    then have "y \<in> keyed ns'" using I(6) by blast
    then show ?thesis by (simp add: keyed_def)
  qed
  have ik: "\<not> inarray t i" if y: "y < length ns'" "int_key (nkey (ns' ! y)) = Some i" for y i
    using I(8) [of y] y int [of i] D(7) I(1) by metis
  have ok: "tab_ok t'"
    unfolding tab_ok_def hk arr using D(1,2,5) I(1,2) l ft(1) kx ik by (simp add: t')
  have c: "card (keyed (tnode t')) \<le> Suc (card (keyed (tnode t)))"
  proof -
    obtain z where "keyed ns' \<subseteq> insert z (keyed (tnode t))" using I(7) by blast
    then have "card (keyed ns') \<le> card (insert z (keyed (tnode t)))" by (intro card_mono) auto
    also have "\<dots> \<le> Suc (card (keyed (tnode t)))" by (simp add: card_insert_if)
    finally show ?thesis by (simp add: t')
  qed
  have "tget t' q = tget t q" if "key_ok q" for q
    using I(5) [of q] that unfolding tget_def arr by (simp add: t' key_ok_def split: option.splits)
  then have "same_table t t'" by (simp add: same_table_def t' I(1))
  moreover have "slot_for t' (SHash x) key" using I(1,3,4) int arr by (simp add: slot_for_def t')
  ultimately show ?thesis using ok c by blast
qed

lemma key_ok_not_nil [simp]: "key_ok k \<Longrightarrow> k \<noteq> TNil"
  by (simp add: key_ok_def)

lemma node_upd_all: "(r :: node)\<lparr>nnext := a, nval := b, nkey := c\<rparr> = \<lparr>nval = b, nkey = c, nnext = a\<rparr>"
  by (cases r) simp

text \<open>A new key that needs no rehash.\<close>

lemma newkey_direct:
  assumes t: "tab_ok t" and k: "key_ok key" and new: "\<forall>y < length (tnode t). nkey (tnode t ! y) \<noteq> key"
    and int: "\<And>i. int_key key = Some i \<Longrightarrow> \<not> inarray t i"
    and nr: "(tvisnil (nval (tnode t ! hashkey t key)) \<and> hmask t \<noteq> 0) \<or> free_search (tnode t) (freetop t) \<noteq> None"
  shows "\<exists>t' x. newkey_with nk t key = Inr (t', SHash x) \<and> tab_ok t' \<and> slot_for t' (SHash x) key \<and>
    same_table t t' \<and> card (keyed (tnode t')) \<le> Suc (card (keyed (tnode t)))"
proof -
  let ?n = "hashkey t key" and ?ns = "tnode t"
  note D = tab_okD [OF t] and H = hash_okD [OF tab_okD(3) [OF t]]
  have n: "?n < length ?ns" by (rule hashkey_less [OF t])
  have new': "\<And>y. y < length ?ns \<Longrightarrow> nkey (?ns ! y) \<noteq> key" using new by blast
  have l: "length ?ns \<noteq> 1"
  proof
    assume l: "length ?ns = 1"
    then show False using nr D(4) by (auto simp: hmask_def)
  qed
  have hm: "hmask t \<noteq> 0" using l n by (simp add: hmask_def)
  show ?thesis
  proof (cases "tvisnil (nval (?ns ! ?n))")
    case True
    let ?ns' = "?ns[?n := (?ns ! ?n)\<lparr>nkey := key\<rparr>]"
    let ?t' = "t\<lparr>tnode := ?ns', freetop := freetop t\<rparr>"
    have ins: "inserted (hashkey t) ?ns key ?ns' ?n"
      using True by (intro insert_main [OF D(3) k new' refl n]) (simp_all add: tvisnil_def)
    have "newkey_with nk t key = Inr (?t', SHash ?n)"
      using True hm k by (simp add: newkey_with_def Let_def set_key_id)
    then show ?thesis using inserted_tab [OF t k int ins l order_refl _ refl] by fastforce
  next
    case occ: False
    then obtain f where fs: "free_search ?ns (freetop t) = Some f" using nr by auto
    note F = free_search_Some [OF fs]
    have f: "f < length ?ns" "nkey (?ns ! f) = TNil" using F D(5) [OF l] by auto
    have nk: "nkey (?ns ! ?n) \<noteq> TNil" using H(3) [OF n] occ by (auto simp: tvisnil_def)
    have ftop: "nkey (ns' ! y) \<noteq> TNil" if "f \<le> y" "y < freetop t" "inserted (hashkey t) ?ns key ns' x"
        "nkey (ns' ! f) \<noteq> TNil" for ns' x y
    proof (cases "y = f")
      case False
      then have "y \<in> keyed ?ns" using F that D(5) [OF l] by (auto simp: keyed_def)
      then have "y \<in> keyed ns'" using that(3) by (auto simp: inserted_def)
      then show ?thesis by (simp add: keyed_def)
    qed (use that in simp)
    let ?t = "t\<lparr>freetop := f\<rparr>"
    have hk: "hashkey ?t = hashkey t" by (rule hashkey_cong) simp
    let ?c = "hashkey t (nkey (?ns ! ?n))"
    show ?thesis
    proof (cases "?c = ?n")
      case True
      let ?ns' = "?ns[f := \<lparr>nval = nval (?ns ! f), nkey = key, nnext = nnext (?ns ! ?n)\<rparr>, ?n := (?ns ! ?n)\<lparr>nnext := Some f\<rparr>]"
      have fn: "f \<noteq> ?n" using f nk by metis
      have nd: "\<lparr>nval = nval (?ns ! f), nkey = key, nnext = nx\<rparr> = (?ns ! f)\<lparr>nnext := nx, nkey := key\<rparr>" for nx
        by (cases "?ns ! f") simp
      have ins: "inserted (hashkey t) ?ns key ?ns' f"
        by (rule insert_chain [OF D(3) k new' refl n nk True f refl])
      have "newkey_with nk t key = Inr (t\<lparr>tnode := ?ns', freetop := f\<rparr>, SHash f)"
        using occ fs True k fn f n by (simp add: newkey_with_def Let_def set_key_id hk set_next_def list_update_swap nth_list_update nd)
      moreover have "nkey (?ns' ! f) \<noteq> TNil" using fn f k by simp
      ultimately show ?thesis
        using inserted_tab [OF t k int ins l _ ftop [OF _ _ ins] refl] F by fastforce
    next
      case False
      have r: "(?c, ?n) \<in> (edge ?ns)\<^sup>*" using H(4) [OF n nk] by blast
      obtain rk where rk: "ranked ?ns rk" using H(1) by blast
      have cl: "?c < length ?ns" by (rule hashkey_less [OF t])
      obtain p where p: "find_pred ?ns ?n (length ?ns) ?c = Some p" "(p, ?n) \<in> edge ?ns"
        using find_pred_correct [OF r False cl rk above_less [OF cl]] by blast
      let ?ns' = "?ns[p := (?ns ! p)\<lparr>nnext := Some f\<rparr>, f := ?ns ! ?n, ?n := \<lparr>nval = TNil, nkey = key, nnext = None\<rparr>]"
      have ins: "inserted (hashkey t) ?ns key ?ns' ?n"
        by (rule insert_evict [OF D(3) k new' refl n nk False f p(2) refl])
      have fn: "f \<noteq> ?n" using f nk by metis
      have pl: "p < length ?ns" "nnext (?ns ! p) = Some ?n" using p by (auto simp: edge_def)
      have pn: "p \<noteq> ?n" using rk p(2) by (auto simp: ranked_def)
      have pf: "p \<noteq> f" using pl H(3) [OF f] by auto
      let ?m = "?ns[p := (?ns ! p)\<lparr>nnext := Some f\<rparr>, f := ?ns ! ?n, ?n := (?ns ! ?n)\<lparr>nnext := None, nval := TNil\<rparr>]"
      have ml: "length ?m = length ?ns" by simp
      have mk: "nkey (?m ! y) = nkey (?ns ! y) \<or> nkey (?m ! y) = nkey (?ns ! ?n)" if "y < length ?ns" for y
        using that n fn pn pf by (cases "y = ?n"; cases "y = f"; cases "y = p"; simp)
      have "rechain ?t ?n ?m (length ?m) f = ?m"
      proof (rule rechain_idle)
        fix y s assume y: "y < length ?m" and s: "nkey (?m ! y) = TStr s"
        then obtain z where z: "z < length ?ns" "nkey (?ns ! z) = TStr s" using mk n ml by metis
        then have "hashkey t (nkey (?ns ! z)) \<noteq> ?n" using no_main_at [OF D(3) n False z(1)] by simp
        then show "hashstr ?t s \<noteq> ?n" using z by (simp add: hashkey_def hashstr_def hashmask_def hmask_def)
      next
        fix x y assume "(x, y) \<in> edge ?m"
        then have e: "x < length ?ns" "nnext (?m ! x) = Some y" by (simp_all add: edge_def)
        have "nnext (?m ! x) = (if x = ?n then None else if x = f then nnext (?ns ! ?n) else if x = p then Some f else nnext (?ns ! x))"
          using e(1) fn pn pf by (simp add: nth_list_update)
        then have "y = f \<or> (x, y) \<in> edge ?ns \<or> (?n, y) \<in> edge ?ns"
          using e n by (auto simp: edge_def split: if_splits)
        then show "y < length ?m" using f rk by (auto simp: ranked_def)
      qed (use f in simp)
      then have "set_key (evict ?t ?n p f) ?n key = t\<lparr>tnode := ?ns', freetop := f\<rparr>"
        using k n f fn pn pf pl
        by (simp add: evict_def Let_def set_next_def set_key_id node_upd_all)
      then have "newkey_with nk t key = Inr (t\<lparr>tnode := ?ns', freetop := f\<rparr>, SHash ?n)"
        using occ fs False p by (simp add: newkey_with_def Let_def hk)
      moreover have "nkey (?ns' ! f) \<noteq> TNil" using fn pf f nk by simp
      ultimately show ?thesis
        using inserted_tab [OF t k int ins l _ ftop [OF _ _ ins] refl] F by fastforce
    qed
  qed
qed

section \<open>Stores and setters\<close>

lemma hash_ok_store:
  assumes ok: "hash_ok H ns" and x: "x < length ns" "nkey (ns ! x) \<noteq> TNil"
    and ns': "ns' = ns[x := (ns ! x)\<lparr>nval := v\<rparr>]"
  shows "hash_ok H ns' \<and> keyed ns' = keyed ns \<and>
    (\<forall>k. k \<noteq> TNil \<longrightarrow> hget ns' k = (if k = nkey (ns ! x) then v else hget ns k))"
proof -
  note D = hash_okD [OF ok]
  have len: "length ns' = length ns" by (simp add: ns')
  have key: "nkey (ns' ! y) = nkey (ns ! y)" and nx: "nnext (ns' ! y) = nnext (ns ! y)" for y
    using x by (cases "y = x"; simp add: ns')+
  have val: "nval (ns' ! y) = (if y = x then v else nval (ns ! y))" for y
    using x by (cases "y = x") (simp_all add: ns')
  have e: "edge ns' = edge ns" using nx len by (auto simp: edge_def)
  have r: "\<exists>r. ranked ns' r" using D(1) by (simp add: ranked_def e len)
  have ok': "hash_ok H ns'"
    unfolding hash_ok_def e len key
  proof (intro conjI allI impI)
    show "\<exists>r. ranked ns' r" by (rule r)
    show "nval (ns' ! y) = TNil" if "y < length ns" "nkey (ns ! y) = TNil" for y
      using that D(3) [of y] val [of y] x by auto
    show "nnext (ns' ! y) = None" if "y < length ns" "nkey (ns ! y) = TNil" for y
      using that D(3) [of y] nx [of y] by simp
  qed (use D in blast)+
  have "hget ns' k = (if k = nkey (ns ! x) then v else hget ns k)" if k: "k \<noteq> TNil" for k
  proof (cases "\<exists>y < length ns. nkey (ns ! y) = k")
    case True
    then obtain y where y: "y < length ns" "nkey (ns ! y) = k" by blast
    have "hget ns' k = nval (ns' ! y)" using hget_present [OF ok', of y k] y len key k by simp
    moreover have "hget ns k = nval (ns ! y)" using hget_present [OF ok, of y k] y k by simp
    moreover have "y = x \<longleftrightarrow> k = nkey (ns ! x)" using D(6) [of y x] y x k by auto
    ultimately show ?thesis using val [of y] by simp
  next
    case False
    then have "hget ns' k = TNil" "hget ns k = TNil" using key len by (auto intro!: hget_absent)
    then show ?thesis using False x by auto
  qed
  moreover have "keyed ns' = keyed ns" by (simp add: keyed_def key len)
  ultimately show ?thesis using ok' by blast
qed

lemma int_key_inject: "key_ok k \<Longrightarrow> key_ok k' \<Longrightarrow> int_key k = Some i \<Longrightarrow> int_key k' = Some i \<Longrightarrow> k = k'"
  using int_key_Some by metis

text \<open>A store through the slot of a key changes the value of that key and of nothing else.\<close>

lemma store_spec:
  assumes t: "tab_ok t" and k: "key_ok key" and s: "slot_for t s key"
  shows "tab_ok (tab_store t s v) \<and> keyed (tnode (tab_store t s v)) = keyed (tnode t) \<and>
    length (tnode (tab_store t s v)) = length (tnode t) \<and> asize (tab_store t s v) = asize t \<and>
    metatable (tab_store t s v) = metatable t \<and> slot_for (tab_store t s v) s key \<and>
    (\<forall>q. key_ok q \<longrightarrow> tget (tab_store t s v) q = (if q = key then v else tget t q))"
proof (cases s)
  case (SArr i)
  let ?t = "tab_store t s v"
  have i: "int_key key = Some (int i)" "i < asize t" using s SArr by (simp_all add: slot_for_def)
  have T: "?t = t\<lparr>tarray := (tarray t)[i := v]\<rparr>" by (simp add: tab_store_def SArr)
  have arr: "inarray ?t j = inarray t j" for j by (simp add: inarray_def T)
  have hk: "hashkey ?t = hashkey t" by (rule hashkey_cong) (simp add: T)
  have ok: "tab_ok ?t" using t unfolding tab_ok_def hk arr by (simp add: T)
  have i31: "int32 (int i)" using i(2) tab_okD(1) [OF t] LJ_MAX_ASIZE_less by (simp add: int32_def)
  have ia: "inarray t (int i)" using inarray_iff [OF tab_okD(1) [OF t] i31] i by simp
  have "tget ?t q = (if q = key then v else tget t q)" if q: "key_ok q" for q
  proof (cases "q = key")
    case True
    then show ?thesis using i ia arr by (simp add: tget_def T)
  next
    case False
    have "nat j \<noteq> i" if j: "int_key q = Some j" "inarray t j" for j
    proof
      assume e: "nat j = i"
      have "int32 j" using int_key_Some [OF q j(1)] by simp
      then have "0 \<le> j" using inarray_iff [OF tab_okD(1) [OF t]] j(2) by blast
      then have "j = int i" using e by simp
      then show False using int_key_inject [OF q k j(1)] i(1) False by simp
    qed
    then show ?thesis using False unfolding tget_def arr by (auto simp: T split: option.splits)
  qed
  moreover have "slot_for ?t s key" using i SArr by (simp add: slot_for_def tab_store_def)
  ultimately show ?thesis using ok by (simp add: T)
next
  case (SHash x)
  let ?t = "tab_store t s v"
  have x: "x < length (tnode t)" "nkey (tnode t ! x) = key" "\<And>i. int_key key = Some i \<Longrightarrow> \<not> inarray t i"
    using s SHash by (auto simp: slot_for_def)
  let ?ns = "(tnode t)[x := (tnode t ! x)\<lparr>nval := v\<rparr>]"
  have T: "?t = t\<lparr>tnode := ?ns\<rparr>" by (simp add: tab_store_def SHash)
  have arr: "inarray ?t j = inarray t j" for j by (simp add: inarray_def T)
  have hk: "hashkey ?t = hashkey t" by (rule hashkey_cong) (simp add: T)
  have kn: "key \<noteq> TNil" using k by simp
  then have "nkey (tnode t ! x) \<noteq> TNil" using x by simp
  note S = hash_ok_store [OF tab_okD(3) [OF t] x(1) this refl, of v]
  have key: "nkey (?ns ! y) = nkey (tnode t ! y)" for y using x by (cases "y = x") simp_all
  have l1: "length (tnode t) \<noteq> 1"
  proof
    assume "length (tnode t) = 1"
    then have "tnode t = [nilnode]" using tab_okD(4) [OF t] by blast
    then show False using x kn by (simp add: nilnode_def)
  qed
  have ok: "tab_ok ?t" using t S l1 key unfolding tab_ok_def hk arr by (simp add: T)
  have "tget ?t q = (if q = key then v else tget t q)" if q: "key_ok q" for q
    using S x(2,3) q unfolding tget_def arr by (auto simp: T split: option.splits)
  moreover have "slot_for ?t s key" using x SHash arr key [of x] T by (simp add: slot_for_def)
  ultimately show ?thesis using ok S by (simp add: T)
qed

lemma set_with_norm: "valid_key key \<Longrightarrow> set_with nk t key = set_with nk t (norm_key key)"
proof (cases "tvismzero key")
  case True
  then have "key = TNum 0x8000000000000000" "norm_key key = TNum 0" by (simp_all add: tvismzero_def norm_key_def)
  moreover have "num_eq 0x8000000000000000 0" "num_eq 0 0"
    by (simp_all add: num_eq_def num_zero_def num_nan_def mzero_fields)
  moreover have "lj_num2int 0 = 0" using num2int_num_of_int [of 0] by (simp add: int32_def)
  ultimately show ?thesis by (simp add: set_with_def num2int_mzero)
qed (simp add: norm_key_def)

text \<open>
  Where the setters end: in the array, at the node of the key, or in \<open>newkey\<close> with a key that is
  neither in the array nor in the hash part.
\<close>

lemma set_with_cases:
  assumes t: "tab_ok t" and k: "key_ok key"
  shows "(\<exists>s. set_with nk t key = Inr (t\<lparr>nomm := 0\<rparr>, s) \<and> slot_for t s key) \<or>
    (set_with nk t key = nk (t\<lparr>nomm := 0\<rparr>) key \<and> (\<forall>y < length (tnode t). nkey (tnode t ! y) \<noteq> key) \<and>
     (\<forall>i. int_key key = Some i \<longrightarrow> \<not> inarray t i))"
proof -
  let ?t = "t\<lparr>nomm := 0\<rparr>"
  have hk: "hashkey ?t = hashkey t" by (rule hashkey_cong) simp
  have arr: "inarray ?t i = inarray t i" for i by (simp add: inarray_def)
  have cf: "chain_find ?t = chain_find t" by (simp add: chain_find_def fun_eq_iff)
  have search: "(\<exists>s. (case chain_find t P h of Some n \<Rightarrow> Inr (?t, SHash n) | None \<Rightarrow> nk ?t key) = Inr (?t, s) \<and> slot_for t s key) \<or>
    ((case chain_find t P h of Some n \<Rightarrow> Inr (?t, SHash n) | None \<Rightarrow> nk ?t key) = nk ?t key \<and> (\<forall>y < length (tnode t). nkey (tnode t ! y) \<noteq> key) \<and>
     (\<forall>i. int_key key = Some i \<longrightarrow> \<not> inarray t i))"
    if P: "\<And>k'. key_ok k' \<or> k' = TNil \<Longrightarrow> P k' \<longleftrightarrow> k' = key" and h: "h = hashkey t key"
      and int: "\<And>i. int_key key = Some i \<Longrightarrow> \<not> inarray t i" for P h
    using chain_find_spec [OF t k P h] int by (cases "chain_find t P h") (auto simp: slot_for_def)
  show ?thesis
  proof (cases key)
    case (TStr s)
    show ?thesis using search [of "is_str_key s" "hashstr t s"] unfolding TStr
      by (simp add: set_with_def Let_def setstr_with_def cf is_str_key_ok hashkey_def int_key_def hashstr_def hashmask_def hmask_def)
  next
    case (TNum n)
    have nn: "\<not> num_nan n" using k TNum by (simp add: key_ok_def)
    show ?thesis
    proof (cases "int_key key")
      case None
      then show ?thesis using search [of "\<lambda>k'. lj_obj_equal k' key" "hashkey t key"] nn obj_equal_ok [OF k]
        unfolding TNum by (simp add: set_with_def Let_def setgen_with_def cf hk int_key_def split: if_splits)
    next
      case (Some i)
      then have i: "n = num_of_int i" "int32 i" using int_key_Some [OF k Some] TNum by simp_all
      then have sw: "set_with nk t key = setint_with nk ?t i"
        using TNum by (simp add: set_with_def)
      show ?thesis
      proof (cases "inarray t i")
        case True
        then have "0 \<le> i" "nat i < asize t" using inarray_iff [OF tab_okD(1) [OF t] i(2)] by simp_all
        then show ?thesis using True Some sw arr by (simp add: setint_with_def slot_for_def)
      next
        case False
        have hn: "hashnum ?t n = hashkey t key" using TNum by (simp add: hashkey_def hashnum_def hashmask_def hmask_def)
        show ?thesis
          using search [of "is_num_key n" "hashkey t key"] is_num_key_ok [OF i(2)] False Some TNum i(1) arr hn
          unfolding sw by (simp add: setint_with_def setinth_with_def cf Let_def split: option.splits)
      qed
    qed
  qed (use k search [of "\<lambda>k'. lj_obj_equal k' key" "hashkey t key"] obj_equal_ok [OF k] in
    \<open>simp_all add: set_with_def Let_def setgen_with_def cf hk int_key_def key_ok_def split: option.splits\<close>)
qed

section \<open>Reinsertion\<close>

definition in_arr :: "gctab \<Rightarrow> tvalue \<Rightarrow> bool" where
  "in_arr t k \<longleftrightarrow> (case int_key k of Some i \<Rightarrow> inarray t i | None \<Rightarrow> False)"

lemma in_arr_cong: "asize t' = asize t \<Longrightarrow> in_arr t' = in_arr t"
  by (rule ext) (simp add: in_arr_def inarray_def split: option.splits)

lemma nomm_cong:
  "tab_ok (t\<lparr>nomm := b\<rparr>) = tab_ok t" "tget (t\<lparr>nomm := b\<rparr>) = tget t"
  "slot_for (t\<lparr>nomm := b\<rparr>) s k = slot_for t s k"
  "hashkey (t\<lparr>nomm := b\<rparr>) = hashkey t" "inarray (t\<lparr>nomm := b\<rparr>) i = inarray t i"
proof -
  have arr: "inarray (t\<lparr>nomm := b\<rparr>) i = inarray t i" for i by (simp add: inarray_def)
  have hk: "hashkey (t\<lparr>nomm := b\<rparr>) = hashkey t" by (rule hashkey_cong) simp
  show "tab_ok (t\<lparr>nomm := b\<rparr>) = tab_ok t" unfolding tab_ok_def arr hk by simp
  show "tget (t\<lparr>nomm := b\<rparr>) = tget t" by (rule ext) (simp add: tget_def arr split: option.splits)
  show "slot_for (t\<lparr>nomm := b\<rparr>) s k = slot_for t s k" by (simp add: slot_for_def arr split: slot.splits)
qed (rule hashkey_cong, simp, simp add: inarray_def)

lemma free_or_room:
  assumes "tab_ok t" "room t"
  shows "free_search (tnode t) (freetop t) \<noteq> None"
  by (rule room_free [OF assms]) simp

text \<open>What a setter does to the table when it needs no rehash.\<close>

definition set_done :: "gctab \<Rightarrow> tvalue \<Rightarrow> gctab \<Rightarrow> slot \<Rightarrow> bool" where
  "set_done t key t' s \<longleftrightarrow> tab_ok t' \<and> slot_for t' s key \<and> same_table t t' \<and>
     card (keyed (tnode t')) \<le> card (keyed (tnode t)) + (if in_arr t key then 0 else 1)"

lemma same_table_refl [simp]: "same_table t t" "same_table t (t\<lparr>nomm := b\<rparr>)"
  by (simp_all add: same_table_def nomm_cong)

lemma newkey_room:
  assumes t: "tab_ok t" and k: "key_ok key" and new: "\<forall>y < length (tnode t). nkey (tnode t ! y) \<noteq> key"
    and int: "\<forall>i. int_key key = Some i \<longrightarrow> \<not> inarray t i" and r: "room t"
  shows "\<exists>t' s. newkey_with nk t key = Inr (t', s) \<and> set_done t key t' s"
proof -
  have a: "\<not> in_arr t key" using int by (auto simp: in_arr_def split: option.splits)
  obtain t' x where "newkey_with nk t key = Inr (t', SHash x)" "tab_ok t'" "slot_for t' (SHash x) key"
    "same_table t t'" "card (keyed (tnode t')) \<le> Suc (card (keyed (tnode t)))"
    using newkey_direct [OF t k new] int free_or_room [OF t r] by blast
  then show ?thesis using a by (auto simp: set_done_def)
qed

lemma set_done_nomm: "set_done (t\<lparr>nomm := b\<rparr>) key t' s = set_done t key t' s"
  using in_arr_cong [of "t\<lparr>nomm := b\<rparr>" t] by (simp add: set_done_def same_table_def nomm_cong)

lemma set_room:
  assumes t: "tab_ok t" and k: "key_ok key" and r: "in_arr t key \<or> room t"
  shows "\<exists>t' s. set_with (newkey_with nk) t key = Inr (t', s) \<and> set_done t key t' s"
proof -
  let ?t = "t\<lparr>nomm := 0\<rparr>"
  consider s where "set_with (newkey_with nk) t key = Inr (?t, s)" "slot_for t s key"
    | "set_with (newkey_with nk) t key = newkey_with nk ?t key" "\<forall>y < length (tnode t). nkey (tnode t ! y) \<noteq> key"
      "\<forall>i. int_key key = Some i \<longrightarrow> \<not> inarray t i"
    using set_with_cases [OF t k] by blast
  then show ?thesis
  proof cases
    case 1
    have "set_done t key ?t s" using t 1 by (simp add: set_done_def nomm_cong)
    then show ?thesis using 1 by blast
  next
    case 2
    have "room ?t" using r 2(3) by (auto simp: in_arr_def room_def capacity_def split: option.splits)
    then have "\<exists>t' s. newkey_with nk ?t key = Inr (t', s) \<and> set_done ?t key t' s"
      using t k 2 by (intro newkey_room) (simp_all add: nomm_cong)
    then show ?thesis using 2(1) by (simp add: set_done_nomm)
  qed
qed

lemma setinth_room:
  assumes t: "tab_ok t" and i: "int32 i" "\<not> inarray t i" and r: "room t"
  shows "\<exists>t' s. setinth_with (newkey_with nk) t i = Inr (t', s) \<and> set_done t (TNum (num_of_int i)) t' s"
proof -
  let ?k = "TNum (num_of_int i)"
  have ik: "int_key ?k = Some i" by (rule int_key_num_of_int [OF i(1)])
  have h: "hashnum t (num_of_int i) = hashkey t ?k" by (simp add: hashkey_def)
  have P: "is_num_key (num_of_int i) k' \<longleftrightarrow> k' = ?k" if "key_ok k' \<or> k' = TNil" for k'
    using is_num_key_ok [OF i(1) that] .
  note C = chain_find_spec [OF t int_key_ok [OF i(1)] P h]
  show ?thesis
  proof (cases "chain_find t (is_num_key (num_of_int i)) (hashnum t (num_of_int i))")
    case None
    then show ?thesis
      using newkey_room [OF t int_key_ok [OF i(1)] C(2) [OF _ None] _ r] ik i(2)
      by (simp add: setinth_with_def Let_def)
  next
    case (Some x)
    then have "set_done t ?k t (SHash x)" using C(1) [OF _ Some] t ik i(2) by (simp add: set_done_def slot_for_def)
    then show ?thesis using Some by (simp add: setinth_with_def Let_def)
  qed
qed

text \<open>A setter followed by the store of a value.\<close>

definition put_done :: "gctab \<Rightarrow> tvalue \<Rightarrow> tvalue \<Rightarrow> gctab \<Rightarrow> bool" where
  "put_done t key v t' \<longleftrightarrow> tab_ok t' \<and> asize t' = asize t \<and> length (tnode t') = length (tnode t) \<and>
     metatable t' = metatable t \<and> (\<forall>q. key_ok q \<longrightarrow> tget t' q = (if q = key then v else tget t q)) \<and>
     card (keyed (tnode t')) \<le> card (keyed (tnode t)) + (if in_arr t key then 0 else 1)"

lemma set_put: "set_done t key t' s \<Longrightarrow> key_ok key \<Longrightarrow> put_done t key v (tab_store t' s v)"
  using store_spec [of t' key s v] by (auto simp: set_done_def put_done_def same_table_def)

lemma capacity_cong: "length (tnode t') = length (tnode t) \<Longrightarrow> capacity t' = capacity t"
  by (simp add: capacity_def)

definition live :: "node \<Rightarrow> bool" where "live n \<longleftrightarrow> nval n \<noteq> TNil"

lemma reinsert_hash_spec:
  assumes "tab_ok t" and "\<forall>n \<in> set ns. live n \<longrightarrow> key_ok (nkey n)" and "distinct (map nkey (filter live ns))"
    and "card (keyed (tnode t)) + length (filter (\<lambda>n. live n \<and> \<not> in_arr t (nkey n)) ns) \<le> capacity t"
  shows "\<exists>t'. reinsert_hash (newkey_with nk) t ns = Inr t' \<and> tab_ok t' \<and> asize t' = asize t \<and>
    length (tnode t') = length (tnode t) \<and> metatable t' = metatable t \<and>
    (\<forall>k. key_ok k \<longrightarrow> tget t' k = (case find (\<lambda>n. live n \<and> nkey n = k) ns of Some n \<Rightarrow> nval n | None \<Rightarrow> tget t k)) \<and>
    card (keyed (tnode t')) \<le> card (keyed (tnode t)) + length (filter (\<lambda>n. live n \<and> \<not> in_arr t (nkey n)) ns)"
  using assms
proof (induction ns arbitrary: t)
  case (Cons n ns)
  show ?case
  proof (cases "live n")
    case False
    then show ?thesis using Cons.IH [OF Cons.prems(1)] Cons.prems by (simp add: live_def tvisnil_def)
  next
    case True
    have k: "key_ok (nkey n)" using Cons.prems(2) True by simp
    let ?rest = "\<lambda>t. length (filter (\<lambda>n. live n \<and> \<not> in_arr t (nkey n)) ns)"
    have "in_arr t (nkey n) \<or> room t" using Cons.prems(4) True by (cases "in_arr t (nkey n)") (auto simp: room_def)
    then obtain t1 s where s: "set_with (newkey_with nk) t (nkey n) = Inr (t1, s)" "set_done t (nkey n) t1 s"
      using set_room [OF Cons.prems(1) k] by blast
    let ?t = "tab_store t1 s (nval n)"
    have P: "put_done t (nkey n) (nval n) ?t" using set_put [OF s(2) k] .
    then have ia: "in_arr ?t = in_arr t" and cap: "capacity ?t = capacity t"
      by (auto simp: put_done_def intro!: in_arr_cong capacity_cong)
    have room: "card (keyed (tnode ?t)) + ?rest ?t \<le> capacity ?t"
      using P Cons.prems(4) True unfolding cap ia by (auto simp: put_done_def split: if_splits)
    obtain t' where t': "reinsert_hash (newkey_with nk) ?t ns = Inr t'" "tab_ok t'" "asize t' = asize ?t"
      "length (tnode t') = length (tnode ?t)" "metatable t' = metatable ?t"
      "\<And>k. key_ok k \<Longrightarrow> tget t' k = (case find (\<lambda>n. live n \<and> nkey n = k) ns of Some n \<Rightarrow> nval n | None \<Rightarrow> tget ?t k)"
      "card (keyed (tnode t')) \<le> card (keyed (tnode ?t)) + ?rest ?t"
      using Cons.IH [of ?t] P Cons.prems(2,3) True room by (auto simp: put_done_def)
    have nf: "find (\<lambda>m. live m \<and> nkey m = nkey n) ns = None"
      using Cons.prems(3) True by (force simp: find_None_iff image_iff)
    have g: "tget t' k = (case find (\<lambda>n. live n \<and> nkey n = k) (n # ns) of Some n \<Rightarrow> nval n | None \<Rightarrow> tget t k)"
      if "key_ok k" for k
      using t'(6) [OF that] P that nf True by (auto simp: put_done_def split: option.splits)
    have c: "card (keyed (tnode t')) \<le> card (keyed (tnode t)) + length (filter (\<lambda>n. live n \<and> \<not> in_arr t (nkey n)) (n # ns))"
      using t'(7) P True unfolding ia by (auto simp: put_done_def split: if_splits)
    have "reinsert_hash (newkey_with nk) t (n # ns) = Inr t'"
      using s(1) t'(1) True by (simp add: live_def tvisnil_def)
    then show ?thesis using t'(2-5) P g c by (auto simp: put_done_def)
  qed
qed simp

lemma reinsert_array_spec:
  assumes "tab_ok t" and "asize t \<le> i" and "i + length vs \<le> LJ_MAX_ASIZE"
    and "card (keyed (tnode t)) + length (filter (\<lambda>v. v \<noteq> TNil) vs) \<le> capacity t"
  shows "\<exists>t'. reinsert_array (newkey_with nk) t i vs = Inr t' \<and> tab_ok t' \<and> asize t' = asize t \<and>
    length (tnode t') = length (tnode t) \<and> metatable t' = metatable t \<and>
    (\<forall>k. key_ok k \<longrightarrow> tget t' k =
      (case int_key k of
         Some j \<Rightarrow> if int i \<le> j \<and> j < int (i + length vs) \<and> vs ! nat (j - int i) \<noteq> TNil then vs ! nat (j - int i) else tget t k
       | None \<Rightarrow> tget t k)) \<and>
    card (keyed (tnode t')) \<le> card (keyed (tnode t)) + length (filter (\<lambda>v. v \<noteq> TNil) vs)"
  using assms
proof (induction vs arbitrary: t i)
  case (Cons v vs)
  let ?res = "\<lambda>t i vs k. case int_key k of
      Some j \<Rightarrow> if int i \<le> j \<and> j < int (i + length vs) \<and> vs ! nat (j - int i) \<noteq> TNil then vs ! nat (j - int i) else tget t k
    | None \<Rightarrow> tget t k"
  have later: "?res t i (v # vs) k = ?res t (Suc i) vs k" if "int_key k \<noteq> Some (int i) \<or> v = TNil" for t k
  proof (cases "int_key k")
    case (Some j)
    consider "j < int i" | "j = int i" | "int i < j" by linarith
    then show ?thesis
    proof cases
      case 3
      then have "nat (j - int i) = Suc (nat (j - int (Suc i)))" by linarith
      then show ?thesis using Some 3 by simp
    qed (use Some that in auto)
  qed simp
  show ?case
  proof (cases "v = TNil")
    case True
    then show ?thesis using Cons.IH [of t "Suc i"] Cons.prems later by (simp add: tvisnil_def)
  next
    case False
    let ?k = "TNum (num_of_int (int i))"
    have i: "int32 (int i)" using Cons.prems(3) LJ_MAX_ASIZE_less by (simp add: int32_def)
    have k: "key_ok ?k" "int_key ?k = Some (int i)" using int_key_ok [OF i] int_key_num_of_int [OF i] by simp_all
    have na: "\<not> inarray t (int i)" using inarray_iff [OF tab_okD(1) [OF Cons.prems(1)] i] Cons.prems(2) by simp
    have nia: "\<not> in_arr t ?k" using na k by (simp add: in_arr_def)
    have "room t" using Cons.prems(4) False by (simp add: room_def)
    then obtain t1 s where s: "setinth_with (newkey_with nk) t (int i) = Inr (t1, s)" "set_done t ?k t1 s"
      using setinth_room [OF Cons.prems(1) i na] by blast
    let ?t = "tab_store t1 s v"
    have P: "put_done t ?k v ?t" using set_put [OF s(2) k(1)] .
    then have PD: "tab_ok ?t" "asize ?t = asize t" "length (tnode ?t) = length (tnode t)" "metatable ?t = metatable t"
      "\<And>q. key_ok q \<Longrightarrow> tget ?t q = (if q = ?k then v else tget t q)"
      "card (keyed (tnode ?t)) \<le> Suc (card (keyed (tnode t)))"
      using nia by (auto simp: put_done_def)
    have cap: "capacity ?t = capacity t" using PD(3) by (rule capacity_cong)
    obtain t' where t': "reinsert_array (newkey_with nk) ?t (Suc i) vs = Inr t'" "tab_ok t'" "asize t' = asize ?t"
      "length (tnode t') = length (tnode ?t)" "metatable t' = metatable ?t"
      "\<And>k. key_ok k \<Longrightarrow> tget t' k = ?res ?t (Suc i) vs k"
      "card (keyed (tnode t')) \<le> card (keyed (tnode ?t)) + length (filter (\<lambda>v. v \<noteq> TNil) vs)"
      using Cons.IH [of ?t "Suc i"] PD Cons.prems(2-4) False cap by auto
    have g: "tget t' q = ?res t i (v # vs) q" if q: "key_ok q" for q
    proof (cases "q = ?k")
      case True
      then show ?thesis using t'(6) [OF q] PD(5) [OF q] k(2) False by simp
    next
      case ne: False
      then have "int_key q \<noteq> Some (int i)" using int_key_inject [OF q k(1)] k(2) by blast
      then have "?res t i (v # vs) q = ?res t (Suc i) vs q" by (intro later) simp
      then show ?thesis using t'(6) [OF q] PD(5) [OF q] ne by (simp split: option.splits)
    qed
    have "reinsert_array (newkey_with nk) t i (v # vs) = Inr t'"
      using s(1) t'(1) False by (simp add: tvisnil_def)
    then show ?thesis using t'(2-5,7) PD(2-4,6) g False by auto
  qed
next
  case Nil
  have e: "(case int_key k of
      Some j \<Rightarrow> if int i \<le> j \<and> j < int (i + length ([] :: tvalue list)) \<and> [] ! nat (j - int i) \<noteq> TNil then [] ! nat (j - int i) else tget t k
    | None \<Rightarrow> tget t k) = tget t k" for k
    by (cases "int_key k") auto
  show ?case using Nil unfolding e by simp
qed

section \<open>Resizing\<close>

lemma hget_find:
  assumes ok: "hash_ok H ns" and k: "k \<noteq> TNil"
  shows "(case find (\<lambda>n. live n \<and> nkey n = k) ns of Some n \<Rightarrow> nval n | None \<Rightarrow> TNil) = hget ns k"
proof (cases "find (\<lambda>n. live n \<and> nkey n = k) ns")
  case None
  show ?thesis
  proof (cases "\<exists>x < length ns. nkey (ns ! x) = k")
    case True
    then obtain x where x: "x < length ns" "nkey (ns ! x) = k" by blast
    then have "\<not> (live (ns ! x) \<and> nkey (ns ! x) = k)" using None nth_mem [OF x(1)] unfolding find_None_iff by blast
    then have "nval (ns ! x) = TNil" using x by (simp add: live_def)
    then show ?thesis using None hget_present [OF ok x k] by simp
  next
    case False
    then have "hget ns k = TNil" by (intro hget_absent) auto
    then show ?thesis using None by simp
  qed
next
  case (Some n)
  then obtain x where x: "x < length ns" "nkey (ns ! x) = k" "n = ns ! x" by (auto simp: find_Some_iff)
  then show ?thesis using Some hget_present [OF ok x(1,2) k] by simp
qed

lemma hash_ok_empty: "hash_ok H (replicate m nilnode)"
proof -
  have e: "edge (replicate m nilnode) = {}" by (auto simp: edge_def nilnode_def)
  have "ranked (replicate m nilnode) (\<lambda>_. 0)" by (simp add: ranked_def e)
  then show ?thesis unfolding hash_ok_def e by (auto simp: nilnode_def)
qed

lemma keyed_empty [simp]: "keyed (replicate m nilnode) = {}"
  by (auto simp: keyed_def nilnode_def)

lemma tab_ok_empty:
  assumes "asize t \<le> LJ_MAX_ASIZE" "tnode t = replicate (2 ^ b) nilnode" "b \<le> LJ_MAX_HBITS"
    "freetop t = (if b = 0 then 0 else 2 ^ b)"
  shows "tab_ok t"
proof -
  have nk: "nkey (replicate (2 ^ b) nilnode ! x) = TNil" if "x < 2 ^ b" for x using that by (simp add: nilnode_def)
  show ?thesis unfolding tab_ok_def assms(2,4) using assms(1,3) hash_ok_empty nk
    by (auto simp: int_key_def)
qed

lemma tget_empty:
  assumes "tnode t = replicate m nilnode"
  shows "key_ok k \<Longrightarrow> tget t k = (case int_key k of Some i \<Rightarrow> if inarray t i then tarray t ! nat i else TNil | None \<Rightarrow> TNil)"
proof -
  assume "key_ok k"
  then have "hget (tnode t) k = TNil" using assms by (intro hget_absent) (auto simp: nilnode_def key_ok_def)
  then show ?thesis by (simp add: tget_def split: option.splits)
qed

text \<open>The live entries that do not fit the new array part of \<open>as\<close> slots.\<close>

definition in_size :: "nat \<Rightarrow> tvalue \<Rightarrow> bool" where
  "in_size as k \<longleftrightarrow> (case int_key k of Some i \<Rightarrow> 0 \<le> i \<and> nat i < as | None \<Rightarrow> False)"

definition hash_need :: "gctab \<Rightarrow> nat \<Rightarrow> nat" where
  "hash_need t as = length (filter (\<lambda>v. v \<noteq> TNil) (drop as (tarray t))) +
     length (filter (\<lambda>n. live n \<and> \<not> in_size as (nkey n)) (tnode t))"

lemma in_arr_size: "asize t \<le> LJ_MAX_ASIZE \<Longrightarrow> key_ok k \<Longrightarrow> in_arr t k = in_size (asize t) k"
  using inarray_iff [of t] int_key_Some [of k] by (auto simp: in_arr_def in_size_def split: option.splits)

lemma distinct_keys: "hash_ok H ns \<Longrightarrow> distinct (map nkey (filter live ns))"
proof -
  assume ok: "hash_ok H ns"
  have l: "live (ns ! x) \<Longrightarrow> x < length ns \<Longrightarrow> nkey (ns ! x) \<noteq> TNil" for x
    using hash_okD(3) [OF ok] by (auto simp: live_def)
  have "distinct (map nkey (filter (\<lambda>n. nkey n \<noteq> TNil) ns))"
    using hash_okD(6) [OF ok]
  proof (induction ns)
    case (Cons n ns)
    have "\<And>x y. x < length ns \<Longrightarrow> y < length ns \<Longrightarrow> nkey (ns ! x) = nkey (ns ! y) \<Longrightarrow> nkey (ns ! x) \<noteq> TNil \<Longrightarrow> x = y"
      using Cons.prems [of "Suc _" "Suc _"] by fastforce
    moreover have "nkey n \<noteq> TNil \<Longrightarrow> nkey n \<notin> nkey ` set ns"
      using Cons.prems [of 0 "Suc _"] by (fastforce simp: in_set_conv_nth)
    ultimately show ?case using Cons.IH by auto
  qed simp
  moreover have "filter live ns = filter live (filter (\<lambda>n. nkey n \<noteq> TNil) ns)"
    using l by (auto simp: in_set_conv_nth intro!: filter_cong)
  ultimately show ?thesis by (metis distinct_map_filter)
qed

lemma resize_spec:
  assumes t: "tab_ok t" and need: "hash_need t as \<le> (if hbits = 0 then 0 else 2 ^ hbits)"
  shows "resize_with (newkey_with nk) t as hbits = Inl ErrTABOV \<or>
    (\<exists>t'. resize_with (newkey_with nk) t as hbits = Inr t' \<and> tab_ok t' \<and> asize t' = as \<and>
       length (tnode t') = 2 ^ hbits \<and> metatable t' = metatable t \<and>
       (\<forall>k. key_ok k \<longrightarrow> tget t' k = tget t k) \<and> card (keyed (tnode t')) \<le> hash_need t as)"
proof (cases "as > asize t \<and> as > LJ_MAX_ASIZE \<or> hbits > LJ_MAX_HBITS")
  case True
  then show ?thesis
    by (auto simp: resize_with_def grow_array_def new_hash_def newhpart_def split: sum.splits)
next
  case False
  note D = tab_okD [OF t]
  have as: "as \<le> LJ_MAX_ASIZE" using False D(1) by (cases "as > asize t") auto
  let ?arr = "tarray t @ replicate (as - asize t) TNil"
  obtain t2 where t2: "(case grow_array t as of Inl e \<Rightarrow> Inl e | Inr t1 \<Rightarrow> new_hash t1 hbits) = Inr t2"
    "tarray t2 = ?arr" "tnode t2 = replicate (2 ^ hbits) nilnode" "freetop t2 = (if hbits = 0 then 0 else 2 ^ hbits)"
    "metatable t2 = metatable t"
  proof -
    have "\<exists>t2. (case grow_array t as of Inl e \<Rightarrow> Inl e | Inr t1 \<Rightarrow> new_hash t1 hbits) = Inr t2 \<and>
      tarray t2 = ?arr \<and> tnode t2 = replicate (2 ^ hbits) nilnode \<and> freetop t2 = (if hbits = 0 then 0 else 2 ^ hbits) \<and>
      metatable t2 = metatable t"
      by (cases "as > asize t"; cases "hbits = 0")
        (use False in \<open>simp_all add: grow_array_def new_hash_def newhpart_def\<close>)
    then show ?thesis using that by blast
  qed
  define u where "u = t2\<lparr>tarray := take as (tarray t2)\<rparr>"
  have u: "tarray u = take as ?arr" "tnode u = replicate (2 ^ hbits) nilnode" "asize u = as"
      "freetop u = (if hbits = 0 then 0 else 2 ^ hbits)" "metatable u = metatable t"
    using t2 by (simp_all add: u_def)
  have uok: "tab_ok u" using u as False by (intro tab_ok_empty [of _ hbits]) auto
  have ucap: "capacity u = (if hbits = 0 then 0 else 2 ^ hbits)" using u(2) by (simp add: capacity_def)
  have uk: "keyed (tnode u) = {}" by (simp add: u(2))
  let ?dead = "\<lambda>v. v \<noteq> TNil"
  have shr: "\<exists>t3. shrink_array (newkey_with nk) t2 as (tarray t) = Inr t3 \<and> tab_ok t3 \<and> asize t3 = as \<and>
      length (tnode t3) = 2 ^ hbits \<and> metatable t3 = metatable t \<and>
      (\<forall>k. key_ok k \<longrightarrow> tget t3 k = (case int_key k of
         Some j \<Rightarrow> if int as \<le> j \<and> j < int (asize t) \<and> tarray t ! nat j \<noteq> TNil then tarray t ! nat j else tget u k
       | None \<Rightarrow> tget u k)) \<and>
      card (keyed (tnode t3)) \<le> length (filter ?dead (drop as (tarray t)))"
  proof (cases "as < asize t")
    case True
    have len: "as + length (drop as (tarray t)) = asize t" using True by simp
    have room: "card (keyed (tnode u)) + length (filter ?dead (drop as (tarray t))) \<le> capacity u"
      using need ucap uk by (simp add: hash_need_def)
    have le: "as + length (drop as (tarray t)) \<le> LJ_MAX_ASIZE" using len D(1) by simp
    obtain t3 where t3: "reinsert_array (newkey_with nk) u as (drop as (tarray t)) = Inr t3" "tab_ok t3" "asize t3 = asize u"
      "length (tnode t3) = length (tnode u)" "metatable t3 = metatable u"
      "\<And>k. key_ok k \<Longrightarrow> tget t3 k = (case int_key k of
         Some j \<Rightarrow> if int as \<le> j \<and> j < int (as + length (drop as (tarray t))) \<and> drop as (tarray t) ! nat (j - int as) \<noteq> TNil
            then drop as (tarray t) ! nat (j - int as) else tget u k
       | None \<Rightarrow> tget u k)"
      "card (keyed (tnode t3)) \<le> card (keyed (tnode u)) + length (filter ?dead (drop as (tarray t)))"
      using reinsert_array_spec [OF uok _ le room, of nk] u(3) by auto
    have nd: "drop as (tarray t) ! nat (j - int as) = tarray t ! nat j" if "int as \<le> j" for j
      using that True by (simp add: nat_diff_distrib)
    have "tget t3 k = (case int_key k of
         Some j \<Rightarrow> if int as \<le> j \<and> j < int (asize t) \<and> tarray t ! nat j \<noteq> TNil then tarray t ! nat j else tget u k
       | None \<Rightarrow> tget u k)" if "key_ok k" for k
      using t3(6) [OF that] nd unfolding len by (auto split: option.splits)
    moreover have "shrink_array (newkey_with nk) t2 as (tarray t) = reinsert_array (newkey_with nk) u as (drop as (tarray t))"
      using True by (simp add: shrink_array_def u_def)
    ultimately show ?thesis using t3 u(2,3,5) uk by simp
  next
    case False
    then have "u = t2" using t2(2) by (simp add: u_def)
    moreover have "(case int_key k of
         Some j \<Rightarrow> if int as \<le> j \<and> j < int (asize t) \<and> tarray t ! nat j \<noteq> TNil then tarray t ! nat j else tget u k
       | None \<Rightarrow> tget u k) = tget u k" for k using False by (auto split: option.splits)
    ultimately show ?thesis using False u uok uk by (simp add: shrink_array_def)
  qed
  then obtain t3 where t3: "shrink_array (newkey_with nk) t2 as (tarray t) = Inr t3" "tab_ok t3" "asize t3 = as"
      "length (tnode t3) = 2 ^ hbits" "metatable t3 = metatable t"
      "\<And>k. key_ok k \<Longrightarrow> tget t3 k = (case int_key k of
         Some j \<Rightarrow> if int as \<le> j \<and> j < int (asize t) \<and> tarray t ! nat j \<noteq> TNil then tarray t ! nat j else tget u k
       | None \<Rightarrow> tget u k)"
      "card (keyed (tnode t3)) \<le> length (filter ?dead (drop as (tarray t)))"
    by blast
  have keys: "\<forall>n \<in> set (tnode t). live n \<longrightarrow> key_ok (nkey n)"
  proof (intro ballI impI)
    fix n assume "n \<in> set (tnode t)" and l: "live n"
    then obtain x where x: "x < length (tnode t)" "n = tnode t ! x" by (auto simp: in_set_conv_nth)
    then have "nkey (tnode t ! x) \<noteq> TNil" using l hash_okD(3) [OF D(3) x(1)] by (auto simp: live_def)
    then show "key_ok (nkey n)" using hash_okD(4) [OF D(3) x(1)] x(2) by blast
  qed
  have fe: "filter (\<lambda>n. live n \<and> \<not> in_arr t3 (nkey n)) (tnode t) = filter (\<lambda>n. live n \<and> \<not> in_size as (nkey n)) (tnode t)"
    using keys in_arr_size [of t3] t3(3) as by (intro filter_cong) auto
  have cap3: "capacity t3 = (if hbits = 0 then 0 else 2 ^ hbits)" using t3(4) by (simp add: capacity_def)
  have room3: "card (keyed (tnode t3)) + length (filter (\<lambda>n. live n \<and> \<not> in_arr t3 (nkey n)) (tnode t)) \<le> capacity t3"
    unfolding fe cap3 using need t3(7) by (simp add: hash_need_def)
  obtain t4 where t4: "reinsert_hash (newkey_with nk) t3 (tnode t) = Inr t4" "tab_ok t4" "asize t4 = asize t3"
    "length (tnode t4) = length (tnode t3)" "metatable t4 = metatable t3"
    "\<And>k. key_ok k \<Longrightarrow> tget t4 k = (case find (\<lambda>n. live n \<and> nkey n = k) (tnode t) of Some n \<Rightarrow> nval n | None \<Rightarrow> tget t3 k)"
    "card (keyed (tnode t4)) \<le> card (keyed (tnode t3)) + length (filter (\<lambda>n. live n \<and> \<not> in_arr t3 (nkey n)) (tnode t))"
    using reinsert_hash_spec [OF t3(2) keys distinct_keys [OF D(3)] room3, of nk] by blast
  have idle: "hmask t > 0 \<or> t4 = t3"
  proof (rule disjCI)
    assume "t4 \<noteq> t3"
    show "hmask t > 0"
    proof (rule ccontr)
      assume "\<not> hmask t > 0"
      moreover have "0 < length (tnode t)" using hashkey_less [OF t, of TNil] by linarith
      ultimately have "length (tnode t) = 1" unfolding hmask_def by linarith
      then have "tnode t = [nilnode]" using D(4) by simp
      then show False using t4(1) \<open>t4 \<noteq> t3\<close> by (simp add: nilnode_def tvisnil_def)
    qed
  qed
  have res: "resize_with (newkey_with nk) t as hbits = Inr t4"
  proof -
    obtain t1 where "grow_array t as = Inr t1" "new_hash t1 hbits = Inr t2"
      using t2(1) by (auto split: sum.splits)
    then show ?thesis using t3(1) t4(1) idle by (auto simp: resize_with_def)
  qed
  have g: "tget t4 k = tget t k" if k: "key_ok k" for k
  proof -
    have h: "(case find (\<lambda>n. live n \<and> nkey n = k) (tnode t) of Some n \<Rightarrow> nval n | None \<Rightarrow> TNil) = hget (tnode t) k"
      by (rule hget_find [OF D(3)]) (use k in simp)
    have ug: "tget u k = (case int_key k of Some i \<Rightarrow> if inarray u i then take as ?arr ! nat i else TNil | None \<Rightarrow> TNil)"
      using tget_empty [OF u(2) k, unfolded u(1)] .
    show ?thesis
    proof (cases "int_key k")
      case None
      then show ?thesis using t4(6) [OF k] t3(6) [OF k] ug h by (simp add: tget_def split: option.splits)
    next
      case (Some j)
      have j32: "int32 j" using int_key_Some [OF k Some] by simp
      have iu: "inarray u j \<longleftrightarrow> 0 \<le> j \<and> nat j < as" using inarray_iff [of u j] j32 u(3) as by simp
      have it: "inarray t j \<longleftrightarrow> 0 \<le> j \<and> nat j < asize t" using inarray_iff [OF D(1) j32] .
      show ?thesis
      proof (cases "inarray t j")
        case True
        have "find (\<lambda>n. live n \<and> nkey n = k) (tnode t) = None"
          using D(7) Some True by (auto simp: find_None_iff in_set_conv_nth)
        then have "tget t4 k = tget t3 k" using t4(6) [OF k] by simp
        moreover have "tget t k = tarray t ! nat j" using Some True by (simp add: tget_def)
        moreover have "tget u k = (if nat j < as then tarray t ! nat j else TNil)"
          using ug Some iu it True by (simp add: nth_append)
        ultimately show ?thesis using t3(6) [OF k] Some it True by auto
      next
        case False
        then have "tget u k = TNil" using ug Some iu it by (auto simp: nth_append)
        then have "tget t3 k = TNil" using t3(6) [OF k] Some False it by auto
        then show ?thesis using t4(6) [OF k] h Some False by (simp add: tget_def split: option.splits)
      qed
    qed
  qed
  have "card (keyed (tnode t4)) \<le> hash_need t as"
    using t4(7) t3(7) unfolding fe by (simp add: hash_need_def)
  then show ?thesis using res t4(2-5) t3(3-5) g by auto
qed

section \<open>Counting for a rehash\<close>

definition key_bin :: "nat \<Rightarrow> nat" where
  "key_bin j = (if j > 2 then fls_nat (j - 1) else 0)"

definition arr_int :: "tvalue \<Rightarrow> nat option" where
  "arr_int k = (case int_key k of Some i \<Rightarrow> if 0 \<le> i \<and> nat i < LJ_MAX_ASIZE then Some (nat i) else None | None \<Rightarrow> None)"

definition bins_ok :: "nat list \<Rightarrow> nat list \<Rightarrow> bool" where
  "bins_ok bins K \<longleftrightarrow> length bins = LJ_MAX_ABITS \<and> (\<forall>j \<in> set K. j < LJ_MAX_ASIZE) \<and>
     (\<forall>b < LJ_MAX_ABITS. bins ! b = length (filter (\<lambda>j. key_bin j = b) K))"

lemma key_bin_le: "key_bin j \<le> b \<longleftrightarrow> j \<le> 2 * 2 ^ b"
proof (cases "j > 2")
  case True
  then have j: "0 < j - 1" by simp
  show ?thesis
  proof
    assume "key_bin j \<le> b"
    then have "(2 :: nat) ^ Suc (fls_nat (j - 1)) \<le> 2 ^ Suc b" using True by (intro power_increasing) (simp_all add: key_bin_def)
    then have "j - 1 < 2 ^ Suc b" by (rule less_le_trans [OF fls_nat_upper])
    then show "j \<le> 2 * 2 ^ b" by simp
  next
    assume "j \<le> 2 * 2 ^ b"
    then have "j - 1 < 2 ^ Suc b" using True by simp
    then show "key_bin j \<le> b" using fls_nat_le True by (simp add: key_bin_def)
  qed
next
  case False
  have "(1 :: nat) \<le> 2 ^ b" by simp
  then have "j \<le> 2 * 2 ^ b" using False by linarith
  then show ?thesis using False by (simp add: key_bin_def)
qed

lemma key_bin_less: "j < LJ_MAX_ASIZE \<Longrightarrow> key_bin j < LJ_MAX_ABITS"
  using key_bin_le [of j 26] by (simp add: LJ_MAX_ASIZE_def LJ_MAX_ABITS_def)

lemma bins_ok_bump:
  assumes "bins_ok bins K" "j < LJ_MAX_ASIZE"
  shows "bins_ok (bump bins (key_bin j) 1) (K @ [j])"
  using assms key_bin_less [OF assms(2)] by (auto simp: bins_ok_def bump_def nth_list_update)

lemma bins_ok_bump_list:
  assumes "bins_ok bins K" "\<forall>j \<in> set L. key_bin j = b \<and> j < LJ_MAX_ASIZE" "b < LJ_MAX_ABITS"
  shows "bins_ok (bump bins b (length L)) (K @ L)"
proof -
  have "filter (\<lambda>j. key_bin j = b) L = L" using assms(2) by simp
  moreover have "filter (\<lambda>j. key_bin j = c) L = []" if "c \<noteq> b" for c using assms(2) that by (auto simp: filter_empty_conv)
  ultimately show ?thesis using assms by (auto simp: bins_ok_def bump_def nth_list_update)
qed

lemma countint_eq:
  "countint key bins = (case arr_int key of Some j \<Rightarrow> (1, bump bins (key_bin j) 1) | None \<Rightarrow> (0, bins))"
proof (cases key)
  case (TNum n)
  let ?k = "lj_num2int n"
  have i: "int32 ?k" by simp
  have m: "nat (?k mod 2 ^ 32) < LJ_MAX_ASIZE \<longleftrightarrow> 0 \<le> ?k \<and> nat ?k < LJ_MAX_ASIZE"
    using inarray_iff [of "\<lparr>nomm = 0, colo = 0, tarray = replicate LJ_MAX_ASIZE TNil, metatable = None, tnode = [], freetop = 0\<rparr>" ?k] i
    by (simp add: inarray_def)
  have b: "0 \<le> ?k \<Longrightarrow> (if ?k > 2 then fls_nat (nat (?k - 1)) else 0) = key_bin (nat ?k)"
    by (auto simp: key_bin_def nat_diff_distrib)
  show ?thesis using m b TNum by (auto simp: countint_def arr_int_def int_key_def Let_def)
qed (simp_all add: countint_def arr_int_def int_key_def)

lemma countint_ok:
  "bins_ok bins K \<Longrightarrow> countint key bins = (c, bins') \<Longrightarrow>
    bins_ok bins' (K @ (case arr_int key of Some j \<Rightarrow> [j] | None \<Rightarrow> [])) \<and>
    c = length (case arr_int key of Some j \<Rightarrow> [j] | None \<Rightarrow> [])"
  using bins_ok_bump [of bins K] by (auto simp: countint_eq arr_int_def split: option.splits if_splits)

definition live_idx :: "tvalue list \<Rightarrow> nat \<Rightarrow> nat \<Rightarrow> nat list" where
  "live_idx a i j = filter (\<lambda>x. a ! x \<noteq> TNil) [i..<j]"

lemma live_idx_split: "i \<le> j \<Longrightarrow> live_idx a 0 i @ live_idx a i j = live_idx a 0 j"
  using upt_add_eq_append [of 0 i "j - i"] by (simp add: live_idx_def flip: filter_append)

lemma count_range_eq: "count_range a i t = length (live_idx a i (t + 1))"
  by (simp add: count_range_def live_idx_def filter_map o_def tvisnil_def)

definition bin_start :: "nat \<Rightarrow> nat" where "bin_start b = (if b = 0 then 0 else 2 ^ b + 1)"

lemma key_bin_range:
  assumes "bin_start b \<le> x" "x \<le> 2 * 2 ^ b"
  shows "key_bin x = b"
proof (cases b)
  case 0
  then show ?thesis using assms key_bin_le [of x 0] by simp
next
  case (Suc c)
  have "\<not> key_bin x \<le> c" using assms Suc by (simp add: key_bin_le bin_start_def)
  moreover have "key_bin x \<le> b" using assms by (simp add: key_bin_le)
  ultimately show ?thesis using Suc by simp
qed

lemma countarray_loop_spec:
  assumes "a \<noteq> []" "length a \<le> LJ_MAX_ASIZE" "b \<le> LJ_MAX_ABITS" "i = min (bin_start b) (length a)"
    "na = length (live_idx a 0 i)" "bins_ok bins (live_idx a 0 i)"
  shows "\<exists>bins'. countarray_loop a b i na bins = (length (live_idx a 0 (length a)), bins') \<and> bins_ok bins' (live_idx a 0 (length a))"
  using assms
proof (induction a b i na bins rule: countarray_loop.induct)
  case (1 a b i na bins)
  have len: "0 < length a" using "1.prems"(1) by simp
  show ?case
  proof (cases "b < LJ_MAX_ABITS \<and> i < length a")
    case False
    have "i = length a"
    proof (cases "b < LJ_MAX_ABITS")
      case True
      then show ?thesis using False "1.prems"(4) by simp
    next
      case b: False
      then have "b = LJ_MAX_ABITS" using "1.prems"(3) by simp
      then have "bin_start b \<ge> length a" using "1.prems"(2) by (simp add: bin_start_def LJ_MAX_ASIZE_def LJ_MAX_ABITS_def)
      then show ?thesis using "1.prems"(4) by simp
    qed
    moreover have "countarray_loop a b i na bins = (na, bins)"
    proof (cases "b < LJ_MAX_ABITS")
      case True
      have "bin_start b \<le> 2 * 2 ^ b" by (auto simp: bin_start_def)
      then have "2 * 2 ^ b \<ge> length a" using \<open>i = length a\<close> "1.prems"(4) by linarith
      then show ?thesis using True len \<open>i = length a\<close> by (subst countarray_loop.simps) simp
    next
      case False
      then show ?thesis by (subst countarray_loop.simps) simp
    qed
    ultimately show ?thesis using "1.prems"(5,6) by simp
  next
    case True
    then have b: "b < LJ_MAX_ABITS" and i: "i < length a" by simp_all
    then have ib: "i = bin_start b" using "1.prems"(4) by simp
    let ?t = "2 * 2 ^ b :: nat"
    let ?u = "if ?t \<ge> length a then length a - 1 else ?t"
    have nostop: "\<not> (?t \<ge> length a \<and> i > length a - 1)" using i by linarith
    have iu: "i \<le> ?u"
    proof (cases "?t \<ge> length a")
      case False
      have "bin_start b \<le> ?t" by (auto simp: bin_start_def)
      then show ?thesis using ib False by simp
    qed (use i in simp)
    have nx: "max i (?u + 1) = min (bin_start (b + 1)) (length a)"
      using iu len by (auto simp: bin_start_def min_def)
    have sp: "live_idx a 0 i @ live_idx a i (?u + 1) = live_idx a 0 (max i (?u + 1))"
      using live_idx_split [of i "?u + 1" a] iu by (simp add: max_def)
    have inb: "\<forall>x \<in> set (live_idx a i (?u + 1)). key_bin x = b \<and> x < LJ_MAX_ASIZE"
    proof
      fix x assume "x \<in> set (live_idx a i (?u + 1))"
      then have x: "i \<le> x" "x \<le> ?u" by (auto simp: live_idx_def)
      moreover have "?u \<le> ?t" "?u < length a" using len by auto
      ultimately show "key_bin x = b \<and> x < LJ_MAX_ASIZE" using key_bin_range [of b x] ib "1.prems"(2) by auto
    qed
    have bo: "bins_ok (bump bins b (count_range a i ?u)) (live_idx a 0 (max i (?u + 1)))"
      using bins_ok_bump_list [OF "1.prems"(6) inb b] by (simp only: count_range_eq sp)
    have na': "na + count_range a i ?u = length (live_idx a 0 (max i (?u + 1)))"
      using "1.prems"(5) arg_cong [OF sp, of length] by (simp add: count_range_eq)
    have step: "countarray_loop a b i na bins =
        countarray_loop a (b + 1) (max i (?u + 1)) (na + count_range a i ?u) (bump bins b (count_range a i ?u))"
      using b nostop by (subst countarray_loop.simps) (simp only: Let_def if_True if_False)
    show ?thesis unfolding step
      by (rule "1.IH" [OF b refl nostop refl refl "1.prems"(1,2) _ nx na' bo]) (use b in simp)
  qed
qed

definition hash_ints :: "node list \<Rightarrow> nat list" where
  "hash_ints ns = concat (map (\<lambda>n. if live n then (case arr_int (nkey n) of Some j \<Rightarrow> [j] | None \<Rightarrow> []) else []) ns)"

lemma counthash_loop_spec:
  "bins_ok bins K \<Longrightarrow> \<exists>bins'. counthash_loop ns tot na bins =
     (tot + length (filter live ns), na + length (hash_ints ns), bins') \<and> bins_ok bins' (K @ hash_ints ns)"
proof (induction ns arbitrary: tot na bins K)
  case (Cons n ns)
  show ?case
  proof (cases "live n")
    case True
    obtain c bins1 where c: "countint (nkey n) bins = (c, bins1)" by (cases "countint (nkey n) bins")
    then show ?thesis
      using True countint_ok [OF Cons.prems c] Cons.IH [of bins1 "K @ (case arr_int (nkey n) of Some j \<Rightarrow> [j] | None \<Rightarrow> [])" "tot + 1" "na + c"]
      by (auto simp: hash_ints_def live_def tvisnil_def)
  next
    case False
    then show ?thesis using Cons.IH [OF Cons.prems, of tot na] by (simp add: hash_ints_def live_def tvisnil_def)
  qed
qed (simp add: hash_ints_def)

lemma filter_split_less:
  "length (filter (\<lambda>j. key_bin j < Suc b) K) = length (filter (\<lambda>j. key_bin j < b) K) + length (filter (\<lambda>j. key_bin j = b) K)"
  by (induction K) auto

lemma bestasize_loop_spec:
  assumes "bins_ok bins K" "nn = length K" "sm = length (filter (\<lambda>j. key_bin j < b) K)"
    "na = length (filter (\<lambda>j. j < sz) K)"
  shows "bestasize_loop bins nn b sm na sz = (na', sz') \<Longrightarrow> na' = length (filter (\<lambda>j. j < sz') K)"
  using assms
proof (induction bins nn b sm na sz rule: bestasize_loop.induct)
  case (1 bins nn b sm na sz)
  show ?case
  proof (cases "2 * nn > 2 ^ b \<and> sm \<noteq> nn")
    case False
    then show ?thesis using "1.prems" by (subst (asm) bestasize_loop.simps) auto
  next
    case c: True
    have "b < LJ_MAX_ABITS"
    proof (rule ccontr)
      assume "\<not> b < LJ_MAX_ABITS"
      then have "\<forall>j \<in> set K. key_bin j < b" using key_bin_less "1.prems"(2) by (fastforce simp: bins_ok_def)
      then have "filter (\<lambda>j. key_bin j < b) K = K" by simp
      then show False using c "1.prems"(3,4) by simp
    qed
    then have b: "bins ! b = length (filter (\<lambda>j. key_bin j = b) K)" using "1.prems"(2) by (simp add: bins_ok_def)
    have s1: "sm + bins ! b = length (filter (\<lambda>j. key_bin j < b + 1) K)"
      using "1.prems"(4) b filter_split_less [of b K] by simp
    have n1: "length (filter (\<lambda>j. key_bin j < b + 1) K) = length (filter (\<lambda>j. j < 2 * 2 ^ b + 1) K)"
      using key_bin_le by (simp add: less_Suc_eq_le)
    show ?thesis
    proof (cases "bins ! b > 0")
      case p: True
      show ?thesis
      proof (cases "2 * (sm + bins ! b) > 2 ^ b")
        case True
        have "bestasize_loop bins nn (b + 1) (sm + bins ! b) (sm + bins ! b) (2 * 2 ^ b + 1) = (na', sz')"
          using "1.prems"(1) c p True by (subst (asm) bestasize_loop.simps) (simp add: Let_def)
        then show ?thesis using "1.IH"(1) [OF c p refl True] "1.prems"(2,3) s1 n1 by simp
      next
        case False
        have "bestasize_loop bins nn (b + 1) (sm + bins ! b) na sz = (na', sz')"
          using "1.prems"(1) c p False by (subst (asm) bestasize_loop.simps) (simp add: Let_def)
        then show ?thesis using "1.IH"(2) [OF c p refl False] "1.prems" s1 by simp
      qed
    next
      case False
      have "bestasize_loop bins nn (b + 1) sm na sz = (na', sz')"
        using "1.prems"(1) c False by (subst (asm) bestasize_loop.simps) (simp add: Let_def)
      then show ?thesis using "1.IH"(3) [OF c False] "1.prems" s1 False by simp
    qed
  qed
qed

section \<open>Rehash\<close>

lemma arr_int_size: "as \<le> LJ_MAX_ASIZE \<Longrightarrow> in_size as k \<longleftrightarrow> (\<exists>j. arr_int k = Some j \<and> j < as)"
  by (auto simp: in_size_def arr_int_def split: option.splits)

lemma live_idx_drop:
  "length (live_idx a 0 (length a)) =
     length (filter (\<lambda>j. j < as) (live_idx a 0 (length a))) + length (filter (\<lambda>v. v \<noteq> TNil) (drop as a))"
proof (induction a rule: rev_induct)
  case (snoc v a)
  have e: "live_idx (a @ [v]) 0 (length a) = live_idx a 0 (length a)"
    by (auto simp: live_idx_def nth_append intro!: filter_cong)
  have s: "live_idx (a @ [v]) 0 (length (a @ [v])) = live_idx a 0 (length a) @ (if v \<noteq> TNil then [length a] else [])"
    using e by (simp add: live_idx_def)
  show ?case unfolding s using snoc by (auto simp: drop_append not_less)
qed (simp add: live_idx_def)

lemma hash_ints_split:
  assumes "as \<le> LJ_MAX_ASIZE"
  shows "length (filter live ns) =
    length (filter (\<lambda>j. j < as) (hash_ints ns)) + length (filter (\<lambda>n. live n \<and> \<not> in_size as (nkey n)) ns)"
proof (induction ns)
  case (Cons n ns)
  then show ?case using arr_int_size [OF assms, of "nkey n"]
    by (cases "arr_int (nkey n)"; cases "live n") (auto simp: hash_ints_def)
qed (simp add: hash_ints_def)

lemma hsize2hbits_enough: "s \<le> (if hsize2hbits s = 0 then 0 else 2 ^ hsize2hbits s)"
  using fls_nat_upper [of "s - 1"] by (cases s) (auto simp: hsize2hbits_def)

lemma rehash_spec:
  assumes t: "tab_ok t" and k: "key_ok ek"
  shows "rehash_with (newkey_with nk) t ek = Inl ErrTABOV \<or>
    (\<exists>t'. rehash_with (newkey_with nk) t ek = Inr t' \<and> tab_ok t' \<and> metatable t' = metatable t \<and>
       (\<forall>k. key_ok k \<longrightarrow> tget t' k = tget t k) \<and> (in_arr t' ek \<or> room t'))"
proof -
  note D = tab_okD [OF t]
  let ?L = "live_idx (tarray t) 0 (asize t)" and ?I = "hash_ints (tnode t)"
  let ?e = "case arr_int ek of Some j \<Rightarrow> [j] | None \<Rightarrow> []"
  have b0: "bins_ok (replicate LJ_MAX_ABITS 0) []" by (simp add: bins_ok_def)
  obtain bins1 where c1: "countarray t (replicate LJ_MAX_ABITS 0) = (length ?L, bins1)" "bins_ok bins1 ?L"
  proof (cases "asize t = 0")
    case True
    then show ?thesis using that [of "replicate LJ_MAX_ABITS 0"] b0 by (simp add: countarray_def live_idx_def)
  next
    case False
    then have "tarray t \<noteq> []" by auto
    then show ?thesis
      using countarray_loop_spec [of "tarray t" 0 0 0 "replicate LJ_MAX_ABITS 0"] D(1) False b0 that
      by (auto simp: countarray_def bin_start_def live_idx_def)
  qed
  obtain bins2 where c2: "counthash t bins1 (length ?L) = (length (filter live (tnode t)), length ?L + length ?I, bins2)"
    "bins_ok bins2 (?L @ ?I)"
    using counthash_loop_spec [OF c1(2), of "tnode t" 0 0] by (auto simp: counthash_def)
  obtain c bins3 where c3: "countint ek bins2 = (c, bins3)" by (cases "countint ek bins2")
  have b3: "bins_ok bins3 (?L @ ?I @ ?e)" "c = length ?e" using countint_ok [OF c2(2) c3] by simp_all
  obtain na as where be: "bestasize bins3 (length (?L @ ?I @ ?e)) = (na, as)" by (cases "bestasize bins3 (length (?L @ ?I @ ?e))")
  have na: "na = length (filter (\<lambda>j. j < as) (?L @ ?I @ ?e))"
    using bestasize_loop_spec [OF b3(1) refl, of 0 0 0 0 na as] be by (simp add: bestasize_def)
  let ?tot = "1 + length ?L + length (filter live (tnode t)) - na"
  have rh: "rehash_with (newkey_with nk) t ek = resize_with (newkey_with nk) t as (hsize2hbits ?tot)"
    using c1(1) c2(1) c3 b3(2) be by (simp add: rehash_with_def add.assoc)
  show ?thesis
  proof (cases "as \<le> LJ_MAX_ASIZE")
    case False
    then show ?thesis using rh D(1) by (simp add: resize_with_def grow_array_def)
  next
    case as: True
    have e1: "length (filter (\<lambda>j. j < as) ?e) = (if in_size as ek then 1 else 0)"
      using arr_int_size [OF as, of ek] by (auto split: option.splits)
    have tot: "?tot = hash_need t as + (if in_size as ek then 0 else 1)"
      using na e1 live_idx_drop [of "tarray t" as] hash_ints_split [OF as, of "tnode t"]
      by (simp add: hash_need_def)
    have cap: "?tot \<le> (if hsize2hbits ?tot = 0 then 0 else 2 ^ hsize2hbits ?tot)" by (rule hsize2hbits_enough)
    then have need: "hash_need t as \<le> (if hsize2hbits ?tot = 0 then 0 else 2 ^ hsize2hbits ?tot)" using tot by linarith
    consider "rehash_with (newkey_with nk) t ek = Inl ErrTABOV" |
      t' where "rehash_with (newkey_with nk) t ek = Inr t'" "tab_ok t'" "asize t' = as"
       "length (tnode t') = 2 ^ hsize2hbits ?tot" "metatable t' = metatable t"
       "\<forall>k. key_ok k \<longrightarrow> tget t' k = tget t k" "card (keyed (tnode t')) \<le> hash_need t as"
      using resize_spec [OF t need, of nk] rh by auto
    then show ?thesis
    proof cases
      case 2
      have "capacity t' = (if hsize2hbits ?tot = 0 then 0 else 2 ^ hsize2hbits ?tot)"
        using 2(4) by (simp add: capacity_def)
      then have "\<not> in_size as ek \<Longrightarrow> room t'" using 2(7) cap tot by (simp add: room_def)
      then have "in_arr t' ek \<or> room t'" using in_arr_size [of t' ek] 2(3) as k by auto
      then show ?thesis using 2 by blast
    qed simp
  qed
qed

section \<open>The setters\<close>

lemma newkey_spec:
  assumes t: "tab_ok t" and k: "key_ok key" and new: "\<forall>y < length (tnode t). nkey (tnode t ! y) \<noteq> key"
    and int: "\<forall>i. int_key key = Some i \<longrightarrow> \<not> inarray t i"
  shows "newkey_with (newkey_with nk) t key = Inl ErrTABOV \<or>
    (\<exists>t' s. newkey_with (newkey_with nk) t key = Inr (t', s) \<and> tab_ok t' \<and> slot_for t' s key \<and>
       metatable t' = metatable t \<and> (\<forall>k. key_ok k \<longrightarrow> tget t' k = tget t k))"
proof (cases "(tvisnil (nval (tnode t ! hashkey t key)) \<and> hmask t \<noteq> 0) \<or> free_search (tnode t) (freetop t) \<noteq> None")
  case True
  then show ?thesis using newkey_direct [OF t k new _ True, of "newkey_with nk"] int by (auto simp: same_table_def)
next
  case False
  then have nk: "newkey_with (newkey_with nk) t key =
      (case rehash_with (newkey_with nk) t key of Inl e \<Rightarrow> Inl e | Inr t \<Rightarrow> set_with (newkey_with nk) t key)"
    by (auto simp: newkey_with_def Let_def)
  consider "rehash_with (newkey_with nk) t key = Inl ErrTABOV" |
    t1 where "rehash_with (newkey_with nk) t key = Inr t1" "tab_ok t1" "metatable t1 = metatable t"
      "\<forall>k. key_ok k \<longrightarrow> tget t1 k = tget t k" "in_arr t1 key \<or> room t1"
    using rehash_spec [OF t k, of nk] by blast
  then show ?thesis
  proof cases
    case 2
    then show ?thesis using set_room [OF 2(2) k 2(5), of nk] nk by (auto simp: set_done_def same_table_def)
  qed (use nk in simp)
qed

lemma set_spec:
  assumes t: "tab_ok t" and v: "valid_key key"
  shows "lj_tab_set t key = Inl ErrTABOV \<or>
    (\<exists>t' s. lj_tab_set t key = Inr (t', s) \<and> tab_ok t' \<and> slot_for t' s (norm_key key) \<and>
       metatable t' = metatable t \<and> (\<forall>k. key_ok k \<longrightarrow> tget t' k = tget t k))"
proof -
  let ?k = "norm_key key" and ?nk = "newkey_with (newkey_with (lj_tab_newkey 0))"
  have k: "key_ok ?k" by (rule valid_norm [OF v])
  have d: "lj_tab_newkey 2 = ?nk" by (simp add: numeral_2_eq_2)
  have s: "lj_tab_set t key = set_with ?nk t ?k" using set_with_norm [OF v] by (simp add: lj_tab_set_def d)
  consider s where "set_with ?nk t ?k = Inr (t\<lparr>nomm := 0\<rparr>, s)" "slot_for t s ?k"
    | "set_with ?nk t ?k = ?nk (t\<lparr>nomm := 0\<rparr>) ?k" "\<forall>y < length (tnode t). nkey (tnode t ! y) \<noteq> ?k"
      "\<forall>i. int_key ?k = Some i \<longrightarrow> \<not> inarray t i"
    using set_with_cases [OF t k] by blast
  then show ?thesis
  proof cases
    case 1
    then show ?thesis using t s by (auto simp: nomm_cong)
  next
    case 2
    then show ?thesis
      using newkey_spec [of "t\<lparr>nomm := 0\<rparr>" ?k "lj_tab_newkey 0"] t k s by (simp add: nomm_cong)
  qed
qed

end
