(* ===== verification/Lj_Tab_Props.thy ===== *)
theory Lj_Tab_Props
  imports Lj_Tab_Set
begin

text \<open>
  The properties of tables (\<open>src/src/lj_tab.c\<close>): a table is a finite map, creation, duplication and clearing,
  traversal by \<open>lj_tab_next\<close> and the boundary computed by \<open>lj_tab_len\<close>. The locale \<open>key_store\<close> is the contract the
  clients of a table use, interpreted on the model of the table.
\<close>

section \<open>Setting and getting\<close>

definition tab_put :: "gctab \<Rightarrow> tvalue \<Rightarrow> tvalue \<Rightarrow> tab_error + gctab" where
  "tab_put t key v =
     (case lj_tab_set t key of Inl e \<Rightarrow> Inl e | Inr (t', s) \<Rightarrow> Inr (tab_store t' s v))"

lemma tab_put_spec:
  assumes t: "tab_ok t" and v: "valid_key key" and p: "tab_put t key x = Inr t'"
  shows "tab_ok t' \<and> metatable t' = metatable t \<and>
    (\<forall>q. valid_key q \<longrightarrow> lj_tab_get t' q = (if lj_obj_equal q key then x else lj_tab_get t q))"
proof -
  obtain t1 s where s: "lj_tab_set t key = Inr (t1, s)" "t' = tab_store t1 s x"
    using p by (auto simp: tab_put_def split: sum.splits)
  then have S: "tab_ok t1" "slot_for t1 s (norm_key key)" "metatable t1 = metatable t"
    "\<forall>k. key_ok k \<longrightarrow> tget t1 k = tget t k"
    using set_spec [OF t v] by auto
  note P = store_spec [OF S(1) valid_norm [OF v] S(2), of x]
  have "lj_tab_get t' q = (if lj_obj_equal q key then x else lj_tab_get t q)" if q: "valid_key q" for q
  proof -
    have "norm_key q = norm_key key \<longleftrightarrow> lj_obj_equal q key"
      using q v by (intro norm_key_eq) (auto simp: valid_key_def)
    then show ?thesis
      using P S(4) valid_norm [OF q] lj_tab_get_spec [OF t q] lj_tab_get_spec [of t' q] q s(2) by simp
  qed
  then show ?thesis using P S(3) s(2) by simp
qed

lemma tab_put_total:
  assumes "tab_ok t" "valid_key key"
  shows "tab_put t key x = Inl ErrTABOV \<or> (\<exists>t'. tab_put t key x = Inr t')"
  using set_spec [OF assms] by (auto simp: tab_put_def)

text \<open>
  C1: a table is a finite map. For a table that satisfies its invariant and a key that is neither nil
  nor NaN, \<open>lj_tab_set\<close> either reports a table overflow or returns the slot of the key: after a store
  through that slot the invariant holds again, \<open>lj_tab_get\<close> returns the stored value for every key
  \<open>lj_obj_equal\<close> to the key and the old value for every other key. This includes chain insertion,
  eviction of a colliding node and a rehash, which never nests a second one.
\<close>

theorem lj_tab_set_get:
  assumes "tab_ok t" and "valid_key key"
  shows "lj_tab_set t key = Inl ErrTABOV \<or>
    (\<exists>t' s. lj_tab_set t key = Inr (t', s) \<and>
      (\<forall>v. tab_ok (tab_store t' s v) \<and>
        (\<forall>q. valid_key q \<longrightarrow> lj_tab_get (tab_store t' s v) q = (if lj_obj_equal q key then v else lj_tab_get t q))))"
proof (cases "lj_tab_set t key")
  case (Inl e)
  then show ?thesis using set_spec [OF assms] by auto
next
  case (Inr r)
  then obtain t' s where r: "lj_tab_set t key = Inr (t', s)" by (cases r) auto
  have "tab_put t key v = Inr (tab_store t' s v)" for v using r by (simp add: tab_put_def)
  then show ?thesis using tab_put_spec [OF assms] r by blast
qed

section \<open>Creation, duplication, clearing\<close>

lemma newtab_ok:
  assumes "newtab as hbits = Inr t"
  shows "tab_ok t \<and> (\<forall>q. lj_tab_get t q = TNil) \<and> asize t = as \<and> metatable t = None"
proof -
  have as: "as \<le> LJ_MAX_ASIZE" and hb: "hbits \<le> LJ_MAX_HBITS"
    using assms by (auto simp: newtab_def newhpart_def Let_def LJ_MAX_COLOSIZE_def LJ_MAX_ASIZE_def LJ_MAX_ABITS_def LJ_MAX_HBITS_def split: if_splits)
  have f: "tarray t = replicate as TNil" "tnode t = replicate (2 ^ hbits) nilnode" "freetop t = (if hbits = 0 then 0 else 2 ^ hbits)"
    "metatable t = None"
    using assms by (auto simp: newtab_def newhpart_def Let_def split: if_splits)
  have ok: "tab_ok t" using f as hb by (intro tab_ok_empty [of _ hbits]) auto
  have "lj_tab_get t q = TNil" if v: "valid_key q" for q
  proof -
    have k: "key_ok (norm_key q)" by (rule valid_norm [OF v])
    have "inarray t i \<Longrightarrow> int32 i \<Longrightarrow> tarray t ! nat i = TNil" for i
      using inarray_iff [of t i] f(1) as by simp
    then have "tget t (norm_key q) = TNil"
      using tget_empty [OF f(2) k] int_key_Some [OF k] by (auto split: option.splits)
    then show ?thesis using lj_tab_get_spec [OF ok v] by simp
  qed
  moreover have "lj_tab_get t q = TNil" if "\<not> valid_key q" for q
  proof (cases q)
    case (TNum n)
    then have nan: "num_nan n" using that by (simp add: valid_key_def)
    have "chain_find t (\<lambda>k. lj_obj_equal k q) h = None" for h
    proof (cases "chain_find t (\<lambda>k. lj_obj_equal k q) h")
      case (Some x)
      have "find_node P ns fuel y = Some z \<Longrightarrow> P (nkey (ns ! z))" for P ns fuel y z
        by (induction P ns fuel y rule: find_node.induct) (auto split: if_splits option.splits)
      then have "lj_obj_equal (nkey (tnode t ! x)) q" using Some by (auto simp: chain_find_def)
      then show ?thesis using TNum nan by (cases "nkey (tnode t ! x)") (auto simp: num_eq_def lj_obj_equal_def)
    qed simp
    then show ?thesis using TNum nan by (simp add: lj_tab_get_def genlookup_def or_nil_def num_eq_def)
  qed (use that in \<open>auto simp: valid_key_def lj_tab_get_def\<close>)
  ultimately show ?thesis using ok f by auto
qed

lemma view_cong:
  assumes "tarray t = tarray kt" "tnode t = tnode kt"
  shows "lj_tab_get t q = lj_tab_get kt q"
proof -
  have h: "hashmask t = hashmask kt" by (rule ext) (simp add: hashmask_def hmask_def assms)
  have h2: "hashkey t = hashkey kt" by (rule hashkey_cong) (simp add: assms)
  have h3: "hashstr t = hashstr kt" "hashnum t = hashnum kt" by (rule ext, simp add: hashstr_def hashnum_def h)+
  have c: "chain_find t = chain_find kt" by (simp add: chain_find_def fun_eq_iff assms)
  have v: "nodeval t = nodeval kt" by (rule ext) (simp add: nodeval_def assms)
  have a: "inarray t = inarray kt" "arrayslot t = arrayslot kt"
    by (rule ext, simp add: inarray_def arrayslot_def assms)+
  have g: "lj_tab_getinth t = lj_tab_getinth kt" by (rule ext) (simp add: lj_tab_getinth_def Let_def c v h3)
  then have g2: "lj_tab_getint t = lj_tab_getint kt" by (simp add: fun_eq_iff lj_tab_getint_def a)
  have g3: "lj_tab_getstr t = lj_tab_getstr kt" "genlookup t = genlookup kt"
    by (rule ext, simp add: lj_tab_getstr_def genlookup_def c v h2 h3)+
  show ?thesis unfolding lj_tab_get_def g2 g3 ..
qed

lemma lj_tab_dup_ok:
  assumes t: "tab_ok kt" and d: "lj_tab_dup kt = Inr t"
  shows "tab_ok t \<and> (\<forall>q. lj_tab_get t q = lj_tab_get kt q) \<and> metatable t = None"
proof -
  note D = tab_okD [OF t]
  have n: "tarray t = tarray kt" "metatable t = None"
    using d by (auto simp: lj_tab_dup_def Let_def newtab_def newhpart_def split: sum.splits if_splits)
  have "tnode t = tnode kt \<and> freetop t = freetop kt"
  proof (cases "hmask kt > 0")
    case True
    then show ?thesis using d by (auto simp: lj_tab_dup_def Let_def split: sum.splits)
  next
    case False
    then have "length (tnode kt) = 1" using hashkey_less [OF t, of TNil] unfolding hmask_def by linarith
    then have "tnode kt = [nilnode] \<and> freetop kt = 0" using D(4) by blast
    then show ?thesis using d False
      by (auto simp: lj_tab_dup_def Let_def newtab_def split: sum.splits if_splits)
  qed
  then have f: "tnode t = tnode kt" "freetop t = freetop kt" by simp_all
  have hk: "hashkey t = hashkey kt" by (rule hashkey_cong) (simp add: f)
  have arr: "inarray t i = inarray kt i" for i by (simp add: inarray_def n)
  have ok: "tab_ok t" using t unfolding tab_ok_def hk arr f n by simp
  show ?thesis using ok n view_cong [OF n(1) f(1)] by simp
qed


definition tab1 :: gctab where
  "tab1 = \<lparr>nomm = - 1, colo = 0, tarray = [], metatable = None, tnode = [nilnode, nilnode], freetop = 2\<rparr>"

lemma tab1_new: "lj_tab_new 0 1 = Inr tab1"
  by (simp add: lj_tab_new_def newtab_def newhpart_def tab1_def LJ_MAX_HBITS_def LJ_MAX_COLOSIZE_def numeral_2_eq_2)


lemma lj_tab_set_get_witness:
  "\<exists>t' s. lj_tab_set tab1 TTrue = Inr (t', s) \<and> lj_tab_get (tab_store t' s TFalse) TTrue = TFalse"
proof -
  have ok: "tab_ok tab1" using newtab_ok tab1_new unfolding lj_tab_new_def by blast
  have e: "lj_tab_set tab1 TTrue \<noteq> Inl ErrTABOV"
    by (simp add: lj_tab_set_def numeral_2_eq_2 set_with_def setgen_with_def chain_find_def tab1_def hashkey_def
      hashmask_def hmask_def nilnode_def newkey_with_def tvisnil_def)
  show ?thesis using lj_tab_set_get [OF ok, of TTrue] e by (auto simp: valid_key_def lj_obj_equal_def)
qed

text \<open>
  C26: \<open>lj_tab_clear\<close> keeps the sizes of both parts and makes every lookup return nil.
\<close>

theorem lj_tab_clear_empty:
  assumes "tab_ok t"
  shows "tab_ok (lj_tab_clear t) \<and> (\<forall>q. valid_key q \<longrightarrow> lj_tab_get (lj_tab_clear t) q = TNil) \<and>
    asize (lj_tab_clear t) = asize t \<and> hmask (lj_tab_clear t) = hmask t"
proof -
  note D = tab_okD [OF assms]
  let ?t = "lj_tab_clear t"
  obtain b where b: "b \<le> LJ_MAX_HBITS" "length (tnode t) = 2 ^ b" using D(2) by blast
  have len: "0 < length (tnode t)" using b by simp
  have f: "tarray ?t = replicate (asize t) TNil" "tnode ?t = replicate (2 ^ b) nilnode" "freetop ?t = (if b = 0 then 0 else 2 ^ b)"
  proof -
    show "tarray ?t = replicate (asize t) TNil" by (simp add: lj_tab_clear_def Let_def)
    have "tnode ?t = replicate (2 ^ b) nilnode \<and> freetop ?t = (if b = 0 then 0 else 2 ^ b)"
    proof (cases "hmask t > 0")
      case True
      then have "b \<noteq> 0" "hmask t + 1 = 2 ^ b" using b(2) len by (cases "b = 0"; simp add: hmask_def)+
      then show ?thesis using True b(2) by (simp add: lj_tab_clear_def Let_def hmask_def)
    next
      case False
      then have l: "length (tnode t) = 1" using len unfolding hmask_def by linarith
      then have "b = 0" using b(2) by simp
      then show ?thesis using False D(4) [OF l] by (simp add: lj_tab_clear_def Let_def hmask_def)
    qed
    then show "tnode ?t = replicate (2 ^ b) nilnode" "freetop ?t = (if b = 0 then 0 else 2 ^ b)" by blast+
  qed
  have ok: "tab_ok ?t" using f b D(1) by (intro tab_ok_empty [of _ b]) auto
  have "lj_tab_get ?t q = TNil" if v: "valid_key q" for q
  proof -
    have k: "key_ok (norm_key q)" by (rule valid_norm [OF v])
    have "inarray ?t i \<Longrightarrow> int32 i \<Longrightarrow> tarray ?t ! nat i = TNil" for i
      using inarray_iff [of ?t i] f(1) D(1) by simp
    then have "tget ?t (norm_key q) = TNil"
      using tget_empty [OF f(2) k] int_key_Some [OF k] by (auto split: option.splits)
    then show ?thesis using lj_tab_get_spec [OF ok v] by simp
  qed
  then show ?thesis using ok f b by (simp add: hmask_def)
qed

lemma lj_tab_clear_empty_witness: "lj_tab_get (lj_tab_clear tab1) (TStr [97]) = TNil"
proof -
  have "tab_ok tab1" using newtab_ok tab1_new unfolding lj_tab_new_def by blast
  then show ?thesis using lj_tab_clear_empty [of tab1] by (simp add: valid_key_def)
qed

section \<open>Traversal\<close>

definition slot_at :: "gctab \<Rightarrow> nat \<Rightarrow> tvalue \<times> tvalue" where
  "slot_at t i =
     (if i < asize t then (TNum (num_of_int (int i)), tarray t ! i)
      else (nkey (tnode t ! (i - asize t)), nval (tnode t ! (i - asize t))))"

definition nslots :: "gctab \<Rightarrow> nat" where "nslots t = asize t + length (tnode t)"

definition live_from :: "gctab \<Rightarrow> nat \<Rightarrow> nat list" where
  "live_from t i = filter (\<lambda>j. snd (slot_at t j) \<noteq> TNil) [i..<nslots t]"

text \<open>The live entries of a table, array part first.\<close>

definition entries :: "gctab \<Rightarrow> (tvalue \<times> tvalue) list" where
  "entries t = map (slot_at t) (live_from t 0)"

lemma live_from_Cons:
  "i < nslots t \<Longrightarrow> live_from t i = (if snd (slot_at t i) \<noteq> TNil then i # live_from t (Suc i) else live_from t (Suc i))"
  by (simp add: live_from_def upt_conv_Cons)

lemma live_from_end: "nslots t \<le> i \<Longrightarrow> live_from t i = []"
  by (simp add: live_from_def)

definition first_slot :: "gctab \<Rightarrow> nat list \<Rightarrow> (tvalue \<times> tvalue) option" where
  "first_slot t is = (case is of [] \<Rightarrow> None | j # _ \<Rightarrow> Some (slot_at t j))"

lemma next_hash_eq: "asize t \<le> i \<Longrightarrow> next_hash (tnode t) (i - asize t) = first_slot t (live_from t i)"
proof (induction "nslots t - i" arbitrary: i)
  case 0
  then have "\<not> i - asize t < length (tnode t)" "nslots t \<le> i" by (auto simp: nslots_def)
  then show ?case by (subst next_hash.simps) (simp add: live_from_end first_slot_def)
next
  case (Suc n)
  then have i: "i < nslots t" "i - asize t < length (tnode t)" by (auto simp: nslots_def)
  have "Suc (i - asize t) = Suc i - asize t" using Suc.prems by simp
  then have "next_hash (tnode t) (Suc (i - asize t)) = first_slot t (live_from t (Suc i))"
    using Suc.hyps(1) [of "Suc i"] Suc.hyps(2) Suc.prems by simp
  then show ?case using i Suc.prems
    by (subst next_hash.simps) (auto simp: live_from_Cons first_slot_def slot_at_def tvisnil_def)
qed

lemma next_slot_eq:
  "(case next_array (tarray t) i of Some kv \<Rightarrow> Some kv | None \<Rightarrow> next_hash (tnode t) (i - asize t))
     = first_slot t (live_from t i)"
proof (induction "asize t - i" arbitrary: i)
  case 0
  then have "next_array (tarray t) i = None" by (subst next_array.simps) simp
  then show ?case using 0 next_hash_eq [of t i] by simp
next
  case (Suc n)
  then have i: "i < asize t" "i < nslots t" by (auto simp: nslots_def)
  show ?case
  proof (cases "tarray t ! i = TNil")
    case True
    have a: "next_array (tarray t) i = next_array (tarray t) (Suc i)"
      using i True by (subst next_array.simps) (simp add: tvisnil_def)
    have l: "live_from t i = live_from t (Suc i)" using live_from_Cons [OF i(2)] i True by (simp add: slot_at_def)
    have z: "Suc i - asize t = i - asize t" using i by simp
    show ?thesis using Suc.hyps(1) [of "Suc i"] Suc.hyps(2) unfolding a l z by simp
  next
    case False
    then have "next_array (tarray t) i = Some (slot_at t i)"
      using i by (subst next_array.simps) (simp add: tvisnil_def slot_at_def)
    then show ?thesis using live_from_Cons [OF i(2)] i False by (simp add: first_slot_def slot_at_def)
  qed
qed

lemma nslots_less: "tab_ok t \<Longrightarrow> nslots t < 2 ^ 28"
proof -
  assume t: "tab_ok t"
  obtain b where b: "b \<le> LJ_MAX_HBITS" "length (tnode t) = 2 ^ b" using tab_okD(2) [OF t] by blast
  have "(2 :: nat) ^ b \<le> 2 ^ 26" using b(1) by (intro power_increasing) (simp_all add: LJ_MAX_HBITS_def)
  then show ?thesis using b tab_okD(1) [OF t] by (simp add: nslots_def LJ_MAX_ASIZE_def LJ_MAX_ABITS_def)
qed

lemma slot_key_ok:
  assumes t: "tab_ok t" and i: "i < nslots t" "snd (slot_at t i) \<noteq> TNil"
  shows "key_ok (fst (slot_at t i))"
proof (cases "i < asize t")
  case True
  have "int32 (int i)" using True tab_okD(1) [OF t] LJ_MAX_ASIZE_less by (simp add: int32_def)
  then show ?thesis using True int_key_ok by (simp add: slot_at_def)
next
  case False
  then have x: "i - asize t < length (tnode t)" using i by (simp add: nslots_def)
  then have "nkey (tnode t ! (i - asize t)) \<noteq> TNil"
    using hash_okD(3) [OF tab_okD(3) [OF t] x] i False by (auto simp: slot_at_def)
  then show ?thesis using hash_okD(4) [OF tab_okD(3) [OF t] x] False by (simp add: slot_at_def)
qed

lemma keyindex_slot:
  assumes t: "tab_ok t" and i: "i < nslots t" "snd (slot_at t i) \<noteq> TNil"
  shows "keyindex t (fst (slot_at t i)) = Inr i"
proof (cases "i < asize t")
  case True
  have i32: "int32 (int i)" using True tab_okD(1) [OF t] LJ_MAX_ASIZE_less by (simp add: int32_def)
  moreover have "int i mod 2 ^ 32 = int i"
    using nslots_less [OF t] i by (intro mod_pos_pos_trivial) auto
  ultimately show ?thesis using True by (simp add: slot_at_def keyindex_def Let_def)
next
  case False
  let ?x = "i - asize t"
  let ?k = "nkey (tnode t ! ?x)"
  have x: "?x < length (tnode t)" using i False by (simp add: nslots_def)
  have k: "key_ok ?k" using slot_key_ok [OF t i] False by (simp add: slot_at_def)
  have P: "lj_obj_equal k' ?k \<longleftrightarrow> k' = ?k" if "key_ok k' \<or> k' = TNil" for k' using obj_equal_ok [OF k that] .
  note C = chain_find_spec [OF t k P refl]
  obtain y where y: "chain_find t (\<lambda>k'. lj_obj_equal k' ?k) (hashkey t ?k) = Some y"
    using C(2) [OF _] x by (cases "chain_find t (\<lambda>k'. lj_obj_equal k' ?k) (hashkey t ?k)") blast+
  have "y = ?x" using C(1) [OF _ y] hash_okD(6) [OF tab_okD(3) [OF t], of y ?x] x k by simp
  then have h: "keyindex_hash t ?k = Inr i" using y False by (simp add: keyindex_hash_def)
  have "keyindex t ?k = keyindex_hash t ?k"
  proof (cases ?k)
    case (TNum n)
    have "\<not> (nat (lj_num2int n mod 2 ^ 32) < asize t \<and> num_eq n (num_of_int (lj_num2int n)))"
      using tab_okD(7) [OF t x, of "lj_num2int n"] TNum by (auto simp: int_key_def inarray_def)
    then show ?thesis using TNum by (auto simp: keyindex_def Let_def)
  qed (use k in \<open>simp_all add: keyindex_def key_ok_def\<close>)
  then show ?thesis using h False by (simp add: slot_at_def)
qed

lemma live_from_nth:
  "m < length (live_from t i) \<Longrightarrow> live_from t (Suc (live_from t i ! m)) = drop (Suc m) (live_from t i)"
proof (induction "nslots t - i" arbitrary: i m)
  case 0
  then show ?case by (simp add: live_from_end)
next
  case (Suc n)
  then have i: "i < nslots t" by simp
  show ?case
  proof (cases "snd (slot_at t i) \<noteq> TNil")
    case True
    then have l: "live_from t i = i # live_from t (Suc i)" using live_from_Cons [OF i] by simp
    show ?thesis using Suc.hyps(1) [of "Suc i"] Suc.hyps(2) Suc.prems unfolding l by (cases m) simp_all
  next
    case False
    then have l: "live_from t i = live_from t (Suc i)" using live_from_Cons [OF i] by simp
    show ?thesis using Suc.hyps(1) [of "Suc i"] Suc.hyps(2) Suc.prems unfolding l by simp
  qed
qed

lemma tab_next_slot:
  assumes t: "tab_ok t" and i: "i < nslots t" "snd (slot_at t i) \<noteq> TNil"
  shows "lj_tab_next t (fst (slot_at t i)) = Inr (first_slot t (live_from t (Suc i)))"
proof -
  have "(i + 1) mod 2 ^ 32 = Suc i" using nslots_less [OF t] i by simp
  then show ?thesis using keyindex_slot [OF t i] next_slot_eq [of t "Suc i"] by (simp add: lj_tab_next_def)
qed

lemma first_slot_nth: "first_slot t (drop m is) = (if m < length is then Some (slot_at t (is ! m)) else None)"
  by (cases "m < length is") (simp_all add: first_slot_def Cons_nth_drop_Suc [symmetric])

lemma live_from_mem: "j \<in> set (live_from t 0) \<longleftrightarrow> j < nslots t \<and> snd (slot_at t j) \<noteq> TNil"
  by (auto simp: live_from_def)

lemma slot_inj:
  assumes t: "tab_ok t" and i: "i \<in> set (live_from t 0)" and j: "j \<in> set (live_from t 0)"
    and e: "fst (slot_at t i) = fst (slot_at t j)"
  shows "i = j"
proof -
  have "(Inr i :: tab_error + nat) = Inr j"
    using keyindex_slot [OF t, of i] keyindex_slot [OF t, of j] i j unfolding live_from_mem e by simp
  then show ?thesis by simp
qed

lemma entries_get:
  assumes t: "tab_ok t" and k: "key_ok k"
  shows "(k, v) \<in> set (entries t) \<longleftrightarrow> v \<noteq> TNil \<and> lj_tab_get t k = v"
proof -
  note D = tab_okD [OF t]
  have g: "lj_tab_get t k = tget t k" using lj_tab_get_spec [OF t key_ok_valid [OF k]] k by simp
  have slot: "tget t (fst (slot_at t j)) = snd (slot_at t j)" if j: "j < nslots t" "key_ok (fst (slot_at t j))" for j
  proof (cases "j < asize t")
    case True
    have j32: "int32 (int j)" using True D(1) LJ_MAX_ASIZE_less by (simp add: int32_def)
    then have "inarray t (int j)" using inarray_iff [OF D(1)] True by simp
    then show ?thesis using True int_key_num_of_int [OF j32] by (simp add: slot_at_def tget_def)
  next
    case False
    let ?x = "j - asize t"
    have x: "?x < length (tnode t)" using j False by (simp add: nslots_def)
    have kx: "nkey (tnode t ! ?x) \<noteq> TNil" using j False by (auto simp: slot_at_def)
    have "hget (tnode t) (nkey (tnode t ! ?x)) = nval (tnode t ! ?x)" by (rule hget_present [OF D(3) x refl kx])
    then show ?thesis
      using D(7) [OF x] False by (cases "int_key (nkey (tnode t ! ?x))") (simp_all add: slot_at_def tget_def)
  qed
  show ?thesis
  proof
    assume "(k, v) \<in> set (entries t)"
    then obtain j where j: "j < nslots t" "snd (slot_at t j) \<noteq> TNil" "(k, v) = slot_at t j"
      by (auto simp: entries_def live_from_mem)
    then show "v \<noteq> TNil \<and> lj_tab_get t k = v" using slot [of j] k g by (metis fst_conv snd_conv)
  next
    assume v: "v \<noteq> TNil \<and> lj_tab_get t k = v"
    have "\<exists>j < nslots t. fst (slot_at t j) = k"
    proof (cases "in_arr t k")
      case True
      then obtain i where i: "int_key k = Some i" "inarray t i" by (auto simp: in_arr_def split: option.splits)
      note I = int_key_Some [OF k i(1)]
      have "0 \<le> i \<and> nat i < asize t" using inarray_iff [OF D(1)] I i(2) by blast
      then show ?thesis using I by (intro exI [of _ "nat i"]) (auto simp: slot_at_def nslots_def)
    next
      case False
      then have "tget t k = hget (tnode t) k" by (auto simp: tget_def in_arr_def split: option.splits)
      then obtain x where "x < length (tnode t)" "nkey (tnode t ! x) = k"
        using v g hget_absent [of "tnode t" k] by metis
      then show ?thesis by (intro exI [of _ "asize t + x"]) (auto simp: slot_at_def nslots_def)
    qed
    then obtain j where j: "j < nslots t" "fst (slot_at t j) = k" by blast
    then have "snd (slot_at t j) = v" using slot [of j] k v g by simp
    then have "slot_at t j = (k, v)" using j(2) by (cases "slot_at t j") simp
    then show "(k, v) \<in> set (entries t)" using j v by (auto simp: entries_def live_from_mem intro!: image_eqI [of _ _ j])
  qed
qed

text \<open>
  C11: iterating \<open>lj_tab_next\<close> from nil visits every entry with a non-nil value exactly once and then
  ends. The entries it visits have distinct keys and are the pairs that \<open>lj_tab_get\<close> finds.
\<close>

theorem lj_tab_next_visits_all:
  assumes "tab_ok t"
  shows "lj_tab_next t TNil = Inr (if entries t = [] then None else Some (entries t ! 0)) \<and>
    (\<forall>m < length (entries t). lj_tab_next t (fst (entries t ! m)) =
       Inr (if Suc m < length (entries t) then Some (entries t ! Suc m) else None)) \<and>
    distinct (map fst (entries t)) \<and>
    (\<forall>k v. key_ok k \<longrightarrow> (k, v) \<in> set (entries t) \<longleftrightarrow> v \<noteq> TNil \<and> lj_tab_get t k = v)"
proof (intro conjI allI impI)
  have "lj_tab_next t TNil = Inr (first_slot t (drop 0 (live_from t 0)))"
    using next_slot_eq [of t 0] by (simp add: lj_tab_next_def keyindex_def)
  then show "lj_tab_next t TNil = Inr (if entries t = [] then None else Some (entries t ! 0))"
    unfolding first_slot_nth by (simp add: entries_def)
  fix m assume "m < length (entries t)"
  then have m: "m < length (live_from t 0)" by (simp add: entries_def)
  let ?j = "live_from t 0 ! m"
  have "?j < nslots t" "snd (slot_at t ?j) \<noteq> TNil" using nth_mem [OF m] by (simp_all add: live_from_mem)
  then have "lj_tab_next t (fst (slot_at t ?j)) = Inr (first_slot t (drop (Suc m) (live_from t 0)))"
    using tab_next_slot [OF assms] live_from_nth [OF m] by simp
  then show "lj_tab_next t (fst (entries t ! m)) =
      Inr (if Suc m < length (entries t) then Some (entries t ! Suc m) else None)"
    unfolding first_slot_nth using m by (simp add: entries_def)
next
  have "distinct (live_from t 0)" by (simp add: live_from_def)
  then show "distinct (map fst (entries t))"
    using slot_inj [OF assms] by (auto simp: entries_def distinct_map inj_on_def)
next
  fix k v assume "key_ok k"
  then show "(k, v) \<in> set (entries t) \<longleftrightarrow> v \<noteq> TNil \<and> lj_tab_get t k = v" by (rule entries_get [OF assms])
qed

lemma tab1_ok: "tab_ok tab1"
  using newtab_ok tab1_new unfolding lj_tab_new_def by blast

lemma lj_tab_next_visits_all_witness: "lj_tab_next tab1 TNil = Inr None"
proof -
  have "entries tab1 = []"
    by (simp add: entries_def live_from_def nslots_def slot_at_def tab1_def nilnode_def filter_empty_conv less_Suc_eq)
  then show ?thesis using lj_tab_next_visits_all [OF tab1_ok] by simp
qed

section \<open>Length\<close>

definition ival :: "gctab \<Rightarrow> nat \<Rightarrow> tvalue" where
  "ival t j = lj_tab_get t (TNum (num_of_int (int j)))"

lemma ival_tget: "tab_ok t \<Longrightarrow> j < 2 ^ 31 \<Longrightarrow> ival t j = tget t (TNum (num_of_int (int j)))"
proof -
  assume t: "tab_ok t" and "j < 2 ^ 31"
  then have "key_ok (TNum (num_of_int (int j)))" by (intro int_key_ok) (simp add: int32_def)
  then show ?thesis using lj_tab_get_spec [OF t key_ok_valid] by (simp add: ival_def)
qed

lemma present_ival: "tab_ok t \<Longrightarrow> j < 2 ^ 31 \<Longrightarrow> present t j \<longleftrightarrow> ival t j \<noteq> TNil"
proof -
  assume t: "tab_ok t" and j: "j < 2 ^ 31"
  have s: "sint (of_nat j :: u32) = int j"
    using j by (simp add: signed_of_nat signed_take_bit_int_eq_self)
  have i: "int32 (int j)" using j by (simp add: int32_def)
  show ?thesis using getint_tget [OF t i] ival_tget [OF t j] unfolding present_def s or_nil_def tvisnil_def
    by (auto split: option.splits)
qed

lemma ival_array: "tab_ok t \<Longrightarrow> j < asize t \<Longrightarrow> ival t j = tarray t ! j"
proof -
  assume t: "tab_ok t" and j: "j < asize t"
  have j31: "j < 2 ^ 31" and i: "int32 (int j)"
    using j tab_okD(1) [OF t] LJ_MAX_ASIZE_less by (simp_all add: int32_def)
  have "inarray t (int j)" using inarray_iff [OF tab_okD(1) [OF t] i] j by simp
  then show ?thesis using ival_tget [OF t j31] int_key_num_of_int [OF i] by (simp add: tget_def)
qed

lemma bin_search_spec:
  "i < j \<Longrightarrow> \<not> P j \<Longrightarrow> i \<le> bin_search P i j \<and> bin_search P i j < j \<and>
    (bin_search P i j = i \<or> P (bin_search P i j)) \<and> \<not> P (Suc (bin_search P i j))"
proof (induction P i j rule: bin_search.induct)
  case (1 P i j)
  show ?case
  proof (cases "j - i > 1")
    case False
    then have "bin_search P i j = i" "Suc i = j" using "1.prems" by (subst bin_search.simps, simp, linarith)
    then show ?thesis using "1.prems" by simp
  next
    case True
    let ?m = "(i + j) div 2"
    have m: "i < ?m" "?m < j" using True by linarith+
    show ?thesis
    proof (cases "P ?m")
      case P: True
      have "bin_search P i j = bin_search P ?m j" using True P by (subst bin_search.simps) (simp add: Let_def)
      then show ?thesis using "1.IH"(1) [OF True refl P m(2) "1.prems"(2)] m P by auto
    next
      case P: False
      have "bin_search P i j = bin_search P i ?m" using True P by (subst bin_search.simps) (simp add: Let_def)
      then show ?thesis using "1.IH"(2) [OF True refl P m(1) P] m by auto
    qed
  qed
qed

text \<open>A table has fewer entries than integers below \<open>2 ^ 31\<close>, so that the linear search ends.\<close>

lemma absent_index:
  assumes t: "tab_ok t"
  shows "\<exists>m. 1 \<le> m \<and> m \<le> Suc (nslots t) \<and> \<not> present t m"
proof (rule ccontr)
  assume none: "\<not> (\<exists>m. 1 \<le> m \<and> m \<le> Suc (nslots t) \<and> \<not> present t m)"
  have all: "present t m" if "1 \<le> m" "m \<le> Suc (nslots t)" for m using none that by blast
  let ?key = "\<lambda>m. TNum (num_of_int (int m))"
  have i32: "int32 (int m)" if "m \<le> Suc (nslots t)" for m
    using that nslots_less [OF t] by (simp add: int32_def)
  have "?key ` {1..Suc (nslots t)} \<subseteq> fst ` set (entries t)"
  proof
    fix k assume "k \<in> ?key ` {1..Suc (nslots t)}"
    then obtain m where m: "1 \<le> m" "m \<le> Suc (nslots t)" "k = ?key m" by auto
    have "ival t m \<noteq> TNil" using all m present_ival [OF t, of m] nslots_less [OF t] by simp
    then have "(k, ival t m) \<in> set (entries t)"
      using entries_get [OF t, of k] int_key_ok [OF i32] m by (simp add: ival_def)
    then show "k \<in> fst ` set (entries t)" by force
  qed
  then have "card (?key ` {1..Suc (nslots t)}) \<le> card (fst ` set (entries t))" by (intro card_mono) auto
  also have "\<dots> \<le> card (set (entries t))" by (rule card_image_le) simp
  also have "\<dots> \<le> length (entries t)" by (rule card_length)
  also have "\<dots> \<le> nslots t" by (simp add: entries_def live_from_def) (metis diff_zero length_filter_le length_upt)
  finally have c: "card (?key ` {1..Suc (nslots t)}) \<le> nslots t" .
  have "inj_on ?key {1..Suc (nslots t)}"
    using num_of_int_inject i32 by (auto simp: inj_on_def)
  then have "card (?key ` {1..Suc (nslots t)}) = Suc (nslots t)" by (simp add: card_image)
  then show False using c by simp
qed

lemma linear_search_spec:
  assumes "i \<le> m" "\<not> present t m" "1 \<le> i" "i = 1 \<or> present t (i - 1)"
  shows "\<exists>n. linear_search t i = Some n \<and> n < m \<and> (n = 0 \<or> present t n) \<and> \<not> present t (Suc n)"
  using assms
proof (induction "m - i" arbitrary: i)
  case 0
  then show ?case by (subst linear_search.simps) auto
next
  case (Suc d)
  show ?case
  proof (cases "present t i")
    case True
    then have "i < m" using Suc.prems by (cases "i = m") auto
    then show ?thesis using Suc.hyps(1) [of "Suc i"] Suc.hyps(2) Suc.prems True
      by (subst linear_search.simps) simp
  next
    case False
    then show ?thesis using Suc.prems by (subst linear_search.simps) auto
  qed
qed

lemma unbound_loop_spec:
  assumes "tab_ok t" "i < j" "i = 0 \<or> present t i" "j \<le> 2 ^ 31 - 3"
  shows "\<exists>n. unbound_loop t i j = Some n \<and> n < 2 ^ 31 - 1 \<and> (n = 0 \<or> present t n) \<and> \<not> present t (Suc n)"
  using assms
proof (induction t i j rule: unbound_loop.induct)
  case (1 t i j)
  show ?case
  proof (cases "present t j")
    case p: True
    show ?thesis
    proof (cases "2 * j > 2 ^ 31 - 3 \<or> j = 0")
      case True
      obtain m where m: "1 \<le> m" "m \<le> Suc (nslots t)" "\<not> present t m" using absent_index [OF "1.prems"(1)] by blast
      have "nslots t < 2 ^ 28" by (rule nslots_less [OF "1.prems"(1)])
      then have m31: "m < 2 ^ 31 - 1" using m(2) by simp
      have "unbound_loop t i j = linear_search t 1" using p True by (subst unbound_loop.simps) simp
      then show ?thesis using linear_search_spec [OF m(1,3)] m31 by (auto intro: less_trans)
    next
      case False
      then have "unbound_loop t i j = unbound_loop t j (2 * j)" using p by (subst unbound_loop.simps) simp
      then show ?thesis using "1.IH" [OF p False "1.prems"(1)] False p by auto
    qed
  next
    case False
    have "unbound_loop t i j = Some (bin_search (present t) i j)" using False by (subst unbound_loop.simps) simp
    then show ?thesis using bin_search_spec [of i j "present t"] False "1.prems" by auto
  qed
qed

text \<open>
  C12: \<open>lj_tab_len\<close> always returns, and what it returns is a boundary of the table: the value at index
  \<open>n\<close> is not nil unless \<open>n = 0\<close>, and the value at \<open>n + 1\<close> is nil.
\<close>

theorem lj_tab_len_boundary:
  assumes "tab_ok t"
  shows "\<exists>n. lj_tab_len t = Some n \<and> (n = 0 \<or> ival t n \<noteq> TNil) \<and> ival t (n + 1) = TNil"
proof -
  note D = tab_okD [OF assms]
  have as: "asize t < 2 ^ 28" using D(1) by (simp add: LJ_MAX_ASIZE_def LJ_MAX_ABITS_def)
  let ?P = "\<lambda>m. \<not> tvisnil (arrayslot t (int m - 1))"
  have slot: "arrayslot t (int m - 1) = ival t (m - 1)" if "1 \<le> m" "m \<le> asize t" for m
    using that ival_array [OF assms, of "m - 1"] by (simp add: arrayslot_def nat_diff_distrib)
  show ?thesis
  proof (cases "asize t > 1 \<and> tvisnil (arrayslot t (int (asize t) - 1))")
    case True
    let ?r = "bin_search ?P 1 (asize t)"
    have r: "1 \<le> ?r" "?r < asize t" "?r = 1 \<or> ?P ?r" "\<not> ?P (Suc ?r)"
      using bin_search_spec [of 1 "asize t" ?P] True by auto
    then show ?thesis
      using True slot [of ?r] slot [of "Suc ?r"] by (auto simp: lj_tab_len_def tvisnil_def Let_def)
  next
    case False
    let ?j = "if asize t \<noteq> 0 then asize t - 1 else asize t"
    have pj: "?j = 0 \<or> ival t ?j \<noteq> TNil" using False slot [of "asize t"] by (auto simp: tvisnil_def)
    show ?thesis
    proof (cases "hmask t \<le> 0")
      case True
      then have "length (tnode t) = 1" using hashkey_less [OF assms, of TNil] unfolding hmask_def by linarith
      then have n: "tnode t = [nilnode]" using D(4) by simp
      have k: "int32 (int (?j + 1))" and j31: "?j + 1 < 2 ^ 31" using as by (auto simp: int32_def)
      have "ival t (?j + 1) = tget t (TNum (num_of_int (int (?j + 1))))" by (rule ival_tget [OF assms j31])
      also have "\<dots> = TNil"
      proof -
        have "\<not> inarray t (int (?j + 1))" using inarray_iff [OF D(1) k] by auto
        moreover have "hget (tnode t) (TNum (num_of_int (int (?j + 1)))) = TNil"
          by (rule hget_absent) (simp add: n nilnode_def)
        ultimately show ?thesis using int_key_num_of_int [OF k] by (simp add: tget_def)
      qed
      finally have "ival t (?j + 1) = TNil" .
      moreover have "lj_tab_len t = Some ?j" using False True by (auto simp: lj_tab_len_def Let_def)
      ultimately show ?thesis using pj by blast
    next
      case h: False
      have pj': "?j = 0 \<or> present t ?j" using pj present_ival [OF assms, of ?j] as by auto
      have "?j < ?j + 1" "?j + 1 \<le> 2 ^ 31 - 3" using as by auto
      then obtain n where n: "unbound_loop t ?j (?j + 1) = Some n" "n < 2 ^ 31 - 1" "n = 0 \<or> present t n" "\<not> present t (Suc n)"
        using unbound_loop_spec [OF assms _ pj', of "?j + 1"] by blast
      have "lj_tab_len t = Some n" using False h n(1) by (auto simp: lj_tab_len_def Let_def unbound_search_def)
      moreover have "n = 0 \<or> ival t n \<noteq> TNil" using n(2,3) present_ival [OF assms, of n] by simp
      moreover have "ival t (n + 1) = TNil" using n(2,4) present_ival [OF assms, of "Suc n"] by simp
      ultimately show ?thesis by blast
    qed
  qed
qed

lemma lj_tab_len_boundary_witness: "\<exists>n. lj_tab_len tab1 = Some n \<and> ival tab1 (n + 1) = TNil"
  using lj_tab_len_boundary [OF tab1_ok] by blast

section \<open>The table as a store\<close>

text \<open>
  What a client of a table relies on, whatever the table is made of: a put that succeeds keeps the
  invariant, and a get returns the last value put under an equal key.
\<close>

locale key_store =
  fixes ok :: "'t \<Rightarrow> bool" and valid :: "'k \<Rightarrow> bool" and eqk :: "'k \<Rightarrow> 'k \<Rightarrow> bool"
    and look :: "'t \<Rightarrow> 'k \<Rightarrow> 'v" and put :: "'t \<Rightarrow> 'k \<Rightarrow> 'v \<Rightarrow> 'e + 't"
  assumes put_ok: "ok t \<Longrightarrow> valid k \<Longrightarrow> put t k v = Inr t' \<Longrightarrow> ok t'"
    and put_look: "ok t \<Longrightarrow> valid k \<Longrightarrow> put t k v = Inr t' \<Longrightarrow> valid q \<Longrightarrow>
      look t' q = (if eqk q k then v else look t q)"
begin

fun puts :: "'t \<Rightarrow> ('k \<times> 'v) list \<Rightarrow> 'e + 't" where
  "puts t [] = Inr t"
| "puts t ((k, v) # kvs) = (case put t k v of Inl e \<Rightarrow> Inl e | Inr t' \<Rightarrow> puts t' kvs)"

lemma puts_look:
  "ok t \<Longrightarrow> \<forall>(k, v) \<in> set kvs. valid k \<Longrightarrow> puts t kvs = Inr t' \<Longrightarrow>
    ok t' \<and> (\<forall>q. valid q \<longrightarrow> look t' q = (case find (\<lambda>(k, v). eqk q k) (rev kvs) of Some (k, v) \<Rightarrow> v | None \<Rightarrow> look t q))"
proof (induction kvs arbitrary: t)
  case (Cons kv kvs)
  obtain k v where kv: "kv = (k, v)" by (cases kv)
  obtain t1 where t1: "put t k v = Inr t1" "puts t1 kvs = Inr t'"
    using Cons.prems(3) kv by (auto split: sum.splits)
  have k: "valid k" using Cons.prems(2) kv by simp
  have f: "find P (xs @ [y]) = (case find P xs of Some x \<Rightarrow> Some x | None \<Rightarrow> if P y then Some y else None)" for P :: "'k \<times> 'v \<Rightarrow> bool" and xs y
    by (induction xs) auto
  have "ok t1" using put_ok [OF Cons.prems(1) k t1(1)] .
  then have "ok t' \<and> (\<forall>q. valid q \<longrightarrow> look t' q = (case find (\<lambda>(k, v). eqk q k) (rev kvs) of Some (k, v) \<Rightarrow> v | None \<Rightarrow> look t1 q))"
    using Cons.IH t1(2) Cons.prems(2) by simp
  then show ?case
    using put_look [OF Cons.prems(1) k t1(1)] unfolding kv by (auto simp: f split: option.splits)
qed simp

end

interpretation tab: key_store tab_ok valid_key lj_obj_equal lj_tab_get tab_put
  by unfold_locales (use tab_put_spec in blast)+

end
