(* ===== verification/Lj_Str_Table.thy ===== *)
theory Lj_Str_Table
  imports Lj_Str "HOL-Library.Multiset"
begin

text \<open>
  The string interning table (\<open>src/src/lj_str.c\<close>: \<open>lj_str_resize\<close>, \<open>lj_str_new\<close>, \<open>lj_str_free\<close>). A string
  object is a record whose \<open>addr\<close> is its identity (the pointer); a hash chain is the list of objects
  linked through \<open>nextgc\<close>, head first.
\<close>

section \<open>Interning table\<close>

definition LJ_GC_WHITE0 :: byte where "LJ_GC_WHITE0 = 0x01"
definition LJ_GC_WHITE1 :: byte where "LJ_GC_WHITE1 = 0x02"
definition LJ_GC_WHITES :: byte where "LJ_GC_WHITES = LJ_GC_WHITE0 OR LJ_GC_WHITE1"

record gcstr =
  addr :: nat
  sdata :: bytes
  shash :: u32
  smarked :: byte

record strtab =
  strhash :: "gcstr list list"
  strnum :: nat
  currentwhite :: byte
  sweepstring :: bool
  strempty :: gcstr
  next_addr :: nat

datatype str_error = ErrSTROV

definition strmask :: "strtab \<Rightarrow> nat" where
  "strmask g = length (strhash g) - 1"

definition isdead :: "strtab \<Rightarrow> gcstr \<Rightarrow> bool" where
  "isdead g s \<longleftrightarrow> smarked s AND (currentwhite g XOR LJ_GC_WHITES) AND LJ_GC_WHITES \<noteq> 0"

definition flipwhite :: "gcstr \<Rightarrow> gcstr" where
  "flipwhite s = s\<lparr>smarked := smarked s XOR LJ_GC_WHITES\<rparr>"

definition LJ_MAX_STRTAB :: nat where "LJ_MAX_STRTAB = 2 ^ 26"

definition chain_index :: "u32 \<Rightarrow> nat \<Rightarrow> nat" where
  "chain_index h m = unat (h AND of_nat m)"

text \<open>
  \<open>lj_str_resize\<close>: old chains are walked from the last slot down to slot 0 and every string is
  put in front of its new chain.
\<close>

fun rehash_chain :: "nat \<Rightarrow> gcstr list \<Rightarrow> gcstr list list \<Rightarrow> gcstr list list" where
  "rehash_chain newmask [] nh = nh"
| "rehash_chain newmask (s # ss) nh =
     (let h = chain_index (shash s) newmask in
      rehash_chain newmask ss (nh[h := s # nh ! h]))"

definition lj_str_resize :: "strtab \<Rightarrow> nat \<Rightarrow> strtab" where
  "lj_str_resize g newmask =
     (if sweepstring g \<or> newmask \<ge> LJ_MAX_STRTAB - 1 then g
      else g\<lparr>strhash :=
        foldl (\<lambda>nh c. rehash_chain newmask c nh) (replicate (newmask + 1) []) (rev (strhash g))\<rparr>)"

text \<open>The chain walk: the first object of equal length and content, resurrected if it is dead.\<close>

fun chain_lookup :: "strtab \<Rightarrow> bytes \<Rightarrow> gcstr list \<Rightarrow> (gcstr \<times> gcstr list) option" where
  "chain_lookup g str [] = None"
| "chain_lookup g str (s # ss) =
     (if length (sdata s) = length str \<and> sdata s = str then
        (let s' = if isdead g s then flipwhite s else s in Some (s', s' # ss))
      else
        case chain_lookup g str ss of
          None \<Rightarrow> None
        | Some (r, ss') \<Rightarrow> Some (r, s # ss'))"

definition lj_str_new :: "strtab \<Rightarrow> bytes \<Rightarrow> str_error + (gcstr \<times> strtab)" where
  "lj_str_new g str =
     (if length str \<ge> LJ_MAX_STR then Inl ErrSTROV
      else if str = [] then Inr (strempty g, g)
      else
        let h = str_hash str; i = chain_index h (strmask g) in
        case chain_lookup g str (strhash g ! i) of
          Some (s, c) \<Rightarrow> Inr (s, g\<lparr>strhash := (strhash g)[i := c]\<rparr>)
        | None \<Rightarrow>
            let s = \<lparr>addr = next_addr g, sdata = str, shash = h,
                     smarked = currentwhite g AND LJ_GC_WHITES\<rparr>;
                g' = g\<lparr>strhash := (strhash g)[i := s # strhash g ! i],
                       strnum := strnum g + 1, next_addr := next_addr g + 1\<rparr>
            in Inr (s, if strnum g > strmask g then lj_str_resize g' (strmask g * 2 + 1) else g'))"

text \<open>\<open>lj_str_free\<close> of a string the sweep has unlinked.\<close>

definition lj_str_free :: "strtab \<Rightarrow> strtab" where
  "lj_str_free g = g\<lparr>strnum := strnum g - 1\<rparr>"

section \<open>Interning invariant\<close>

definition objs :: "strtab \<Rightarrow> gcstr list" where
  "objs g = concat (strhash g)"

definition placed :: "nat \<Rightarrow> gcstr list list \<Rightarrow> bool" where
  "placed m nh \<longleftrightarrow> (\<forall>i < length nh. \<forall>s \<in> set (nh ! i).
     shash s = str_hash (sdata s) \<and> chain_index (str_hash (sdata s)) m = i)"

definition str_inv :: "strtab \<Rightarrow> bool" where
  "str_inv g \<longleftrightarrow>
     (\<exists>k \<le> 26. length (strhash g) = 2 ^ k) \<and>
     placed (strmask g) (strhash g) \<and>
     distinct (map sdata (objs g)) \<and> distinct (map addr (objs g)) \<and>
     (\<forall>s \<in> set (objs g). addr s < next_addr g \<and> sdata s \<noteq> [] \<and> addr s \<noteq> addr (strempty g)) \<and>
     sdata (strempty g) = [] \<and> addr (strempty g) < next_addr g \<and>
     strnum g = length (objs g)"

lemma chain_index_less:
  assumes "k \<le> 26"
  shows "chain_index h (2 ^ k - 1) < 2 ^ k"
proof -
  have "(of_nat (2 ^ k - 1) :: u32) = mask k"
    by (simp add: mask_eq_exp_minus_1 of_nat_diff)
  then have "h AND of_nat (2 ^ k - 1) = take_bit k h" by (simp add: take_bit_eq_mask)
  then show ?thesis
    by (simp add: chain_index_def unsigned_take_bit_eq)
qed

lemma mset_rehash_chain:
  assumes "\<And>s. s \<in> set c \<Longrightarrow> chain_index (shash s) m < length nh"
  shows "mset (concat (rehash_chain m c nh)) = mset c + mset (concat nh)
    \<and> length (rehash_chain m c nh) = length nh"
  using assms
proof (induction c arbitrary: nh)
  case (Cons s c)
  let ?h = "chain_index (shash s) m"
  have h: "?h < length nh" using Cons.prems by simp
  have "mset (concat (nh[?h := s # nh ! ?h])) = {#s#} + mset (concat nh)"
    using h by (subst (2) id_take_nth_drop [OF h]) (simp add: upd_conv_take_nth_drop)
  then show ?case using Cons by (simp add: Let_def)
qed simp

lemma placed_rehash_chain:
  assumes "placed m nh" and "\<And>s. s \<in> set c \<Longrightarrow> shash s = str_hash (sdata s)"
  shows "placed m (rehash_chain m c nh)"
  using assms
proof (induction c arbitrary: nh)
  case (Cons s c)
  have "placed m (nh[chain_index (shash s) m := s # nh ! chain_index (shash s) m])"
    unfolding placed_def
  proof (intro allI impI ballI)
    let ?h = "chain_index (shash s) m"
    fix i x
    assume i: "i < length (nh[?h := s # nh ! ?h])" and x: "x \<in> set (nh[?h := s # nh ! ?h] ! i)"
    then have "x \<in> set (nh ! i) \<or> (x = s \<and> i = ?h)" by (cases "i = ?h") auto
    then show "shash x = str_hash (sdata x) \<and> chain_index (str_hash (sdata x)) m = i"
      using i Cons.prems by (auto simp: placed_def)
  qed
  then show ?case using Cons by (simp add: Let_def)
qed simp

lemma rehash_all:
  assumes "placed m nh"
    and "\<And>s. s \<in> set (concat cs) \<Longrightarrow> shash s = str_hash (sdata s) \<and> chain_index (str_hash (sdata s)) m < length nh"
  shows "placed m (foldl (\<lambda>nh c. rehash_chain m c nh) nh cs)
    \<and> mset (concat (foldl (\<lambda>nh c. rehash_chain m c nh) nh cs)) = mset (concat cs) + mset (concat nh)
    \<and> length (foldl (\<lambda>nh c. rehash_chain m c nh) nh cs) = length nh"
  using assms
proof (induction cs arbitrary: nh)
  case (Cons c cs)
  have "mset (concat (rehash_chain m c nh)) = mset c + mset (concat nh) \<and> length (rehash_chain m c nh) = length nh"
    using Cons.prems(2) by (intro mset_rehash_chain) force
  moreover have "placed m (rehash_chain m c nh)" using Cons.prems by (intro placed_rehash_chain) simp_all
  ultimately show ?case using Cons.IH [of "rehash_chain m c nh"] Cons.prems by simp
qed simp

lemma mset_concat_rev: "mset (concat (rev xs)) = mset (concat xs)"
  by (induction xs) simp_all

lemma str_resize_inv:
  assumes g: "str_inv g" and m: "newmask = 2 ^ k - 1" "k \<le> 26"
  shows "str_inv (lj_str_resize g newmask) \<and> mset (objs (lj_str_resize g newmask)) = mset (objs g)"
proof (cases "sweepstring g \<or> newmask \<ge> LJ_MAX_STRTAB - 1")
  case True
  then show ?thesis using g by (simp add: lj_str_resize_def)
next
  case False
  let ?nh = "foldl (\<lambda>nh c. rehash_chain newmask c nh) (replicate (newmask + 1) []) (rev (strhash g))"
  have len: "newmask + 1 = 2 ^ k" using m by simp
  have "placed newmask ?nh \<and> mset (concat ?nh) = mset (concat (rev (strhash g))) + mset (concat (replicate (newmask + 1) ([] :: gcstr list)))
      \<and> length ?nh = length (replicate (newmask + 1) ([] :: gcstr list))"
  proof (rule rehash_all)
    show "placed newmask (replicate (newmask + 1) [])" by (simp add: placed_def del: replicate_Suc)
    fix s assume "s \<in> set (concat (rev (strhash g)))"
    then obtain c where "c \<in> set (strhash g)" and s: "s \<in> set c" by auto
    then obtain i where "i < length (strhash g)" "s \<in> set (strhash g ! i)"
      using s by (auto simp: in_set_conv_nth [of c])
    then have "shash s = str_hash (sdata s)" using g by (auto simp: str_inv_def placed_def)
    then show "shash s = str_hash (sdata s) \<and> chain_index (str_hash (sdata s)) newmask < length (replicate (newmask + 1) ([] :: gcstr list))"
      using chain_index_less [OF m(2)] m(1) len by simp
  qed
  then have p: "placed newmask ?nh" "mset (concat ?nh) = mset (objs g)" "length ?nh = 2 ^ k"
    using len by (simp_all add: mset_concat_rev objs_def del: replicate_Suc)
  let ?g = "g\<lparr>strhash := ?nh\<rparr>"
  have o: "mset (objs ?g) = mset (objs g)" using p(2) by (simp add: objs_def)
  have "distinct (map sdata (objs ?g)) = distinct (map sdata (objs g))"
    by (rule mset_eq_imp_distinct_iff) (simp only: mset_map o)
  moreover have "distinct (map addr (objs ?g)) = distinct (map addr (objs g))"
    by (rule mset_eq_imp_distinct_iff) (simp only: mset_map o)
  moreover have "set (objs ?g) = set (objs g)" "length (objs ?g) = length (objs g)"
    using o mset_eq_setD mset_eq_length by blast+
  ultimately have "str_inv ?g"
    using g p m by (auto simp: str_inv_def strmask_def)
  then show ?thesis using False o by (simp add: lj_str_resize_def)
qed

lemma chain_lookup_Some:
  assumes "chain_lookup g str c = Some (r, c')"
  shows "sdata r = str \<and> map sdata c' = map sdata c \<and> map addr c' = map addr c
    \<and> map shash c' = map shash c \<and> length c' = length c \<and> r \<in> set c'"
  using assms
proof (induction c arbitrary: c')
  case (Cons s c)
  then show ?case
    by (auto simp: flipwhite_def Let_def split: if_splits option.splits)
qed simp

lemma chain_lookup_None: "chain_lookup g str c = None \<longleftrightarrow> str \<notin> sdata ` set c"
  by (induction c) (auto simp: Let_def split: option.splits)

lemma map_concat_update:
  assumes "i < length xs" and "map f ys = map f (xs ! i)"
  shows "map f (concat (xs[i := ys])) = map f (concat xs)"
  using assms
  by (induction xs arbitrary: i) (auto simp: nth_Cons split: nat.splits)

lemma placed_cong:
  assumes "placed m nh" and "i < length nh" and "map sdata c = map sdata (nh ! i)" and "map shash c = map shash (nh ! i)"
  shows "placed m (nh[i := c])"
  unfolding placed_def
proof (intro allI impI ballI)
  fix j x
  assume j: "j < length (nh[i := c])" and x: "x \<in> set (nh[i := c] ! j)"
  show "shash x = str_hash (sdata x) \<and> chain_index (str_hash (sdata x)) m = j"
  proof (cases "j = i")
    case True
    then obtain q where q: "q < length c" "x = c ! q" using x j by (auto simp: in_set_conv_nth)
    then have "q < length (nh ! i)" using assms(3) by (metis length_map)
    moreover have "sdata x = sdata (nh ! i ! q)" "shash x = shash (nh ! i ! q)"
      using q assms(3,4) \<open>q < length (nh ! i)\<close> by (metis nth_map)+
    ultimately show ?thesis using assms(1,2) True by (simp add: placed_def)
  next
    case False
    then show ?thesis using x j assms(1) by (simp add: placed_def)
  qed
qed

text \<open>Interning keeps the invariant and every object that was in the table.\<close>

lemma str_new_found:
  assumes g: "str_inv g" and i: "i < length (strhash g)"
    and c: "chain_lookup g str (strhash g ! i) = Some (s, c)"
  shows "str_inv (g\<lparr>strhash := (strhash g)[i := c]\<rparr>)
    \<and> map addr (objs (g\<lparr>strhash := (strhash g)[i := c]\<rparr>)) = map addr (objs g)
    \<and> map sdata (objs (g\<lparr>strhash := (strhash g)[i := c]\<rparr>)) = map sdata (objs g)
    \<and> s \<in> set (objs (g\<lparr>strhash := (strhash g)[i := c]\<rparr>))"
proof -
  let ?g = "g\<lparr>strhash := (strhash g)[i := c]\<rparr>"
  note l = chain_lookup_Some [OF c]
  have d: "map sdata (objs ?g) = map sdata (objs g)" and a: "map addr (objs ?g) = map addr (objs g)"
    unfolding objs_def using map_concat_update [OF i, of sdata c] map_concat_update [OF i, of addr c] l by auto
  have p: "placed (strmask ?g) (strhash ?g)"
    using g placed_cong [OF _ i, of "strmask g" c] l by (simp add: str_inv_def strmask_def)
  have s: "s \<in> set (objs ?g)"
    using i l by (auto simp: objs_def intro!: bexI [of _ c] set_update_memI)
  have all: "\<forall>x \<in> set (objs ?g). addr x < next_addr g \<and> sdata x \<noteq> [] \<and> addr x \<noteq> addr (strempty g)"
  proof
    fix x assume "x \<in> set (objs ?g)"
    then have "addr x \<in> set (map addr (objs g))" "sdata x \<in> set (map sdata (objs g))"
      using a d by (metis image_eqI set_map)+
    then show "addr x < next_addr g \<and> sdata x \<noteq> [] \<and> addr x \<noteq> addr (strempty g)"
      using g by (auto simp: str_inv_def)
  qed
  have "length (objs ?g) = length (objs g)" using a by (metis length_map)
  then have "str_inv ?g" using g p all a d by (simp add: str_inv_def strmask_def)
  then show ?thesis using a d s by blast
qed

lemma placed_not_elsewhere:
  assumes "placed m nh" and "str \<notin> sdata ` set (nh ! chain_index (str_hash str) m)"
  shows "str \<notin> sdata ` set (concat nh)"
proof
  assume "str \<in> sdata ` set (concat nh)"
  then obtain c x where c: "c \<in> set nh" and x: "x \<in> set c" "sdata x = str" by auto
  then obtain j where j: "j < length nh" "nh ! j = c" by (auto simp: in_set_conv_nth [of c])
  then have "chain_index (str_hash str) m = j" using assms(1) x unfolding placed_def by blast
  then show False using assms(2) j x by blast
qed

lemma str_new_added:
  assumes g: "str_inv g" and ne: "str \<noteq> []"
    and i: "i = chain_index (str_hash str) (strmask g)" "i < length (strhash g)"
    and c: "chain_lookup g str (strhash g ! i) = None"
    and s: "sdata s = str" "shash s = str_hash str" "addr s = next_addr g"
  defines "g' \<equiv> g\<lparr>strhash := (strhash g)[i := s # strhash g ! i],
                       strnum := strnum g + 1, next_addr := next_addr g + 1\<rparr>"
  shows "str_inv g' \<and> mset (objs g') = {#s#} + mset (objs g)"
proof -
  have new: "str \<notin> sdata ` set (objs g)"
    using g c i placed_not_elsewhere [of "strmask g" "strhash g" str]
    by (simp add: str_inv_def objs_def chain_lookup_None)
  have m: "mset (objs g') = {#s#} + mset (objs g)"
    unfolding objs_def g'_def using i(2)
    by (simp, subst (2) id_take_nth_drop [OF i(2)], simp add: upd_conv_take_nth_drop)
  have dd: "distinct (map sdata (objs g')) = distinct (map sdata (s # objs g))"
    by (rule mset_eq_imp_distinct_iff) (simp add: m)
  have da: "distinct (map addr (objs g')) = distinct (map addr (s # objs g))"
    by (rule mset_eq_imp_distinct_iff) (simp add: m)
  have st: "set (objs g') = insert s (set (objs g))" using m by (metis set_mset_mset set_mset_add_mset_insert add_mset_add_single union_commute)
  have len: "length (objs g') = Suc (length (objs g))" using m by (metis size_mset size_add_mset add_mset_add_single union_commute)
  have p: "placed (strmask g') (strhash g')"
    using g i s unfolding placed_def g'_def strmask_def str_inv_def
    by (auto simp: nth_list_update)
  have "next_addr g \<notin> addr ` set (objs g)" using g by (auto simp: str_inv_def)
  then show ?thesis using g p m dd da st len new s ne
    by (auto simp: str_inv_def g'_def strmask_def)
qed

lemma grow_inv:
  assumes "str_inv g"
  shows "str_inv (lj_str_resize g (strmask g * 2 + 1)) \<and> mset (objs (lj_str_resize g (strmask g * 2 + 1))) = mset (objs g)"
proof -
  obtain k where k: "k \<le> 26" "length (strhash g) = 2 ^ k" using assms by (auto simp: str_inv_def)
  have "(1 :: nat) \<le> 2 ^ k" by simp
  then have e: "strmask g * 2 + 1 = 2 ^ Suc k - 1"
    unfolding strmask_def k(2) power_Suc by linarith
  show ?thesis
  proof (cases "Suc k \<le> 26")
    case True
    then show ?thesis using str_resize_inv [OF assms e] by simp
  next
    case False
    then have "k = 26" using k by simp
    then have "strmask g * 2 + 1 \<ge> LJ_MAX_STRTAB - 1" using k e by (simp add: LJ_MAX_STRTAB_def)
    then show ?thesis using assms by (simp add: lj_str_resize_def)
  qed
qed

definition keeps :: "strtab \<Rightarrow> strtab \<Rightarrow> bool" where
  "keeps g g' \<longleftrightarrow> strempty g' = strempty g \<and>
     (\<forall>x \<in> set (objs g). \<exists>y \<in> set (objs g'). addr y = addr x \<and> sdata y = sdata x)"

lemma strempty_resize [simp]: "strempty (lj_str_resize g m) = strempty g"
  by (simp add: lj_str_resize_def)

lemma str_new_spec:
  assumes g: "str_inv g" and n: "lj_str_new g str = Inr (s, g')"
  shows "str_inv g' \<and> sdata s = str \<and> keeps g g'
    \<and> (if str = [] then s = strempty g' else s \<in> set (objs g'))"
proof (cases "str = []")
  case True
  then show ?thesis using assms by (auto simp: lj_str_new_def keeps_def str_inv_def split: if_splits)
next
  case False
  let ?i = "chain_index (str_hash str) (strmask g)"
  obtain k where k: "k \<le> 26" "length (strhash g) = 2 ^ k" using g by (auto simp: str_inv_def)
  have i: "?i < length (strhash g)" using chain_index_less [OF k(1)] k(2) by (simp add: strmask_def)
  show ?thesis
  proof (cases "chain_lookup g str (strhash g ! ?i)")
    case (Some r)
    then obtain o' c where r: "chain_lookup g str (strhash g ! ?i) = Some (o', c)" by (cases r) auto
    have eq: "s = o'" "g' = g\<lparr>strhash := (strhash g)[?i := c]\<rparr>"
      using n False r by (auto simp: lj_str_new_def Let_def split: if_splits)
    note f = str_new_found [OF g i r, folded eq]
    have "\<exists>y \<in> set (objs g'). addr y = addr x \<and> sdata y = sdata x" if x: "x \<in> set (objs g)" for x
    proof -
      obtain q where q: "q < length (objs g)" "x = objs g ! q" using x by (auto simp: in_set_conv_nth)
      then have q': "q < length (objs g')" using f by (metis length_map)
      have "addr (objs g' ! q) = addr x" "sdata (objs g' ! q) = sdata x"
        using f q q' by (metis nth_map)+
      then show ?thesis using q' nth_mem by blast
    qed
    then show ?thesis using f False eq chain_lookup_Some [OF r] by (auto simp: keeps_def)
  next
    case None
    let ?s = "\<lparr>addr = next_addr g, sdata = str, shash = str_hash str, smarked = currentwhite g AND LJ_GC_WHITES\<rparr>"
    let ?g = "g\<lparr>strhash := (strhash g)[?i := ?s # strhash g ! ?i], strnum := strnum g + 1, next_addr := next_addr g + 1\<rparr>"
    have eq: "s = ?s" "g' = (if strnum g > strmask g then lj_str_resize ?g (strmask g * 2 + 1) else ?g)"
      using n False None by (auto simp: lj_str_new_def Let_def split: if_splits)
    have a: "str_inv ?g \<and> mset (objs ?g) = {#?s#} + mset (objs g)"
      using str_new_added [OF g False refl i None, of ?s] by simp
    have "strmask ?g = strmask g" by (simp add: strmask_def)
    then have b: "str_inv g' \<and> mset (objs g') = {#?s#} + mset (objs g)"
      using a grow_inv [of ?g] eq(2) by (auto split: if_splits)
    then have "set (objs g') = insert ?s (set (objs g))"
      by (metis set_mset_mset set_mset_add_mset_insert add_mset_add_single union_commute)
    moreover have "strempty g' = strempty g" using eq(2) by simp
    ultimately show ?thesis using b eq(1) False by (auto simp: keeps_def)
  qed
qed

text \<open>
  C6: interning gives every byte string one object: in a table that satisfies its invariant two
  calls of \<open>lj_str_new\<close> return objects with the requested contents, and the two pointers are equal
  exactly when the contents are. The invariant (every string in the chain of its hash, contents and
  addresses distinct, the count right) still holds, also when the table is rehashed.
\<close>

theorem lj_str_new_identity:
  assumes g: "str_inv g" and n1: "lj_str_new g a = Inr (s1, g1)" and n2: "lj_str_new g1 b = Inr (s2, g2)"
  shows "str_inv g2 \<and> sdata s1 = a \<and> sdata s2 = b \<and> (addr s1 = addr s2 \<longleftrightarrow> a = b)"
proof -
  note f1 = str_new_spec [OF g n1]
  then have g1: "str_inv g1" by blast
  note f2 = str_new_spec [OF g1 n2]
  have "\<exists>y. addr y = addr s1 \<and> sdata y = a \<and> (if a = [] then y = strempty g2 else y \<in> set (objs g2))"
    using f1 f2 by (cases "a = []") (force simp: keeps_def)+
  then obtain y where y: "addr y = addr s1" "sdata y = a" "if a = [] then y = strempty g2 else y \<in> set (objs g2)"
    by blast
  have inv: "str_inv g2" using f2 by blast
  have "addr y = addr s2 \<longleftrightarrow> a = b"
  proof (cases "a = [] \<or> b = []")
    case True
    then show ?thesis using y f2 inv by (auto simp: str_inv_def split: if_splits)
  next
    case False
    then have m: "y \<in> set (objs g2)" "s2 \<in> set (objs g2)" using y f2 by auto
    have "inj_on sdata (set (objs g2))" "inj_on addr (set (objs g2))" using inv by (auto simp: str_inv_def distinct_map)
    then show ?thesis using m y f2 by (metis inj_onD)
  qed
  then show ?thesis using y f1 f2 by simp
qed

lemma lj_str_new_ok:
  assumes "length str < LJ_MAX_STR"
  obtains s g' where "lj_str_new g str = Inr (s, g')"
proof -
  have "lj_str_new g str \<noteq> Inl ErrSTROV"
    using assms by (auto simp: lj_str_new_def Let_def split: option.splits)
  then show ?thesis using that by (cases "lj_str_new g str") (metis str_error.exhaust, force)
qed

definition strtab0 :: strtab where
  "strtab0 = \<lparr>strhash = [[]], strnum = 0, currentwhite = LJ_GC_WHITE0, sweepstring = False,
     strempty = \<lparr>addr = 0, sdata = [], shash = 0, smarked = 0\<rparr>, next_addr = 1\<rparr>"

lemma strtab0_inv: "str_inv strtab0"
  by (simp add: str_inv_def strtab0_def placed_def objs_def exI [of _ 0])

lemma lj_str_new_identity_witness:
  "\<exists>s1 g1 s2 g2. lj_str_new strtab0 [97] = Inr (s1, g1) \<and> lj_str_new g1 [98] = Inr (s2, g2)
     \<and> addr s1 \<noteq> addr s2"
proof -
  obtain s1 g1 where 1: "lj_str_new strtab0 [97] = Inr (s1, g1)"
    by (rule lj_str_new_ok [of "[97]"]) (auto simp: LJ_MAX_MEM32_def)
  obtain s2 g2 where 2: "lj_str_new g1 [98] = Inr (s2, g2)"
    by (rule lj_str_new_ok [of "[98]"]) (auto simp: LJ_MAX_MEM32_def)
  show ?thesis using lj_str_new_identity [OF strtab0_inv 1 2] 1 2 by auto
qed

end
