(* ===== verification/Lj_Carith.thy ===== *)
theory Lj_Carith
  imports Lj_Prelude "HOL-Library.Signed_Division"
begin

text \<open>
  Integer helpers of the FFI and of the JIT compiler: 64-bit shifts, division, modulo and power
  (\<open>src/src/lj_carith.c\<close>) and the 32-bit floored modulo (\<open>lj_vmmath.c\<close>). A signed C integer is a word
  read with \<open>sint\<close>; the C operators \<open>/\<close> and \<open>%\<close> on it are the truncating \<open>sdiv\<close> and \<open>smod\<close>.
\<close>

section \<open>Rotates at both widths\<close>

definition rol_w :: "'a::len word \<Rightarrow> nat \<Rightarrow> 'a word" where
  "rol_w x n = push_bit n x OR drop_bit ((LENGTH('a) - n) mod LENGTH('a)) x"

definition ror_w :: "'a::len word \<Rightarrow> nat \<Rightarrow> 'a word" where
  "ror_w x n = push_bit ((LENGTH('a) - n) mod LENGTH('a)) x OR drop_bit n x"

definition lj_bswap64 :: "u64 \<Rightarrow> u64" where
  "lj_bswap64 x = ucast (lj_bswap (ucast (drop_bit 32 x))) OR push_bit 32 (ucast (lj_bswap (ucast x)))"

section \<open>64-bit shifts\<close>

datatype shift_op = SHL | SHR | SAR | ROL | ROR

definition lj_carith_shl64 :: "u64 \<Rightarrow> u32 \<Rightarrow> u64" where
  "lj_carith_shl64 x sh = push_bit (unat (sh AND 63)) x"

definition lj_carith_shr64 :: "u64 \<Rightarrow> u32 \<Rightarrow> u64" where
  "lj_carith_shr64 x sh = drop_bit (unat (sh AND 63)) x"

definition lj_carith_sar64 :: "u64 \<Rightarrow> u32 \<Rightarrow> u64" where
  "lj_carith_sar64 x sh = signed_drop_bit (unat (sh AND 63)) x"

definition lj_carith_rol64 :: "u64 \<Rightarrow> u32 \<Rightarrow> u64" where
  "lj_carith_rol64 x sh = rol_w x (unat (sh AND 63))"

definition lj_carith_ror64 :: "u64 \<Rightarrow> u32 \<Rightarrow> u64" where
  "lj_carith_ror64 x sh = ror_w x (unat (sh AND 63))"

fun lj_carith_shift64 :: "u64 \<Rightarrow> u32 \<Rightarrow> shift_op \<Rightarrow> u64" where
  "lj_carith_shift64 x sh SHL = lj_carith_shl64 x sh"
| "lj_carith_shift64 x sh SHR = lj_carith_shr64 x sh"
| "lj_carith_shift64 x sh SAR = lj_carith_sar64 x sh"
| "lj_carith_shift64 x sh ROL = lj_carith_rol64 x sh"
| "lj_carith_shift64 x sh ROR = lj_carith_ror64 x sh"

section \<open>Division, modulo and power\<close>

definition lj_carith_divu64 :: "u64 \<Rightarrow> u64 \<Rightarrow> u64" where
  "lj_carith_divu64 a b = (if b = 0 then 0x8000000000000000 else a div b)"

definition lj_carith_divi64 :: "u64 \<Rightarrow> u64 \<Rightarrow> u64" where
  "lj_carith_divi64 a b =
     (if b = 0 \<or> (a = 0x8000000000000000 \<and> b = -1) then 0x8000000000000000
      else word_of_int (sint a sdiv sint b))"

definition lj_carith_modu64 :: "u64 \<Rightarrow> u64 \<Rightarrow> u64" where
  "lj_carith_modu64 a b = (if b = 0 then 0x8000000000000000 else a mod b)"

definition lj_carith_modi64 :: "u64 \<Rightarrow> u64 \<Rightarrow> u64" where
  "lj_carith_modi64 a b =
     (if b = 0 then 0x8000000000000000
      else if a = 0x8000000000000000 \<and> b = -1 then 0
      else word_of_int (sint a smod sint b))"

text \<open>The loops of \<open>lj_carith_powu64\<close>: strip the trailing zeros of \<open>k\<close>, then square and multiply.\<close>

fun pow_strip :: "u64 \<Rightarrow> nat \<Rightarrow> u64 \<times> nat" where
  "pow_strip x k = (if k = 0 \<or> odd k then (x, k) else pow_strip (x * x) (k div 2))"

fun pow_loop :: "u64 \<Rightarrow> u64 \<Rightarrow> nat \<Rightarrow> u64" where
  "pow_loop x y k =
     (let x = x * x in
      if k \<le> 1 then y * x
      else if odd k then pow_loop x (y * x) (k div 2) else pow_loop x y (k div 2))"

declare pow_strip.simps [simp del, loop_simps] pow_loop.simps [simp del, loop_simps]

definition lj_carith_powu64 :: "u64 \<Rightarrow> u64 \<Rightarrow> u64" where
  "lj_carith_powu64 x k =
     (if k = 0 then 1
      else let (x, k) = pow_strip x (unat k); y = x; k = k div 2 in
        if k \<noteq> 0 then pow_loop x y k else y)"

definition lj_carith_powi64 :: "u64 \<Rightarrow> u64 \<Rightarrow> u64" where
  "lj_carith_powi64 x k =
     (if k = 0 then 1
      else if sint k < 0 then
        if x = 0 then 0x7fffffffffffffff
        else if x = 1 then 1
        else if x = -1 then (if k AND 1 \<noteq> 0 then -1 else 1)
        else 0
      else lj_carith_powu64 x k)"

section \<open>The 32-bit modulo\<close>

definition lj_vm_modi :: "u32 \<Rightarrow> u32 \<Rightarrow> u32" where
  "lj_vm_modi a b =
     (let ua = (if sint a < 0 then - a else a); ub = (if sint b < 0 then - b else b);
          y = ua mod ub;
          y = (if y \<noteq> 0 \<and> sint (a XOR b) < 0 then y - ub else y);
          y = (if sint (y XOR b) < 0 then - y else y)
      in y)"

section \<open>Properties\<close>

lemma rol_w_eq: "n < LENGTH('a) \<Longrightarrow> rol_w (x :: 'a::len word) n = word_rotl n x"
proof (rule bit_word_eqI)
  fix i assume n: "n < LENGTH('a)" and i: "i < LENGTH('a)"
  show "bit (rol_w x n) i = bit (word_rotl n x) i"
  proof (cases "n = 0")
    case True then show ?thesis using i by (simp add: rol_w_def bit_word_rotl_iff bit_simps)
  next
    case False
    then have m: "(LENGTH('a) - n) mod LENGTH('a) = LENGTH('a) - n" using n by simp
    show ?thesis
    proof (cases "i < n")
      case True
      then show ?thesis using n i False
        by (auto simp: rol_w_def m bit_word_rotl_iff bit_simps ac_simps)
    next
      case F: False
      have "(i + (LENGTH('a) - n)) mod LENGTH('a) = (i - n + LENGTH('a)) mod LENGTH('a)"
        using F n by (intro arg_cong [where f = "\<lambda>x. x mod _"]) simp
      then have e: "(i + (LENGTH('a) - n)) mod LENGTH('a) = i - n" using i by simp
      have "\<not> bit x (LENGTH('a) - n + i)" using F n by (auto dest!: bit_imp_le_length)
      then show ?thesis using n i False F e
        by (auto simp: rol_w_def m bit_word_rotl_iff bit_simps ac_simps)
    qed
  qed
qed

lemma ror_w_eq: "n < LENGTH('a) \<Longrightarrow> ror_w (x :: 'a::len word) n = word_rotr n x"
proof -
  assume n: "n < LENGTH('a)"
  show ?thesis
  proof (cases "n = 0")
    case False
    then have "ror_w x n = rol_w x (LENGTH('a) - n)"
      using n by (simp add: ror_w_def rol_w_def or.commute)
    also have "\<dots> = word_rotl (LENGTH('a) - n) x" using False n by (intro rol_w_eq) simp
    also have "\<dots> = word_rotr n x"
      using False n by (simp add: word_rotl_eq_word_rotr)
    finally show ?thesis .
  qed (rule bit_word_eqI, simp add: ror_w_def bit_word_rotr_iff)
qed

lemma pow_strip_spec:
  "0 < k \<Longrightarrow> pow_strip x k = (x', k') \<Longrightarrow> odd k' \<and> x' ^ k' = x ^ k"
proof (induction x k rule: pow_strip.induct)
  case (1 x k)
  show ?case
  proof (cases "odd k")
    case True
    then show ?thesis using 1(3) by (subst (asm) pow_strip.simps) simp
  next
    case False
    then have k: "0 < k div 2" "k = 2 * (k div 2)" using \<open>0 < k\<close> by auto
    have "pow_strip (x * x) (k div 2) = (x', k')" using 1(3) False \<open>0 < k\<close> by (subst (asm) pow_strip.simps) simp
    then have "odd k' \<and> x' ^ k' = (x * x) ^ (k div 2)" using 1(1) False k(1) \<open>0 < k\<close> by simp
    moreover have "(x * x) ^ (k div 2) = x ^ k" by (subst (2) k(2)) (simp add: power_mult power2_eq_square)
    ultimately show ?thesis by simp
  qed
qed

lemma pow_loop_spec: "0 < k \<Longrightarrow> pow_loop x y k = y * x ^ (2 * k)"
proof (induction x y k rule: pow_loop.induct)
  case (1 x y k)
  show ?case
  proof (cases "k \<le> 1")
    case True
    then show ?thesis using 1(3) by (subst pow_loop.simps) (simp add: power2_eq_square Let_def le_Suc_eq)
  next
    case False
    then have k: "0 < k div 2" by simp
    have e: "(x * x) ^ (2 * (k div 2)) = x ^ (2 * (2 * (k div 2)))"
      by (simp add: power_mult_distrib flip: power_add mult_2)
    show ?thesis
    proof (cases "odd k")
      case True
      then have "2 * k = 2 + 2 * (2 * (k div 2))" by presburger
      then have "x ^ (2 * k) = (x * x) * x ^ (2 * (2 * (k div 2)))" by (simp add: power_add power2_eq_square)
      then show ?thesis using True False k 1(1) [OF refl] e by (subst pow_loop.simps) (simp add: Let_def ac_simps)
    next
      case even: False
      then have "2 * k = 2 * (2 * (k div 2))" by presburger
      then show ?thesis using even False k 1(2) [OF refl] e by (subst pow_loop.simps) (auto simp: Let_def)
    qed
  qed
qed

text \<open>
  C39: the square-and-multiply loops of \<open>lj_carith_powu64\<close> compute the power modulo \<open>2 ^ 64\<close>, and
  \<open>lj_carith_powi64\<close> does so for every exponent that is not negative; for a negative exponent it is the
  truncated quotient of 1 and the power (the largest integer for a zero base).
\<close>

theorem lj_carith_pow:
  "lj_carith_powu64 x k = x ^ unat k \<and>
   lj_carith_powi64 x k =
     (if 0 \<le> sint k then x ^ unat k
      else if x = 0 then 0x7fffffffffffffff
      else if x = 1 \<or> x = -1 then x ^ unat k else 0)"
proof -
  have u: "lj_carith_powu64 x k = x ^ unat k" for k
  proof (cases "k = 0")
    case False
    then have k: "0 < unat k" by (simp add: unat_gt_0)
    obtain x' k' where s: "pow_strip x (unat k) = (x', k')" by (cases "pow_strip x (unat k)")
    note p = pow_strip_spec [OF k s]
    have "k' = 1 + 2 * (k' div 2)" using conjunct1 [OF p] by presburger
    then have "x' ^ k' = x' * x' ^ (2 * (k' div 2))" by (metis power_add power_one_right)
    then show ?thesis using False s p pow_loop_spec [of "k' div 2" x' x']
      by (auto simp: lj_carith_powu64_def Let_def)
  qed (simp add: lj_carith_powu64_def)
  have "k AND 1 \<noteq> 0 \<longleftrightarrow> odd (unat k)"
    using bit_unsigned_iff [of k 0, where 'a = nat] by (simp add: and_one_eq bit_0 odd_iff_mod_2_eq_one)
  then show ?thesis using u by (auto simp: lj_carith_powi64_def minus_one_power_iff)
qed

lemma sint_u32_range: "- (2 ^ 31) \<le> sint (a :: u32)" "sint (a :: u32) < 2 ^ 31"
  using sint_range_size [of a] by (simp_all add: word_size)

lemma sint_u32_of_int: "- (2 ^ 31) \<le> i \<Longrightarrow> i < 2 ^ 31 \<Longrightarrow> sint (word_of_int i :: u32) = i"
  by (simp add: signed_of_int signed_take_bit_int_eq_self)

lemma uint_abs: "uint (if sint a < 0 then - a else a) = \<bar>sint a\<bar>" for a :: u32
proof -
  have "(if sint a < 0 then - a else a) = word_of_int \<bar>sint a\<bar>" by simp
  moreover have "uint (word_of_int \<bar>sint a\<bar> :: u32) = \<bar>sint a\<bar>"
    using sint_u32_range [of a] by (simp add: unsigned_of_int take_bit_int_eq_self)
  ultimately show ?thesis by simp
qed

lemma sint_xor_neg: "sint (a XOR b) < 0 \<longleftrightarrow> (sint a < 0) \<noteq> (sint b < 0)" for a b :: u32
  using bit_last_iff [of a] bit_last_iff [of b] bit_last_iff [of "a XOR b"] by (simp add: bit_xor_iff)

lemma modi_floor:
  assumes "b \<noteq> 0"
  shows "sint (lj_vm_modi a b) = sint a mod sint b"
proof -
  let ?ua = "if sint a < 0 then - a else a" and ?ub = "if sint b < 0 then - b else b"
  have "b = 0" if "sint b = 0"
    proof -
    have "word_of_int (sint b) = b" by simp
    then show ?thesis using that by simp
  qed
  then have b: "sint b \<noteq> 0" using assms by blast
  define Y where "Y = \<bar>sint a\<bar> mod \<bar>sint b\<bar>"
  have Y: "0 \<le> Y" "Y < \<bar>sint b\<bar>" "\<bar>sint b\<bar> \<le> 2 ^ 31"
    using b sint_u32_range [of b] by (simp_all add: Y_def)
  have "uint (?ua mod ?ub) = Y" by (simp only: uint_mod uint_abs Y_def)
  then have "word_of_int (uint (?ua mod ?ub)) = (word_of_int Y :: u32)" by (rule arg_cong)
  then have y: "?ua mod ?ub = word_of_int Y" by (simp only: word_of_int_uint)
  have ub: "?ub = word_of_int \<bar>sint b\<bar>" by simp
  have y0: "(word_of_int Y :: u32) \<noteq> 0 \<longleftrightarrow> Y \<noteq> 0"
    using Y zdvd_not_zless [of Y "4294967296"] by (auto simp: word_of_int_eq_0_iff)
  define Z where "Z = (if Y \<noteq> 0 \<and> (sint a < 0) \<noteq> (sint b < 0) then Y - \<bar>sint b\<bar> else Y)"
  have Z: "- (2 ^ 31) < Z" "Z < 2 ^ 31" using Y by (auto simp: Z_def)
  have "lj_vm_modi a b =
    (let y = (if (word_of_int Y :: u32) \<noteq> 0 \<and> sint (a XOR b) < 0 then word_of_int Y - word_of_int \<bar>sint b\<bar> else word_of_int Y)
     in if sint (y XOR b) < 0 then - y else y)"
    unfolding lj_vm_modi_def Let_def y unfolding ub ..
  also have "\<dots> = (let y = word_of_int Z in if sint (y XOR b) < 0 then - y else y)"
    unfolding y0 sint_xor_neg Z_def by simp
  also have "\<dots> = (if (Z < 0) \<noteq> (sint b < 0) then - word_of_int Z else word_of_int Z)"
    using Z by (simp add: Let_def sint_xor_neg sint_u32_of_int)
  finally have "lj_vm_modi a b = (if (Z < 0) \<noteq> (sint b < 0) then - word_of_int Z else word_of_int Z)" .
  then have r: "sint (lj_vm_modi a b) = (if (Z < 0) \<noteq> (sint b < 0) then - Z else Z)"
    using Z sint_u32_of_int [of Z] sint_u32_of_int [of "- Z"] by simp
  define R where "R = sint a mod sint b"
  have "(if (Z < 0) \<noteq> (sint b < 0) then - Z else Z) = R"
  proof (cases "0 < sint b")
    case True
    then have "0 \<le> R" "R < sint b" by (simp_all add: R_def)
    then show ?thesis using True Y by (auto simp: Z_def Y_def zmod_zminus1_eq_if abs_if simp flip: R_def)
  next
    case False
    then have n: "sint b < 0" using b by simp
    then have "R \<le> 0" "sint b < R" by (simp_all add: R_def)
    then show ?thesis using n Y
      by (auto simp: Z_def Y_def zmod_zminus1_eq_if zmod_zminus2_eq_if abs_if simp flip: R_def)
  qed
  then show ?thesis using r by (simp add: R_def)
qed

text \<open>
  C40: \<open>lj_vm_modi\<close>, which divides absolute values and then corrects the sign, is the floored modulo: its
  result has the sign of the divisor, also for the smallest integer.
\<close>

theorem lj_vm_modi_floor:
  assumes "b \<noteq> 0"
  shows "sint (lj_vm_modi a b) = sint a mod sint b"
  using assms by (rule modi_floor)

lemma lj_vm_modi_floor_witness: "sint (lj_vm_modi (- 7) 3) = 2"
  using lj_vm_modi_floor [of 3 "- 7"] by simp

end
