(* ===== verification/Lj_Ir.thy ===== *)
theory Lj_Ir
  imports Lj_Carith
begin

text \<open>
  The intermediate representation of a trace (\<open>src/src/lj_ir.h\<close>, \<open>lj_ir.c\<close>, \<open>lj_iropt.h\<close>, \<open>lj_jit.h\<close>):
  instructions with two operands, each a reference or a literal, in one buffer that grows upwards with
  instructions and downwards with interned constants, and per-opcode chains through \<open>prev\<close>. A reference
  is a natural number biased with \<open>REF_BIAS\<close>. The buffer content is a function of the reference, since
  moving the buffer rebases \<open>cur.ir\<close>; its limits are kept.
\<close>

section \<open>Data\<close>

text \<open>The opcodes of the integer part of the IR; every other opcode is \<open>IR_OTHER\<close> with its number.\<close>

datatype irop =
    IR_LT | IR_GE | IR_LE | IR_GT | IR_ULT | IR_UGE | IR_ULE | IR_UGT | IR_EQ | IR_NE | IR_ABC
  | IR_NOP | IR_LOOP | IR_KINT | IR_KINT64 | IR_BNOT | IR_BSWAP | IR_BAND | IR_BOR | IR_BXOR
  | IR_BSHL | IR_BSHR | IR_BSAR | IR_BROL | IR_BROR | IR_ADD | IR_SUB | IR_MUL | IR_DIV | IR_MOD
  | IR_POW | IR_NEG | IR_MIN | IR_MAX | IR_ADDOV | IR_SUBOV | IR_MULOV | IR_XLOAD | IR_CONV
  | IR_OTHER nat

fun opnum :: "irop \<Rightarrow> nat" where
  "opnum IR_LT = 0" | "opnum IR_GE = 1" | "opnum IR_LE = 2" | "opnum IR_GT = 3"
| "opnum IR_ULT = 4" | "opnum IR_UGE = 5" | "opnum IR_ULE = 6" | "opnum IR_UGT = 7"
| "opnum IR_EQ = 8" | "opnum IR_NE = 9" | "opnum IR_ABC = 10" | "opnum IR_NOP = 12"
| "opnum IR_LOOP = 17" | "opnum IR_KINT = 23" | "opnum IR_KINT64 = 29" | "opnum IR_BNOT = 31"
| "opnum IR_BSWAP = 32" | "opnum IR_BAND = 33" | "opnum IR_BOR = 34" | "opnum IR_BXOR = 35"
| "opnum IR_BSHL = 36" | "opnum IR_BSHR = 37" | "opnum IR_BSAR = 38" | "opnum IR_BROL = 39"
| "opnum IR_BROR = 40" | "opnum IR_ADD = 41" | "opnum IR_SUB = 42" | "opnum IR_MUL = 43"
| "opnum IR_DIV = 44" | "opnum IR_MOD = 45" | "opnum IR_POW = 46" | "opnum IR_NEG = 47"
| "opnum IR_MIN = 51" | "opnum IR_MAX = 52" | "opnum IR_ADDOV = 54" | "opnum IR_SUBOV = 55"
| "opnum IR_MULOV = 56" | "opnum IR_XLOAD = 70" | "opnum IR_CONV = 90"
| "opnum (IR_OTHER n) = 96 + n"

text \<open>
  Result types by their number. The flags \<open>IRT_ISPHI\<close> and \<open>IRT_GUARD\<close> of the type byte are separate
  fields of an instruction.
\<close>

abbreviation "IRT_NUM \<equiv> 14 :: nat"
abbreviation "IRT_I8 \<equiv> 15 :: nat"
abbreviation "IRT_U8 \<equiv> 16 :: nat"
abbreviation "IRT_I16 \<equiv> 17 :: nat"
abbreviation "IRT_U16 \<equiv> 18 :: nat"
abbreviation "IRT_INT \<equiv> 19 :: nat"
abbreviation "IRT_U32 \<equiv> 20 :: nat"
abbreviation "IRT_I64 \<equiv> 21 :: nat"
abbreviation "IRT_U64 \<equiv> 22 :: nat"

definition irt_is64 :: "nat \<Rightarrow> bool" where
  "irt_is64 t \<longleftrightarrow> t = IRT_NUM \<or> t = IRT_I64 \<or> t = IRT_U64 \<or> t = 9 \<or> t = 3"

definition irt_isnum :: "nat \<Rightarrow> bool" where "irt_isnum t \<longleftrightarrow> t = IRT_NUM"

text \<open>
  An instruction. \<open>ins_i\<close> is the 32-bit constant, which overlays the operands in the code, and
  \<open>ins_u64\<close> the 64-bit constant in the slot after the instruction.
\<close>

record irins =
  ins_o :: irop
  ins_t :: nat
  ins_phi :: bool
  ins_guard :: bool
  ins_op1 :: nat
  ins_op2 :: nat
  ins_prev :: nat
  ins_i :: u32
  ins_u64 :: u64

abbreviation REF_BIAS :: nat where "REF_BIAS \<equiv> 0x8000"
abbreviation REF_TRUE :: nat where "REF_TRUE \<equiv> REF_BIAS - 3"
abbreviation REF_NIL :: nat where "REF_NIL \<equiv> REF_BIAS - 1"
abbreviation REF_DROP :: nat where "REF_DROP \<equiv> 0xffff"

definition irref_isk :: "nat \<Rightarrow> bool" where "irref_isk ref \<longleftrightarrow> ref < REF_BIAS"

text \<open>The part of \<open>jit_State\<close> the IR and the optimisations on it use.\<close>

record jit =
  jir :: "nat \<Rightarrow> irins"
  nins :: nat
  nk :: nat
  irtoplim :: nat
  irbotlim :: nat
  chain :: "irop \<Rightarrow> nat"
  guardemit :: bool
  jflags :: u32
  scev_idx :: nat
  scev_start :: nat
  scev_stop :: nat
  scev_dir :: bool

definition JIT_F_OPT_MASK :: u32 where "JIT_F_OPT_MASK = 0x0fff0000"
definition JIT_F_OPT_FOLD :: u32 where "JIT_F_OPT_FOLD = 0x00010000"
definition JIT_F_OPT_CSE :: u32 where "JIT_F_OPT_CSE = 0x00020000"
definition JIT_F_OPT_DCE :: u32 where "JIT_F_OPT_DCE = 0x00040000"
definition JIT_F_OPT_FWD :: u32 where "JIT_F_OPT_FWD = 0x00080000"
definition JIT_F_OPT_DSE :: u32 where "JIT_F_OPT_DSE = 0x00100000"
definition JIT_F_OPT_ABC :: u32 where "JIT_F_OPT_ABC = 0x00800000"
definition JIT_F_OPT_DEFAULT :: u32 where "JIT_F_OPT_DEFAULT = 0x03ff0000"

definition jflag :: "jit \<Rightarrow> u32 \<Rightarrow> bool" where "jflag J f \<longleftrightarrow> jflags J AND f \<noteq> 0"

section \<open>The instruction buffer\<close>

definition LJ_MIN_IRSZ :: nat where "LJ_MIN_IRSZ = 32"

definition lj_ir_growtop :: "jit \<Rightarrow> jit" where
  "lj_ir_growtop J =
     (let szins = irtoplim J - irbotlim J in
      if szins \<noteq> 0 then J\<lparr>irtoplim := irbotlim J + 2 * szins\<rparr>
      else let bot = REF_BIAS - LJ_MIN_IRSZ div 4 in J\<lparr>irbotlim := bot, irtoplim := bot + LJ_MIN_IRSZ\<rparr>)"

definition lj_ir_growbot :: "jit \<Rightarrow> jit" where
  "lj_ir_growbot J =
     (let szins = irtoplim J - irbotlim J in
      if nins J + szins div 2 < irtoplim J then
        let ofs = szins div 4 in J\<lparr>irbotlim := irbotlim J - ofs, irtoplim := irtoplim J - ofs\<rparr>
      else
        let ofs = (if szins \<ge> 256 then 128 else szins div 2); bot = irbotlim J - ofs in
        J\<lparr>irbotlim := bot, irtoplim := bot + 2 * szins\<rparr>)"

definition lj_ir_nextins :: "jit \<Rightarrow> jit \<times> nat" where
  "lj_ir_nextins J =
     (let ref = nins J; J = (if ref \<ge> irtoplim J then lj_ir_growtop J else J)
      in (J\<lparr>nins := ref + 1\<rparr>, ref))"

definition ir_nextk :: "jit \<Rightarrow> jit \<times> nat" where
  "ir_nextk J =
     (let ref = nk J; J = (if ref \<le> irbotlim J then lj_ir_growbot J else J); ref = ref - 1
      in (J\<lparr>nk := ref\<rparr>, ref))"

definition ir_nextk64 :: "jit \<Rightarrow> jit \<times> nat" where
  "ir_nextk64 J =
     (let ref = nk J - 2; J = (if ref < irbotlim J then lj_ir_growbot J else J)
      in (J\<lparr>nk := ref\<rparr>, ref))"

definition ir_store :: "jit \<Rightarrow> nat \<Rightarrow> irins \<Rightarrow> jit" where
  "ir_store J ref i = J\<lparr>jir := (jir J)(ref := i)\<rparr>"

section \<open>Emission and rollback\<close>

definition lj_ir_emit :: "jit \<Rightarrow> irins \<Rightarrow> jit \<times> nat" where
  "lj_ir_emit J fins =
     (let (J, ref) = lj_ir_nextins J; op = ins_o fins;
          J = ir_store J ref ((jir J ref)\<lparr>ins_prev := chain J op, ins_o := op, ins_op1 := ins_op1 fins,
                 ins_op2 := ins_op2 fins, ins_t := ins_t fins, ins_phi := ins_phi fins,
                 ins_guard := ins_guard fins\<rparr>)
      in (J\<lparr>chain := (chain J)(op := ref), guardemit := guardemit J \<or> ins_guard fins\<rparr>, ref))"

fun rollback_to :: "nat \<Rightarrow> jit \<Rightarrow> jit" where
  "rollback_to 0 J = J"
| "rollback_to (Suc n) J =
     (let r = nins J - 1; i = jir J r
      in rollback_to n (J\<lparr>nins := r, chain := (chain J)(ins_o i := ins_prev i)\<rparr>))"

definition lj_ir_rollback :: "jit \<Rightarrow> nat \<Rightarrow> jit" where
  "lj_ir_rollback J ref = rollback_to (nins J - ref) J"

section \<open>Chains and interned constants\<close>

text \<open>
  The walk along a chain, down to the reference \<open>lim\<close>. The references on a chain are distinct, so the
  number of references below \<open>nins\<close> is enough fuel.
\<close>

fun chain_walk :: "(irins \<Rightarrow> bool) \<Rightarrow> (nat \<Rightarrow> irins) \<Rightarrow> nat \<Rightarrow> nat \<Rightarrow> nat \<Rightarrow> nat option" where
  "chain_walk P ir lim 0 ref = None"
| "chain_walk P ir lim (Suc f) ref =
     (if ref > lim then if P (ir ref) then Some ref else chain_walk P ir lim f (ins_prev (ir ref))
      else None)"

definition lj_ir_kint :: "jit \<Rightarrow> u32 \<Rightarrow> jit \<times> nat" where
  "lj_ir_kint J k =
     (case chain_walk (\<lambda>i. ins_i i = k) (jir J) 0 (nins J) (chain J IR_KINT) of
        Some ref \<Rightarrow> (J, ref)
      | None \<Rightarrow>
          let (J, ref) = ir_nextk J;
              J = ir_store J ref ((jir J ref)\<lparr>ins_i := k, ins_t := IRT_INT, ins_phi := False,
                     ins_guard := False, ins_o := IR_KINT, ins_prev := chain J IR_KINT\<rparr>)
          in (J\<lparr>chain := (chain J)(IR_KINT := ref)\<rparr>, ref))"

text \<open>
  \<open>lj_ir_k64\<close> for \<open>IR_KINT64\<close>. The constant fills the slot behind the instruction, which the model
  keeps in \<open>ins_u64\<close>; no reference points to that slot, and it is marked as a filler.
\<close>

definition lj_ir_kint64 :: "jit \<Rightarrow> u64 \<Rightarrow> jit \<times> nat" where
  "lj_ir_kint64 J u =
     (case chain_walk (\<lambda>i. ins_u64 i = u) (jir J) 0 (nins J) (chain J IR_KINT64) of
        Some ref \<Rightarrow> (J, ref)
      | None \<Rightarrow>
          let (J, ref) = ir_nextk64 J;
              J = ir_store J (ref + 1) ((jir J (ref + 1))\<lparr>ins_o := IR_NOP, ins_t := IRT_U64\<rparr>);
              J = ir_store J ref ((jir J ref)\<lparr>ins_u64 := u, ins_t := IRT_I64, ins_phi := False,
                     ins_guard := False, ins_o := IR_KINT64, ins_op1 := 0, ins_op2 := 0, ins_i := 0,
                     ins_prev := chain J IR_KINT64\<rparr>)
          in (J\<lparr>chain := (chain J)(IR_KINT64 := ref)\<rparr>, ref))"

section \<open>Bounds of the buffer\<close>

definition buf_ok :: "jit \<Rightarrow> bool" where
  "buf_ok J \<longleftrightarrow> irbotlim J \<le> nk J \<and> nk J \<le> nins J \<and> nins J \<le> irtoplim J \<and> irbotlim J + LJ_MIN_IRSZ \<le> irtoplim J"

lemma growtop_fields [simp]: "nk (lj_ir_growtop J) = nk J" "nins (lj_ir_growtop J) = nins J"
  by (simp_all add: lj_ir_growtop_def Let_def)

lemma growbot_fields [simp]: "nk (lj_ir_growbot J) = nk J" "nins (lj_ir_growbot J) = nins J"
  by (simp_all add: lj_ir_growbot_def Let_def)

lemma growtop_limits:
  assumes "irbotlim J + LJ_MIN_IRSZ \<le> irtoplim J"
  shows "irbotlim (lj_ir_growtop J) = irbotlim J \<and> irtoplim J + LJ_MIN_IRSZ \<le> irtoplim (lj_ir_growtop J)"
  using assms by (simp add: lj_ir_growtop_def Let_def LJ_MIN_IRSZ_def)

lemma growbot_limits:
  assumes "buf_ok J" and "(irtoplim J - irbotlim J) div 2 \<le> irbotlim J"
  shows "irbotlim (lj_ir_growbot J) + 8 \<le> irbotlim J" "nins J \<le> irtoplim (lj_ir_growbot J)"
    "irbotlim (lj_ir_growbot J) + LJ_MIN_IRSZ \<le> irtoplim (lj_ir_growbot J)"
proof -
  define sz q2 q4 where "sz = irtoplim J - irbotlim J" and "q2 = sz div 2" and "q4 = sz div 4"
  have b: "irbotlim J \<le> nk J" "nk J \<le> nins J" "nins J \<le> irtoplim J" "irbotlim J + 32 \<le> irtoplim J"
    using assms(1) by (simp_all add: buf_ok_def LJ_MIN_IRSZ_def)
  then have sz: "32 \<le> sz" "irtoplim J = irbotlim J + sz" unfolding sz_def by linarith+
  have q1: "8 \<le> q4" "q4 \<le> q2" using sz(1) unfolding q2_def q4_def by linarith+
  have q2: "2 * q2 \<le> sz" "sz \<ge> 256 \<longrightarrow> 128 \<le> q2" unfolding q2_def by linarith+
  have q3: "q2 \<le> irbotlim J" using assms(2) by (simp add: q2_def sz_def)
  have "irbotlim (lj_ir_growbot J) =
      (if nins J + q2 < irtoplim J then irbotlim J - q4 else irbotlim J - (if 256 \<le> sz then 128 else q2))"
    "irtoplim (lj_ir_growbot J) = (if nins J + q2 < irtoplim J then irtoplim J - q4
      else irbotlim J - (if 256 \<le> sz then 128 else q2) + 2 * sz)"
    by (simp_all add: lj_ir_growbot_def Let_def sz_def q2_def q4_def)
  then show "irbotlim (lj_ir_growbot J) + 8 \<le> irbotlim J" "nins J \<le> irtoplim (lj_ir_growbot J)"
    "irbotlim (lj_ir_growbot J) + LJ_MIN_IRSZ \<le> irtoplim (lj_ir_growbot J)"
    using b sz q1 q2 q3 unfolding LJ_MIN_IRSZ_def by (auto split: if_splits)
qed

text \<open>
  C38: the references of a trace stay inside the instruction buffer: after a new instruction or a new
  constant, and whichever way the buffer grows, the lowest constant is not below its lower limit and
  the next instruction not above its upper limit, so the reference handed out is inside.
\<close>

theorem ir_buffer_bounds:
  assumes "buf_ok J" and "(irtoplim J - irbotlim J) div 2 \<le> irbotlim J"
  shows "buf_ok (fst (lj_ir_nextins J)) \<and> snd (lj_ir_nextins J) < irtoplim (fst (lj_ir_nextins J)) \<and>
    buf_ok (fst (ir_nextk J)) \<and> irbotlim (fst (ir_nextk J)) \<le> snd (ir_nextk J) \<and>
    buf_ok (fst (ir_nextk64 J)) \<and> irbotlim (fst (ir_nextk64 J)) \<le> snd (ir_nextk64 J)"
  using assms(1) growtop_limits [of J] growbot_limits [OF assms]
  by (auto simp: buf_ok_def lj_ir_nextins_def ir_nextk_def ir_nextk64_def Let_def LJ_MIN_IRSZ_def)

definition jit0 :: jit where
  "jit0 = \<lparr>jir = (\<lambda>r. \<lparr>ins_o = IR_NOP, ins_t = 0, ins_phi = False, ins_guard = False, ins_op1 = 0, ins_op2 = 0,
      ins_prev = 0, ins_i = 0, ins_u64 = 0\<rparr>),
    nins = REF_BIAS + 1, nk = REF_TRUE, irtoplim = REF_BIAS + 24, irbotlim = REF_BIAS - 8, chain = (\<lambda>_. 0),
    guardemit = False, jflags = JIT_F_OPT_DEFAULT, scev_idx = REF_NIL, scev_start = 0, scev_stop = 0,
    scev_dir = False\<rparr>"

lemma ir_buffer_bounds_witness: "buf_ok (fst (ir_nextk64 jit0))"
  using ir_buffer_bounds [of jit0] by (simp add: buf_ok_def jit0_def LJ_MIN_IRSZ_def)

end
