(* ===== verification/Lj_Ir_Sem.thy ===== *)
theory Lj_Ir_Sem
  imports Lj_Ir
begin

text \<open>
  The meaning of the integer part of the IR, and the invariant of a trace under construction. A value
  is a 64-bit word; a 32-bit result is zero-extended, as the 32-bit operations of x86-64 do. An
  execution is an assignment of values to references, and \<open>sat\<close> says that it follows the instructions
  and passes their guards; instructions outside of the integer part have any value.
\<close>

section \<open>Meaning of instructions\<close>

definition int_ty :: "nat \<Rightarrow> bool" where "int_ty t \<longleftrightarrow> IRT_I8 \<le> t \<and> t \<le> IRT_U64"

abbreviation "cmp_ops \<equiv> {IR_LT, IR_GE, IR_LE, IR_GT, IR_ULT, IR_UGE, IR_ULE, IR_UGT, IR_EQ, IR_NE}"
abbreviation "ov_ops \<equiv> {IR_ADDOV, IR_SUBOV, IR_MULOV}"
abbreviation "shift_ops \<equiv> {IR_BSHL, IR_BSHR, IR_BSAR, IR_BROL, IR_BROR}"
abbreviation "bin_ops \<equiv> {IR_BAND, IR_BOR, IR_BXOR, IR_ADD, IR_SUB, IR_MUL, IR_DIV, IR_MOD, IR_POW, IR_MIN, IR_MAX}"
abbreviation "un_ops \<equiv> {IR_BNOT, IR_BSWAP, IR_NEG}"

definition op_value :: "irop \<Rightarrow> bool" where
  "op_value o1 \<longleftrightarrow> o1 \<in> bin_ops \<union> ov_ops \<union> shift_ops \<union> un_ops \<union> {IR_CONV}"

definition op_guard :: "irop \<Rightarrow> bool" where
  "op_guard o1 \<longleftrightarrow> o1 \<in> cmp_ops \<union> {IR_ABC}"

text \<open>The operations both widths share; the count of a shift is reduced by the caller.\<close>

fun arith :: "irop \<Rightarrow> 'a::len word \<Rightarrow> 'a word \<Rightarrow> 'a word" where
  "arith IR_ADD a b = a + b"
| "arith IR_SUB a b = a - b"
| "arith IR_MUL a b = a * b"
| "arith IR_ADDOV a b = a + b"
| "arith IR_SUBOV a b = a - b"
| "arith IR_MULOV a b = a * b"
| "arith IR_NEG a b = - a"
| "arith IR_BNOT a b = NOT a"
| "arith IR_BAND a b = a AND b"
| "arith IR_BOR a b = a OR b"
| "arith IR_BXOR a b = a XOR b"
| "arith IR_MIN a b = (if sint a < sint b then a else b)"
| "arith IR_MAX a b = (if sint a > sint b then a else b)"
| "arith IR_MOD a b = word_of_int (sint a mod sint b)"
| "arith _ a b = a"

fun shift :: "irop \<Rightarrow> 'a::len word \<Rightarrow> nat \<Rightarrow> 'a word" where
  "shift IR_BSHL a n = push_bit n a"
| "shift IR_BSHR a n = drop_bit n a"
| "shift IR_BSAR a n = signed_drop_bit n a"
| "shift IR_BROL a n = word_rotl n a"
| "shift IR_BROR a n = word_rotr n a"
| "shift _ a n = a"

definition arith64 :: "irop \<Rightarrow> nat \<Rightarrow> u64 \<Rightarrow> u64 \<Rightarrow> u64" where
  "arith64 o1 t a b =
     (case o1 of
        IR_DIV \<Rightarrow> if t = IRT_I64 then lj_carith_divi64 a b else lj_carith_divu64 a b
      | IR_MOD \<Rightarrow> if t = IRT_I64 then lj_carith_modi64 a b else lj_carith_modu64 a b
      | IR_POW \<Rightarrow> if t = IRT_I64 then lj_carith_powi64 a b else lj_carith_powu64 a b
      | IR_BSWAP \<Rightarrow> lj_bswap64 a
      | _ \<Rightarrow> arith o1 a b)"

definition arith32 :: "irop \<Rightarrow> u32 \<Rightarrow> u32 \<Rightarrow> u32" where
  "arith32 o1 a b = (if o1 = IR_BSWAP then lj_bswap a else arith o1 a b)"

definition conv_src :: "nat \<Rightarrow> nat" where "conv_src m = m mod 32"
definition conv_dst :: "nat \<Rightarrow> nat" where "conv_dst m = m div 32 mod 32"
definition conv_sext :: "nat \<Rightarrow> bool" where "conv_sext m \<longleftrightarrow> m div 2048 mod 2 = 1"

text \<open>A conversion narrows to the source type, then widens with the sign or with zeros.\<close>

definition conv_narrow :: "nat \<Rightarrow> u64 \<Rightarrow> u32" where
  "conv_narrow t a =
     (if t = IRT_I8 then scast (ucast a :: byte)
      else if t = IRT_U8 then ucast (ucast a :: byte)
      else if t = IRT_I16 then scast (ucast a :: u16)
      else if t = IRT_U16 then ucast (ucast a :: u16)
      else ucast a)"

definition conv :: "nat \<Rightarrow> u64 \<Rightarrow> u64" where
  "conv m a =
     (if irt_is64 (conv_dst m) then
        if irt_is64 (conv_src m) then a
        else if conv_sext m then scast (conv_narrow (conv_src m) a)
        else ucast (conv_narrow (conv_src m) a)
      else ucast (conv_narrow (conv_src m) a))"

definition eval :: "(nat \<Rightarrow> u64) \<Rightarrow> irins \<Rightarrow> u64" where
  "eval v i =
     (let a = v (ins_op1 i); b = v (ins_op2 i); o1 = ins_o i; t = ins_t i in
      if o1 = IR_CONV then conv (ins_op2 i) a
      else if o1 \<in> shift_ops then
        if irt_is64 t then shift o1 a (unat b mod 64)
        else ucast (shift o1 (ucast a :: u32) (unat b mod 32))
      else if irt_is64 t then arith64 o1 t a b
      else ucast (arith32 o1 (ucast a) (ucast b)))"

fun cmp :: "irop \<Rightarrow> 'a::len word \<Rightarrow> 'a word \<Rightarrow> bool" where
  "cmp IR_LT a b = (sint a < sint b)"
| "cmp IR_GE a b = (sint a \<ge> sint b)"
| "cmp IR_LE a b = (sint a \<le> sint b)"
| "cmp IR_GT a b = (sint a > sint b)"
| "cmp IR_ULT a b = (a < b)"
| "cmp IR_UGE a b = (a \<ge> b)"
| "cmp IR_ULE a b = (a \<le> b)"
| "cmp IR_UGT a b = (a > b)"
| "cmp IR_ABC a b = (a > b)"
| "cmp IR_EQ a b = (a = b)"
| "cmp IR_NE a b = (a \<noteq> b)"
| "cmp _ a b = True"

fun ov_int :: "irop \<Rightarrow> int \<Rightarrow> int \<Rightarrow> int" where
  "ov_int IR_ADDOV a b = a + b"
| "ov_int IR_SUBOV a b = a - b"
| "ov_int IR_MULOV a b = a * b"
| "ov_int _ a b = 0"

definition in_int32 :: "int \<Rightarrow> bool" where "in_int32 n \<longleftrightarrow> - (2 ^ 31) \<le> n \<and> n < 2 ^ 31"

text \<open>Whether the guard of an instruction passes; the overflow operations guard their result.\<close>

definition guard :: "(nat \<Rightarrow> u64) \<Rightarrow> irins \<Rightarrow> bool" where
  "guard v i =
     (let a = v (ins_op1 i); b = v (ins_op2 i); o1 = ins_o i in
      if o1 \<in> ov_ops then in_int32 (ov_int o1 (sint (ucast a :: u32)) (sint (ucast b :: u32)))
      else if irt_is64 (ins_t i) \<and> o1 \<noteq> IR_ABC then cmp o1 a b
      else cmp o1 (ucast a :: u32) (ucast b))"

section \<open>Executions\<close>

definition conv_int :: "nat \<Rightarrow> bool" where
  "conv_int m \<longleftrightarrow> m < 0x1000 \<and> int_ty (conv_src m) \<and> conv_dst m \<in> {IRT_INT, IRT_U32, IRT_I64, IRT_U64}"

text \<open>The instructions the semantics covers.\<close>

definition covered :: "irins \<Rightarrow> bool" where
  "covered i \<longleftrightarrow> ins_o i = IR_ABC \<or>
     (op_value (ins_o i) \<or> op_guard (ins_o i)) \<and> int_ty (ins_t i) \<and> (ins_o i = IR_CONV \<longrightarrow> conv_int (ins_op2 i))"

definition ins_sat :: "(nat \<Rightarrow> u64) \<Rightarrow> nat \<Rightarrow> irins \<Rightarrow> bool" where
  "ins_sat v r i \<longleftrightarrow>
     (ins_o i = IR_KINT \<longrightarrow> v r = ucast (ins_i i)) \<and>
     (ins_o i = IR_KINT64 \<longrightarrow> v r = ins_u64 i) \<and>
     (covered i \<longrightarrow> guard v i \<and> (op_value (ins_o i) \<longrightarrow> v r = eval v i)) \<and>
     (\<not> irt_is64 (ins_t i) \<longrightarrow> v r < 2 ^ 32)"

definition irefs :: "jit \<Rightarrow> nat set" where "irefs J = {nk J..<nins J}"

definition sat :: "jit \<Rightarrow> (nat \<Rightarrow> u64) \<Rightarrow> bool" where
  "sat J v \<longleftrightarrow> (\<forall>r \<in> irefs J. ins_sat v r (jir J r))"

definition agree :: "jit \<Rightarrow> (nat \<Rightarrow> u64) \<Rightarrow> (nat \<Rightarrow> u64) \<Rightarrow> bool" where
  "agree J v v' \<longleftrightarrow> (\<forall>r \<in> irefs J. v' r = v r)"

section \<open>Typing\<close>

text \<open>
  An operand of a given width. The constant 0 has the same value in both widths, and some rules use the
  32-bit one in 64-bit operations.
\<close>

definition opnd :: "jit \<Rightarrow> nat \<Rightarrow> bool \<Rightarrow> bool" where
  "opnd J r w \<longleftrightarrow> r \<in> irefs J \<and> int_ty (ins_t (jir J r)) \<and>
     (irt_is64 (ins_t (jir J r)) = w \<or> w \<and> ins_o (jir J r) = IR_KINT \<and> ins_i (jir J r) = 0)"

definition opnd_strict :: "jit \<Rightarrow> nat \<Rightarrow> bool \<Rightarrow> bool" where
  "opnd_strict J r w \<longleftrightarrow> r \<in> irefs J \<and> int_ty (ins_t (jir J r)) \<and> irt_is64 (ins_t (jir J r)) = w"

definition ty_ok :: "irop \<Rightarrow> nat \<Rightarrow> bool" where
  "ty_ok o1 t \<longleftrightarrow>
     (if o1 = IR_ABC then True else if o1 \<in> ov_ops then t = IRT_INT
      else if o1 \<in> {IR_DIV, IR_POW} then t \<in> {IRT_I64, IRT_U64}
      else t \<in> {IRT_INT, IRT_U32, IRT_I64, IRT_U64})"

definition typed :: "jit \<Rightarrow> irins \<Rightarrow> bool" where
  "typed J i \<longleftrightarrow>
     (let o1 = ins_o i; w = irt_is64 (ins_t i) in
      (op_value o1 \<or> op_guard o1) \<and> ty_ok o1 (ins_t i) \<and>
      (if o1 = IR_CONV then
         conv_int (ins_op2 i) \<and> irt_is64 (conv_dst (ins_op2 i)) = w \<and> opnd J (ins_op1 i) (irt_is64 (conv_src (ins_op2 i)))
       else if o1 = IR_BNOT then opnd_strict J (ins_op1 i) w \<and> ins_op2 i = 0
       else if o1 = IR_BSWAP then opnd J (ins_op1 i) w \<and> ins_op2 i = 0
       else if o1 = IR_NEG then opnd_strict J (ins_op1 i) w \<and> (ins_op2 i = 0 \<or> opnd J (ins_op2 i) w)
       else if o1 = IR_BXOR then opnd_strict J (ins_op1 i) w \<and> opnd_strict J (ins_op2 i) w
       else if o1 \<in> shift_ops then opnd J (ins_op1 i) w \<and> opnd J (ins_op2 i) False
       else if o1 = IR_ABC then opnd J (ins_op1 i) False \<and> opnd J (ins_op2 i) False
       else opnd J (ins_op1 i) w \<and> opnd J (ins_op2 i) w))"

text \<open>
  The instructions in the buffer: constants are below the bias, operands below their instruction, and
  no 64-bit \<open>BAND\<close> has a 32-bit constant, because folding is enabled. Unsigned loads of 8 and 16 bits
  are left out: the rule that drops their sign extension lets CSE mix up widths, see \<open>Lj_Fold_Bugs\<close>.
\<close>

definition slot_shape :: "nat \<Rightarrow> irins \<Rightarrow> bool" where
  "slot_shape r i \<longleftrightarrow>
     (ins_o i = IR_KINT \<longrightarrow> r < REF_BIAS \<and> ins_t i = IRT_INT) \<and>
     (ins_o i = IR_KINT64 \<longrightarrow> r < REF_BIAS \<and> ins_t i = IRT_I64) \<and>
     (ins_o i = IR_XLOAD \<longrightarrow> ins_t i \<noteq> IRT_U8 \<and> ins_t i \<noteq> IRT_U16) \<and>
     (r < REF_BIAS \<longrightarrow> int_ty (ins_t i) \<longrightarrow> \<not> irt_is64 (ins_t i) \<longrightarrow> ins_o i = IR_KINT) \<and>
     (op_value (ins_o i) \<or> op_guard (ins_o i) \<longrightarrow> REF_BIAS < r \<and> ins_op1 i < r \<and> ins_op2 i < r)"

definition slot_refs :: "jit \<Rightarrow> irins \<Rightarrow> bool" where
  "slot_refs J i \<longleftrightarrow>
     (covered i \<longrightarrow> typed J i) \<and>
     (ins_o i = IR_ABC \<longrightarrow> ins_o (jir J (ins_op2 i)) = IR_KINT \<longrightarrow> 0 \<le> sint (ins_i (jir J (ins_op2 i)))) \<and>
     (ins_o i = IR_BAND \<longrightarrow> irt_is64 (ins_t i) \<longrightarrow>
        ins_op2 i \<in> irefs J \<and> ins_o (jir J (ins_op2 i)) \<noteq> IR_KINT) \<and>
     (op_value (ins_o i) \<or> op_guard (ins_o i) \<longrightarrow> \<not> covered i \<longrightarrow>
        ins_o i = IR_CONV \<and> \<not> (int_ty (conv_dst (ins_op2 i)) \<and> int_ty (conv_src (ins_op2 i))) \<and>
          (int_ty (ins_t i) \<longrightarrow> int_ty (conv_dst (ins_op2 i))) \<or>
        ins_o i \<noteq> IR_CONV \<and> ins_op1 i \<in> irefs J \<and> \<not> int_ty (ins_t (jir J (ins_op1 i))))"

definition slot_ok :: "jit \<Rightarrow> nat \<Rightarrow> bool" where
  "slot_ok J r \<longleftrightarrow> slot_shape r (jir J r) \<and> slot_refs J (jir J r)"

lemmas slot_ok_defs = slot_ok_def slot_shape_def slot_refs_def

section \<open>Chains and the invariant\<close>

text \<open>
  The literals of the integer instructions are below \<open>0x1000\<close>, so the constants stay above it (the
  recorder limits their number far before). The trace has no scalar evolution analysis, the state
  before its loop is found.
\<close>

fun linked :: "(nat \<Rightarrow> irins) \<Rightarrow> nat \<Rightarrow> nat list \<Rightarrow> bool" where
  "linked ir r [] = (r = 0)"
| "linked ir r (c # cs) = (r = c \<and> c \<noteq> 0 \<and> linked ir (ins_prev (ir c)) cs)"

definition chained :: "irop \<Rightarrow> bool" where
  "chained o1 \<longleftrightarrow> o1 \<noteq> IR_NOP \<and> (\<forall>n. o1 \<noteq> IR_OTHER n)"

definition chain_ok :: "jit \<Rightarrow> irop \<Rightarrow> bool" where
  "chain_ok J o1 \<longleftrightarrow>
     (\<exists>cs. linked (jir J) (chain J o1) cs \<and> distinct cs \<and> set cs = {r \<in> irefs J. ins_o (jir J r) = o1})"

definition jit_ok :: "jit \<Rightarrow> bool" where
  "jit_ok J \<longleftrightarrow>
     0x1000 \<le> nk J \<and> nk J \<le> REF_TRUE \<and> REF_BIAS < nins J \<and> jflag J JIT_F_OPT_FOLD \<and>
     scev_idx J = REF_NIL \<and> \<not> int_ty (ins_t (jir J REF_NIL)) \<and>
     (\<forall>r \<in> irefs J. slot_ok J r) \<and>
     (\<forall>o1. chained o1 \<longrightarrow> chain_ok J o1) \<and>
     inj_on (\<lambda>r. ins_i (jir J r)) {r \<in> irefs J. ins_o (jir J r) = IR_KINT} \<and>
     inj_on (\<lambda>r. ins_u64 (jir J r)) {r \<in> irefs J. ins_o (jir J r) = IR_KINT64}"

lemma linked_sub: "linked ir r cs \<Longrightarrow> (\<And>c. c \<in> set cs \<Longrightarrow> ir' c = ir c) \<Longrightarrow> linked ir' r cs"
  by (induction cs arbitrary: r) auto

lemma chain_walk_Some:
  assumes "linked ir r cs" and "chain_walk P ir lim f r = Some x"
  shows "x \<in> set cs \<and> P (ir x) \<and> lim < x"
  using assms
proof (induction f arbitrary: r cs)
  case (Suc f)
  then show ?case by (cases cs) (auto split: if_splits)
qed simp

lemma chain_walk_None:
  assumes "linked ir r cs" and "chain_walk P ir 0 f r = None" and "length cs \<le> f"
  shows "\<forall>x \<in> set cs. \<not> P (ir x)"
  using assms
proof (induction f arbitrary: r cs)
  case (Suc f)
  then show ?case by (cases cs) (auto split: if_splits)
qed simp

lemma jit_okD:
  assumes "jit_ok J"
  shows "0x1000 \<le> nk J" "nk J \<le> REF_TRUE" "REF_BIAS < nins J" "r \<in> irefs J \<Longrightarrow> slot_ok J r"
    "chained o1 \<Longrightarrow> chain_ok J o1"
  using assms unfolding jit_ok_def by blast+

lemma jit_okD3: "jit_ok J \<Longrightarrow> jflag J JIT_F_OPT_FOLD"
  unfolding jit_ok_def by blast

lemma jit_okD2: "jit_ok J \<Longrightarrow> scev_idx J = REF_NIL" "jit_ok J \<Longrightarrow> \<not> int_ty (ins_t (jir J REF_NIL))"
  unfolding jit_ok_def by blast+

text \<open>What a walk of a chain of a correct trace finds, and what it means that it finds nothing.\<close>

lemma chain_ok_walk:
  assumes "jit_ok J" and "chained o1"
  shows "chain_walk P (jir J) lim f (chain J o1) = Some x \<Longrightarrow>
      x \<in> irefs J \<and> ins_o (jir J x) = o1 \<and> P (jir J x) \<and> lim < x"
    and "chain_walk P (jir J) 0 (nins J) (chain J o1) = None \<Longrightarrow>
      x \<in> irefs J \<Longrightarrow> ins_o (jir J x) = o1 \<Longrightarrow> \<not> P (jir J x)"
proof -
  obtain cs where cs: "linked (jir J) (chain J o1) cs" "distinct cs" "set cs = {r \<in> irefs J. ins_o (jir J r) = o1}"
    using jit_okD(5) [OF assms] by (auto simp: chain_ok_def)
  show "chain_walk P (jir J) lim f (chain J o1) = Some x \<Longrightarrow>
      x \<in> irefs J \<and> ins_o (jir J x) = o1 \<and> P (jir J x) \<and> lim < x"
    using chain_walk_Some [OF cs(1)] cs(3) by blast
  have "set cs \<subseteq> irefs J" using cs(3) by blast
  then have "card (set cs) \<le> card (irefs J)" by (rule card_mono [rotated]) (simp add: irefs_def)
  then have "card (set cs) \<le> nins J" by (simp add: irefs_def)
  then have "length cs \<le> nins J" using distinct_card [OF cs(2)] by simp
  then show "chain_walk P (jir J) 0 (nins J) (chain J o1) = None \<Longrightarrow>
      x \<in> irefs J \<Longrightarrow> ins_o (jir J x) = o1 \<Longrightarrow> \<not> P (jir J x)"
    using chain_walk_None [OF cs(1)] cs(3) by blast
qed

section \<open>Extending a trace\<close>

definition same_ins :: "irins \<Rightarrow> irins \<Rightarrow> bool" where
  "same_ins i i' \<longleftrightarrow> i' = i \<or> ins_o i = IR_ABC \<and> (\<exists>k. i' = i\<lparr>ins_op2 := k\<rparr>)"

definition ext :: "jit \<Rightarrow> jit \<Rightarrow> bool" where
  "ext J J' \<longleftrightarrow> nk J' \<le> nk J \<and> nins J \<le> nins J' \<and> (\<forall>r \<in> irefs J. same_ins (jir J r) (jir J' r))"

definition cons :: "jit \<Rightarrow> jit \<Rightarrow> bool" where
  "cons J J' \<longleftrightarrow> jit_ok J' \<and> ext J J' \<and> (\<forall>v'. sat J' v' \<longrightarrow> sat J v') \<and>
     (\<forall>v. sat J v \<longrightarrow> (\<exists>v'. agree J v v' \<and> sat J' v'))"

text \<open>
  What an optimised emission of the instruction \<open>f\<close> promises: the trace stays correct, every execution
  of the new trace is one of the old trace that passes the guard of \<open>f\<close> and has the value of \<open>f\<close> in the
  returned reference, and every execution of the old trace that passes the guard of \<open>f\<close> extends to one.
\<close>

definition emit_spec :: "jit \<Rightarrow> irins \<Rightarrow> jit \<Rightarrow> nat \<Rightarrow> bool" where
  "emit_spec J f J' r \<longleftrightarrow> jit_ok J' \<and> ext J J' \<and>
     (\<forall>v'. sat J' v' \<longrightarrow> sat J v' \<and> guard v' f \<and> (op_value (ins_o f) \<longrightarrow> v' r = eval v' f)) \<and>
     (\<forall>v. sat J v \<and> guard v f \<longrightarrow> (\<exists>v'. agree J v v' \<and> sat J' v')) \<and>
     (op_value (ins_o f) \<longrightarrow> opnd J' r (irt_is64 (ins_t f)))"

lemma same_ins_fields:
  "same_ins i i' \<Longrightarrow> ins_o i' = ins_o i \<and> ins_t i' = ins_t i \<and> ins_i i' = ins_i i \<and> ins_op1 i' = ins_op1 i
     \<and> ins_u64 i' = ins_u64 i \<and> ins_prev i' = ins_prev i"
  by (auto simp: same_ins_def)

lemma same_ins_refl [simp]: "same_ins i i"
  by (simp add: same_ins_def)

lemma same_ins_trans: "same_ins i j \<Longrightarrow> same_ins j k \<Longrightarrow> same_ins i k"
  unfolding same_ins_def by auto

lemma ext_irefs: "ext J J' \<Longrightarrow> r \<in> irefs J \<Longrightarrow> r \<in> irefs J'"
  by (auto simp: ext_def irefs_def)

lemma ext_refl [simp]: "ext J J"
  by (simp add: ext_def)

lemma ext_trans:
  assumes "ext J J'" and "ext J' J''"
  shows "ext J J''"
proof -
  have "same_ins (jir J r) (jir J'' r)" if "r \<in> irefs J" for r
    using that assms ext_irefs [OF assms(1) that] unfolding ext_def by (blast intro: same_ins_trans)
  then show ?thesis using assms by (auto simp: ext_def)
qed

lemma ext_fields:
  assumes "ext J J'" and "r \<in> irefs J"
  shows "ins_o (jir J' r) = ins_o (jir J r)" "ins_t (jir J' r) = ins_t (jir J r)" "ins_i (jir J' r) = ins_i (jir J r)"
    "ins_op1 (jir J' r) = ins_op1 (jir J r)" "ins_u64 (jir J' r) = ins_u64 (jir J r)"
  using assms same_ins_fields unfolding ext_def by blast+

lemma ext_opnd:
  assumes "ext J J'" and "opnd J r w"
  shows "opnd J' r w"
proof -
  have r: "r \<in> irefs J" using assms(2) by (simp add: opnd_def)
  show ?thesis using assms(2) ext_irefs [OF assms(1) r] ext_fields [OF assms(1) r] by (simp add: opnd_def)
qed

lemma ext_opnd_strict: "ext J J' \<Longrightarrow> opnd_strict J r w \<Longrightarrow> opnd_strict J' r w"
  unfolding opnd_strict_def using ext_irefs ext_fields by metis

lemma ext_typed:
  assumes "ext J J'" and "typed J i"
  shows "typed J' i"
  using assms(2) ext_opnd [OF assms(1)] ext_opnd_strict [OF assms(1)]
  unfolding typed_def Let_def by (simp split: if_splits) blast+

lemma opnd_irefs: "opnd J r w \<Longrightarrow> r \<in> irefs J" "opnd_strict J r w \<Longrightarrow> r \<in> irefs J"
  by (simp_all add: opnd_def opnd_strict_def)

lemma opnd_of_strict: "opnd_strict J r w \<Longrightarrow> opnd J r w"
  by (simp add: opnd_def opnd_strict_def)

text \<open>Values depend on the operands only.\<close>

definition uses_op2 :: "irop \<Rightarrow> bool" where
  "uses_op2 o1 \<longleftrightarrow> o1 \<notin> un_ops \<union> {IR_CONV}"

lemma typed_op1: "typed J i \<Longrightarrow> ins_op1 i \<in> irefs J"
  unfolding typed_def Let_def by (auto split: if_splits dest: opnd_irefs)

lemma typed_op2: "typed J i \<Longrightarrow> uses_op2 (ins_o i) \<Longrightarrow> ins_op2 i \<in> irefs J"
  unfolding typed_def Let_def uses_op2_def by (auto split: if_splits dest: opnd_irefs)

lemma arith_unused: "\<not> uses_op2 o1 \<Longrightarrow> arith o1 a b = arith o1 a c"
  by (auto simp: uses_op2_def)

lemma eval_cong:
  assumes "v' (ins_op1 i) = v (ins_op1 i)" and "uses_op2 (ins_o i) \<Longrightarrow> v' (ins_op2 i) = v (ins_op2 i)"
  shows "eval v' i = eval v i"
proof (cases "uses_op2 (ins_o i)")
  case True
  then show ?thesis using assms by (simp add: eval_def)
next
  case False
  then show ?thesis using assms(1) by (auto simp: eval_def uses_op2_def arith64_def arith32_def Let_def)
qed

lemma guard_cong:
  assumes "v' (ins_op1 i) = v (ins_op1 i)" and "uses_op2 (ins_o i) \<Longrightarrow> v' (ins_op2 i) = v (ins_op2 i)"
  shows "guard v' i = guard v i"
proof (cases "uses_op2 (ins_o i)")
  case True
  then show ?thesis using assms by (simp add: guard_def)
next
  case False
  then show ?thesis using assms(1) by (auto simp: guard_def uses_op2_def)
qed

lemma agree_eval:
  assumes "agree J v v'" and "typed J i"
  shows "eval v' i = eval v i" "guard v' i = guard v i"
  using assms eval_cong [of v' i v] guard_cong [of v' i v] typed_op1 [of J i] typed_op2 [of J i]
  unfolding agree_def by blast+

lemma agree_trans: "agree J v v1 \<Longrightarrow> agree J' v1 v2 \<Longrightarrow> ext J J' \<Longrightarrow> agree J v v2"
  unfolding agree_def using ext_irefs by metis

lemma agree_refl [simp]: "agree J v v"
  by (simp add: agree_def)

lemma cons_refl: "jit_ok J \<Longrightarrow> cons J J"
  unfolding cons_def using agree_refl ext_refl by blast

lemma cons_trans: "cons J J' \<Longrightarrow> cons J' J'' \<Longrightarrow> cons J J''"
  unfolding cons_def by (blast intro: ext_trans agree_trans)

end
