(* ===== verification/Lj_Ir_Props.thy ===== *)
theory Lj_Ir_Props
  imports Lj_Ir_Sem
begin

text \<open>
  Interning a constant and emitting an instruction keep the invariant of a trace and extend its
  executions.
\<close>

lemma typed_ABC: "typed J i \<Longrightarrow> ins_o i = IR_ABC \<Longrightarrow> opnd J (ins_op2 i) False"
  by (simp add: typed_def)

lemma slot_refs_ext:
  assumes e: "ext J J'" and s: "slot_refs J i"
  shows "slot_refs J' i"
proof -
  have "typed J' i" if "covered i" using s that ext_typed [OF e] unfolding slot_refs_def by blast
  moreover have "0 \<le> sint (ins_i (jir J' (ins_op2 i)))" if "ins_o i = IR_ABC" "ins_o (jir J' (ins_op2 i)) = IR_KINT"
  proof -
    have "typed J i" using s that(1) unfolding slot_refs_def covered_def by blast
    then have "ins_op2 i \<in> irefs J" using typed_ABC that(1) opnd_irefs by blast
    then show ?thesis using that s ext_fields [OF e] unfolding slot_refs_def by metis
  qed
  moreover have "ins_op2 i \<in> irefs J' \<and> ins_o (jir J' (ins_op2 i)) \<noteq> IR_KINT"
    if "ins_o i = IR_BAND" "irt_is64 (ins_t i)"
    using that s ext_irefs [OF e] ext_fields [OF e] unfolding slot_refs_def by metis
  moreover have "ins_op1 i \<in> irefs J' \<and> \<not> int_ty (ins_t (jir J' (ins_op1 i)))"
    if "ins_op1 i \<in> irefs J \<and> \<not> int_ty (ins_t (jir J (ins_op1 i)))"
    using that ext_irefs [OF e] ext_fields [OF e] by metis
  ultimately show ?thesis using s unfolding slot_refs_def by (elim conjE) (intro conjI; blast)
qed

lemma slot_ok_ext: "ext J J' \<Longrightarrow> slot_ok J r \<Longrightarrow> jir J' r = jir J r \<Longrightarrow> slot_ok J' r"
  using slot_refs_ext unfolding slot_ok_def by simp

text \<open>A new slot \<open>x\<close> at either end of the buffer, with filler slots \<open>nops\<close>, keeps the invariant.\<close>

definition new_slot :: "jit \<Rightarrow> jit \<Rightarrow> nat \<Rightarrow> nat set \<Rightarrow> irop \<Rightarrow> bool" where
  "new_slot J J' x nops o1 \<longleftrightarrow> jit_ok J \<and>
     irefs J' = insert x (nops \<union> irefs J) \<and> x \<notin> irefs J \<and> x \<notin> nops \<and> nops \<inter> irefs J = {} \<and>
     0x1000 \<le> nk J' \<and> scev_idx J' = scev_idx J \<and> jflags J' = jflags J \<and> nk J' \<le> nk J \<and> nins J \<le> nins J' \<and>
     (\<forall>r \<in> irefs J. jir J' r = jir J r) \<and> (\<forall>r \<in> nops. ins_o (jir J' r) = IR_NOP \<and> ins_t (jir J' r) = IRT_U64) \<and>
     ins_o (jir J' x) = o1 \<and> ins_prev (jir J' x) = chain J o1 \<and> chained o1 \<and> slot_ok J' x \<and>
     chain J' = (chain J)(o1 := x) \<and>
     (o1 = IR_KINT \<longrightarrow> (\<forall>r \<in> irefs J. ins_o (jir J r) = IR_KINT \<longrightarrow> ins_i (jir J r) \<noteq> ins_i (jir J' x))) \<and>
     (o1 = IR_KINT64 \<longrightarrow> (\<forall>r \<in> irefs J. ins_o (jir J r) = IR_KINT64 \<longrightarrow> ins_u64 (jir J r) \<noteq> ins_u64 (jir J' x)))"

lemma new_slotD:
  assumes "new_slot J J' x nops o1"
  shows "jit_ok J" "irefs J' = insert x (nops \<union> irefs J)" "x \<notin> irefs J" "x \<notin> nops" "nops \<inter> irefs J = {}"
    "0x1000 \<le> nk J'" "nk J' \<le> nk J" "nins J \<le> nins J'" "\<And>r. r \<in> irefs J \<Longrightarrow> jir J' r = jir J r"
    "\<And>r. r \<in> nops \<Longrightarrow> ins_o (jir J' r) = IR_NOP"
    "ins_o (jir J' x) = o1" "ins_prev (jir J' x) = chain J o1" "chained o1" "slot_ok J' x" "chain J' = (chain J)(o1 := x)"
    "\<And>r. o1 = IR_KINT \<Longrightarrow> r \<in> irefs J \<Longrightarrow> ins_o (jir J r) = IR_KINT \<Longrightarrow> ins_i (jir J r) \<noteq> ins_i (jir J' x)"
    "\<And>r. o1 = IR_KINT64 \<Longrightarrow> r \<in> irefs J \<Longrightarrow> ins_o (jir J r) = IR_KINT64 \<Longrightarrow> ins_u64 (jir J r) \<noteq> ins_u64 (jir J' x)"
    "\<And>r. r \<in> nops \<Longrightarrow> ins_t (jir J' r) = IRT_U64"
  using assms unfolding new_slot_def by blast+

lemma new_slot_scev: "new_slot J J' x nops o1 \<Longrightarrow> scev_idx J' = scev_idx J"
  unfolding new_slot_def by blast

lemma new_slot_jflag: "new_slot J J' x nops o1 \<Longrightarrow> jflag J' m = jflag J m"
  unfolding new_slot_def jflag_def by simp

lemma new_slot_ext: "new_slot J J' x nops o1 \<Longrightarrow> ext J J'"
  using new_slotD(7-9) [of J J' x nops o1] by (simp add: ext_def)

lemma nop_slot: "ins_o (jir J r) = IR_NOP \<Longrightarrow> ins_t (jir J r) = IRT_U64 \<Longrightarrow> slot_ok J r"
  by (simp add: slot_ok_defs Let_def op_value_def op_guard_def covered_def irt_is64_def)

lemma new_slot_ops:
  assumes "new_slot J J' x nops o1" and "chained o2"
  shows "{r \<in> irefs J'. ins_o (jir J' r) = o2} = (if o2 = o1 then {x} else {}) \<union> {r \<in> irefs J. ins_o (jir J r) = o2}"
proof -
  note D = new_slotD [OF assms(1)]
  have "o2 \<noteq> IR_NOP" using assms(2) by (simp add: chained_def)
  then show ?thesis using D(2,3,9,10,11) by auto
qed

lemma new_slot_chain:
  assumes ns: "new_slot J J' x nops o1" and c: "chained o2"
  shows "chain_ok J' o2"
proof -
  note D = new_slotD [OF ns]
  obtain cs where cs: "linked (jir J) (chain J o2) cs" "distinct cs" "set cs = {r \<in> irefs J. ins_o (jir J r) = o2}"
    using jit_okD(5) [OF D(1) c] by (auto simp: chain_ok_def)
  have l: "linked (jir J') (chain J o2) cs" by (rule linked_sub [OF cs(1)]) (use cs(3) D(9) in auto)
  show ?thesis
  proof (cases "o2 = o1")
    case True
    have "x \<in> irefs J'" using D(2) by blast
    then have "0 < x" using D(6) by (simp add: irefs_def)
    then have "linked (jir J') (chain J' o2) (x # cs)" using True l D(12,15) by simp
    moreover have "distinct (x # cs)" using cs D(3) by auto
    moreover have "set (x # cs) = {r \<in> irefs J'. ins_o (jir J' r) = o2}"
      using True cs(3) new_slot_ops [OF ns c] by auto
    ultimately show ?thesis unfolding chain_ok_def by blast
  next
    case False
    have "linked (jir J') (chain J' o2) cs" using False l D(15) by simp
    moreover have "set cs = {r \<in> irefs J'. ins_o (jir J' r) = o2}" using False cs(3) new_slot_ops [OF ns c] by auto
    ultimately show ?thesis using cs(2) unfolding chain_ok_def by blast
  qed
qed

lemma new_slot_inj:
  assumes ns: "new_slot J J' x nops o1" and "inj_on (\<lambda>r. f (jir J r)) {r \<in> irefs J. ins_o (jir J r) = o2}"
    and c: "chained o2" and "o1 = o2 \<Longrightarrow> \<forall>r \<in> irefs J. ins_o (jir J r) = o2 \<longrightarrow> f (jir J r) \<noteq> f (jir J' x)"
  shows "inj_on (\<lambda>r. f (jir J' r)) {r \<in> irefs J'. ins_o (jir J' r) = o2}"
proof -
  note D = new_slotD [OF ns]
  have "inj_on (\<lambda>r. f (jir J' r)) {r \<in> irefs J. ins_o (jir J r) = o2}"
    using assms(2) D(9) by (simp add: inj_on_def)
  then show ?thesis using assms(4) D(3,9) unfolding new_slot_ops [OF ns c]
    by (cases "o2 = o1") (auto simp: inj_on_def)
qed

lemma new_slot_ok: "new_slot J J' x nops o1 \<Longrightarrow> jit_ok J'"
proof -
  assume ns: "new_slot J J' x nops o1"
  note D = new_slotD [OF ns]
  have "slot_ok J' r" if "r \<in> irefs J'" for r
  proof -
    consider "r = x" | "r \<in> nops" | "r \<in> irefs J" using \<open>r \<in> irefs J'\<close> D(2) by blast
    then show ?thesis
    proof cases
      case 3
      then show ?thesis using slot_ok_ext [OF new_slot_ext [OF ns] jit_okD(4) [OF D(1) 3] D(9) [OF 3]] by simp
    qed (use D(10,14,18) nop_slot in simp_all)
  qed
  moreover have "inj_on (\<lambda>r. ins_i (jir J' r)) {r \<in> irefs J'. ins_o (jir J' r) = IR_KINT}"
    using D(1,16) by (intro new_slot_inj [OF ns]) (auto simp: jit_ok_def chained_def)
  moreover have "inj_on (\<lambda>r. ins_u64 (jir J' r)) {r \<in> irefs J'. ins_o (jir J' r) = IR_KINT64}"
    using D(1,17) by (intro new_slot_inj [OF ns]) (auto simp: jit_ok_def chained_def)
  moreover have "nk J' \<le> REF_TRUE" "REF_BIAS < nins J'" using jit_okD(2,3) [OF D(1)] D(7,8) by linarith+
  moreover have "REF_NIL \<in> irefs J" using jit_okD(2,3) [OF D(1)] by (simp add: irefs_def)
  then have "scev_idx J' = REF_NIL" "\<not> int_ty (ins_t (jir J' REF_NIL))"
    using jit_okD2 [OF D(1)] new_slot_scev [OF ns] D(9) [of REF_NIL] by simp_all
  ultimately show ?thesis using D(6) new_slot_chain [OF ns] new_slot_jflag [OF ns] jit_okD3 [OF D(1)] unfolding jit_ok_def by blast
qed

text \<open>Executions of the extended trace.\<close>

lemma ins_sat_agree:
  assumes "jit_ok J" and "r \<in> irefs J" and "agree J v v'"
  shows "ins_sat v' r (jir J r) = ins_sat v r (jir J r)"
proof -
  have "typed J (jir J r)" if "covered (jir J r)"
    using jit_okD(4) [OF assms(1,2)] that unfolding slot_ok_defs Let_def by blast
  then have "covered (jir J r) \<Longrightarrow> eval v' (jir J r) = eval v (jir J r) \<and> guard v' (jir J r) = guard v (jir J r)"
    using agree_eval [OF assms(3)] by blast
  moreover have "v' r = v r" using assms(2,3) by (simp add: agree_def)
  ultimately show ?thesis unfolding ins_sat_def by metis
qed

lemma sat_agree: "jit_ok J \<Longrightarrow> agree J v v' \<Longrightarrow> sat J v' = sat J v"
  unfolding sat_def using ins_sat_agree by blast

lemma new_slot_sat_old:
  assumes "new_slot J J' x nops o1" and "sat J' v'"
  shows "sat J v'"
proof -
  note D = new_slotD [OF assms(1)]
  have "ins_sat v' r (jir J r)" if "r \<in> irefs J" for r
    using assms(2) D(2) D(9) [OF that] that unfolding sat_def by (metis UnI2 insertI2)
  then show ?thesis unfolding sat_def by blast
qed

lemma new_slot_sat:
  assumes ns: "new_slot J J' x nops o1" and "sat J v" and a: "agree J v v'" and "\<And>r. r \<in> nops \<Longrightarrow> v' r = 0"
    and "ins_sat v' x (jir J' x)"
  shows "sat J' v'"
proof -
  note D = new_slotD [OF ns]
  have "ins_sat v' r (jir J' r)" if "r \<in> irefs J'" for r
  proof -
    consider "r = x" | "r \<in> nops" | "r \<in> irefs J" using \<open>r \<in> irefs J'\<close> D(2) by blast
    then show ?thesis
    proof cases
      case 2
      then show ?thesis using D(10) [OF 2] assms(4) [OF 2]
        by (simp add: ins_sat_def covered_def op_value_def op_guard_def)
    next
      case 3
      then have "sat J v'" using sat_agree [OF D(1) a] assms(2) by simp
      then show ?thesis using 3 D(9) [OF 3] unfolding sat_def by simp
    qed (use assms(5) in simp)
  qed
  then show ?thesis unfolding sat_def by blast
qed

lemma new_slot_cons:
  assumes ns: "new_slot J J' x nops o1" and c: "\<And>v'. v' x = c \<Longrightarrow> ins_sat v' x (jir J' x)"
  shows "cons J J'"
proof -
  note D = new_slotD [OF ns]
  have "\<exists>v'. agree J v v' \<and> sat J' v'" if "sat J v" for v
  proof -
    let ?v = "\<lambda>r. if r = x then c else if r \<in> nops then 0 else v r"
    have "agree J v ?v" using D(3,5) by (auto simp: agree_def)
    moreover have "sat J' ?v"
      by (rule new_slot_sat [OF ns that]) (use calculation c [of ?v] D(4) in auto)
    ultimately show ?thesis by blast
  qed
  then show ?thesis using new_slot_ok [OF ns] new_slot_ext [OF ns] new_slot_sat_old [OF ns]
    unfolding cons_def by blast
qed

section \<open>Interned constants\<close>

lemma ucast_u32_less [simp]: "(ucast (k :: u32) :: u64) < 0x100000000"
  using unat_u32_bound [of k] le_less_trans [OF take_bit_nat_less_eq_self, of "unat k" _ 64]
  by (simp add: word_less_nat_alt unsigned_ucast_eq)

lemma growbot_simps [simp]: "jir (lj_ir_growbot J) = jir J" "chain (lj_ir_growbot J) = chain J"
  "guardemit (lj_ir_growbot J) = guardemit J" "jflags (lj_ir_growbot J) = jflags J" "scev_idx (lj_ir_growbot J) = scev_idx J"
  by (simp_all add: lj_ir_growbot_def Let_def)

lemma growtop_simps [simp]: "jir (lj_ir_growtop J) = jir J" "chain (lj_ir_growtop J) = chain J"
  "guardemit (lj_ir_growtop J) = guardemit J" "jflags (lj_ir_growtop J) = jflags J" "scev_idx (lj_ir_growtop J) = scev_idx J"
  by (simp_all add: lj_ir_growtop_def Let_def)

lemma kint_fresh:
  assumes w: "chain_walk (\<lambda>i. ins_i i = k) (jir J) 0 (nins J) (chain J IR_KINT) = None"
    and k: "lj_ir_kint J k = (J', x)"
  shows "x = nk J - 1" "nk J' = x" "nins J' = nins J"
      "jir J' = (jir J)(x := (jir J x)\<lparr>ins_i := k, ins_t := IRT_INT, ins_phi := False,
                     ins_guard := False, ins_o := IR_KINT, ins_prev := chain J IR_KINT\<rparr>)"
      "chain J' = (chain J)(IR_KINT := x)" "jflags J' = jflags J" "scev_idx J' = scev_idx J"
proof -
  define J1 where "J1 = (if nk J \<le> irbotlim J then lj_ir_growbot J else J)"
  have f: "jir J1 = jir J" "chain J1 = chain J" "nins J1 = nins J" "jflags J1 = jflags J" "scev_idx J1 = scev_idx J"
    by (simp_all add: J1_def)
  have "J' = J1\<lparr>nk := nk J - 1, jir := (jir J)(nk J - 1 := (jir J (nk J - 1))\<lparr>ins_i := k, ins_t := IRT_INT, ins_phi := False,
                     ins_guard := False, ins_o := IR_KINT, ins_prev := chain J IR_KINT\<rparr>),
      chain := (chain J)(IR_KINT := nk J - 1)\<rparr>" and x: "x = nk J - 1"
    using k unfolding lj_ir_kint_def w option.case ir_nextk_def ir_store_def Let_def prod.case J1_def [symmetric]
    by (auto simp: f)
  then show "x = nk J - 1" "nk J' = x" "nins J' = nins J"
      "jir J' = (jir J)(x := (jir J x)\<lparr>ins_i := k, ins_t := IRT_INT, ins_phi := False,
                     ins_guard := False, ins_o := IR_KINT, ins_prev := chain J IR_KINT\<rparr>)"
      "chain J' = (chain J)(IR_KINT := x)" "jflags J' = jflags J" "scev_idx J' = scev_idx J"
    using f by simp_all
qed

lemma kint64_fresh:
  assumes w: "chain_walk (\<lambda>i. ins_u64 i = k) (jir J) 0 (nins J) (chain J IR_KINT64) = None"
    and k: "lj_ir_kint64 J k = (J', x)"
  shows "x = nk J - 2" "nk J' = x" "nins J' = nins J"
      "\<And>s. s \<noteq> x \<Longrightarrow> s \<noteq> x + 1 \<Longrightarrow> jir J' s = jir J s" "ins_o (jir J' (x + 1)) = IR_NOP \<and> ins_t (jir J' (x + 1)) = IRT_U64" "ins_u64 (jir J' x) = k"
      "ins_t (jir J' x) = IRT_I64" "ins_o (jir J' x) = IR_KINT64" "ins_prev (jir J' x) = chain J IR_KINT64"
      "chain J' = (chain J)(IR_KINT64 := x)" "jflags J' = jflags J" "scev_idx J' = scev_idx J"
proof -
  define y J1 where "y = nk J - 2" and "J1 = (if y < irbotlim J then lj_ir_growbot J else J)"
  have f: "jir J1 = jir J" "chain J1 = chain J" "nins J1 = nins J" "jflags J1 = jflags J" "scev_idx J1 = scev_idx J"
    by (simp_all add: J1_def)
  have "J' = J1\<lparr>nk := y, jir := (jir J)(y + 1 := (jir J (y + 1))\<lparr>ins_o := IR_NOP, ins_t := IRT_U64\<rparr>,
         y := (jir J y)\<lparr>ins_u64 := k, ins_t := IRT_I64, ins_phi := False,
                     ins_guard := False, ins_o := IR_KINT64, ins_op1 := 0, ins_op2 := 0, ins_i := 0, ins_prev := chain J IR_KINT64\<rparr>),
      chain := (chain J)(IR_KINT64 := y)\<rparr>" and x: "x = y"
    using k unfolding lj_ir_kint64_def w option.case ir_nextk64_def ir_store_def Let_def prod.case y_def [symmetric] J1_def [symmetric]
    by (auto simp: f)
  then show "x = nk J - 2" "nk J' = x" "nins J' = nins J"
      "\<And>s. s \<noteq> x \<Longrightarrow> s \<noteq> x + 1 \<Longrightarrow> jir J' s = jir J s" "ins_o (jir J' (x + 1)) = IR_NOP \<and> ins_t (jir J' (x + 1)) = IRT_U64" "ins_u64 (jir J' x) = k"
      "ins_t (jir J' x) = IRT_I64" "ins_o (jir J' x) = IR_KINT64" "ins_prev (jir J' x) = chain J IR_KINT64"
      "chain J' = (chain J)(IR_KINT64 := x)" "jflags J' = jflags J" "scev_idx J' = scev_idx J"
    using f by (simp_all add: y_def)
qed

lemma kint_chained [simp]: "chained IR_KINT" "chained IR_KINT64"
  by (simp_all add: chained_def)

lemma kint_spec:
  assumes ok: "jit_ok J" and k: "lj_ir_kint J k = (J', r)" and nk: "0x1000 \<le> nk J'"
  shows "cons J J'" "r \<in> irefs J'" "ins_o (jir J' r) = IR_KINT" "ins_i (jir J' r) = k"
    "jflags J' = jflags J" "scev_idx J' = scev_idx J"
proof -
  have "cons J J' \<and> r \<in> irefs J' \<and> ins_o (jir J' r) = IR_KINT \<and> ins_i (jir J' r) = k \<and>
      jflags J' = jflags J \<and> scev_idx J' = scev_idx J"
  proof (cases "chain_walk (\<lambda>i. ins_i i = k) (jir J) 0 (nins J) (chain J IR_KINT)")
    case (Some ref)
    then have "J' = J" "r = ref" using k by (simp_all add: lj_ir_kint_def)
    then show ?thesis using chain_ok_walk(1) [OF ok _ Some] cons_refl [OF ok] by simp
  next
    case None
    note f = kint_fresh [OF None k]
    have n: "1 < nk J" "nk J < nins J" using nk f(1-3) jit_okD(2,3) [OF ok] by linarith+
    have refs: "irefs J' = insert r ({} \<union> irefs J)" "r \<notin> irefs J" using n f(1-3) by (auto simp: irefs_def)
    have x: "ins_o (jir J' r) = IR_KINT" "ins_t (jir J' r) = IRT_INT" "ins_i (jir J' r) = k"
      "ins_prev (jir J' r) = chain J IR_KINT" using f by simp_all
    have "r < REF_BIAS" using jit_okD(2) [OF ok] n f(1) by simp
    then have s: "slot_ok J' r" using x by (simp add: slot_ok_defs covered_def op_value_def op_guard_def)
    have ns: "new_slot J J' r {} IR_KINT"
      unfolding new_slot_def using nk ok refs s x f n chain_ok_walk(2) [OF ok _ None] by auto
    have "cons J J'" by (rule new_slot_cons [OF ns, where c = "ucast k"])
      (use x in \<open>simp add: ins_sat_def covered_def op_value_def op_guard_def irt_is64_def\<close>)
    then show ?thesis using x refs f by simp
  qed
  then show "cons J J'" "r \<in> irefs J'" "ins_o (jir J' r) = IR_KINT" "ins_i (jir J' r) = k"
    "jflags J' = jflags J" "scev_idx J' = scev_idx J" by blast+
qed

lemma kint64_spec:
  assumes ok: "jit_ok J" and k: "lj_ir_kint64 J k = (J', r)" and nk: "0x1000 \<le> nk J'"
  shows "cons J J'" "r \<in> irefs J'" "ins_o (jir J' r) = IR_KINT64" "ins_u64 (jir J' r) = k"
    "jflags J' = jflags J" "scev_idx J' = scev_idx J"
proof -
  have "cons J J' \<and> r \<in> irefs J' \<and> ins_o (jir J' r) = IR_KINT64 \<and> ins_u64 (jir J' r) = k \<and>
      jflags J' = jflags J \<and> scev_idx J' = scev_idx J"
  proof (cases "chain_walk (\<lambda>i. ins_u64 i = k) (jir J) 0 (nins J) (chain J IR_KINT64)")
    case (Some ref)
    then have "J' = J" "r = ref" using k by (simp_all add: lj_ir_kint64_def)
    then show ?thesis using chain_ok_walk(1) [OF ok _ Some] cons_refl [OF ok] by simp
  next
    case None
    note f = kint64_fresh [OF None k]
    have n: "2 < nk J" "nk J < nins J" "r = nk J - 2" using nk f(1-3) jit_okD(2,3) [OF ok] by linarith+
    have refs: "irefs J' = insert r ({r + 1} \<union> irefs J)" "r \<notin> irefs J" "r + 1 \<notin> irefs J"
      using n f(1-3) by (auto simp: irefs_def)
    have x: "ins_o (jir J' r) = IR_KINT64" "ins_t (jir J' r) = IRT_I64" "ins_u64 (jir J' r) = k"
      "ins_prev (jir J' r) = chain J IR_KINT64" "ins_o (jir J' (r + 1)) = IR_NOP" "ins_t (jir J' (r + 1)) = IRT_U64" using f by simp_all
    have old: "jir J' s = jir J s" if "s \<in> irefs J" for s
      using that refs f(4) by metis
    have "r < REF_BIAS" using jit_okD(2) [OF ok] n by simp
    then have s: "slot_ok J' r" using x by (simp add: slot_ok_defs covered_def op_value_def op_guard_def irt_is64_def)
    have ns: "new_slot J J' r {r + 1} IR_KINT64"
      unfolding new_slot_def using nk ok refs s x old f(1-3,10-12) n chain_ok_walk(2) [OF ok _ None] by auto
    have "cons J J'" by (rule new_slot_cons [OF ns, where c = k])
      (use x in \<open>simp add: ins_sat_def covered_def op_value_def op_guard_def irt_is64_def\<close>)
    then show ?thesis using x refs f by simp
  qed
  then show "cons J J'" "r \<in> irefs J'" "ins_o (jir J' r) = IR_KINT64" "ins_u64 (jir J' r) = k"
    "jflags J' = jflags J" "scev_idx J' = scev_idx J" by blast+
qed

text \<open>
  C9: constants are interned: \<open>lj_ir_kint\<close> and \<open>lj_ir_kint64\<close> return a reference whose value in every
  execution of the trace is the constant, the same constant always has the same reference, and the
  trace keeps its invariant and its executions. (The room for constants is bounded elsewhere: the
  recorder limits their number, here the references stay above the literals.)
\<close>

theorem lj_ir_kint_interned:
  assumes "jit_ok J" and "lj_ir_kint J k = (J', r)" and "0x1000 \<le> nk J'"
  shows "cons J J' \<and> (\<forall>v. sat J' v \<longrightarrow> v r = ucast k) \<and> lj_ir_kint J' k = (J', r)"
proof -
  note K = kint_spec [OF assms]
  have ok: "jit_ok J'" using K(1) by (simp add: cons_def)
  have "v r = ucast k" if "sat J' v" for v
    using that K(2-4) by (auto simp: sat_def ins_sat_def)
  moreover have "lj_ir_kint J' k = (J', r)"
  proof (cases "chain_walk (\<lambda>i. ins_i i = k) (jir J') 0 (nins J') (chain J' IR_KINT)")
    case None
    then show ?thesis using chain_ok_walk(2) [OF ok _ None K(2,3)] K(4) by simp
  next
    case (Some ref)
    then have "ref \<in> irefs J' \<and> ins_o (jir J' ref) = IR_KINT \<and> ins_i (jir J' ref) = k"
      using chain_ok_walk(1) [OF ok _ Some] by simp
    then have "ref = r" using K(2-4) ok unfolding jit_ok_def inj_on_def by auto
    then show ?thesis using Some by (simp add: lj_ir_kint_def)
  qed
  ultimately show ?thesis using K(1) by blast
qed

lemma chain_walk_0 [simp]: "chain_walk P ir lim f 0 = None"
  by (cases f) simp_all

lemma jit0_ok: "jit_ok jit0"
  by (auto simp: jit_ok_def jit0_def jflag_def JIT_F_OPT_FOLD_def JIT_F_OPT_DEFAULT_def irefs_def slot_ok_defs op_value_def op_guard_def covered_def chain_ok_def chained_def
      inj_on_def int_ty_def intro!: exI [of _ "[]"])

lemma lj_ir_kint_interned_witness:
  "\<exists>J' r. lj_ir_kint jit0 5 = (J', r) \<and> lj_ir_kint J' 5 = (J', r)"
proof -
  obtain J' r where e: "lj_ir_kint jit0 5 = (J', r)" by (cases "lj_ir_kint jit0 5")
  have "chain jit0 IR_KINT = 0" "nk jit0 = REF_TRUE" by (simp_all add: jit0_def)
  then have "nk J' = REF_TRUE - 1" using kint_fresh(1,2) [OF _ e] by simp
  then show ?thesis using lj_ir_kint_interned [OF jit0_ok e] e by simp
qed

section \<open>Emitted instructions\<close>

definition fins_ok :: "jit \<Rightarrow> irins \<Rightarrow> bool" where
  "fins_ok J f \<longleftrightarrow> typed J f \<and>
     (ins_o f = IR_ABC \<longrightarrow> ins_t f = IRT_INT \<and>
        (ins_o (jir J (ins_op2 f)) = IR_KINT \<longrightarrow> 0 \<le> sint (ins_i (jir J (ins_op2 f))))) \<and>
     (ins_o f = IR_MOD \<longrightarrow> ins_o (jir J (ins_op2 f)) = IR_KINT \<longrightarrow> ins_i (jir J (ins_op2 f)) \<noteq> 0)"

text \<open>What an instruction that is not folded away satisfies on top.\<close>

definition emit_ok :: "jit \<Rightarrow> irins \<Rightarrow> bool" where
  "emit_ok J f \<longleftrightarrow> fins_ok J f \<and>
     (ins_o f = IR_BAND \<longrightarrow> irt_is64 (ins_t f) \<longrightarrow> ins_o (jir J (ins_op2 f)) \<noteq> IR_KINT)"

definition like :: "irins \<Rightarrow> irins \<Rightarrow> bool" where
  "like i f \<longleftrightarrow> ins_o i = ins_o f \<and> ins_t i = ins_t f \<and> ins_op1 i = ins_op1 f \<and> ins_op2 i = ins_op2 f"

lemma like_eval: "like i f \<Longrightarrow> eval v i = eval v f \<and> guard v i = guard v f \<and> typed J i = typed J f \<and> covered i = covered f"
  by (simp add: like_def eval_def guard_def typed_def covered_def Let_def)

lemma typed_ops: "typed J f \<Longrightarrow> op_value (ins_o f) \<or> op_guard (ins_o f)" "typed J f \<Longrightarrow> ty_ok (ins_o f) (ins_t f)"
  by (simp_all add: typed_def Let_def)

lemma typed_covered: "typed J f \<Longrightarrow> covered f"
proof -
  assume t: "typed J f"
  have "ins_o f \<noteq> IR_ABC \<Longrightarrow> int_ty (ins_t f)"
    using typed_ops(2) [OF t] by (auto simp: ty_ok_def int_ty_def split: if_splits)
  moreover have "ins_o f = IR_CONV \<Longrightarrow> conv_int (ins_op2 f)" using t by (simp add: typed_def Let_def)
  ultimately show ?thesis using typed_ops(1) [OF t] by (auto simp: covered_def)
qed

lemma typed_below:
  assumes "jit_ok J" and t: "typed J f"
  shows "ins_op1 f < nins J" "ins_op2 f < nins J"
proof -
  show "ins_op1 f < nins J" using typed_op1 [OF t] by (simp add: irefs_def)
  show "ins_op2 f < nins J"
  proof (cases "uses_op2 (ins_o f)")
    case True
    then show ?thesis using typed_op2 [OF t] by (simp add: irefs_def)
  next
    case False
    then have "ins_op2 f = 0 \<or> ins_op2 f < 0x1000 \<or> ins_op2 f \<in> irefs J"
      using t by (auto simp: typed_def Let_def uses_op2_def conv_int_def dest: opnd_irefs)
    then show ?thesis using jit_okD(3) [OF assms(1)] by (auto simp: irefs_def)
  qed
qed

lemma eval_less: "typed J f \<Longrightarrow> \<not> irt_is64 (ins_t f) \<Longrightarrow> eval v f < 0x100000000"
  by (auto simp: typed_def Let_def eval_def conv_def)

lemma op_chained: "op_value o1 \<or> op_guard o1 \<Longrightarrow> chained o1"
  by (auto simp: op_value_def op_guard_def chained_def)

lemma emit_fields:
  assumes "lj_ir_emit J f = (J', r)"
  shows "r = nins J" "nk J' = nk J" "nins J' = nins J + 1" "chain J' = (chain J)(ins_o f := r)"
    "\<And>s. s \<noteq> r \<Longrightarrow> jir J' s = jir J s" "like (jir J' r) f" "ins_prev (jir J' r) = chain J (ins_o f)"
    "jflags J' = jflags J" "scev_idx J' = scev_idx J"
proof -
  define J1 where "J1 = (if nins J \<ge> irtoplim J then lj_ir_growtop J else J)"
  have f: "jir J1 = jir J" "chain J1 = chain J" "nk J1 = nk J" "jflags J1 = jflags J" "scev_idx J1 = scev_idx J"
    by (simp_all add: J1_def)
  note e = assms [unfolded lj_ir_emit_def lj_ir_nextins_def ir_store_def Let_def prod.case J1_def [symmetric]]
  show "r = nins J" "nk J' = nk J" "nins J' = nins J + 1" "chain J' = (chain J)(ins_o f := r)"
    "\<And>s. s \<noteq> r \<Longrightarrow> jir J' s = jir J s" "like (jir J' r) f" "ins_prev (jir J' r) = chain J (ins_o f)"
    "jflags J' = jflags J" "scev_idx J' = scev_idx J"
    using e f by (auto simp: like_def)
qed

lemma emit_new_slot:
  assumes ok: "jit_ok J" and f: "emit_ok J f" and e: "lj_ir_emit J f = (J', r)"
  shows "new_slot J J' r {} (ins_o f)"
proof -
  note F = emit_fields [OF e]
  have t: "typed J f" using f by (simp add: emit_ok_def fins_ok_def)
  have lim: "nk J < nins J" using jit_okD(2,3) [OF ok] by simp
  have refs: "irefs J' = insert r ({} \<union> irefs J)" "r \<notin> irefs J" using F(1-3) lim by (auto simp: irefs_def)
  have old: "jir J' s = jir J s" if "s \<in> irefs J" for s using that refs(2) F(5) by metis
  have ext: "ext J J'" using F(2,3) old by (simp add: ext_def)
  have k: "ins_o f \<noteq> IR_KINT" "ins_o f \<noteq> IR_KINT64" "ins_o f \<noteq> IR_XLOAD" using typed_ops(1) [OF t] by (auto simp: op_value_def op_guard_def)
  have "slot_ok J' r"
  proof -
    have "ins_o f = IR_ABC \<Longrightarrow> ins_op2 f \<in> irefs J" using typed_ABC [OF t] opnd_irefs by blast
    then have "ins_o f = IR_ABC \<longrightarrow> ins_o (jir J' (ins_op2 f)) = IR_KINT \<longrightarrow> 0 \<le> sint (ins_i (jir J' (ins_op2 f)))"
      using f old unfolding emit_ok_def fins_ok_def by auto
    moreover have "typed J' (jir J' r)" using like_eval [OF F(6)] ext_typed [OF ext t] by blast
    moreover have "covered (jir J' r)" using like_eval [OF F(6)] typed_covered [OF t] by blast
    moreover have "ins_op1 f < r" "ins_op2 f < r" "REF_BIAS < r"
      using typed_below [OF ok t] F(1) jit_okD(3) [OF ok] by simp_all
    moreover have "ins_op2 f \<in> irefs J' \<and> ins_o (jir J' (ins_op2 f)) \<noteq> IR_KINT"
      if "ins_o f = IR_BAND" "irt_is64 (ins_t f)"
    proof -
      have "ins_op2 f \<in> irefs J" using typed_op2 [OF t] that(1) by (simp add: uses_op2_def)
      then show ?thesis using that f old refs(1) unfolding emit_ok_def by simp
    qed
    ultimately show ?thesis using k F(6) unfolding slot_ok_defs Let_def like_def by simp
  qed
  moreover have "chained (ins_o f)" using typed_ops(1) [OF t] op_chained by blast
  ultimately show ?thesis unfolding new_slot_def using ok refs jit_okD(1) [OF ok] old k F by (auto simp: like_def)
qed

lemma emit_spec_emit:
  assumes ok: "jit_ok J" and f: "emit_ok J f" and e: "lj_ir_emit J f = (J', r)"
  shows "emit_spec J f J' r"
proof -
  note F = emit_fields [OF e]
  note ns = emit_new_slot [OF assms]
  note D = new_slotD [OF ns]
  have t: "typed J f" using f by (simp add: emit_ok_def fins_ok_def)
  have r: "r \<in> irefs J'" "ins_t (jir J' r) = ins_t f" "ins_o (jir J' r) = ins_o f" using D(2) F(6) by (auto simp: like_def)
  have cov: "covered (jir J' r)" using like_eval [OF F(6)] typed_covered [OF t] by blast
  have ev: "eval v (jir J' r) = eval v f" "guard v (jir J' r) = guard v f" for v using like_eval [OF F(6)] by blast+
  have k: "ins_o f \<noteq> IR_KINT" "ins_o f \<noteq> IR_KINT64" "ins_o f \<noteq> IR_XLOAD"
    using typed_ops(1) [OF t] by (auto simp: op_value_def op_guard_def)
  have s: "ins_sat v r (jir J' r)"
    if "guard v f" "v r = (if op_value (ins_o f) then eval v f else 0)" for v
    using that k r(2,3) ev eval_less [OF t] unfolding ins_sat_def by auto
  have "\<exists>v'. agree J v v' \<and> sat J' v'" if v: "sat J v" "guard v f" for v
  proof -
    let ?v = "v(r := if op_value (ins_o f) then eval v f else 0)"
    have a: "agree J v ?v" using D(3) by (auto simp: agree_def)
    then have "ins_sat ?v r (jir J' r)" using v(2) by (intro s) (simp_all only: agree_eval [OF a t] fun_upd_same)
    then show ?thesis using new_slot_sat [OF ns v(1) a] a by blast
  qed
  moreover have "sat J v' \<and> guard v' f \<and> (op_value (ins_o f) \<longrightarrow> v' r = eval v' f)" if "sat J' v'" for v'
  proof -
    have "ins_sat v' r (jir J' r)" using that r(1) unfolding sat_def by blast
    then show ?thesis using new_slot_sat_old [OF ns that] cov ev r(3) unfolding ins_sat_def by auto
  qed
  moreover have "opnd J' r (irt_is64 (ins_t f))" if "op_value (ins_o f)"
  proof -
    have "int_ty (ins_t f)" using typed_covered [OF t] that by (auto simp: covered_def op_value_def)
    then show ?thesis using r by (simp add: opnd_def)
  qed
  ultimately show ?thesis using new_slot_ok [OF ns] new_slot_ext [OF ns] unfolding emit_spec_def by blast
qed

section \<open>Rollback\<close>

lemma rollback_to_keep: "jir (rollback_to n J) = jir J \<and> nk (rollback_to n J) = nk J"
  by (induction n arbitrary: J) (simp_all add: Let_def)

text \<open>Two states that agree on everything below \<open>nins\<close>.\<close>

definition same_below :: "jit \<Rightarrow> jit \<Rightarrow> bool" where
  "same_below A B \<longleftrightarrow> nins A = nins B \<and> chain A = chain B \<and> nk A = nk B \<and> (\<forall>r < nins B. jir A r = jir B r)"

lemma same_below_refl [simp]: "same_below A A"
  by (simp add: same_below_def)

lemma rollback_cong:
  assumes "same_below A B" and "n \<le> nins B"
  shows "same_below (rollback_to n A) (rollback_to n B)"
  using assms
proof (induction n arbitrary: A B)
  case (Suc n)
  let ?s = "\<lambda>J. J\<lparr>nins := nins J - 1, chain := (chain J)(ins_o (jir J (nins J - 1)) := ins_prev (jir J (nins J - 1)))\<rparr>"
  have "same_below (?s A) (?s B)" using Suc.prems by (auto simp: same_below_def)
  then have "same_below (rollback_to n (?s A)) (rollback_to n (?s B))" using Suc.prems(2) by (intro Suc.IH) simp_all
  then show ?case by (simp add: Let_def)
qed simp

lemma rollback_emit1:
  assumes "same_below A B"
  shows "same_below (rollback_to 1 (fst (lj_ir_emit A f))) B"
proof -
  obtain A' r where e: "lj_ir_emit A f = (A', r)" by (cases "lj_ir_emit A f")
  show ?thesis using assms emit_fields [OF e] by (simp add: e Let_def same_below_def like_def)
qed

lemma rollback_to_Suc: "rollback_to (Suc n) J = rollback_to n (rollback_to 1 J)"
  by (simp add: Let_def)

lemma rollback_emits:
  "nins (fold (\<lambda>f J. fst (lj_ir_emit J f)) fs J) = nins J + length fs \<and>
   same_below (rollback_to (length fs) (fold (\<lambda>f J. fst (lj_ir_emit J f)) fs J)) J"
proof (induction fs rule: rev_induct)
  case (snoc f fs)
  let ?J = "fold (\<lambda>f J. fst (lj_ir_emit J f)) fs J"
  obtain J' r where e: "lj_ir_emit ?J f = (J', r)" by (cases "lj_ir_emit ?J f")
  have "same_below (rollback_to 1 J') ?J" using rollback_emit1 [of ?J ?J f] e by simp
  then have "same_below (rollback_to (length fs) (rollback_to 1 J')) (rollback_to (length fs) ?J)"
    using snoc by (intro rollback_cong) simp_all
  then have "same_below (rollback_to (length fs) (rollback_to 1 J')) J"
    using snoc unfolding same_below_def by auto
  then show ?case using snoc emit_fields(3) [OF e] e by (simp only: fold_append comp_apply fold_simps id_apply) (simp add: Let_def)
qed simp

text \<open>
  C37: a rollback to the reference where an emission started undoes it: the next reference and every
  chain are as they were, whatever instructions were emitted in between, and the instructions below
  it are untouched.
\<close>

theorem lj_ir_rollback_emit:
  "let J' = fold (\<lambda>f J. fst (lj_ir_emit J f)) fs J; R = lj_ir_rollback J' (nins J)
   in nins R = nins J \<and> chain R = chain J \<and> nk R = nk J \<and> (\<forall>r < nins J. jir R r = jir J r)"
  using rollback_emits [of fs J] by (auto simp: Let_def lj_ir_rollback_def same_below_def)

lemma lj_ir_rollback_emit_witness:
  "chain (lj_ir_rollback (fst (lj_ir_emit jit0 (jir jit0 0))) (nins jit0)) = chain jit0"
  using lj_ir_rollback_emit [of "[jir jit0 0]" jit0] by (simp add: Let_def)

end
