(* ===== verification/Lj_Fold.thy ===== *)
theory Lj_Fold
  imports Lj_Ir
begin

text \<open>
  The FOLD engine for the integer instructions of the IR (\<open>src/src/lj_opt_fold.c\<close>). A rule is the list of
  its \<open>LJFOLD\<close> patterns with its \<open>LJFOLDF\<close> function, which sees the instruction \<open>fins\<close> to be emitted and
  its operand instructions \<open>fleft\<close> and \<open>fright\<close>. Some rules emit operands through the engine itself,
  which is their argument \<open>eng\<close>. The rules for floating point numbers, strings, buffers, loads and
  stores are not part of the model.
\<close>

section \<open>Results of fold functions\<close>

datatype jit_error = TRERR_GFAIL | OutOfFuel

datatype foldres =
    NextFold
  | RetryFold jit irins
  | KIntFold jit u32
  | FailFold
  | DropFold jit
  | RefFold jit nat
  | ErrFold jit_error

type_synonym engine = "jit \<Rightarrow> irins \<Rightarrow> jit_error + jit \<times> nat"
type_synonym foldfun = "engine \<Rightarrow> jit \<Rightarrow> irins \<Rightarrow> foldres"

datatype opat = PAny | POp irop | PLit nat

type_synonym rule = "(irop \<times> opat \<times> opat) list \<times> foldfun"

abbreviation fleft :: "jit \<Rightarrow> irins \<Rightarrow> irins" where "fleft J f \<equiv> jir J (ins_op1 f)"
abbreviation fright :: "jit \<Rightarrow> irins \<Rightarrow> irins" where "fright J f \<equiv> jir J (ins_op2 f)"
abbreviation LeftFold :: "jit \<Rightarrow> irins \<Rightarrow> foldres" where "LeftFold J f \<equiv> RefFold J (ins_op1 f)"
abbreviation RightFold :: "jit \<Rightarrow> irins \<Rightarrow> foldres" where "RightFold J f \<equiv> RefFold J (ins_op2 f)"

definition CondFold :: "jit \<Rightarrow> bool \<Rightarrow> foldres" where
  "CondFold J c = (if c then DropFold J else FailFold)"

definition Int64Fold :: "jit \<Rightarrow> u64 \<Rightarrow> foldres" where
  "Int64Fold J k = (let (J, r) = lj_ir_kint64 J k in RefFold J r)"

definition EmitFold :: "jit \<Rightarrow> irins \<Rightarrow> foldres" where
  "EmitFold J f = (let (J, r) = lj_ir_emit J f in RefFold J r)"

text \<open>\<open>RETRYFOLD\<close> after one operand became an interned constant.\<close>

definition retry_op2_kint :: "jit \<Rightarrow> irins \<Rightarrow> u32 \<Rightarrow> foldres" where
  "retry_op2_kint J f k = (let (J, r) = lj_ir_kint J k in RetryFold J (f\<lparr>ins_op2 := r\<rparr>))"

definition retry_op2_kint64 :: "jit \<Rightarrow> irins \<Rightarrow> u64 \<Rightarrow> foldres" where
  "retry_op2_kint64 J f k = (let (J, r) = lj_ir_kint64 J k in RetryFold J (f\<lparr>ins_op2 := r\<rparr>))"

definition retry_op1_kint :: "jit \<Rightarrow> irins \<Rightarrow> u32 \<Rightarrow> foldres" where
  "retry_op1_kint J f k = (let (J, r) = lj_ir_kint J k in RetryFold J (f\<lparr>ins_op1 := r\<rparr>))"

definition emitir :: "engine \<Rightarrow> jit \<Rightarrow> irins \<Rightarrow> irop \<Rightarrow> nat \<Rightarrow> nat \<Rightarrow> nat \<Rightarrow> jit_error + jit \<times> nat" where
  "emitir eng J f o1 t a b =
     eng J (f\<lparr>ins_o := o1, ins_t := t, ins_phi := False, ins_guard := False, ins_op1 := a, ins_op2 := b\<rparr>)"

definition irconv :: "nat \<Rightarrow> nat \<Rightarrow> nat" where "irconv dst src = dst * 32 + src"

section \<open>Constant folding for 32 bit integers\<close>

fun kfold_intop :: "u32 \<Rightarrow> u32 \<Rightarrow> irop \<Rightarrow> u32" where
  "kfold_intop k1 k2 IR_ADD = k1 + k2"
| "kfold_intop k1 k2 IR_SUB = k1 - k2"
| "kfold_intop k1 k2 IR_MUL = k1 * k2"
| "kfold_intop k1 k2 IR_MOD = lj_vm_modi k1 k2"
| "kfold_intop k1 k2 IR_NEG = - k1"
| "kfold_intop k1 k2 IR_BAND = k1 AND k2"
| "kfold_intop k1 k2 IR_BOR = k1 OR k2"
| "kfold_intop k1 k2 IR_BXOR = k1 XOR k2"
| "kfold_intop k1 k2 IR_BSHL = push_bit (unat (k2 AND 31)) k1"
| "kfold_intop k1 k2 IR_BSHR = drop_bit (unat (k2 AND 31)) k1"
| "kfold_intop k1 k2 IR_BSAR = signed_drop_bit (unat (k2 AND 31)) k1"
| "kfold_intop k1 k2 IR_BROL = rol_w k1 (unat (k2 AND 31))"
| "kfold_intop k1 k2 IR_BROR = ror_w k1 (unat (k2 AND 31))"
| "kfold_intop k1 k2 IR_MIN = (if sint k1 < sint k2 then k1 else k2)"
| "kfold_intop k1 k2 IR_MAX = (if sint k1 > sint k2 then k1 else k2)"
| "kfold_intop k1 k2 _ = k1"

definition fold_kfold_intarith :: rule where
  "fold_kfold_intarith =
     ([(IR_ADD, POp IR_KINT, POp IR_KINT), (IR_SUB, POp IR_KINT, POp IR_KINT), (IR_MUL, POp IR_KINT, POp IR_KINT),
       (IR_MOD, POp IR_KINT, POp IR_KINT), (IR_NEG, POp IR_KINT, POp IR_KINT), (IR_BAND, POp IR_KINT, POp IR_KINT),
       (IR_BOR, POp IR_KINT, POp IR_KINT), (IR_BXOR, POp IR_KINT, POp IR_KINT), (IR_BSHL, POp IR_KINT, POp IR_KINT),
       (IR_BSHR, POp IR_KINT, POp IR_KINT), (IR_BSAR, POp IR_KINT, POp IR_KINT), (IR_BROL, POp IR_KINT, POp IR_KINT),
       (IR_BROR, POp IR_KINT, POp IR_KINT), (IR_MIN, POp IR_KINT, POp IR_KINT), (IR_MAX, POp IR_KINT, POp IR_KINT)],
      \<lambda>eng J f. KIntFold J (kfold_intop (ins_i (fleft J f)) (ins_i (fright J f)) (ins_o f)))"

text \<open>
  The code computes the sum, difference or product as a double. The first two are exact, and where the
  product of two 32-bit integers is rounded it is far outside of the 32-bit range, so the test is the
  one on the exact integer.
\<close>

definition ovarith :: "irop \<Rightarrow> u32 \<Rightarrow> u32 \<Rightarrow> int" where
  "ovarith o1 a b =
     (case o1 of IR_ADDOV \<Rightarrow> sint a + sint b | IR_SUBOV \<Rightarrow> sint a - sint b | _ \<Rightarrow> sint a * sint b)"

definition fold_kfold_intovarith :: rule where
  "fold_kfold_intovarith =
     ([(IR_ADDOV, POp IR_KINT, POp IR_KINT), (IR_SUBOV, POp IR_KINT, POp IR_KINT), (IR_MULOV, POp IR_KINT, POp IR_KINT)],
      \<lambda>eng J f. let n = ovarith (ins_o f) (ins_i (fleft J f)) (ins_i (fright J f)); k = word_of_int n :: u32 in
        if n \<noteq> sint k then FailFold else KIntFold J k)"

definition fold_kfold_bnot :: rule where
  "fold_kfold_bnot = ([(IR_BNOT, POp IR_KINT, PLit 0)], \<lambda>eng J f. KIntFold J (NOT (ins_i (fleft J f))))"

definition fold_kfold_bswap :: rule where
  "fold_kfold_bswap = ([(IR_BSWAP, POp IR_KINT, PLit 0)], \<lambda>eng J f. KIntFold J (lj_bswap (ins_i (fleft J f))))"

definition fold_kfold_intcomp :: rule where
  "fold_kfold_intcomp =
     ([(IR_LT, POp IR_KINT, POp IR_KINT), (IR_GE, POp IR_KINT, POp IR_KINT), (IR_LE, POp IR_KINT, POp IR_KINT),
       (IR_GT, POp IR_KINT, POp IR_KINT), (IR_ULT, POp IR_KINT, POp IR_KINT), (IR_UGE, POp IR_KINT, POp IR_KINT),
       (IR_ULE, POp IR_KINT, POp IR_KINT), (IR_UGT, POp IR_KINT, POp IR_KINT), (IR_ABC, POp IR_KINT, POp IR_KINT)],
      \<lambda>eng J f. let a = ins_i (fleft J f); b = ins_i (fright J f) in
        case ins_o f of
          IR_LT \<Rightarrow> CondFold J (sint a < sint b)
        | IR_GE \<Rightarrow> CondFold J (sint a \<ge> sint b)
        | IR_LE \<Rightarrow> CondFold J (sint a \<le> sint b)
        | IR_GT \<Rightarrow> CondFold J (sint a > sint b)
        | IR_ULT \<Rightarrow> CondFold J (a < b)
        | IR_UGE \<Rightarrow> CondFold J (a \<ge> b)
        | IR_ULE \<Rightarrow> CondFold J (a \<le> b)
        | IR_ABC \<Rightarrow> CondFold J (a > b)
        | IR_UGT \<Rightarrow> CondFold J (a > b)
        | _ \<Rightarrow> FailFold)"

definition fold_kfold_intcomp0 :: rule where
  "fold_kfold_intcomp0 =
     ([(IR_UGE, PAny, POp IR_KINT)], \<lambda>eng J f. if ins_i (fright J f) = 0 then DropFold J else NextFold)"

section \<open>Constant folding for 64 bit integers\<close>

text \<open>
  The right shift and the rotates work on the lower 32 bits of the constant, as the code does. A count
  above 31 is undefined there in C; the model takes it modulo 32, as the shift instructions do.
\<close>

fun kfold_int64arith :: "u64 \<Rightarrow> u64 \<Rightarrow> irop \<Rightarrow> u64" where
  "kfold_int64arith k1 k2 IR_ADD = k1 + k2"
| "kfold_int64arith k1 k2 IR_SUB = k1 - k2"
| "kfold_int64arith k1 k2 IR_MUL = k1 * k2"
| "kfold_int64arith k1 k2 IR_BAND = k1 AND k2"
| "kfold_int64arith k1 k2 IR_BOR = k1 OR k2"
| "kfold_int64arith k1 k2 IR_BXOR = k1 XOR k2"
| "kfold_int64arith k1 k2 IR_BSHL = push_bit (unat (k2 AND 63)) k1"
| "kfold_int64arith k1 k2 IR_BSHR = scast (drop_bit (unat (k2 AND 63) mod 32) (ucast k1 :: u32))"
| "kfold_int64arith k1 k2 IR_BSAR = drop_bit (unat (k2 AND 63)) k1"
| "kfold_int64arith k1 k2 IR_BROL = scast (rol_w (ucast k1 :: u32) (unat (k2 AND 63) mod 32))"
| "kfold_int64arith k1 k2 IR_BROR = scast (ror_w (ucast k1 :: u32) (unat (k2 AND 63) mod 32))"
| "kfold_int64arith k1 k2 _ = k1"

definition fold_kfold_int64arith :: rule where
  "fold_kfold_int64arith =
     ([(IR_ADD, POp IR_KINT64, POp IR_KINT64), (IR_SUB, POp IR_KINT64, POp IR_KINT64),
       (IR_MUL, POp IR_KINT64, POp IR_KINT64), (IR_BAND, POp IR_KINT64, POp IR_KINT64),
       (IR_BOR, POp IR_KINT64, POp IR_KINT64), (IR_BXOR, POp IR_KINT64, POp IR_KINT64)],
      \<lambda>eng J f. Int64Fold J (kfold_int64arith (ins_u64 (fleft J f)) (ins_u64 (fright J f)) (ins_o f)))"

definition fold_kfold_int64arith2 :: rule where
  "fold_kfold_int64arith2 =
     ([(IR_DIV, POp IR_KINT64, POp IR_KINT64), (IR_MOD, POp IR_KINT64, POp IR_KINT64),
       (IR_POW, POp IR_KINT64, POp IR_KINT64)],
      \<lambda>eng J f. let k1 = ins_u64 (fleft J f); k2 = ins_u64 (fright J f) in
        if ins_t f = IRT_I64 then
          Int64Fold J (if ins_o f = IR_DIV then lj_carith_divi64 k1 k2
                       else if ins_o f = IR_MOD then lj_carith_modi64 k1 k2 else lj_carith_powi64 k1 k2)
        else
          Int64Fold J (if ins_o f = IR_DIV then lj_carith_divu64 k1 k2
                       else if ins_o f = IR_MOD then lj_carith_modu64 k1 k2 else lj_carith_powu64 k1 k2))"

fun shift_of :: "irop \<Rightarrow> shift_op" where
  "shift_of IR_BSHL = SHL" | "shift_of IR_BSHR = SHR" | "shift_of IR_BSAR = SAR"
| "shift_of IR_BROL = ROL" | "shift_of _ = ROR"

definition fold_kfold_int64shift :: rule where
  "fold_kfold_int64shift =
     ([(IR_BSHL, POp IR_KINT64, POp IR_KINT), (IR_BSHR, POp IR_KINT64, POp IR_KINT),
       (IR_BSAR, POp IR_KINT64, POp IR_KINT), (IR_BROL, POp IR_KINT64, POp IR_KINT),
       (IR_BROR, POp IR_KINT64, POp IR_KINT)],
      \<lambda>eng J f. let k = ins_u64 (fleft J f); sh = ins_i (fright J f) AND 63 in
        Int64Fold J (lj_carith_shift64 k sh (shift_of (ins_o f))))"

definition fold_kfold_bnot64 :: rule where
  "fold_kfold_bnot64 = ([(IR_BNOT, POp IR_KINT64, PLit 0)], \<lambda>eng J f. Int64Fold J (NOT (ins_u64 (fleft J f))))"

definition fold_kfold_bswap64 :: rule where
  "fold_kfold_bswap64 =
     ([(IR_BSWAP, POp IR_KINT64, PLit 0)], \<lambda>eng J f. Int64Fold J (lj_bswap64 (ins_u64 (fleft J f))))"

definition fold_kfold_int64comp :: rule where
  "fold_kfold_int64comp =
     ([(IR_LT, POp IR_KINT64, POp IR_KINT64), (IR_GE, POp IR_KINT64, POp IR_KINT64),
       (IR_LE, POp IR_KINT64, POp IR_KINT64), (IR_GT, POp IR_KINT64, POp IR_KINT64),
       (IR_ULT, POp IR_KINT64, POp IR_KINT64), (IR_UGE, POp IR_KINT64, POp IR_KINT64),
       (IR_ULE, POp IR_KINT64, POp IR_KINT64), (IR_UGT, POp IR_KINT64, POp IR_KINT64)],
      \<lambda>eng J f. let a = ins_u64 (fleft J f); b = ins_u64 (fright J f) in
        case ins_o f of
          IR_LT \<Rightarrow> CondFold J (sint a < sint b)
        | IR_GE \<Rightarrow> CondFold J (sint a \<ge> sint b)
        | IR_LE \<Rightarrow> CondFold J (sint a \<le> sint b)
        | IR_GT \<Rightarrow> CondFold J (sint a > sint b)
        | IR_ULT \<Rightarrow> CondFold J (a < b)
        | IR_UGE \<Rightarrow> CondFold J (a \<ge> b)
        | IR_ULE \<Rightarrow> CondFold J (a \<le> b)
        | IR_UGT \<Rightarrow> CondFold J (a > b)
        | _ \<Rightarrow> FailFold)"

definition fold_kfold_int64comp0 :: rule where
  "fold_kfold_int64comp0 =
     ([(IR_UGE, PAny, POp IR_KINT64)], \<lambda>eng J f. if ins_u64 (fright J f) = 0 then DropFold J else NextFold)"

section \<open>Constant folding of conversions and equality checks\<close>

definition fold_kfold_conv_kint_ext :: rule where
  "fold_kfold_conv_kint_ext =
     ([(IR_CONV, POp IR_KINT, PLit (irconv IRT_INT IRT_I8)), (IR_CONV, POp IR_KINT, PLit (irconv IRT_INT IRT_U8)),
       (IR_CONV, POp IR_KINT, PLit (irconv IRT_INT IRT_I16)), (IR_CONV, POp IR_KINT, PLit (irconv IRT_INT IRT_U16))],
      \<lambda>eng J f. let k = ins_i (fleft J f); src = ins_op2 f mod 32 in
        KIntFold J (if src = IRT_I8 then scast (ucast k :: byte)
                    else if src = IRT_U8 then ucast (ucast k :: byte)
                    else if src = IRT_I16 then scast (ucast k :: u16)
                    else ucast (ucast k :: u16)))"

definition ircv_sext :: "nat \<Rightarrow> bool" where "ircv_sext m \<longleftrightarrow> m div 2048 mod 2 = 1"

definition fold_kfold_conv_kint_i64 :: rule where
  "fold_kfold_conv_kint_i64 =
     ([(IR_CONV, POp IR_KINT, PLit (irconv IRT_I64 IRT_INT)), (IR_CONV, POp IR_KINT, PLit (irconv IRT_U64 IRT_INT)),
       (IR_CONV, POp IR_KINT, PLit (irconv IRT_I64 IRT_U32)), (IR_CONV, POp IR_KINT, PLit (irconv IRT_U64 IRT_U32))],
      \<lambda>eng J f. if ircv_sext (ins_op2 f) then Int64Fold J (scast (ins_i (fleft J f)))
                 else Int64Fold J (ucast (ins_i (fleft J f))))"

definition fold_kfold_conv_kint64_int_i64 :: rule where
  "fold_kfold_conv_kint64_int_i64 =
     ([(IR_CONV, POp IR_KINT64, PLit (irconv IRT_INT IRT_I64)), (IR_CONV, POp IR_KINT64, PLit (irconv IRT_U32 IRT_I64))],
      \<lambda>eng J f. KIntFold J (ucast (ins_u64 (fleft J f))))"

definition fold_kfold_kref :: rule where
  "fold_kfold_kref =
     ([(IR_EQ, POp IR_KINT, POp IR_KINT), (IR_NE, POp IR_KINT, POp IR_KINT),
       (IR_EQ, POp IR_KINT64, POp IR_KINT64), (IR_NE, POp IR_KINT64, POp IR_KINT64)],
      \<lambda>eng J f. CondFold J ((ins_op1 f = ins_op2 f) \<noteq> (ins_o f = IR_NE)))"

section \<open>Algebraic shortcuts\<close>

definition fold_shortcut_leftleft :: rule where
  "fold_shortcut_leftleft =
     ([(IR_NEG, POp IR_NEG, PAny), (IR_BNOT, POp IR_BNOT, PLit 0), (IR_BSWAP, POp IR_BSWAP, PLit 0)],
      \<lambda>eng J f. if ins_phi (fleft J f) then NextFold else RefFold J (ins_op1 (fleft J f)))"

definition fold_simplify_numadd_negx :: rule where
  "fold_simplify_numadd_negx =
     ([(IR_ADD, POp IR_NEG, PAny)],
      \<lambda>eng J f. if ins_phi (fleft J f) then NextFold
        else RetryFold J (f\<lparr>ins_o := IR_SUB, ins_op1 := ins_op2 f, ins_op2 := ins_op1 (fleft J f)\<rparr>))"

definition fold_simplify_numadd_xneg :: rule where
  "fold_simplify_numadd_xneg =
     ([(IR_ADD, PAny, POp IR_NEG)],
      \<lambda>eng J f. if ins_phi (fright J f) then NextFold
        else RetryFold J (f\<lparr>ins_o := IR_SUB, ins_op2 := ins_op1 (fright J f)\<rparr>))"

definition fold_simplify_numsub_xneg :: rule where
  "fold_simplify_numsub_xneg =
     ([(IR_SUB, PAny, POp IR_NEG)],
      \<lambda>eng J f. if ins_phi (fright J f) then NextFold
        else RetryFold J (f\<lparr>ins_o := IR_ADD, ins_op2 := ins_op1 (fright J f)\<rparr>))"

definition fold_simplify_nummuldiv_negneg :: rule where
  "fold_simplify_nummuldiv_negneg =
     ([(IR_MUL, POp IR_NEG, POp IR_NEG), (IR_DIV, POp IR_NEG, POp IR_NEG)],
      \<lambda>eng J f. if ins_phi (fleft J f) then NextFold else if ins_phi (fright J f) then NextFold
        else RetryFold J (f\<lparr>ins_op1 := ins_op1 (fleft J f), ins_op2 := ins_op1 (fright J f)\<rparr>))"

section \<open>Simplification of conversions\<close>

definition fold_simplify_conv_int_i64 :: rule where
  "fold_simplify_conv_int_i64 =
     ([(IR_CONV, POp IR_CONV, PLit (irconv IRT_INT IRT_I64)), (IR_CONV, POp IR_CONV, PLit (irconv IRT_INT IRT_U64)),
       (IR_CONV, POp IR_CONV, PLit (irconv IRT_U32 IRT_I64)), (IR_CONV, POp IR_CONV, PLit (irconv IRT_U32 IRT_U64))],
      \<lambda>eng J f. if ins_phi (fleft J f) then NextFold
        else let src = ins_op2 (fleft J f) mod 32; dst = ins_op2 f div 32 mod 32 in
          if src = IRT_INT \<or> src = IRT_U32 then
            if src = dst then RefFold J (ins_op1 (fleft J f))
            else RetryFold J (f\<lparr>ins_op2 := dst * 32 + src, ins_op1 := ins_op1 (fleft J f)\<rparr>)
          else NextFold)"

definition fold_simplify_conv_sext :: rule where
  "fold_simplify_conv_sext =
     ([(IR_CONV, PAny, PLit (irconv IRT_I64 IRT_INT)), (IR_CONV, PAny, PLit (irconv IRT_U64 IRT_INT))],
      \<lambda>eng J f. if \<not> ircv_sext (ins_op2 f) then NextFold
        else if ins_phi (fleft J f) then NextFold
        else if ins_o (fleft J f) = IR_XLOAD \<and> (ins_t (fleft J f) = IRT_U8 \<or> ins_t (fleft J f) = IRT_U16)
        then LeftFold J f
        else
          let addk = ins_o (fleft J f) = IR_ADD \<and> irref_isk (ins_op2 (fleft J f));
              ofs = (if addk then sint (ins_i (jir J (ins_op2 (fleft J f)))) else 0);
              ref = (if addk then ins_op1 (fleft J f) else ins_op1 f);
              lo = (if scev_dir J then scev_start J else scev_stop J) in
          if ref = scev_idx J \<and> lo \<noteq> 0 \<and> sint (ins_i (jir J lo)) + ofs \<ge> 0 then LeftFold J f else NextFold)"

definition fold_simplify_conv_narrow :: rule where
  "fold_simplify_conv_narrow =
     ([(IR_CONV, POp IR_ADD, PLit (irconv IRT_INT IRT_I64)), (IR_CONV, POp IR_SUB, PLit (irconv IRT_INT IRT_I64)),
       (IR_CONV, POp IR_MUL, PLit (irconv IRT_INT IRT_I64)), (IR_CONV, POp IR_ADD, PLit (irconv IRT_INT IRT_U64)),
       (IR_CONV, POp IR_SUB, PLit (irconv IRT_INT IRT_U64)), (IR_CONV, POp IR_MUL, PLit (irconv IRT_INT IRT_U64)),
       (IR_CONV, POp IR_ADD, PLit (irconv IRT_U32 IRT_I64)), (IR_CONV, POp IR_SUB, PLit (irconv IRT_U32 IRT_I64)),
       (IR_CONV, POp IR_MUL, PLit (irconv IRT_U32 IRT_I64)), (IR_CONV, POp IR_ADD, PLit (irconv IRT_U32 IRT_U64)),
       (IR_CONV, POp IR_SUB, PLit (irconv IRT_U32 IRT_U64)), (IR_CONV, POp IR_MUL, PLit (irconv IRT_U32 IRT_U64))],
      \<lambda>eng J f. let op = ins_o (fleft J f); t = ins_t f; op1 = ins_op1 (fleft J f); op2 = ins_op2 (fleft J f);
                     mode = ins_op2 f in
        if ins_phi (fleft J f) then NextFold
        else case emitir eng J f IR_CONV IRT_INT op1 mode of
            Inl e \<Rightarrow> ErrFold e
          | Inr (J, r1) \<Rightarrow>
              (case emitir eng J f IR_CONV IRT_INT op2 mode of
                 Inl e \<Rightarrow> ErrFold e
               | Inr (J, r2) \<Rightarrow> RetryFold J (f\<lparr>ins_o := op, ins_t := t, ins_phi := False, ins_guard := False,
                                     ins_op1 := r1, ins_op2 := r2\<rparr>)))"

definition fold_cse_conv :: rule where
  "fold_cse_conv =
     ([(IR_CONV, PAny, PAny)],
      \<lambda>eng J f.
        let op1 = ins_op1 f; op2 = ins_op2 f mod 0x1000 in
        case (if jflag J JIT_F_OPT_CSE then
                chain_walk (\<lambda>ir. ins_op1 ir = op1 \<and> ins_op2 ir mod 0x1000 = op2 \<and> (ins_guard f \<longrightarrow> ins_guard ir))
                  (jir J) op1 (nins J) (chain J IR_CONV)
              else None) of
          Some ref \<Rightarrow> RefFold J ref
        | None \<Rightarrow> EmitFold J f)"

section \<open>Integer algebraic simplifications\<close>

definition fold_simplify_intadd_k :: rule where
  "fold_simplify_intadd_k =
     ([(IR_ADD, PAny, POp IR_KINT), (IR_ADDOV, PAny, POp IR_KINT), (IR_SUBOV, PAny, POp IR_KINT)],
      \<lambda>eng J f. if ins_i (fright J f) = 0 then LeftFold J f else NextFold)"

definition fold_simplify_intmul_k :: rule where
  "fold_simplify_intmul_k =
     ([(IR_MULOV, PAny, POp IR_KINT)],
      \<lambda>eng J f. if ins_i (fright J f) = 0 then RightFold J f
        else if ins_i (fright J f) = 1 then LeftFold J f
        else if ins_i (fright J f) = 2 then RetryFold J (f\<lparr>ins_o := IR_ADDOV, ins_op2 := ins_op1 f\<rparr>)
        else NextFold)"

definition fold_simplify_intsub_k :: rule where
  "fold_simplify_intsub_k =
     ([(IR_SUB, PAny, POp IR_KINT)],
      \<lambda>eng J f. if ins_i (fright J f) = 0 then LeftFold J f
        else retry_op2_kint J (f\<lparr>ins_o := IR_ADD\<rparr>) (- ins_i (fright J f)))"

definition fold_simplify_intsub_kleft :: rule where
  "fold_simplify_intsub_kleft =
     ([(IR_SUB, POp IR_KINT, PAny), (IR_SUB, POp IR_KINT64, PAny)],
      \<lambda>eng J f. if (if ins_o (fleft J f) = IR_KINT then ins_i (fleft J f) = 0 else ins_u64 (fleft J f) = 0)
        then RetryFold J (f\<lparr>ins_o := IR_NEG, ins_op1 := ins_op2 f\<rparr>) else NextFold)"

definition fold_simplify_intadd_k64 :: rule where
  "fold_simplify_intadd_k64 =
     ([(IR_ADD, PAny, POp IR_KINT64)], \<lambda>eng J f. if ins_u64 (fright J f) = 0 then LeftFold J f else NextFold)"

definition fold_simplify_intsub_k64 :: rule where
  "fold_simplify_intsub_k64 =
     ([(IR_SUB, PAny, POp IR_KINT64)],
      \<lambda>eng J f. let k = ins_u64 (fright J f) in
        if k = 0 then LeftFold J f else retry_op2_kint64 J (f\<lparr>ins_o := IR_ADD\<rparr>) (- k))"

definition simplify_intmul_k :: "jit \<Rightarrow> irins \<Rightarrow> u32 \<Rightarrow> foldres" where
  "simplify_intmul_k J f k =
     (if k = 0 then RightFold J f
      else if k = 1 then LeftFold J f
      else if k AND (k - 1) = 0 then retry_op2_kint J (f\<lparr>ins_o := IR_BSHL\<rparr>) (of_nat (lj_fls k))
      else NextFold)"

definition fold_simplify_intmul_k32 :: rule where
  "fold_simplify_intmul_k32 =
     ([(IR_MUL, PAny, POp IR_KINT)],
      \<lambda>eng J f. if sint (ins_i (fright J f)) \<ge> 0 then simplify_intmul_k J f (ins_i (fright J f)) else NextFold)"

definition fold_simplify_intmul_k64 :: rule where
  "fold_simplify_intmul_k64 =
     ([(IR_MUL, PAny, POp IR_KINT64)],
      \<lambda>eng J f. if ins_u64 (fright J f) < 0x80000000 then simplify_intmul_k J f (ucast (ins_u64 (fright J f)))
        else NextFold)"

definition fold_simplify_intmod_k :: rule where
  "fold_simplify_intmod_k =
     ([(IR_MOD, PAny, POp IR_KINT)],
      \<lambda>eng J f. let k = ins_i (fright J f) in
        if sint k > 0 \<and> k AND (k - 1) = 0 then retry_op2_kint J (f\<lparr>ins_o := IR_BAND\<rparr>) (k - 1) else NextFold)"

definition fold_simplify_intmod_kleft :: rule where
  "fold_simplify_intmod_kleft =
     ([(IR_MOD, POp IR_KINT, PAny)],
      \<lambda>eng J f. if ins_i (fleft J f) = 0 then KIntFold J 0 else NextFold)"

definition fold_simplify_intsub :: rule where
  "fold_simplify_intsub =
     ([(IR_SUB, PAny, PAny), (IR_SUBOV, PAny, PAny)],
      \<lambda>eng J f. if ins_op1 f = ins_op2 f \<and> \<not> irt_isnum (ins_t f)
        then if irt_is64 (ins_t f) then Int64Fold J 0 else KIntFold J 0 else NextFold)"

definition fold_simplify_intsubadd_leftcancel :: rule where
  "fold_simplify_intsubadd_leftcancel =
     ([(IR_SUB, POp IR_ADD, PAny)],
      \<lambda>eng J f. if \<not> irt_isnum (ins_t f) then
          if ins_phi (fleft J f) then NextFold
          else if ins_op2 f = ins_op1 (fleft J f) then RefFold J (ins_op2 (fleft J f))
          else if ins_op2 f = ins_op2 (fleft J f) then RefFold J (ins_op1 (fleft J f))
          else NextFold
        else NextFold)"

definition fold_simplify_intsubsub_leftcancel :: rule where
  "fold_simplify_intsubsub_leftcancel =
     ([(IR_SUB, POp IR_SUB, PAny)],
      \<lambda>eng J f. if \<not> irt_isnum (ins_t f) then
          if ins_phi (fleft J f) then NextFold
          else if ins_op2 f = ins_op1 (fleft J f)
          then retry_op1_kint J (f\<lparr>ins_op2 := ins_op2 (fleft J f)\<rparr>) 0
          else NextFold
        else NextFold)"

definition fold_simplify_intsubsub_rightcancel :: rule where
  "fold_simplify_intsubsub_rightcancel =
     ([(IR_SUB, PAny, POp IR_SUB)],
      \<lambda>eng J f. if \<not> irt_isnum (ins_t f) then
          if ins_phi (fright J f) then NextFold
          else if ins_op1 f = ins_op1 (fright J f) then RefFold J (ins_op2 (fright J f))
          else NextFold
        else NextFold)"

definition fold_simplify_intsubadd_rightcancel :: rule where
  "fold_simplify_intsubadd_rightcancel =
     ([(IR_SUB, PAny, POp IR_ADD)],
      \<lambda>eng J f. if \<not> irt_isnum (ins_t f) then
          if ins_phi (fright J f) then NextFold
          else if ins_op1 f = ins_op1 (fright J f)
          then retry_op1_kint J (f\<lparr>ins_op2 := ins_op2 (fright J f)\<rparr>) 0
          else if ins_op1 f = ins_op2 (fright J f)
          then retry_op1_kint J (f\<lparr>ins_op2 := ins_op1 (fright J f)\<rparr>) 0
          else NextFold
        else NextFold)"

definition fold_simplify_intsubaddadd_cancel :: rule where
  "fold_simplify_intsubaddadd_cancel =
     ([(IR_SUB, POp IR_ADD, POp IR_ADD)],
      \<lambda>eng J f. let l = fleft J f; r = fright J f in
        if \<not> irt_isnum (ins_t f) then
          if ins_phi l then NextFold else if ins_phi r then NextFold
          else if ins_op1 l = ins_op1 r then RetryFold J (f\<lparr>ins_op1 := ins_op2 l, ins_op2 := ins_op2 r\<rparr>)
          else if ins_op1 l = ins_op2 r then RetryFold J (f\<lparr>ins_op1 := ins_op2 l, ins_op2 := ins_op1 r\<rparr>)
          else if ins_op2 l = ins_op1 r then RetryFold J (f\<lparr>ins_op1 := ins_op1 l, ins_op2 := ins_op2 r\<rparr>)
          else if ins_op2 l = ins_op2 r then RetryFold J (f\<lparr>ins_op1 := ins_op1 l, ins_op2 := ins_op1 r\<rparr>)
          else NextFold
        else NextFold)"

text \<open>The constant operand of a bit operation, sign-extended to 64 bits.\<close>

definition k64_of :: "irins \<Rightarrow> u64" where
  "k64_of i = (if ins_o i = IR_KINT then scast (ins_i i) else ins_u64 i)"

definition fold_simplify_band_k :: rule where
  "fold_simplify_band_k =
     ([(IR_BAND, PAny, POp IR_KINT), (IR_BAND, PAny, POp IR_KINT64)],
      \<lambda>eng J f. let k = k64_of (fright J f) in
        if k = 0 then RightFold J f else if k = - 1 then LeftFold J f else NextFold)"

definition fold_simplify_bor_k :: rule where
  "fold_simplify_bor_k =
     ([(IR_BOR, PAny, POp IR_KINT), (IR_BOR, PAny, POp IR_KINT64)],
      \<lambda>eng J f. let k = k64_of (fright J f) in
        if k = 0 then LeftFold J f else if k = - 1 then RightFold J f else NextFold)"

definition fold_simplify_bxor_k :: rule where
  "fold_simplify_bxor_k =
     ([(IR_BXOR, PAny, POp IR_KINT), (IR_BXOR, PAny, POp IR_KINT64)],
      \<lambda>eng J f. let k = k64_of (fright J f) in
        if k = 0 then LeftFold J f
        else if k = - 1 then RetryFold J (f\<lparr>ins_o := IR_BNOT, ins_op2 := 0\<rparr>) else NextFold)"

definition shift_mask :: "nat \<Rightarrow> u32" where
  "shift_mask t = (if irt_is64 t then 63 else 31)"

definition fold_simplify_shift_ik :: rule where
  "fold_simplify_shift_ik =
     ([(IR_BSHL, PAny, POp IR_KINT), (IR_BSHR, PAny, POp IR_KINT), (IR_BSAR, PAny, POp IR_KINT),
       (IR_BROL, PAny, POp IR_KINT), (IR_BROR, PAny, POp IR_KINT)],
      \<lambda>eng J f. let mk = shift_mask (ins_t f); k = ins_i (fright J f) AND mk in
        if k = 0 then LeftFold J f
        else if k = 1 \<and> ins_o f = IR_BSHL then RetryFold J (f\<lparr>ins_o := IR_ADD, ins_op2 := ins_op1 f\<rparr>)
        else if k \<noteq> ins_i (fright J f) then retry_op2_kint J f k
        else if ins_o f = IR_BROR then retry_op2_kint J (f\<lparr>ins_o := IR_BROL\<rparr>) ((- k) AND mk)
        else NextFold)"

text \<open>\<open>LJ_TARGET_MASKSHIFT\<close> and \<open>LJ_TARGET_MASKROT\<close> are set on x86.\<close>

definition fold_simplify_shift_andk :: rule where
  "fold_simplify_shift_andk =
     ([(IR_BSHL, PAny, POp IR_BAND), (IR_BSHR, PAny, POp IR_BAND), (IR_BSAR, PAny, POp IR_BAND),
       (IR_BROL, PAny, POp IR_BAND), (IR_BROR, PAny, POp IR_BAND)],
      \<lambda>eng J f. let irk = jir J (ins_op2 (fright J f)) in
        if ins_phi (fright J f) then NextFold
        else if ins_o irk = IR_KINT \<and> ins_i irk AND shift_mask (ins_t f) = shift_mask (ins_t f)
        then RetryFold J (f\<lparr>ins_op2 := ins_op1 (fright J f)\<rparr>)
        else NextFold)"

definition fold_simplify_shift1_ki :: rule where
  "fold_simplify_shift1_ki =
     ([(IR_BSHL, POp IR_KINT, PAny), (IR_BSHR, POp IR_KINT, PAny), (IR_BSHL, POp IR_KINT64, PAny),
       (IR_BSHR, POp IR_KINT64, PAny)],
      \<lambda>eng J f. if k64_of (fleft J f) = 0 then LeftFold J f else NextFold)"

definition fold_simplify_shift2_ki :: rule where
  "fold_simplify_shift2_ki =
     ([(IR_BSAR, POp IR_KINT, PAny), (IR_BROL, POp IR_KINT, PAny), (IR_BROR, POp IR_KINT, PAny),
       (IR_BSAR, POp IR_KINT64, PAny), (IR_BROL, POp IR_KINT64, PAny), (IR_BROR, POp IR_KINT64, PAny)],
      \<lambda>eng J f. let k = k64_of (fleft J f) in if k = 0 \<or> k = - 1 then LeftFold J f else NextFold)"

definition fold_simplify_shiftk_andk :: rule where
  "fold_simplify_shiftk_andk =
     ([(IR_BSHL, POp IR_BAND, POp IR_KINT), (IR_BSHR, POp IR_BAND, POp IR_KINT),
       (IR_BROL, POp IR_BAND, POp IR_KINT), (IR_BROR, POp IR_BAND, POp IR_KINT)],
      \<lambda>eng J f. let irk = jir J (ins_op2 (fleft J f)); g = f\<lparr>ins_op1 := ins_op1 (fleft J f)\<rparr> in
        if ins_phi (fleft J f) then NextFold
        else if ins_o irk = IR_KINT then
          let k = kfold_intop (ins_i irk) (ins_i (fright J f)) (ins_o f) in
          case eng J g of
            Inl e \<Rightarrow> ErrFold e
          | Inr (J, r) \<Rightarrow> retry_op2_kint J (g\<lparr>ins_o := IR_BAND, ins_t := IRT_INT, ins_phi := False,
                              ins_guard := False, ins_op1 := r\<rparr>) k
        else if ins_o irk = IR_KINT64 then
          let k = kfold_int64arith (ins_u64 irk) (scast (ins_i (fright J f))) (ins_o f); l = fleft J f in
          case eng J g of
            Inl e \<Rightarrow> ErrFold e
          | Inr (J, r) \<Rightarrow> retry_op2_kint64 J (g\<lparr>ins_o := ins_o l, ins_t := ins_t l, ins_phi := ins_phi l,
                              ins_guard := ins_guard l, ins_op1 := r\<rparr>) k
        else NextFold)"

definition fold_simplify_andk_shiftk :: rule where
  "fold_simplify_andk_shiftk =
     ([(IR_BAND, POp IR_BSHL, POp IR_KINT), (IR_BAND, POp IR_BSHR, POp IR_KINT)],
      \<lambda>eng J f. let irk = jir J (ins_op2 (fleft J f)) in
        if ins_o irk = IR_KINT \<and> kfold_intop (- 1) (ins_i irk) (ins_o (fleft J f)) = ins_i (fright J f)
        then LeftFold J f else NextFold)"

definition fold_simplify_andor_k :: rule where
  "fold_simplify_andor_k =
     ([(IR_BAND, POp IR_BOR, POp IR_KINT), (IR_BOR, POp IR_BAND, POp IR_KINT)],
      \<lambda>eng J f. let irk = jir J (ins_op2 (fleft J f)) in
        if ins_phi (fleft J f) then NextFold
        else if ins_o irk = IR_KINT \<and>
          kfold_intop (ins_i irk) (ins_i (fright J f)) (ins_o f) = (if ins_o f = IR_BAND then 0 else - 1)
        then RetryFold J (f\<lparr>ins_op1 := ins_op1 (fleft J f)\<rparr>) else NextFold)"

definition fold_simplify_andor_k64 :: rule where
  "fold_simplify_andor_k64 =
     ([(IR_BAND, POp IR_BOR, POp IR_KINT64), (IR_BOR, POp IR_BAND, POp IR_KINT64)],
      \<lambda>eng J f. let irk = jir J (ins_op2 (fleft J f)) in
        if ins_phi (fleft J f) then NextFold
        else if ins_o irk = IR_KINT64 \<and>
          kfold_int64arith (ins_u64 irk) (ins_u64 (fright J f)) (ins_o f) = (if ins_o f = IR_BAND then 0 else - 1)
        then RetryFold J (f\<lparr>ins_op1 := ins_op1 (fleft J f)\<rparr>) else NextFold)"

section \<open>Reassociation\<close>

definition fold_reassoc_intarith_k :: rule where
  "fold_reassoc_intarith_k =
     ([(IR_ADD, POp IR_ADD, POp IR_KINT), (IR_MUL, POp IR_MUL, POp IR_KINT), (IR_BAND, POp IR_BAND, POp IR_KINT),
       (IR_BOR, POp IR_BOR, POp IR_KINT), (IR_BXOR, POp IR_BXOR, POp IR_KINT)],
      \<lambda>eng J f. let irk = jir J (ins_op2 (fleft J f)) in
        if ins_o irk = IR_KINT then
          let k = kfold_intop (ins_i irk) (ins_i (fright J f)) (ins_o f) in
          if k = ins_i irk then LeftFold J f
          else if ins_phi (fleft J f) then NextFold
          else retry_op2_kint J (f\<lparr>ins_op1 := ins_op1 (fleft J f)\<rparr>) k
        else NextFold)"

definition fold_reassoc_intarith_k64 :: rule where
  "fold_reassoc_intarith_k64 =
     ([(IR_ADD, POp IR_ADD, POp IR_KINT64), (IR_MUL, POp IR_MUL, POp IR_KINT64),
       (IR_BAND, POp IR_BAND, POp IR_KINT64), (IR_BOR, POp IR_BOR, POp IR_KINT64),
       (IR_BXOR, POp IR_BXOR, POp IR_KINT64)],
      \<lambda>eng J f. let irk = jir J (ins_op2 (fleft J f)) in
        if ins_o irk = IR_KINT64 then
          let k = kfold_int64arith (ins_u64 irk) (ins_u64 (fright J f)) (ins_o f) in
          if ins_phi (fleft J f) then NextFold
          else retry_op2_kint64 J (f\<lparr>ins_op1 := ins_op1 (fleft J f)\<rparr>) k
        else NextFold)"

definition fold_reassoc_dup :: rule where
  "fold_reassoc_dup =
     ([(IR_MIN, POp IR_MIN, PAny), (IR_MAX, POp IR_MAX, PAny), (IR_BAND, POp IR_BAND, PAny), (IR_BOR, POp IR_BOR, PAny)],
      \<lambda>eng J f. if ins_op2 f = ins_op1 (fleft J f) \<or> ins_op2 f = ins_op2 (fleft J f) then LeftFold J f
        else NextFold)"

definition fold_reassoc_bxor :: rule where
  "fold_reassoc_bxor =
     ([(IR_BXOR, POp IR_BXOR, PAny)],
      \<lambda>eng J f. if ins_phi (fleft J f) then NextFold
        else if ins_op2 f = ins_op1 (fleft J f) then RefFold J (ins_op2 (fleft J f))
        else if ins_op2 f = ins_op2 (fleft J f) then RefFold J (ins_op1 (fleft J f))
        else NextFold)"

definition fold_reassoc_shift :: rule where
  "fold_reassoc_shift =
     ([(IR_BSHL, POp IR_BSHL, POp IR_KINT), (IR_BSHR, POp IR_BSHR, POp IR_KINT), (IR_BSAR, POp IR_BSAR, POp IR_KINT),
       (IR_BROL, POp IR_BROL, POp IR_KINT), (IR_BROR, POp IR_BROR, POp IR_KINT)],
      \<lambda>eng J f. let irk = jir J (ins_op2 (fleft J f)) in
        if ins_phi (fleft J f) then NextFold
        else if ins_o irk = IR_KINT then
          let mk = shift_mask (ins_t f); k = (ins_i irk AND mk) + (ins_i (fright J f) AND mk);
              g = f\<lparr>ins_op1 := ins_op1 (fleft J f)\<rparr> in
          if k > mk then
            if ins_o f = IR_BSHL \<or> ins_o f = IR_BSHR then if mk = 31 then KIntFold J 0 else Int64Fold J 0
            else if ins_o f = IR_BSAR then retry_op2_kint J g mk
            else retry_op2_kint J g (k AND mk)
          else retry_op2_kint J g k
        else NextFold)"

text \<open>The branch for integer constants.\<close>

definition fold_reassoc_minmax_k :: rule where
  "fold_reassoc_minmax_k =
     ([(IR_MIN, POp IR_MIN, POp IR_KINT), (IR_MAX, POp IR_MAX, POp IR_KINT)],
      \<lambda>eng J f. let irk = jir J (ins_op2 (fleft J f)) in
        if ins_o irk = IR_KINT then
          let a = ins_i irk; y = kfold_intop a (ins_i (fright J f)) (ins_o f) in
          if a = y then LeftFold J f
          else if ins_phi (fleft J f) then NextFold
          else retry_op2_kint J (f\<lparr>ins_op1 := ins_op1 (fleft J f)\<rparr>) y
        else NextFold)"

definition fold_reassoc_minmax_left :: rule where
  "fold_reassoc_minmax_left =
     ([(IR_MIN, POp IR_MAX, PAny), (IR_MAX, POp IR_MIN, PAny)],
      \<lambda>eng J f. if ins_op2 f = ins_op1 (fleft J f) \<or> ins_op2 f = ins_op2 (fleft J f) then RightFold J f
        else NextFold)"

definition fold_reassoc_minmax_right :: rule where
  "fold_reassoc_minmax_right =
     ([(IR_MIN, PAny, POp IR_MAX), (IR_MAX, PAny, POp IR_MIN)],
      \<lambda>eng J f. if ins_op1 f = ins_op1 (fright J f) \<or> ins_op1 f = ins_op2 (fright J f) then LeftFold J f
        else NextFold)"

section \<open>Array bounds check elimination\<close>

definition fold_abc_fwd :: rule where
  "fold_abc_fwd =
     ([(IR_ABC, PAny, POp IR_ADD)],
      \<lambda>eng J f.
        if jflag J JIT_F_OPT_ABC \<and> irref_isk (ins_op2 (fright J f)) then
          let add2 = jir J (ins_op1 (fright J f)) in
          if ins_o add2 = IR_ADD \<and> irref_isk (ins_op2 add2) \<and>
             ins_i (jir J (ins_op2 (fright J f))) = - ins_i (jir J (ins_op2 add2)) then
            case chain_walk (\<lambda>ir. ins_op1 ir = ins_op1 f \<and> ins_op2 ir = ins_op1 add2) (jir J)
                (max (ins_op1 add2) (ins_op1 f)) (nins J) (chain J IR_ABC) of
              Some _ \<Rightarrow> DropFold J
            | None \<Rightarrow> NextFold
          else NextFold
        else NextFold)"

definition fold_abc_k :: rule where
  "fold_abc_k =
     ([(IR_ABC, PAny, POp IR_KINT)],
      \<lambda>eng J f.
        if jflag J JIT_F_OPT_ABC then
          let asz = ins_op1 f in
          case chain_walk (\<lambda>ir. ins_op1 ir = asz \<and> irref_isk (ins_op2 ir)) (jir J) asz (nins J) (chain J IR_ABC) of
            Some ref \<Rightarrow>
              let k = ins_i (jir J (ins_op2 (jir J ref))) in
              DropFold (if sint (ins_i (fright J f)) > sint k
                        then ir_store J ref ((jir J ref)\<lparr>ins_op2 := ins_op2 f\<rparr>) else J)
          | None \<Rightarrow> EmitFold J f
        else NextFold)"

definition fold_abc_invar :: rule where
  "fold_abc_invar =
     ([(IR_ABC, PAny, PAny)],
      \<lambda>eng J f. if ins_t f \<noteq> IRT_INT \<and> ins_op1 f < chain J IR_LOOP \<and> \<not> ins_phi (fleft J f) then DropFold J
        else NextFold)"

section \<open>Commutativity\<close>

definition comm_swap :: foldfun where
  "comm_swap eng J f =
     (if ins_op1 f < ins_op2 f then RetryFold J (f\<lparr>ins_op1 := ins_op2 f, ins_op2 := ins_op1 f\<rparr>) else NextFold)"

definition fold_comm_swap :: rule where
  "fold_comm_swap =
     ([(IR_ADD, PAny, PAny), (IR_MUL, PAny, PAny), (IR_ADDOV, PAny, PAny), (IR_MULOV, PAny, PAny)], comm_swap)"

definition fold_comm_equal :: rule where
  "fold_comm_equal =
     ([(IR_EQ, PAny, PAny), (IR_NE, PAny, PAny)],
      \<lambda>eng J f. if ins_op1 f = ins_op2 f \<and> \<not> irt_isnum (ins_t f) then CondFold J (ins_o f = IR_EQ)
        else comm_swap eng J f)"

text \<open>\<open>fins->o ^= 3\<close>: greater and less are exchanged.\<close>

fun flip_cmp :: "irop \<Rightarrow> irop" where
  "flip_cmp IR_LT = IR_GT" | "flip_cmp IR_GT = IR_LT" | "flip_cmp IR_LE = IR_GE" | "flip_cmp IR_GE = IR_LE"
| "flip_cmp IR_ULT = IR_UGT" | "flip_cmp IR_UGT = IR_ULT" | "flip_cmp IR_ULE = IR_UGE" | "flip_cmp IR_UGE = IR_ULE"
| "flip_cmp o1 = o1"

definition fold_comm_comp :: rule where
  "fold_comm_comp =
     ([(IR_LT, PAny, PAny), (IR_GE, PAny, PAny), (IR_LE, PAny, PAny), (IR_GT, PAny, PAny),
       (IR_ULT, PAny, PAny), (IR_UGE, PAny, PAny), (IR_ULE, PAny, PAny), (IR_UGT, PAny, PAny)],
      \<lambda>eng J f. if ins_op1 f = ins_op2 f \<and> \<not> irt_isnum (ins_t f)
        then CondFold J (odd (opnum (ins_o f) XOR (opnum (ins_o f) div 2)))
        else if ins_op1 f < ins_op2 f
        then RetryFold J (f\<lparr>ins_op1 := ins_op2 f, ins_op2 := ins_op1 f, ins_o := flip_cmp (ins_o f)\<rparr>)
        else NextFold)"

definition fold_comm_dup :: rule where
  "fold_comm_dup =
     ([(IR_BAND, PAny, PAny), (IR_BOR, PAny, PAny), (IR_MIN, PAny, PAny), (IR_MAX, PAny, PAny)],
      \<lambda>eng J f. if ins_op1 f = ins_op2 f then LeftFold J f else comm_swap eng J f)"

definition fold_comm_bxor :: rule where
  "fold_comm_bxor =
     ([(IR_BXOR, PAny, PAny)],
      \<lambda>eng J f. if ins_op1 f = ins_op2 f then if irt_is64 (ins_t f) then Int64Fold J 0 else KIntFold J 0
        else comm_swap eng J f)"

section \<open>The engine\<close>

definition fold_rules :: "rule list" where
  "fold_rules =
     [fold_kfold_intarith, fold_kfold_intovarith, fold_kfold_bnot, fold_kfold_bswap, fold_kfold_intcomp,
      fold_kfold_intcomp0, fold_kfold_int64arith, fold_kfold_int64arith2, fold_kfold_int64shift, fold_kfold_bnot64,
      fold_kfold_bswap64, fold_kfold_int64comp, fold_kfold_int64comp0, fold_kfold_conv_kint_ext,
      fold_kfold_conv_kint_i64, fold_kfold_conv_kint64_int_i64, fold_kfold_kref, fold_shortcut_leftleft,
      fold_simplify_numadd_negx, fold_simplify_numadd_xneg, fold_simplify_numsub_xneg,
      fold_simplify_nummuldiv_negneg, fold_simplify_conv_int_i64, fold_simplify_conv_sext,
      fold_simplify_conv_narrow, fold_cse_conv, fold_simplify_intadd_k, fold_simplify_intmul_k,
      fold_simplify_intsub_k, fold_simplify_intsub_kleft, fold_simplify_intadd_k64, fold_simplify_intsub_k64,
      fold_simplify_intmul_k32, fold_simplify_intmul_k64, fold_simplify_intmod_k, fold_simplify_intmod_kleft,
      fold_simplify_intsub, fold_simplify_intsubadd_leftcancel, fold_simplify_intsubsub_leftcancel,
      fold_simplify_intsubsub_rightcancel, fold_simplify_intsubadd_rightcancel, fold_simplify_intsubaddadd_cancel,
      fold_simplify_band_k, fold_simplify_bor_k, fold_simplify_bxor_k, fold_simplify_shift_ik,
      fold_simplify_shift_andk, fold_simplify_shift1_ki, fold_simplify_shift2_ki, fold_simplify_shiftk_andk,
      fold_simplify_andk_shiftk, fold_simplify_andor_k, fold_simplify_andor_k64, fold_reassoc_intarith_k,
      fold_reassoc_intarith_k64, fold_reassoc_dup, fold_reassoc_bxor, fold_reassoc_shift, fold_reassoc_minmax_k,
      fold_reassoc_minmax_left, fold_reassoc_minmax_right, fold_abc_fwd, fold_abc_k, fold_abc_invar, fold_comm_swap,
      fold_comm_equal, fold_comm_comp, fold_comm_dup, fold_comm_bxor]"

text \<open>
  The key of an instruction and of a pattern: opcode, left operand opcode and right operand opcode or
  literal, where 127 and 1023 stand for any operand and 0 for a missing one.
\<close>

fun lpat_num :: "opat \<Rightarrow> nat" where
  "lpat_num PAny = 0x7f" | "lpat_num (POp o1) = opnum o1" | "lpat_num (PLit n) = n"

fun rpat_num :: "opat \<Rightarrow> nat" where
  "rpat_num PAny = 0x3ff" | "rpat_num (POp o1) = opnum o1" | "rpat_num (PLit n) = n"

definition fold_lookup :: "irop \<Rightarrow> nat \<Rightarrow> nat \<Rightarrow> foldfun option" where
  "fold_lookup o1 l r =
     map_option snd (find (\<lambda>(ps, fn). (o1, l, r) \<in> set (map (\<lambda>(q, a, b). (q, lpat_num a, rpat_num b)) ps)) fold_rules)"

definition key_left :: "jit \<Rightarrow> irins \<Rightarrow> nat" where
  "key_left J f = (if ins_op1 f \<ge> nk J then opnum (ins_o (fleft J f)) else 0)"

definition key_right :: "jit \<Rightarrow> irins \<Rightarrow> nat" where
  "key_right J f = (if ins_op2 f \<ge> nk J then opnum (ins_o (fright J f)) else ins_op2 f mod 1024)"

text \<open>From the most specific to the least specific key; \<open>NextFold\<close> is the exhausted search.\<close>

definition fold_step :: "engine \<Rightarrow> jit \<Rightarrow> irins \<Rightarrow> foldres" where
  "fold_step eng J f =
     (let l = key_left J f; r = key_right J f;
          try = (\<lambda>l r next. case fold_lookup (ins_o f) l r of
                   None \<Rightarrow> next | Some fn \<Rightarrow> (case fn eng J f of NextFold \<Rightarrow> next | res \<Rightarrow> res))
      in try l r (try 0x7f r (try l 0x3ff (try 0x7f 0x3ff NextFold))))"

definition lj_opt_cse :: "jit \<Rightarrow> irins \<Rightarrow> jit \<times> nat" where
  "lj_opt_cse J f =
     (case (if jflag J JIT_F_OPT_CSE then
              chain_walk (\<lambda>ir. ins_op1 ir = ins_op1 f \<and> ins_op2 ir = ins_op2 f) (jir J)
                (max (ins_op1 f) (ins_op2 f)) (nins J) (chain J (ins_o f))
            else None) of
        Some ref \<Rightarrow> (J, ref)
      | None \<Rightarrow> lj_ir_emit J f)"

text \<open>\<open>irm_kind\<close>: all integer instructions are normal, a load is not.\<close>

definition irm_normal :: "irop \<Rightarrow> bool" where "irm_normal o1 \<longleftrightarrow> o1 \<noteq> IR_XLOAD \<and> o1 \<noteq> IR_LOOP"

fun lj_opt_fold :: "nat \<Rightarrow> engine" where
  "lj_opt_fold 0 J f = Inl OutOfFuel"
| "lj_opt_fold (Suc n) J f =
     (if jflags J AND JIT_F_OPT_MASK \<noteq> JIT_F_OPT_DEFAULT \<and> \<not> jflag J JIT_F_OPT_FOLD \<and> irm_normal (ins_o f)
      then Inr (lj_opt_cse J f)
      else case fold_step (lj_opt_fold n) J f of
          NextFold \<Rightarrow> Inr (lj_opt_cse J f)
        | RetryFold J' f' \<Rightarrow> lj_opt_fold n J' f'
        | KIntFold J' k \<Rightarrow> Inr (lj_ir_kint J' k)
        | FailFold \<Rightarrow> Inl TRERR_GFAIL
        | DropFold J' \<Rightarrow> Inr (J', REF_DROP)
        | RefFold J' r \<Rightarrow> Inr (J', r)
        | ErrFold e \<Rightarrow> Inl e)"

end
