(* ===== verification/Lj_Fold_Spec.thy ===== *)
theory Lj_Fold_Spec
  imports Lj_Ir_Props Lj_Fold
begin

text \<open>
  What a fold rule has to promise, and the facts on operands, constants and retries that the proofs of
  the rules share.
\<close>

section \<open>The promise of a rule\<close>

text \<open>
  The 64-bit instructions that are left out: for these, rules of the code are wrong, see the theory
  \<open>Lj_Fold_Bugs\<close>.
\<close>

definition supported :: "irins \<Rightarrow> bool" where
  "supported f \<longleftrightarrow> (irt_is64 (ins_t f) \<longrightarrow> ins_o f \<notin> {IR_DIV, IR_MOD, IR_POW, IR_BSHR, IR_BROL, IR_BROR})"

definition pre_ok :: "jit \<Rightarrow> irins \<Rightarrow> bool" where
  "pre_ok J f \<longleftrightarrow> jit_ok J \<and> fins_ok J f \<and> supported f"

definition retry_spec :: "jit \<Rightarrow> irins \<Rightarrow> jit \<Rightarrow> irins \<Rightarrow> bool" where
  "retry_spec J f J' f' \<longleftrightarrow> cons J J' \<and> fins_ok J' f' \<and> supported f' \<and>
     op_value (ins_o f') = op_value (ins_o f) \<and> irt_is64 (ins_t f') = irt_is64 (ins_t f) \<and>
     (\<forall>v. sat J' v \<longrightarrow> guard v f' = guard v f \<and> (op_value (ins_o f) \<longrightarrow> eval v f' = eval v f))"

definition res_ok :: "jit \<Rightarrow> irins \<Rightarrow> foldres \<Rightarrow> bool" where
  "res_ok J f res \<longleftrightarrow>
     (case res of
        NextFold \<Rightarrow> True
      | RetryFold J' f' \<Rightarrow> 0x1000 \<le> nk J' \<longrightarrow> retry_spec J f J' f'
      | KIntFold J' k \<Rightarrow> J' = J \<and> op_value (ins_o f) \<and> (irt_is64 (ins_t f) \<longrightarrow> k = 0) \<and>
          (\<forall>v. sat J v \<longrightarrow> guard v f \<and> eval v f = ucast k)
      | FailFold \<Rightarrow> \<forall>v. sat J v \<longrightarrow> \<not> guard v f
      | DropFold J' \<Rightarrow> \<not> op_value (ins_o f) \<and> emit_spec J f J' REF_DROP
      | RefFold J' r \<Rightarrow> 0x1000 \<le> nk J' \<longrightarrow> emit_spec J f J' r
      | ErrFold e \<Rightarrow> e = TRERR_GFAIL \<longrightarrow> (\<forall>v. sat J v \<longrightarrow> \<not> guard v f))"

text \<open>
  What holds of the engine for every trace: constants are only added, and an instruction without a
  guard does not fail.
\<close>

definition plain :: "irop \<Rightarrow> bool" where "plain o1 \<longleftrightarrow> op_value o1 \<and> o1 \<notin> ov_ops"

definition eng_nk :: "engine \<Rightarrow> bool" where
  "eng_nk eng \<longleftrightarrow> (\<forall>J f. case eng J f of
      Inl e \<Rightarrow> plain (ins_o f) \<longrightarrow> e \<noteq> TRERR_GFAIL
    | Inr (J', r) \<Rightarrow> nk J' \<le> nk J)"

definition eng_ok :: "engine \<Rightarrow> bool" where
  "eng_ok eng \<longleftrightarrow> eng_nk eng \<and> (\<forall>J f. pre_ok J f \<longrightarrow>
     (case eng J f of
        Inl e \<Rightarrow> e = TRERR_GFAIL \<longrightarrow> (\<forall>v. sat J v \<longrightarrow> \<not> guard v f)
      | Inr (J', r) \<Rightarrow> 0x1000 \<le> nk J' \<longrightarrow> emit_spec J f J' r))"

text \<open>The pattern of a rule fits an instruction.\<close>

fun fits_left :: "jit \<Rightarrow> irins \<Rightarrow> opat \<Rightarrow> bool" where
  "fits_left J f PAny = True"
| "fits_left J f (POp o1) = (ins_o (fleft J f) = o1)"
| "fits_left J f (PLit n) = False"

fun fits_right :: "jit \<Rightarrow> irins \<Rightarrow> opat \<Rightarrow> bool" where
  "fits_right J f PAny = True"
| "fits_right J f (POp o1) = (ins_op2 f \<in> irefs J \<and> ins_o (fright J f) = o1)"
| "fits_right J f (PLit n) = (\<not> uses_op2 (ins_o f) \<and> ins_op2 f mod 1024 = n)"

text \<open>
  A pattern with any right operand is tried after those with any left operand, so that a subtraction
  of a constant does not reach one that is specific to the left.
\<close>

definition fits_last :: "jit \<Rightarrow> irins \<Rightarrow> opat \<Rightarrow> opat \<Rightarrow> bool" where
  "fits_last J f l r \<longleftrightarrow> (ins_o f = IR_SUB \<and> l \<noteq> PAny \<and> r = PAny \<longrightarrow> ins_o (fright J f) \<noteq> IR_KINT)"

definition fits :: "jit \<Rightarrow> irins \<Rightarrow> rule \<Rightarrow> bool" where
  "fits J f R \<longleftrightarrow> (\<exists>(o1, l, r) \<in> set (fst R). ins_o f = o1 \<and> fits_left J f l \<and> fits_right J f r \<and> fits_last J f l r)"

definition rule_ok :: "rule \<Rightarrow> bool" where
  "rule_ok R \<longleftrightarrow> (\<forall>eng J f. eng_ok eng \<longrightarrow> pre_ok J f \<longrightarrow> fits J f R \<longrightarrow> res_ok J f (snd R eng J f))"

named_theorems fold_ok \<open>the rules that keep their promise\<close>

section \<open>Operands\<close>

lemma sat_slot: "sat J v \<Longrightarrow> r \<in> irefs J \<Longrightarrow> ins_sat v r (jir J r)"
  by (simp add: sat_def)

lemma opnd_value:
  assumes "jit_ok J" and "opnd J r w" and o: "op_value (ins_o (jir J r))" "ins_o (jir J r) \<noteq> IR_CONV"
  shows "typed J (jir J r)" "irt_is64 (ins_t (jir J r)) = w"
    "sat J v \<Longrightarrow> v r = eval v (jir J r) \<and> guard v (jir J r)"
proof -
  have c: "covered (jir J r)" "r \<in> irefs J" using assms by (auto simp: covered_def opnd_def)
  have "slot_ok J r" using jit_okD(4) assms(1) c(2) by blast
  then show "typed J (jir J r)" using c unfolding slot_ok_defs Let_def by blast
  show "irt_is64 (ins_t (jir J r)) = w" using assms(2) o by (auto simp: opnd_def op_value_def)
  show "sat J v \<Longrightarrow> v r = eval v (jir J r) \<and> guard v (jir J r)"
    using sat_slot [of J v r] c o unfolding ins_sat_def by blast
qed

lemma kint_value: "sat J v \<Longrightarrow> r \<in> irefs J \<Longrightarrow> ins_o (jir J r) = IR_KINT \<Longrightarrow> v r = ucast (ins_i (jir J r))"
  using sat_slot [of J v r] by (simp add: ins_sat_def)

lemma kint64_value: "sat J v \<Longrightarrow> r \<in> irefs J \<Longrightarrow> ins_o (jir J r) = IR_KINT64 \<Longrightarrow> v r = ins_u64 (jir J r)"
  using sat_slot [of J v r] by (simp add: ins_sat_def)

lemma kint_ty: "jit_ok J \<Longrightarrow> r \<in> irefs J \<Longrightarrow> ins_o (jir J r) = IR_KINT \<Longrightarrow> ins_t (jir J r) = IRT_INT"
  using jit_okD(4) [of J r] by (simp add: slot_ok_defs Let_def)

lemma kint64_ty: "jit_ok J \<Longrightarrow> r \<in> irefs J \<Longrightarrow> ins_o (jir J r) = IR_KINT64 \<Longrightarrow> ins_t (jir J r) = IRT_I64"
  using jit_okD(4) [of J r] by (simp add: slot_ok_defs Let_def)

lemma is64_simps [simp]: "irt_is64 IRT_INT = False" "irt_is64 IRT_U32 = False" "irt_is64 IRT_I64" "irt_is64 IRT_U64"
  by (simp_all add: irt_is64_def)

lemma opnd_kint:
  "jit_ok J \<Longrightarrow> opnd J r w \<Longrightarrow> ins_o (jir J r) = IR_KINT \<Longrightarrow> w \<Longrightarrow> ins_i (jir J r) = 0"
  using kint_ty [of J r] by (auto simp: opnd_def)

lemma opnd_kint64: "jit_ok J \<Longrightarrow> opnd J r w \<Longrightarrow> ins_o (jir J r) = IR_KINT64 \<Longrightarrow> w"
  using kint64_ty [of J r] by (auto simp: opnd_def)

lemma opnd_less: "sat J v \<Longrightarrow> opnd J r False \<Longrightarrow> v r < 0x100000000"
  using sat_slot [of J v r] by (simp add: ins_sat_def opnd_def)

lemma ucast_ucast_less: "(x :: u64) < 0x100000000 \<Longrightarrow> ucast (ucast x :: u32) = x"
proof (rule bit_word_eqI)
  fix n assume x: "x < 0x100000000" and n: "n < LENGTH(64)"
  have "unat x < 2 ^ 32" using x by (simp add: word_less_nat_alt)
  then have "bit x n \<Longrightarrow> n < 32" using word_bit_above [of x 32 n] by (auto simp flip: not_le)
  then show "bit (ucast (ucast x :: u32) :: u64) n = bit x n"
    using n by (simp only: bit_ucast_iff possible_bit_word) (auto simp: not_le)
qed

lemma ucast_u32_u64 [simp]: "ucast (ucast (a :: u32) :: u64) = a"
  by (rule bit_word_eqI) (simp add: bit_ucast_iff)

lemma ucast32_inj: "(ucast (a :: u32) :: u64) = ucast b \<longleftrightarrow> a = b"
proof
  assume "(ucast a :: u64) = ucast b"
  then have "(ucast (ucast a :: u64) :: u32) = ucast (ucast b :: u64)" by (rule arg_cong)
  then show "a = b" by simp
qed simp

section \<open>Introduction rules for results\<close>

lemma rule_okI:
  assumes "\<And>eng J f. eng_ok eng \<Longrightarrow> jit_ok J \<Longrightarrow> fins_ok J f \<Longrightarrow> typed J f \<Longrightarrow> supported f \<Longrightarrow>
    fits J f R \<Longrightarrow> res_ok J f (snd R eng J f)"
  shows "rule_ok R"
  using assms unfolding rule_ok_def pre_ok_def fins_ok_def by simp

lemma emit_spec_same:
  assumes "jit_ok J" and "\<And>v. sat J v \<Longrightarrow> guard v f" and "op_value (ins_o f) \<Longrightarrow> opnd J r (irt_is64 (ins_t f))"
    and "\<And>v. sat J v \<Longrightarrow> op_value (ins_o f) \<Longrightarrow> v r = eval v f"
  shows "emit_spec J f J r"
  using assms agree_refl unfolding emit_spec_def by (metis ext_refl)

lemma res_ref:
  assumes "jit_ok J" and "opnd J r (irt_is64 (ins_t f))" and "\<And>v. sat J v \<Longrightarrow> guard v f \<and> v r = eval v f"
  shows "res_ok J f (RefFold J r)"
  using emit_spec_same [of J f r] assms by (simp add: res_ok_def)

lemma emit_spec_cons:
  assumes c: "cons J J'" and "emit_spec J' f' J'' r" and t: "typed J f"
    and "op_value (ins_o f') = op_value (ins_o f)" "irt_is64 (ins_t f') = irt_is64 (ins_t f)"
    and e: "\<And>v. sat J' v \<Longrightarrow> guard v f' = guard v f \<and> (op_value (ins_o f) \<longrightarrow> eval v f' = eval v f)"
  shows "emit_spec J f J'' r"
proof -
  have ok: "jit_ok J'" "ext J J'" using c by (simp_all add: cons_def)
  have "\<exists>v'. agree J v v' \<and> sat J'' v'" if v: "sat J v" "guard v f" for v
  proof -
    obtain v1 where v1: "agree J v v1" "sat J' v1" using c v(1) unfolding cons_def by blast
    then have "guard v1 f'" using e agree_eval(2) [OF v1(1) t] v(2) by blast
    then obtain v2 where "agree J' v1 v2" "sat J'' v2" using assms(2) v1(2) unfolding emit_spec_def by blast
    then show ?thesis using agree_trans [OF v1(1)] ok(2) by blast
  qed
  moreover have "sat J v' \<and> guard v' f \<and> (op_value (ins_o f) \<longrightarrow> v' r = eval v' f)" if "sat J'' v'" for v'
  proof -
    have "sat J' v' \<and> guard v' f' \<and> (op_value (ins_o f') \<longrightarrow> v' r = eval v' f')"
      using assms(2) that unfolding emit_spec_def by blast
    then show ?thesis using c e [of v'] assms(4) unfolding cons_def by auto
  qed
  ultimately show ?thesis using assms(2,4,5) ext_trans [OF ok(2)] unfolding emit_spec_def by auto
qed

lemma emit_spec_drop:
  assumes "cons J J'" and "typed J f" and "opnd J' r (irt_is64 (ins_t f))" "\<And>v. sat J' v \<Longrightarrow> guard v f \<and> v r = eval v f"
  shows "emit_spec J f J' r"
proof -
  have ok: "jit_ok J'" using assms(1) by (simp add: cons_def)
  have "emit_spec J' f J' r" using emit_spec_same [OF ok] assms(3,4) by blast
  then show ?thesis using emit_spec_cons [OF assms(1)] assms(2) by blast
qed

lemma res_int64:
  assumes "jit_ok J" and "typed J f" and "irt_is64 (ins_t f)" and v: "\<And>v. sat J v \<Longrightarrow> guard v f \<and> eval v f = k"
  shows "res_ok J f (Int64Fold J k)"
proof -
  obtain J' r where k: "lj_ir_kint64 J k = (J', r)" by (cases "lj_ir_kint64 J k")
  have "emit_spec J f J' r" if nk: "0x1000 \<le> nk J'"
  proof (rule emit_spec_drop)
    note K = kint64_spec [OF assms(1) k nk]
    show c: "cons J J'" by (rule K)
    then have ok: "jit_ok J'" by (simp add: cons_def)
    show "opnd J' r (irt_is64 (ins_t f))" using K(2,3) kint64_ty [OF ok] assms(3) by (simp add: opnd_def int_ty_def)
    show "guard v f \<and> v r = eval v f" if "sat J' v" for v
      using v [of v] c that kint64_value [OF that K(2,3)] K(4) unfolding cons_def by auto
  qed fact
  then show ?thesis by (simp add: Int64Fold_def k res_ok_def)
qed

lemma res_cond:
  assumes "jit_ok J" and "\<not> op_value (ins_o f)" and "\<And>v. sat J v \<Longrightarrow> guard v f = c"
  shows "res_ok J f (CondFold J c)"
  using emit_spec_same [of J f REF_DROP] assms by (simp add: CondFold_def res_ok_def)

lemma res_drop:
  assumes "jit_ok J" and "\<not> op_value (ins_o f)" and "\<And>v. sat J v \<Longrightarrow> guard v f"
  shows "res_ok J f (DropFold J)"
  using emit_spec_same [of J f REF_DROP] assms by (simp add: res_ok_def)

lemma res_retry:
  assumes "jit_ok J" and "fins_ok J f'" and "supported f'"
    and "op_value (ins_o f') = op_value (ins_o f)" and "irt_is64 (ins_t f') = irt_is64 (ins_t f)"
    and "\<And>v. sat J v \<Longrightarrow> guard v f' = guard v f \<and> (op_value (ins_o f) \<longrightarrow> eval v f' = eval v f)"
  shows "res_ok J f (RetryFold J f')"
  using assms cons_refl [OF assms(1)] by (simp add: res_ok_def retry_spec_def)

lemma res_retry_kint2:
  assumes "jit_ok J" and w: "w \<longrightarrow> k = 0"
    and t: "\<And>J' r. ext J J' \<Longrightarrow> opnd J' r w \<Longrightarrow> ins_o (jir J' r) = IR_KINT \<Longrightarrow> ins_i (jir J' r) = k \<Longrightarrow> r \<in> irefs J' \<Longrightarrow>
        (\<not> w \<longrightarrow> opnd_strict J' r False) \<Longrightarrow> fins_ok J' (g\<lparr>ins_op2 := r\<rparr>)"
    and "\<And>r. supported (g\<lparr>ins_op2 := r\<rparr>)"
    and "op_value (ins_o g) = op_value (ins_o f)" and "irt_is64 (ins_t g) = irt_is64 (ins_t f)"
    and e: "\<And>v r. sat J v \<Longrightarrow> v r = ucast k \<Longrightarrow> guard v (g\<lparr>ins_op2 := r\<rparr>) = guard v f \<and>
        (op_value (ins_o f) \<longrightarrow> eval v (g\<lparr>ins_op2 := r\<rparr>) = eval v f)"
  shows "res_ok J f (retry_op2_kint J g k)"
proof -
  obtain J' r where k: "lj_ir_kint J k = (J', r)" by (cases "lj_ir_kint J k")
  have "retry_spec J f J' (g\<lparr>ins_op2 := r\<rparr>)" if nk: "0x1000 \<le> nk J'"
  proof -
    note K = kint_spec [OF assms(1) k nk]
    have ok: "jit_ok J'" "ext J J'" "\<And>v. sat J' v \<Longrightarrow> sat J v" using K(1) by (simp_all add: cons_def)
    have ty: "ins_t (jir J' r) = IRT_INT" by (rule kint_ty [OF ok(1) K(2,3)])
    have "fins_ok J' (g\<lparr>ins_op2 := r\<rparr>)"
      by (rule t [OF ok(2)]) (use K ty w in \<open>auto simp: opnd_def opnd_strict_def int_ty_def\<close>)
    moreover have "v r = ucast k" if "sat J' v" for v using kint_value [OF that K(2,3)] K(4) by simp
    ultimately show ?thesis using K(1) assms(4-6) e ok(3) by (simp add: retry_spec_def)
  qed
  then show ?thesis by (simp add: retry_op2_kint_def k res_ok_def)
qed

lemma res_retry_kint1:
  assumes "jit_ok J" and w: "w \<longrightarrow> k = 0"
    and t: "\<And>J' r. ext J J' \<Longrightarrow> opnd J' r w \<Longrightarrow> fins_ok J' (g\<lparr>ins_op1 := r\<rparr>)"
    and "\<And>r. supported (g\<lparr>ins_op1 := r\<rparr>)"
    and "op_value (ins_o g) = op_value (ins_o f)" and "irt_is64 (ins_t g) = irt_is64 (ins_t f)"
    and e: "\<And>v r. sat J v \<Longrightarrow> v r = ucast k \<Longrightarrow> guard v (g\<lparr>ins_op1 := r\<rparr>) = guard v f \<and>
        (op_value (ins_o f) \<longrightarrow> eval v (g\<lparr>ins_op1 := r\<rparr>) = eval v f)"
  shows "res_ok J f (retry_op1_kint J g k)"
proof -
  obtain J' r where k: "lj_ir_kint J k = (J', r)" by (cases "lj_ir_kint J k")
  have "retry_spec J f J' (g\<lparr>ins_op1 := r\<rparr>)" if nk: "0x1000 \<le> nk J'"
  proof -
    note K = kint_spec [OF assms(1) k nk]
    have ok: "jit_ok J'" "ext J J'" "\<And>v. sat J' v \<Longrightarrow> sat J v" using K(1) by (simp_all add: cons_def)
    have ty: "ins_t (jir J' r) = IRT_INT" by (rule kint_ty [OF ok(1) K(2,3)])
    have "fins_ok J' (g\<lparr>ins_op1 := r\<rparr>)"
      by (rule t [OF ok(2)]) (use K ty w in \<open>auto simp: opnd_def int_ty_def\<close>)
    moreover have "v r = ucast k" if "sat J' v" for v using kint_value [OF that K(2,3)] K(4) by simp
    ultimately show ?thesis using K(1) assms(4-6) e ok(3) by (simp add: retry_spec_def)
  qed
  then show ?thesis by (simp add: retry_op1_kint_def k res_ok_def)
qed

lemma res_retry_kint64:
  assumes "jit_ok J"
    and t: "\<And>J' r. ext J J' \<Longrightarrow> opnd_strict J' r True \<Longrightarrow> ins_o (jir J' r) = IR_KINT64 \<Longrightarrow> fins_ok J' (g\<lparr>ins_op2 := r\<rparr>)"
    and "\<And>r. supported (g\<lparr>ins_op2 := r\<rparr>)"
    and "op_value (ins_o g) = op_value (ins_o f)" and "irt_is64 (ins_t g) = irt_is64 (ins_t f)"
    and e: "\<And>v r. sat J v \<Longrightarrow> v r = k \<Longrightarrow> guard v (g\<lparr>ins_op2 := r\<rparr>) = guard v f \<and>
        (op_value (ins_o f) \<longrightarrow> eval v (g\<lparr>ins_op2 := r\<rparr>) = eval v f)"
  shows "res_ok J f (retry_op2_kint64 J g k)"
proof -
  obtain J' r where k: "lj_ir_kint64 J k = (J', r)" by (cases "lj_ir_kint64 J k")
  have "retry_spec J f J' (g\<lparr>ins_op2 := r\<rparr>)" if nk: "0x1000 \<le> nk J'"
  proof -
    note K = kint64_spec [OF assms(1) k nk]
    have ok: "jit_ok J'" "ext J J'" "\<And>v. sat J' v \<Longrightarrow> sat J v" using K(1) by (simp_all add: cons_def)
    have ty: "ins_t (jir J' r) = IRT_I64" by (rule kint64_ty [OF ok(1) K(2,3)])
    have "fins_ok J' (g\<lparr>ins_op2 := r\<rparr>)"
      by (rule t [OF ok(2)]) (use K ty in \<open>auto simp: opnd_strict_def int_ty_def\<close>)
    moreover have "v r = k" if "sat J' v" for v using kint64_value [OF that K(2,3)] K(4) by simp
    ultimately show ?thesis using K(1) assms(3-5) e ok(3) by (simp add: retry_spec_def)
  qed
  then show ?thesis by (simp add: retry_op2_kint64_def k res_ok_def)
qed

end
