(* ===== verification/Lj_Fold_Rules.thy ===== *)
theory Lj_Fold_Rules
  imports Lj_Fold_Spec
begin

text \<open>
  What the soundness proofs of the FOLD rules share: the operands of a well-typed instruction,
  their values in an execution, and introduction rules for the results of a rule.
\<close>

lemmas evals = eval_def arith64_def arith32_def guard_def Let_def

lemma op_simps [simp]:
  "op_value IR_ADD" "op_value IR_SUB" "op_value IR_MUL" "op_value IR_DIV" "op_value IR_MOD" "op_value IR_POW" 
  "op_value IR_NEG" "op_value IR_BNOT" "op_value IR_BSWAP" "op_value IR_BAND" "op_value IR_BOR" "op_value IR_BXOR"
  "op_value IR_BSHL" "op_value IR_BSHR" "op_value IR_BSAR" "op_value IR_BROL" "op_value IR_BROR"
  "op_value IR_MIN" "op_value IR_MAX" "op_value IR_ADDOV" "op_value IR_SUBOV" "op_value IR_MULOV" "op_value IR_CONV"
  "\<not> op_value IR_LT" "\<not> op_value IR_GE" "\<not> op_value IR_LE" "\<not> op_value IR_GT" "\<not> op_value IR_ULT" "\<not> op_value IR_UGE"
  "\<not> op_value IR_ULE" "\<not> op_value IR_UGT" "\<not> op_value IR_EQ" "\<not> op_value IR_NE" "\<not> op_value IR_ABC"
  by (simp_all add: op_value_def)

lemma rule_okI2:
  assumes "\<And>eng J f o1 l r. (o1, l, r) \<in> set ps \<Longrightarrow> eng_ok eng \<Longrightarrow> jit_ok J \<Longrightarrow> fins_ok J f \<Longrightarrow> typed J f \<Longrightarrow>
    supported f \<Longrightarrow> ins_o f = o1 \<Longrightarrow> fits_left J f l \<Longrightarrow> fits_right J f r \<Longrightarrow> fits_last J f l r \<Longrightarrow> res_ok J f (fn eng J f)"
  shows "rule_ok (ps, fn)"
  using assms unfolding rule_ok_def pre_ok_def fins_ok_def fits_def by auto

lemma res_Next [simp]: "res_ok J f NextFold"
  by (simp add: res_ok_def)


text \<open>The value of a reference as a constant, so that equations on it rewrite.\<close>

definition rdv :: "(nat \<Rightarrow> u64) \<Rightarrow> nat \<Rightarrow> u64" where "rdv v r = v r"

definition opv :: "bool \<Rightarrow> irop \<Rightarrow> u64 \<Rightarrow> u64 \<Rightarrow> u64" where
  "opv w o1 a b = (if w then arith o1 a b else ucast (arith o1 (ucast a :: u32) (ucast b)))"

definition shv :: "bool \<Rightarrow> irop \<Rightarrow> u64 \<Rightarrow> u64 \<Rightarrow> u64" where
  "shv w o1 a b = (if w then shift o1 a (unat b mod 64) else ucast (shift o1 (ucast a :: u32) (unat b mod 32)))"

definition fits_w :: "bool \<Rightarrow> u64 \<Rightarrow> bool" where "fits_w w a \<longleftrightarrow> (w \<or> a < 0x100000000)"

abbreviation "pure2 \<equiv> {IR_ADD, IR_SUB, IR_MUL, IR_BAND, IR_BOR, IR_MIN, IR_MAX}"
abbreviation "wd f \<equiv> irt_is64 (ins_t f)"

definition pure_op :: "irop \<Rightarrow> bool" where
  "pure_op o1 \<longleftrightarrow> o1 \<in> pure2 \<union> {IR_BXOR, IR_NEG, IR_BNOT}"

lemma pure_op_simps [simp]:
  "pure_op IR_ADD" "pure_op IR_SUB" "pure_op IR_MUL" "pure_op IR_BAND" "pure_op IR_BOR" "pure_op IR_MIN" "pure_op IR_MAX"
  "pure_op IR_BXOR" "pure_op IR_NEG" "pure_op IR_BNOT"
  by (simp_all add: pure_op_def)

lemma eval_pure: "pure_op (ins_o f) \<Longrightarrow> eval v f = opv (wd f) (ins_o f) (rdv v (ins_op1 f)) (rdv v (ins_op2 f))"
  by (auto simp: pure_op_def evals opv_def rdv_def)

lemma eval_shift: "ins_o f \<in> shift_ops \<Longrightarrow> eval v f = shv (wd f) (ins_o f) (rdv v (ins_op1 f)) (rdv v (ins_op2 f))"
  by (auto simp: evals shv_def rdv_def)

lemma guard_value: "op_value (ins_o f) \<Longrightarrow> ins_o f \<notin> ov_ops \<Longrightarrow> guard v f"
  by (auto simp: evals op_value_def)

lemma pure_value: "pure_op o1 \<Longrightarrow> op_value o1 \<and> o1 \<noteq> IR_CONV \<and> o1 \<notin> ov_ops"
  by (auto simp: pure_op_def)

text \<open>Operands.\<close>

lemma opnd_fits: "sat J v \<Longrightarrow> opnd J r w \<Longrightarrow> fits_w w (v r)"
  using opnd_less by (cases w) (auto simp: fits_w_def)

lemma left_opnd:
  assumes "typed J f" and "ins_o f \<noteq> IR_CONV" "ins_o f \<noteq> IR_ABC"
  shows "opnd J (ins_op1 f) (wd f)" "ty_ok (ins_o f) (ins_t f)"
  using assms by (auto simp: typed_def Let_def opnd_of_strict split: if_splits)

lemma right_opnd:
  assumes "typed J f" and "ins_o f \<notin> shift_ops \<union> un_ops \<union> {IR_CONV, IR_ABC}"
  shows "opnd J (ins_op2 f) (wd f)"
  using assms by (auto simp: typed_def Let_def opnd_of_strict split: if_splits)

lemma pure_opnd:
  assumes "jit_ok J" and "opnd J r w" and "ins_o (jir J r) = o1" and "pure_op o1"
  shows "opnd J (ins_op1 (jir J r)) w \<and> (o1 \<notin> un_ops \<longrightarrow> opnd J (ins_op2 (jir J r)) w) \<and>
    (\<forall>v. sat J v \<longrightarrow> rdv v r = opv w o1 (rdv v (ins_op1 (jir J r))) (rdv v (ins_op2 (jir J r))))"
proof -
  have o: "op_value (ins_o (jir J r))" "ins_o (jir J r) \<noteq> IR_CONV" using pure_value assms(3,4) by blast+
  note V = opnd_value [OF assms(1,2) o]
  have "o1 \<notin> shift_ops \<union> {IR_CONV, IR_ABC}" using assms(4) by (auto simp: pure_op_def)
  then show ?thesis using left_opnd [OF V(1)] right_opnd [OF V(1)] eval_pure [of "jir J r"] V(2,3) assms(3,4) by (auto simp: rdv_def)
qed

lemma kV:
  assumes "jit_ok J" and "opnd J r w" and "ins_o (jir J r) = IR_KINT" 
  shows "(\<forall>v. sat J v \<longrightarrow> rdv v r = ucast (ins_i (jir J r))) \<and> ins_t (jir J r) = IRT_INT \<and> (w \<longrightarrow> ins_i (jir J r) = 0)"
  unfolding rdv_def using assms kint_value kint_ty opnd_kint opnd_irefs by meson

lemma kV64:
  assumes "jit_ok J" and "opnd J r w" and "ins_o (jir J r) = IR_KINT64" 
  shows "(\<forall>v. sat J v \<longrightarrow> rdv v r = ins_u64 (jir J r)) \<and> ins_t (jir J r) = IRT_I64 \<and> w"
  unfolding rdv_def using assms kint64_value kint64_ty opnd_kint64 opnd_irefs by meson

lemma pure_fins:
  assumes "ins_o f \<in> pure2" and "ins_t f \<in> {IRT_INT, IRT_U32, IRT_I64, IRT_U64}"
   and "opnd J (ins_op1 f) (wd f)" "opnd J (ins_op2 f) (wd f)"
  shows "fins_ok J f \<and> supported f"
  using assms by (elim insertE emptyE) (simp_all add: fins_ok_def typed_def ty_ok_def Let_def supported_def)

lemma neg_fins:
  assumes "ins_o f = IR_NEG" and "ins_t f \<in> {IRT_INT, IRT_U32, IRT_I64, IRT_U64}"
   and "opnd_strict J (ins_op1 f) (wd f)" "opnd J (ins_op2 f) (wd f)"
  shows "fins_ok J f \<and> supported f"
  using assms by (simp add: fins_ok_def typed_def ty_ok_def Let_def supported_def)

lemma xor_fins:
  assumes "ins_o f = IR_BXOR" and "ins_t f \<in> {IRT_INT, IRT_U32, IRT_I64, IRT_U64}"
   and "opnd_strict J (ins_op1 f) (wd f)" "opnd_strict J (ins_op2 f) (wd f)"
  shows "fins_ok J f \<and> supported f"
  using assms by (simp add: fins_ok_def typed_def ty_ok_def Let_def supported_def)

lemma pure_ty: "ty_ok o1 t \<Longrightarrow> pure_op o1 \<Longrightarrow> t \<in> {IRT_INT, IRT_U32, IRT_I64, IRT_U64}"
  by (auto simp: ty_ok_def pure_op_def)

lemma res_retry_pure:
  assumes "jit_ok J" and "pure_op (ins_o f)" "ins_o f' \<in> pure2 \<union> {IR_NEG}" "ins_t f' = ins_t f" "ty_ok (ins_o f) (ins_t f)"
    and "opnd J (ins_op1 f') (wd f)" "opnd J (ins_op2 f') (wd f)" and "ins_o f' = IR_NEG \<Longrightarrow> opnd_strict J (ins_op1 f') (wd f)"
    and "\<And>v. sat J v \<Longrightarrow> opv (wd f) (ins_o f') (rdv v (ins_op1 f')) (rdv v (ins_op2 f')) =
       opv (wd f) (ins_o f) (rdv v (ins_op1 f)) (rdv v (ins_op2 f))"
  shows "res_ok J f (RetryFold J f')"
proof -
  have p: "pure_op (ins_o f')" using assms(3) by (auto simp: pure_op_def)
  have "fins_ok J f' \<and> supported f'" using pure_fins [of f' J] neg_fins [of f' J] assms pure_ty by auto
  then show ?thesis using res_retry [of J f' f] assms eval_pure [of f] eval_pure [of f'] p pure_value guard_value by metis
qed

lemma res_ref_pure:
  assumes "jit_ok J" and "pure_op (ins_o f)" and "opnd J r (wd f)" 
    and "\<And>v. sat J v \<Longrightarrow> fits_w (wd f) (rdv v r) \<Longrightarrow> rdv v r = opv (wd f) (ins_o f) (rdv v (ins_op1 f)) (rdv v (ins_op2 f))"
  shows "res_ok J f (RefFold J r)"
  by (rule res_ref [OF assms(1,3)]) (use assms(2,4) eval_pure guard_value opnd_fits pure_value assms(3) in \<open>metis rdv_def\<close>)


lemma res_if: "(c \<Longrightarrow> res_ok J f x) \<Longrightarrow> (\<not> c \<Longrightarrow> res_ok J f y) \<Longrightarrow> res_ok J f (if c then x else y)"
  by simp

lemma eval_rd: "pure_op (ins_o f) \<Longrightarrow> v (ins_op1 f) = a \<Longrightarrow> v (ins_op2 f) = b \<Longrightarrow> eval v f = opv (wd f) (ins_o f) a b"
  using eval_pure by (simp add: rdv_def)

lemma res_kint2_pure:
  assumes "jit_ok J" and f: "pure_op (ins_o f)" and g: "ins_o g \<in> pure2 \<union> {IR_BXOR}" "ins_t g = ins_t f" "ty_ok (ins_o f) (ins_t f)"
    and "opnd J (ins_op1 g) (wd f)" and x: "ins_o g = IR_BXOR \<Longrightarrow> \<not> wd f \<and> opnd_strict J (ins_op1 g) False"
    and "wd f \<longrightarrow> k = 0"
    and e: "\<And>v. sat J v \<Longrightarrow> fits_w (wd f) (rdv v (ins_op1 g)) \<Longrightarrow> opv (wd f) (ins_o g) (rdv v (ins_op1 g)) (ucast k) =
       opv (wd f) (ins_o f) (rdv v (ins_op1 f)) (rdv v (ins_op2 f))"
  shows "res_ok J f (retry_op2_kint J g k)"
proof (rule res_retry_kint2 [OF assms(1,8)])
  fix J' r assume x': "ext J J'" and r: "opnd J' r (wd f)" "\<not> wd f \<longrightarrow> opnd_strict J' r False"
  have "opnd J' (ins_op1 g) (wd f)" using ext_opnd [OF x'] assms(6) by blast
  moreover have "ins_o g = IR_BXOR \<Longrightarrow> \<not> wd f \<and> opnd_strict J' (ins_op1 g) False" using x ext_opnd_strict [OF x'] by blast
  moreover have "ins_t f \<in> {IRT_INT, IRT_U32, IRT_I64, IRT_U64}" by (rule pure_ty [OF g(3) f])
  ultimately show "fins_ok J' (g\<lparr>ins_op2 := r\<rparr>)"
    using pure_fins [of "g\<lparr>ins_op2 := r\<rparr>" J'] xor_fins [of "g\<lparr>ins_op2 := r\<rparr>" J'] g r
    by (cases "ins_o g = IR_BXOR") simp_all
next
  show "supported (g\<lparr>ins_op2 := r\<rparr>)" for r using g(1) by (auto simp: supported_def)
  have p: "pure_op (ins_o g)" using g(1) by (auto simp: pure_op_def)
  show "op_value (ins_o g) = op_value (ins_o f)" using pure_value p f by blast
  show "wd g = wd f" using g(2) by simp
  fix v r assume v: "sat J v" "v r = ucast k"
  have "eval v (g\<lparr>ins_op2 := r\<rparr>) = opv (wd f) (ins_o g) (rdv v (ins_op1 g)) (ucast k)"
    using eval_pure [of "g\<lparr>ins_op2 := r\<rparr>"] p g(2) v(2) by (simp add: rdv_def)
  then show "guard v (g\<lparr>ins_op2 := r\<rparr>) = guard v f \<and> (op_value (ins_o f) \<longrightarrow> eval v (g\<lparr>ins_op2 := r\<rparr>) = eval v f)"
    using e [OF v(1)] opnd_fits [OF v(1) assms(6)] eval_pure [OF f] guard_value pure_value [OF f] pure_value [OF p] by (simp add: rdv_def)
qed

lemma res_kint1_pure:
  assumes "jit_ok J" and f: "pure_op (ins_o f)" and g: "ins_o g \<in> pure2" "ins_t g = ins_t f" "ty_ok (ins_o f) (ins_t f)"
    and "opnd J (ins_op2 g) (wd f)" and "wd f \<longrightarrow> k = 0"
    and e: "\<And>v. sat J v \<Longrightarrow> fits_w (wd f) (rdv v (ins_op2 g)) \<Longrightarrow> opv (wd f) (ins_o g) (ucast k) (rdv v (ins_op2 g)) =
       opv (wd f) (ins_o f) (rdv v (ins_op1 f)) (rdv v (ins_op2 f))"
  shows "res_ok J f (retry_op1_kint J g k)"
proof (rule res_retry_kint1 [OF assms(1,7)])
  have p: "pure_op (ins_o g)" using g(1) by (auto simp: pure_op_def)
  fix J' r assume "ext J J'" and r: "opnd J' r (wd f)"
  then have "opnd J' (ins_op2 g) (wd f)" using ext_opnd assms(6) by blast
  then show "fins_ok J' (g\<lparr>ins_op1 := r\<rparr>)" using pure_fins [of "g\<lparr>ins_op1 := r\<rparr>" J'] g r pure_ty [OF g(3) f] by simp
next
  show "supported (g\<lparr>ins_op1 := r\<rparr>)" for r using g(1) by (auto simp: supported_def)
  have p: "pure_op (ins_o g)" using g(1) by (auto simp: pure_op_def)
  show "op_value (ins_o g) = op_value (ins_o f)" using pure_value p f by blast
  show "wd g = wd f" using g(2) by simp
  fix v r assume v: "sat J v" "v r = ucast k"
  have "eval v (g\<lparr>ins_op1 := r\<rparr>) = opv (wd f) (ins_o g) (ucast k) (rdv v (ins_op2 g))"
    using eval_pure [of "g\<lparr>ins_op1 := r\<rparr>"] p g(2) v(2) by (simp add: rdv_def)
  then show "guard v (g\<lparr>ins_op1 := r\<rparr>) = guard v f \<and> (op_value (ins_o f) \<longrightarrow> eval v (g\<lparr>ins_op1 := r\<rparr>) = eval v f)"
    using e [OF v(1)] opnd_fits [OF v(1) assms(6)] eval_pure [OF f] guard_value pure_value [OF f] pure_value [OF p] by (simp add: rdv_def)
qed

lemma res_kint64_pure:
  assumes "jit_ok J" and f: "pure_op (ins_o f)" and g: "ins_o g \<in> pure2 \<union> {IR_BXOR}" "ins_t g = ins_t f" "ty_ok (ins_o f) (ins_t f)"
    and "opnd J (ins_op1 g) True" and x: "ins_o g = IR_BXOR \<Longrightarrow> opnd_strict J (ins_op1 g) True" and w: "wd f"
    and e: "\<And>v. sat J v \<Longrightarrow> arith (ins_o g) (rdv v (ins_op1 g)) k = arith (ins_o f) (rdv v (ins_op1 f)) (rdv v (ins_op2 f))"
  shows "res_ok J f (retry_op2_kint64 J g k)"
proof (rule res_retry_kint64 [OF assms(1)])
  have p: "pure_op (ins_o g)" using g(1) by (auto simp: pure_op_def)
  fix J' r assume x': "ext J J'" and r: "opnd_strict J' r True"
  then have "opnd J' (ins_op1 g) True" using ext_opnd assms(6) by blast
  moreover have "ins_o g = IR_BXOR \<Longrightarrow> opnd_strict J' (ins_op1 g) True" using x ext_opnd_strict [OF x'] by blast
  moreover have "ins_t f \<in> {IRT_INT, IRT_U32, IRT_I64, IRT_U64}" by (rule pure_ty [OF g(3) f])
  ultimately show "fins_ok J' (g\<lparr>ins_op2 := r\<rparr>)"
    using pure_fins [of "g\<lparr>ins_op2 := r\<rparr>" J'] xor_fins [of "g\<lparr>ins_op2 := r\<rparr>" J'] g r w opnd_of_strict [OF r]
    by (cases "ins_o g = IR_BXOR") simp_all
next
  show "supported (g\<lparr>ins_op2 := r\<rparr>)" for r using g(1) by (auto simp: supported_def)
  have p: "pure_op (ins_o g)" using g(1) by (auto simp: pure_op_def)
  show "op_value (ins_o g) = op_value (ins_o f)" using pure_value p f by blast
  show "wd g = wd f" using g(2) by simp
  fix v r assume v: "sat J v" "v r = k"
  have "eval v (g\<lparr>ins_op2 := r\<rparr>) = arith (ins_o g) (rdv v (ins_op1 g)) k"
    using eval_pure [of "g\<lparr>ins_op2 := r\<rparr>"] p g(2) v(2) w by (simp add: rdv_def opv_def)
  then show "guard v (g\<lparr>ins_op2 := r\<rparr>) = guard v f \<and> (op_value (ins_o f) \<longrightarrow> eval v (g\<lparr>ins_op2 := r\<rparr>) = eval v f)"
    using e [OF v(1)] eval_pure [OF f] guard_value pure_value [OF f] pure_value [OF p] w by (simp add: rdv_def opv_def)
qed

lemma res_k_pure:
  assumes f: "pure_op (ins_o f)" and "wd f \<longrightarrow> k = 0"
    and e: "\<And>v. sat J v \<Longrightarrow> ucast k = opv (wd f) (ins_o f) (rdv v (ins_op1 f)) (rdv v (ins_op2 f))"
  shows "res_ok J f (KIntFold J k)"
  using assms eval_pure [OF f] guard_value pure_value [OF f] by (simp add: res_ok_def)

lemma res_k64_pure:
  assumes "jit_ok J" and t: "typed J f" and f: "pure_op (ins_o f)" and w: "wd f"
    and e: "\<And>v. sat J v \<Longrightarrow> k = opv True (ins_o f) (rdv v (ins_op1 f)) (rdv v (ins_op2 f))"
  shows "res_ok J f (Int64Fold J k)"
  using res_int64 [OF assms(1,2) w] e eval_pure [OF f] guard_value pure_value [OF f] w by simp

lemma scast_iff [simp]: "(scast (i :: u32) :: u64) = 0 \<longleftrightarrow> i = 0" "(scast (i :: u32) :: u64) = - 1 \<longleftrightarrow> i = - 1"
proof -
  have u: "(ucast (scast a :: u64) :: u32) = a" for a :: u32
    by (rule bit_word_eqI) (simp add: bit_ucast_iff bit_word_scast_iff)
  have i: "(scast a :: u64) = scast b \<longleftrightarrow> a = b" for a b :: u32
  proof
    assume "(scast a :: u64) = scast b"
    then have "(ucast (scast a :: u64) :: u32) = ucast (scast b :: u64)" by (rule arg_cong)
    then show "a = b" by (simp only: u)
  qed simp
  show "(scast i :: u64) = 0 \<longleftrightarrow> i = 0" using i [of i 0] by simp
  show "(scast i :: u64) = - 1 \<longleftrightarrow> i = - 1" using i [of i "- 1"] by simp
qed

lemma strict_opnd: "opnd J r w \<Longrightarrow> ins_o (jir J r) \<noteq> IR_KINT \<Longrightarrow> opnd_strict J r w"
  by (auto simp: opnd_def opnd_strict_def)

lemma xor_opnd:
  assumes "jit_ok J" and "opnd J r w" and "ins_o (jir J r) = IR_BXOR"
  shows "opnd_strict J (ins_op1 (jir J r)) w \<and> opnd_strict J (ins_op2 (jir J r)) w"
  using opnd_value(1,2) [OF assms(1,2)] assms(3) by (simp add: typed_def Let_def)

lemma xor_strict:
  assumes "typed J f" and "ins_o f = IR_BXOR"
  shows "opnd_strict J (ins_op1 f) (wd f) \<and> opnd_strict J (ins_op2 f) (wd f)"
  using assms by (simp add: typed_def Let_def)

lemma strict_w: "opnd_strict J r w \<Longrightarrow> irt_is64 (ins_t (jir J r)) = w"
  by (simp add: opnd_strict_def)

abbreviation "assoc_ops \<equiv> {IR_ADD, IR_MUL, IR_BAND, IR_BOR, IR_BXOR}"

lemma arith_assoc: "o1 \<in> assoc_ops \<Longrightarrow> arith o1 (arith o1 a b) c = arith o1 a (arith o1 b c)"
  by (elim insertE emptyE) (simp_all add: ac_simps)

lemma opv_assoc: "o1 \<in> assoc_ops \<Longrightarrow> opv w o1 (opv w o1 a b) c = opv w o1 a (opv w o1 b c)"
  by (simp add: opv_def arith_assoc)

lemma kfold_arith: "o1 \<in> assoc_ops \<Longrightarrow> kfold_intop a b o1 = arith o1 a b"
  "o1 \<in> assoc_ops \<Longrightarrow> kfold_int64arith c d o1 = arith o1 c d"
  by auto

lemma arith_00: "o1 \<in> assoc_ops \<Longrightarrow> arith o1 0 0 = 0"
  by auto

lemma opv_k: "o1 \<in> assoc_ops \<Longrightarrow> w \<longrightarrow> a = 0 \<and> b = 0 \<Longrightarrow> opv w o1 (ucast (a :: u32)) (ucast b) = ucast (arith o1 a b)"
  by (auto simp: opv_def)

lemma res_k_mod:
  assumes "ins_o f = IR_MOD" and "\<not> wd f"
    and "\<And>v. sat J v \<Longrightarrow> k = arith IR_MOD (ucast (rdv v (ins_op1 f))) (ucast (rdv v (ins_op2 f)) :: u32)"
  shows "res_ok J f (KIntFold J k)"
  using assms guard_value [of f] by (simp add: res_ok_def evals rdv_def)

lemma ucast_same: "(ucast (x :: u64) :: u32) = ucast y \<Longrightarrow> x < 0x100000000 \<Longrightarrow> x = ucast (ucast y :: u32)"
  using ucast_ucast_less by metis

lemma sint_eq [simp]: "sint (a :: 'a::len word) = sint b \<longleftrightarrow> a = b"
  using signed_word_eqI by blast

lemmas word_simps = opv_def fits_w_def ucast_ucast_less

end
