(* ===== verification/Lj_Fold_Shift_Lemmas.thy ===== *)
theory Lj_Fold_Shift_Lemmas
  imports Lj_Fold_Rules
begin

text \<open>
  Shift operations and the operations with one operand; the counts of shifts.
\<close>

text \<open>Shift operations and the operations with one operand.\<close>

definition gen_op :: "irop \<Rightarrow> bool" where "gen_op o1 \<longleftrightarrow> pure_op o1 \<or> o1 \<in> shift_ops"

definition valv :: "bool \<Rightarrow> irop \<Rightarrow> u64 \<Rightarrow> u64 \<Rightarrow> u64" where
  "valv w o1 a b = (if o1 \<in> shift_ops then shv w o1 a b else opv w o1 a b)"

lemma gen_simps [simp]: "pure_op o1 \<Longrightarrow> gen_op o1" "o1 \<in> shift_ops \<Longrightarrow> gen_op o1"
  by (auto simp: gen_op_def)

lemma gen_value: "gen_op o1 \<Longrightarrow> op_value o1 \<and> o1 \<noteq> IR_CONV \<and> o1 \<notin> ov_ops"
  by (auto simp: gen_op_def pure_op_def)

lemma eval_gen: "gen_op (ins_o f) \<Longrightarrow> eval v f = valv (wd f) (ins_o f) (rdv v (ins_op1 f)) (rdv v (ins_op2 f))"
  using eval_pure eval_shift unfolding gen_op_def valv_def by (auto simp: pure_op_def)

lemma shift_opnd:
  assumes "typed J f" and "ins_o f \<in> shift_ops"
  shows "opnd J (ins_op1 f) (wd f)" "opnd J (ins_op2 f) False" "ty_ok (ins_o f) (ins_t f)"
proof -
  have "ins_o f \<noteq> IR_CONV" "ins_o f \<noteq> IR_ABC" using assms(2) by auto
  then show "opnd J (ins_op1 f) (wd f)" "ty_ok (ins_o f) (ins_t f)" using left_opnd [OF assms(1)] by blast+
  show "opnd J (ins_op2 f) False" using assms by (auto simp: typed_def Let_def)
qed

lemma shift_value:
  assumes "jit_ok J" and "opnd J r w" and "ins_o (jir J r) = o1" and "o1 \<in> shift_ops"
  shows "opnd J (ins_op1 (jir J r)) w" "opnd J (ins_op2 (jir J r)) False"
    "sat J v \<Longrightarrow> rdv v r = shv w o1 (rdv v (ins_op1 (jir J r))) (rdv v (ins_op2 (jir J r)))"
proof -
  have o: "op_value (ins_o (jir J r))" "ins_o (jir J r) \<noteq> IR_CONV" using assms(3,4) by auto
  note V = opnd_value [OF assms(1,2) o]
  show "opnd J (ins_op1 (jir J r)) w" "opnd J (ins_op2 (jir J r)) False"
    using shift_opnd [OF V(1)] V(2) assms(3,4) by simp_all
  show "sat J v \<Longrightarrow> rdv v r = shv w o1 (rdv v (ins_op1 (jir J r))) (rdv v (ins_op2 (jir J r)))"
    using V(2,3) eval_shift [of "jir J r"] assms(3,4) by (simp add: rdv_def)
qed

lemma shift_fins:
  assumes "ins_o f \<in> shift_ops" and "ins_t f \<in> {IRT_INT, IRT_U32, IRT_I64, IRT_U64}"
   and "opnd J (ins_op1 f) (wd f)" "opnd J (ins_op2 f) False"
  shows "fins_ok J f"
  using assms by (elim insertE emptyE) (simp_all add: fins_ok_def typed_def ty_ok_def Let_def)

lemma gen_ty: "ty_ok o1 t \<Longrightarrow> gen_op o1 \<Longrightarrow> t \<in> {IRT_INT, IRT_U32, IRT_I64, IRT_U64}"
  by (auto simp: ty_ok_def gen_op_def pure_op_def)

lemma res_ref_gen:
  assumes "jit_ok J" and "gen_op (ins_o f)" and "opnd J r (wd f)"
    and "\<And>v. sat J v \<Longrightarrow> fits_w (wd f) (rdv v r) \<Longrightarrow> rdv v r = valv (wd f) (ins_o f) (rdv v (ins_op1 f)) (rdv v (ins_op2 f))"
  shows "res_ok J f (RefFold J r)"
  by (rule res_ref [OF assms(1,3)]) (use assms(2,4) eval_gen guard_value opnd_fits gen_value assms(3) in \<open>metis rdv_def\<close>)

lemma res_retry_gen:
  assumes "jit_ok J" and "gen_op (ins_o f)" "gen_op (ins_o f')" "ins_t f' = ins_t f"
    and "fins_ok J f'" "supported f'"
    and "\<And>v. sat J v \<Longrightarrow> fits_w (wd f) (rdv v (ins_op1 f)) \<Longrightarrow> valv (wd f) (ins_o f') (rdv v (ins_op1 f')) (rdv v (ins_op2 f')) =
       valv (wd f) (ins_o f) (rdv v (ins_op1 f)) (rdv v (ins_op2 f))" and "opnd J (ins_op1 f) (wd f)"
  shows "res_ok J f (RetryFold J f')"
proof (rule res_retry [OF assms(1,5,6)])
  show "op_value (ins_o f') = op_value (ins_o f)" using gen_value assms(2,3) by blast
  show "wd f' = wd f" using assms(4) by simp
  show "guard v f' = guard v f \<and> (op_value (ins_o f) \<longrightarrow> eval v f' = eval v f)" if v: "sat J v" for v
    using assms(7) [OF v] opnd_fits [OF v assms(8)] eval_gen [OF assms(2)] eval_gen [OF assms(3)] assms(4)
      guard_value gen_value [OF assms(2)] gen_value [OF assms(3)] by (simp add: rdv_def)
qed

lemma res_kint2_gen:
  assumes "jit_ok J" and f: "gen_op (ins_o f)" and g: "gen_op (ins_o g)" "ins_t g = ins_t f"
    and w: "w \<longrightarrow> k = 0"
    and t: "\<And>J' r. ext J J' \<Longrightarrow> opnd J' r w \<Longrightarrow> fins_ok J' (g\<lparr>ins_op2 := r\<rparr>)"
    and s: "supported g"
    and e: "\<And>v. sat J v \<Longrightarrow> valv (wd f) (ins_o g) (rdv v (ins_op1 g)) (ucast k) =
       valv (wd f) (ins_o f) (rdv v (ins_op1 f)) (rdv v (ins_op2 f))"
  shows "res_ok J f (retry_op2_kint J g k)"
proof (rule res_retry_kint2 [OF assms(1) w])
  show "fins_ok J' (g\<lparr>ins_op2 := r\<rparr>)" if "ext J J'" "opnd J' r w" for J' r using t that by blast
  show "supported (g\<lparr>ins_op2 := r\<rparr>)" for r using s by (simp add: supported_def)
  show "op_value (ins_o g) = op_value (ins_o f)" using gen_value f g(1) by blast
  show "wd g = wd f" using g(2) by simp
  fix v r assume v: "sat J v" "v r = ucast k"
  have "eval v (g\<lparr>ins_op2 := r\<rparr>) = valv (wd f) (ins_o g) (rdv v (ins_op1 g)) (ucast k)"
    using eval_gen [of "g\<lparr>ins_op2 := r\<rparr>"] g v(2) by (simp add: rdv_def)
  then show "guard v (g\<lparr>ins_op2 := r\<rparr>) = guard v f \<and> (op_value (ins_o f) \<longrightarrow> eval v (g\<lparr>ins_op2 := r\<rparr>) = eval v f)"
    using e [OF v(1)] eval_gen [OF f] guard_value gen_value [OF f] gen_value [OF g(1)] by simp
qed

text \<open>Counts.\<close>

lemma unat_and31: "unat (k AND 31 :: u32) = unat k mod 32"
proof -
  have "k AND 31 = take_bit 5 k" by (simp add: take_bit_eq_mask mask_eq_exp_minus_1)
  then show ?thesis by (simp only: unsigned_take_bit_eq) (simp add: take_bit_eq_mod)
qed

lemma unat_and63: "unat (k AND 63 :: u32) = unat k mod 64"
proof -
  have "k AND 63 = take_bit 6 k" by (simp add: take_bit_eq_mask mask_eq_exp_minus_1)
  then show ?thesis by (simp only: unsigned_take_bit_eq) (simp add: take_bit_eq_mod)
qed

lemma unat_ucast_u32: "unat (ucast (k :: u32) :: u64) = unat k"
  by (simp add: unsigned_ucast_eq take_bit_nat_eq_self order.strict_trans1 [OF less_imp_le [OF unat_u32_bound]])

lemma shv_k: "shv w o1 a (ucast (k :: u32)) =
   (if w then shift o1 a (unat k mod 64) else ucast (shift o1 (ucast a :: u32) (unat k mod 32)))"
  by (simp add: shv_def unat_ucast_u32)

lemma rot_0 [simp]: "word_rotl 0 a = a" "word_rotr 0 a = a"
  by (rule bit_word_eqI; simp add: bit_word_rotl_iff bit_word_rotr_iff)+

lemma shift_0 [simp]: "shift o1 a 0 = a"
  by (cases o1) simp_all

lemma shift_zero [simp]: "shift o1 0 n = 0"
  by (cases o1) simp_all

end
