(* ===== verification/Lj_Fold_Shift.thy ===== *)
theory Lj_Fold_Shift
  imports Lj_Fold_Shift_Lemmas
begin

text \<open>
  Soundness of the rules for shifts.
\<close>

lemma shift_pre:
  assumes "jit_ok J" "typed J f" "supported f" and "ins_o f \<in> shift_ops"
  shows "opnd J (ins_op1 f) (wd f)" "opnd J (ins_op2 f) False" "ty_ok (ins_o f) (ins_t f)"
    "ins_t f \<in> {IRT_INT, IRT_U32, IRT_I64, IRT_U64}" "gen_op (ins_o f)" "wd f \<Longrightarrow> ins_o f \<in> {IR_BSHL, IR_BSAR}"
  using shift_opnd [OF assms(2,4)] assms(3,4) gen_ty [of "ins_o f" "ins_t f"] by (auto simp: supported_def)

lemma fits_sh: "sat J v \<Longrightarrow> opnd J r False \<Longrightarrow> \<exists>b :: u32. rdv v r = ucast b"
  using opnd_fits [of J v r False] ucast_ucast_less [of "rdv v r"] unfolding fits_w_def rdv_def by metis

lemma rotr_rotl: "0 < n \<Longrightarrow> n < LENGTH('a) \<Longrightarrow> word_rotr n (a :: 'a::len word) = word_rotl (LENGTH('a) - n) a"
proof (rule bit_word_eqI)
  fix i assume "0 < n" "n < LENGTH('a)" "i < LENGTH('a)"
  then show "bit (word_rotr n a) i = bit (word_rotl (LENGTH('a) - n) a) i"
    by (simp add: bit_word_rotl_iff bit_word_rotr_iff mod_if)
qed

lemma neg_count: "unat ((- k) AND 31 :: u32) = (32 - unat k mod 32) mod 32"
proof -
  have "uint (- k) = - uint k mod 2 ^ 32" by (simp add: uint_word_ariths)
  then have "uint (- k) mod 32 = - uint k mod 32" by (simp add: mod_mod_cancel)
  then have "int (unat (- k) mod 32) = - int (unat k) mod 32" by (simp add: zmod_int)
  also have "\<dots> = int ((32 - unat k mod 32) mod 32)"
  proof -
    define c where "c = unat k mod 32"
    have c: "c < 32" "int (unat k) mod 32 = int c" by (simp_all add: c_def zmod_int)
    have "- int (unat k) mod 32 = (if c = 0 then 0 else 32 - int c)" using c by (simp add: zmod_zminus1_eq_if)
    also have "\<dots> = int ((32 - c) mod 32)" using c(1) by (auto simp: of_nat_diff)
    finally show ?thesis by (simp only: c_def)
  qed
  finally show ?thesis by (simp add: unat_and31)
qed

lemma shift_ik [fold_ok]: "rule_ok fold_simplify_shift_ik"
proof (rule rule_okI)
  fix eng J f assume A: "jit_ok J" "typed J f" "supported f" and fit: "fits J f fold_simplify_shift_ik"
  have o: "ins_o f \<in> shift_ops" "ins_o (fright J f) = IR_KINT"
    using fit by (auto simp: fits_def fold_simplify_shift_ik_def)
  note T = shift_pre [OF A o(1)]
  note K = kV [OF A(1) T(2) o(2)]
  define k where "k = ins_i (fright J f)"
  define m where "m = (k AND shift_mask (ins_t f))"
  have rk: "\<And>v. sat J v \<Longrightarrow> rdv v (ins_op2 f) = ucast k" using K by (simp add: k_def)
  have m: "unat m = (if wd f then unat k mod 64 else unat k mod 32)"
    by (simp add: m_def shift_mask_def unat_and31 unat_and63)
  have v: "valv (wd f) (ins_o f) a (ucast k) = (if wd f then shift (ins_o f) a (unat m) else ucast (shift (ins_o f) (ucast a :: u32) (unat m)))" for a
    using o(1) by (simp add: valv_def shv_k m)
  have m2: "unat m mod 64 = unat m" "\<not> wd f \<Longrightarrow> unat m mod 32 = unat m" by (simp_all add: m)
  have "res_ok J f (LeftFold J f)" if "m = 0"
    by (rule res_ref_gen [OF A(1) T(5,1)]) (use that rk v in \<open>auto simp: fits_w_def ucast_ucast_less\<close>)
  moreover have "res_ok J f (RetryFold J (f\<lparr>ins_o := IR_ADD, ins_op2 := ins_op1 f\<rparr>))" if "m = 1" "ins_o f = IR_BSHL"
  proof (rule res_retry_gen [OF A(1) T(5) _ _ _ _ _ T(1)])
    show "fins_ok J (f\<lparr>ins_o := IR_ADD, ins_op2 := ins_op1 f\<rparr>)" "supported (f\<lparr>ins_o := IR_ADD, ins_op2 := ins_op1 f\<rparr>)"
      using pure_fins [of "f\<lparr>ins_o := IR_ADD, ins_op2 := ins_op1 f\<rparr>" J] T by simp_all
    have "valv (wd f) IR_ADD a a = valv (wd f) (ins_o f) a (ucast k)" for a
      unfolding v using that by (simp add: valv_def opv_def push_bit_eq_mult mult.commute)
    then show "valv (wd f) (ins_o (f\<lparr>ins_o := IR_ADD, ins_op2 := ins_op1 f\<rparr>)) (rdv v (ins_op1 (f\<lparr>ins_o := IR_ADD, ins_op2 := ins_op1 f\<rparr>)))
        (rdv v (ins_op2 (f\<lparr>ins_o := IR_ADD, ins_op2 := ins_op1 f\<rparr>))) = valv (wd f) (ins_o f) (rdv v (ins_op1 f)) (rdv v (ins_op2 f))"
      if "sat J v" for v using rk [OF that] by simp
  qed simp_all
  moreover have "res_ok J f (retry_op2_kint J (f\<lparr>ins_o := o2\<rparr>) k2)"
    if "o2 \<in> shift_ops" "\<not> wd f \<or> o2 = ins_o f" "\<And>a. valv (wd f) o2 a (ucast k2) = valv (wd f) (ins_o f) a (ucast k)" for o2 k2
  proof (rule res_kint2_gen [OF A(1) T(5), where w = False])
    show "fins_ok J' (f\<lparr>ins_o := o2, ins_op2 := r\<rparr>)" if "ext J J'" "opnd J' r False" for J' r
      by (rule shift_fins) (use ext_opnd [OF that(1) T(1)] that T \<open>o2 \<in> shift_ops\<close> in auto)
    show "supported (f\<lparr>ins_o := o2\<rparr>)" using that(1,2) A(3) by (auto simp: supported_def)
  qed (use that rk in auto)
  note R = this
  have "res_ok J f (retry_op2_kint J f m)" using R [of "ins_o f" m] o(1) v
    by (simp add: valv_def shv_k m2)
  moreover have "res_ok J f (retry_op2_kint J (f\<lparr>ins_o := IR_BROL\<rparr>) ((- k) AND shift_mask (ins_t f)))"
    if "ins_o f = IR_BROR" "m \<noteq> 0"
  proof (rule R)
    have w: "\<not> wd f" using T(6) that(1) by auto
    have "0 < unat m" using that(2) by (simp add: unat_gt_0)
    then have n: "0 < unat m" "unat m < 32" using w m by simp_all
    show "valv (wd f) IR_BROL a (ucast ((- k) AND shift_mask (ins_t f))) = valv (wd f) (ins_o f) a (ucast k)" for a
      using w n that(1) neg_count [of k] m v [of a] rotr_rotl [OF n(1), of "ucast a :: u32"]
      by (simp add: valv_def shv_k shift_mask_def)
  qed (use T(6) that in auto)
  ultimately show "res_ok J f (snd fold_simplify_shift_ik eng J f)"
    unfolding fold_simplify_shift_ik_def snd_conv Let_def k_def [symmetric] m_def [symmetric]
    by (intro res_if res_Next) simp_all
qed

lemma shift_andk [fold_ok]: "rule_ok fold_simplify_shift_andk"
proof (rule rule_okI)
  fix eng J f assume A: "jit_ok J" "typed J f" "supported f" and fit: "fits J f fold_simplify_shift_andk"
  have o: "ins_o f \<in> shift_ops" "ins_o (fright J f) = IR_BAND"
    using fit by (auto simp: fits_def fold_simplify_shift_andk_def)
  note T = shift_pre [OF A o(1)]
  note R = pure_opnd [OF A(1) T(2) o(2)]
  have R': "opnd J (ins_op1 (fright J f)) False" "opnd J (ins_op2 (fright J f)) False" using R by auto
  have "res_ok J f (RetryFold J (f\<lparr>ins_op2 := ins_op1 (fright J f)\<rparr>))"
    if k: "ins_o (jir J (ins_op2 (fright J f))) = IR_KINT"
      "ins_i (jir J (ins_op2 (fright J f))) AND shift_mask (ins_t f) = shift_mask (ins_t f)"
  proof (rule res_retry_gen [OF A(1) T(5) _ _ _ _ _ T(1)])
    let ?f = "f\<lparr>ins_op2 := ins_op1 (fright J f)\<rparr>"
    show "fins_ok J ?f" by (rule shift_fins) (use o T R' in auto)
    show "supported ?f" using A(3) by (simp add: supported_def)
    fix v assume v: "sat J v"
    obtain b :: u32 where b: "rdv v (ins_op1 (fright J f)) = ucast b" using fits_sh [OF v R'(1)] by blast
    define i where "i = ins_i (jir J (ins_op2 (fright J f)))"
    have r: "rdv v (ins_op2 f) = ucast (b AND i)"
      using R v b kV [OF A(1) R'(2) k(1)] by (simp add: opv_def i_def)
    have "(b AND i) AND shift_mask (ins_t f) = b AND shift_mask (ins_t f)"
      using k(2) unfolding i_def by (simp add: and.assoc)
    then have u: "unat ((b AND i) AND shift_mask (ins_t f)) = unat (b AND shift_mask (ins_t f))" by simp
    show "valv (wd f) (ins_o ?f) (rdv v (ins_op1 ?f)) (rdv v (ins_op2 ?f)) = valv (wd f) (ins_o f) (rdv v (ins_op1 f)) (rdv v (ins_op2 f))"
      using o(1) r b u by (cases "wd f") (simp_all add: valv_def shv_k shift_mask_def unat_and31 unat_and63)
  qed (use T in simp_all)
  then show "res_ok J f (snd fold_simplify_shift_andk eng J f)"
    unfolding fold_simplify_shift_andk_def snd_conv Let_def by (intro res_if res_Next) simp_all
qed

lemma rot_m1 [simp]: "word_rotl n (- 1) = - 1" "word_rotr n (- 1) = - 1" "signed_drop_bit n (- 1 :: 'a::len word) = - 1"
  by (rule bit_word_eqI; simp add: bit_word_rotl_iff bit_word_rotr_iff bit_signed_drop_bit_iff)+

lemma shift1_ki [fold_ok]: "rule_ok fold_simplify_shift1_ki"
proof (rule rule_okI)
  fix eng J f assume A: "jit_ok J" "typed J f" "supported f" and fit: "fits J f fold_simplify_shift1_ki"
  have o: "ins_o f \<in> shift_ops" "ins_o (fleft J f) \<in> {IR_KINT, IR_KINT64}"
    using fit by (auto simp: fits_def fold_simplify_shift1_ki_def)
  note T = shift_pre [OF A o(1)]
  show "res_ok J f (snd fold_simplify_shift1_ki eng J f)"
    unfolding fold_simplify_shift1_ki_def snd_conv
    by (intro res_if res_Next res_ref_gen A T)
      (use kV [OF A(1) T(1)] kV64 [OF A(1) T(1)] o in \<open>auto simp: valv_def shv_def k64_of_def\<close>)
qed

lemma shift2_ki [fold_ok]: "rule_ok fold_simplify_shift2_ki"
proof (rule rule_okI)
  fix eng J f assume A: "jit_ok J" "typed J f" "supported f" and fit: "fits J f fold_simplify_shift2_ki"
  have o: "ins_o f \<in> {IR_BSAR, IR_BROL, IR_BROR}" "ins_o (fleft J f) \<in> {IR_KINT, IR_KINT64}"
    using fit by (auto simp: fits_def fold_simplify_shift2_ki_def)
  have o1: "ins_o f \<in> shift_ops" using o(1) by auto
  note T = shift_pre [OF A o1]
  show "res_ok J f (snd fold_simplify_shift2_ki eng J f)"
    unfolding fold_simplify_shift2_ki_def snd_conv Let_def
    by (intro res_if res_Next res_ref_gen A T)
      (use kV [OF A(1) T(1)] kV64 [OF A(1) T(1)] o in \<open>auto simp: valv_def shv_def k64_of_def\<close>)
qed

end
