(* ===== verification/Lj_Fold_Muldiv.thy ===== *)
theory Lj_Fold_Muldiv
  imports Lj_Fold_Shift
begin

text \<open>
  Soundness of the rules for multiplication by a power of two, and for modulo.
\<close>

text \<open>Multiplication by a power of two, and the modulo of one.\<close>

lemma bit_u32_nat: "bit (k :: u32) n = odd (unat k div 2 ^ n)"
  using bit_unsigned_iff [of k n, where 'a = nat] by (simp add: bit_iff_odd possible_bit_def)

lemma fls_pow2:
  assumes "k \<noteq> 0" and "k AND (k - 1) = (0 :: u32)"
  shows "unat k = 2 ^ lj_fls k"
proof (rule ccontr)
  let ?n = "lj_fls k"
  have l: "2 ^ ?n \<le> unat k" "unat k < 2 * 2 ^ ?n"
    using fls_nat_lower [of "unat k"] fls_nat_upper [of "unat k"] assms(1) by (simp_all add: lj_fls_def unat_gt_0)
  assume "unat k \<noteq> 2 ^ ?n"
  then have m: "2 ^ ?n \<le> unat k - 1" "unat k - 1 < 2 * 2 ^ ?n" using l by simp_all
  have d: "x div 2 ^ ?n = 1" if "2 ^ ?n \<le> x" "x < 2 * 2 ^ ?n" for x :: nat
    using that by (simp add: div_nat_eqI)
  have "unat (k - 1) = unat k - 1" using assms(1) by (simp add: unat_minus_one)
  then have "bit k ?n" "bit (k - 1) ?n" using d [OF l] d [OF m] by (simp_all add: bit_u32_nat)
  then have "bit (k AND (k - 1)) ?n" by (simp add: bit_and_iff)
  then show False using assms(2) by simp
qed

lemma pow2_word: "k \<noteq> 0 \<Longrightarrow> k AND (k - 1) = (0 :: u32) \<Longrightarrow> k = 2 ^ lj_fls k"
proof -
  assume "k \<noteq> 0" "k AND (k - 1) = 0"
  then have "of_nat (unat k) = (of_nat (2 ^ lj_fls k) :: u32)" using fls_pow2 by metis
  then show ?thesis by simp
qed

lemma unat_fls: "unat (of_nat (lj_fls k) :: u32) = lj_fls k"
  using lj_fls_less_32 [of k] by (simp add: unsigned_of_nat take_bit_nat_eq_self)

lemma mul_shift:
  assumes ok: "jit_ok J" and t: "typed J f" and f: "ins_o f = IR_MUL" and k: "k \<noteq> 0" "k AND (k - 1) = 0"
    and r: "\<And>v. sat J v \<Longrightarrow> rdv v (ins_op2 f) = ucast k"
  shows "res_ok J f (retry_op2_kint J (f\<lparr>ins_o := IR_BSHL\<rparr>) (of_nat (lj_fls k)))"
proof (rule res_kint2_gen [OF ok, where w = False])
  have T: "opnd J (ins_op1 f) (wd f)" "ty_ok (ins_o f) (ins_t f)" using left_opnd [OF t] f by simp_all
  show "fins_ok J' (f\<lparr>ins_o := IR_BSHL, ins_op2 := r\<rparr>)" if "ext J J'" "opnd J' r False" for J' r
    by (rule shift_fins) (use ext_opnd [OF that(1) T(1)] that gen_ty [OF T(2)] f in auto)
  fix v assume v: "sat J v"
  have m: "a * (2 ^ lj_fls k) = push_bit (lj_fls k) a" for a :: "'a::len word" by (simp add: push_bit_eq_mult)
  have u: "(ucast k :: u64) = 2 ^ lj_fls k"
  proof (subst pow2_word [OF k], rule bit_word_eqI)
    show "bit (ucast (2 ^ lj_fls k :: u32) :: u64) n = bit (2 ^ lj_fls k :: u64) n" for n
      using lj_fls_less_32 [of k] by (auto simp: bit_ucast_iff bit_exp_word)
  qed
  have m32: "a * k = push_bit (lj_fls k) a" for a using m [of a] pow2_word [OF k] by simp
  show "valv (wd f) (ins_o (f\<lparr>ins_o := IR_BSHL\<rparr>)) (rdv v (ins_op1 (f\<lparr>ins_o := IR_BSHL\<rparr>))) (ucast (of_nat (lj_fls k) :: u32)) =
      valv (wd f) (ins_o f) (rdv v (ins_op1 f)) (rdv v (ins_op2 f))"
  proof (cases "wd f")
    case True
    then show ?thesis using f r [OF v] lj_fls_less_32 [of k] by (simp add: valv_def shv_k opv_def unat_fls m u)
  next
    case False
    then show ?thesis using f r [OF v] lj_fls_less_32 [of k] by (simp add: valv_def shv_k opv_def unat_fls m32)
  qed
qed (use f in \<open>simp_all add: supported_def\<close>)

lemma intmul_k32 [fold_ok]: "rule_ok fold_simplify_intmul_k32"
proof (rule rule_okI)
  fix eng J f assume A: "jit_ok J" "typed J f" and fit: "fits J f fold_simplify_intmul_k32"
  have o: "ins_o f = IR_MUL" "ins_o (fright J f) = IR_KINT"
    using fit by (auto simp: fits_def fold_simplify_intmul_k32_def)
  note T = left_opnd [OF A(2)] right_opnd [OF A(2)]
  note K = kV [OF A(1) T(3) o(2)]
  show "res_ok J f (snd fold_simplify_intmul_k32 eng J f)"
    unfolding fold_simplify_intmul_k32_def simplify_intmul_k_def snd_conv
    by (intro res_if res_Next res_ref_pure mul_shift A o) (use A o T K in \<open>auto simp: word_simps\<close>)
qed

lemma intmul_k64 [fold_ok]: "rule_ok fold_simplify_intmul_k64"
proof (rule rule_okI)
  fix eng J f assume A: "jit_ok J" "typed J f" and fit: "fits J f fold_simplify_intmul_k64"
  have o: "ins_o f = IR_MUL" "ins_o (fright J f) = IR_KINT64"
    using fit by (auto simp: fits_def fold_simplify_intmul_k64_def)
  note T = left_opnd [OF A(2)] right_opnd [OF A(2)]
  note K = kV64 [OF A(1) T(3) o(2)]
  show "res_ok J f (snd fold_simplify_intmul_k64 eng J f)"
  proof (cases "ins_u64 (fright J f) < 0x80000000")
    case True
    define k :: u32 where "k = ucast (ins_u64 (fright J f))"
    have u: "ins_u64 (fright J f) = ucast k"
      using ucast_ucast_less [of "ins_u64 (fright J f)"] True by (simp add: k_def order.strict_trans)
    have r: "rdv v (ins_op2 f) = ucast k" if "sat J v" for v using K o that u by simp
    show ?thesis using True
      unfolding fold_simplify_intmul_k64_def simplify_intmul_k_def snd_conv k_def [symmetric]
      by (simp only: if_True) (intro res_if res_Next res_ref_pure mul_shift A o r; use A o T K r in \<open>auto simp: word_simps\<close>)
  qed (simp add: fold_simplify_intmul_k64_def)
qed

lemma mod_mask:
  assumes "0 < sint k" and "k AND (k - 1) = (0 :: u32)"
  shows "word_of_int (sint a mod sint k) = a AND (k - 1)"
proof -
  have k: "k \<noteq> 0" using assms(1) by auto
  define n where "n = lj_fls k"
  have k2: "k = 2 ^ n" "unat k = 2 ^ n" using pow2_word [OF k assms(2)] fls_pow2 [OF k assms(2)] by (simp_all add: n_def)
  have "uint k = sint k mod 2 ^ 32" by (simp add: uint_sint take_bit_eq_mod)
  then have "uint k = sint k" using assms(1) sint_lt [of k] by simp
  then have s: "sint k = 2 ^ n" using k2(2) by (simp add: uint_nat)
  have "word_of_int (take_bit n (sint a)) = (take_bit n a :: u32)"
    by (rule bit_word_eqI) (simp add: bit_take_bit_iff bit_sint_iff bit_word_of_int_iff)
  moreover have "a AND (k - 1) = take_bit n a" by (simp only: k2(1) take_bit_eq_mask mask_eq_exp_minus_1)
  ultimately show ?thesis unfolding s by (simp only: take_bit_eq_mod)
qed

lemma intmod_k [fold_ok]: "rule_ok fold_simplify_intmod_k"
proof (rule rule_okI)
  fix eng J f assume A: "jit_ok J" "typed J f" "supported f" and fit: "fits J f fold_simplify_intmod_k"
  have o: "ins_o f = IR_MOD" "ins_o (fright J f) = IR_KINT"
    using fit by (auto simp: fits_def fold_simplify_intmod_k_def)
  have w: "\<not> wd f" using A(3) o(1) by (auto simp: supported_def)
  note T = left_opnd [OF A(2)] right_opnd [OF A(2)]
  note K = kV [OF A(1) T(3) o(2)]
  define k where "k = ins_i (fright J f)"
  have "res_ok J f (retry_op2_kint J (f\<lparr>ins_o := IR_BAND\<rparr>) (k - 1))" if k: "0 < sint k" "k AND (k - 1) = 0"
  proof (rule res_retry_kint2 [OF A(1), where w = False])
    show "fins_ok J' (f\<lparr>ins_o := IR_BAND, ins_op2 := r\<rparr>)" if "ext J J'" "opnd J' r False" for J' r
      using pure_fins [of "f\<lparr>ins_o := IR_BAND, ins_op2 := r\<rparr>" J'] ext_opnd [OF that(1)] that T o w by (simp add: ty_ok_def)
    show "guard v (f\<lparr>ins_o := IR_BAND, ins_op2 := r\<rparr>) = guard v f \<and>
      (op_value (ins_o f) \<longrightarrow> eval v (f\<lparr>ins_o := IR_BAND, ins_op2 := r\<rparr>) = eval v f)"
      if v: "sat J v" "v r = ucast (k - 1)" for v r
    proof -
      have "v (ins_op2 f) = ucast k" using K o v by (simp add: rdv_def k_def)
      then show ?thesis using v w o mod_mask [OF k] by (simp add: guard_value evals)
    qed
  qed (use o in \<open>simp_all add: supported_def\<close>)
  then show "res_ok J f (snd fold_simplify_intmod_k eng J f)"
    unfolding fold_simplify_intmod_k_def snd_conv Let_def k_def [symmetric] by (intro res_if res_Next) simp_all
qed

end
