(* ===== verification/Lj_Fold_Mask.thy ===== *)
theory Lj_Fold_Mask
  imports Lj_Fold_Muldiv
begin

text \<open>
  Soundness of the rules for masked shifts and for shifts of shifts.
\<close>

text \<open>Masks and shifts.\<close>

lemma shift_and:
  "o1 \<in> shift_ops \<Longrightarrow> shift o1 (a AND k :: 'a::len word) n = shift o1 a n AND shift o1 k n"
proof -
  have "signed_drop_bit n (a AND k) = signed_drop_bit n a AND signed_drop_bit n k"
    by (rule bit_word_eqI) (simp add: bit_signed_drop_bit_iff bit_and_iff)
  then show "o1 \<in> shift_ops \<Longrightarrow> shift o1 (a AND k :: 'a::len word) n = shift o1 a n AND shift o1 k n"
    by (elim insertE emptyE) (simp_all add: push_bit_and drop_bit_and word_rot_logs)
qed

lemma andk_shiftk [fold_ok]: "rule_ok fold_simplify_andk_shiftk"
proof (rule rule_okI)
  fix eng J f assume A: "jit_ok J" "typed J f" and fit: "fits J f fold_simplify_andk_shiftk"
  have o: "ins_o f = IR_BAND" "ins_o (fleft J f) \<in> {IR_BSHL, IR_BSHR}" "ins_o (fright J f) = IR_KINT"
    using fit by (auto simp: fits_def fold_simplify_andk_shiftk_def)
  note T = left_opnd [OF A(2)] right_opnd [OF A(2)]
  have T1: "opnd J (ins_op1 f) (wd f)" "opnd J (ins_op2 f) (wd f)" using T o by auto
  have s: "ins_o (fleft J f) \<in> shift_ops" using o(2) by auto
  note S = shift_value [OF A(1) T1(1) refl s]
  note K = kV [OF A(1) T1(2) o(3)]
  have "res_ok J f (LeftFold J f)"
    if k: "ins_o (jir J (ins_op2 (fleft J f))) = IR_KINT"
      "kfold_intop (- 1) (ins_i (jir J (ins_op2 (fleft J f)))) (ins_o (fleft J f)) = ins_i (fright J f)"
  proof (rule res_ref_pure [OF A(1) _ T1(1)])
    fix v assume v: "sat J v"
    define n where "n = ins_i (jir J (ins_op2 (fleft J f)))"
    define x where "x = (ucast (rdv v (ins_op1 (fleft J f))) :: u32)"
    have nv: "rdv v (ins_op2 (fleft J f)) = ucast n" using kV [OF A(1) S(2) k(1)] v by (simp add: n_def)
    have m: "ins_i (fright J f) = shift (ins_o (fleft J f)) (- 1) (unat n mod 32)"
      using k(2) o(2) by (auto simp: n_def unat_and31)
    show "rdv v (ins_op1 f) = opv (wd f) (ins_o f) (rdv v (ins_op1 f)) (rdv v (ins_op2 f))"
    proof (cases "wd f")
      case True
      then have z: "shift (ins_o (fleft J f)) (- 1 :: u32) (unat n mod 32) = 0" using K m by simp
      have "bit (shift (ins_o (fleft J f)) (- 1 :: u32) (unat n mod 32)) (if ins_o (fleft J f) = IR_BSHL then 31 else 0)"
        using o(2) by (auto simp: bit_simps)
      then show ?thesis unfolding z by simp
    next
      case False
      have a: "shift (ins_o (fleft J f)) (x AND - 1) (unat n mod 32) = shift (ins_o (fleft J f)) x (unat n mod 32) AND shift (ins_o (fleft J f)) (- 1) (unat n mod 32)"
        by (rule shift_and [OF s])
      have "rdv v (ins_op1 f) = ucast (shift (ins_o (fleft J f)) x (unat n mod 32))"
        using S(3) [OF v] False nv by (simp add: shv_k x_def)
      moreover have "rdv v (ins_op2 f) = ucast (shift (ins_o (fleft J f)) (- 1 :: u32) (unat n mod 32))"
        using K m v by simp
      ultimately show ?thesis using False o(1) a by (simp add: opv_def)
    qed
  qed (use o in simp)
  then show "res_ok J f (snd fold_simplify_andk_shiftk eng J f)"
    unfolding fold_simplify_andk_shiftk_def snd_conv Let_def by (intro res_if res_Next) simp_all
qed

lemma rotl_rotl: "word_rotl a (word_rotl b (x :: 'a::len word)) = word_rotl (a + b) x"
proof -
  have "word_rotr (a + b) (word_rotl a (word_rotl b x)) = word_rotr b (word_rotr a (word_rotl a (word_rotl b x)))"
    by (simp only: word_rotr_word_rotr_eq [of b a] add.commute [of b a])
  also have "\<dots> = x" by (simp only: word_rot_lr)
  finally have "word_rotl (a + b) x = word_rotl a (word_rotl b x)" by (rule word_rot_gal [THEN iffD1])
  then show ?thesis ..
qed

lemma shift_shift: "o1 \<in> shift_ops \<Longrightarrow> shift o1 (shift o1 x a) b = shift o1 (x :: 'a::len word) (a + b)"
  by (elim insertE emptyE) (simp_all add: rotl_rotl word_rotr_word_rotr_eq ac_simps)

lemma shift_over:
  "LENGTH('a) \<le> n \<Longrightarrow> shift IR_BSHL (x :: 'a::len word) n = 0" "LENGTH('a) \<le> n \<Longrightarrow> shift IR_BSHR x n = 0"
  "LENGTH('a) - 1 \<le> n \<Longrightarrow> shift IR_BSAR x n = shift IR_BSAR x (LENGTH('a) - 1)"
  "shift IR_BROL x n = shift IR_BROL x (n mod LENGTH('a))" "shift IR_BROR x n = shift IR_BROR x (n mod LENGTH('a))"
proof -
  show "LENGTH('a) \<le> n \<Longrightarrow> shift IR_BSHL x n = 0" "LENGTH('a) \<le> n \<Longrightarrow> shift IR_BSHR x n = 0"
    by (auto intro!: bit_word_eqI simp: bit_simps dest: bit_imp_le_length)
  show "LENGTH('a) - 1 \<le> n \<Longrightarrow> shift IR_BSAR x n = shift IR_BSAR x (LENGTH('a) - 1)"
  proof -
    assume n: "LENGTH('a) - 1 \<le> n"
    have "bit (signed_drop_bit m x) i = bit x (LENGTH('a) - 1)" if "LENGTH('a) - 1 \<le> m" "i < LENGTH('a)" for m i
    proof (cases "LENGTH('a) - m \<le> i")
      case False
      then have "i = 0" "m = LENGTH('a) - 1" using that(1) by linarith+
      then show ?thesis using that by (simp add: bit_signed_drop_bit_iff)
    qed (use that in \<open>simp add: bit_signed_drop_bit_iff\<close>)
    then show "shift IR_BSAR x n = shift IR_BSAR x (LENGTH('a) - 1)" using n by (auto intro!: bit_word_eqI)
  qed
  show "shift IR_BROL x n = shift IR_BROL x (n mod LENGTH('a))" "shift IR_BROR x n = shift IR_BROR x (n mod LENGTH('a))"
    by (auto intro!: bit_word_eqI simp: bit_word_rotl_iff bit_word_rotr_iff mod_simps)
qed

lemma reassoc_shift [fold_ok]: "rule_ok fold_reassoc_shift"
proof (rule rule_okI)
  fix eng J f assume A: "jit_ok J" "typed J f" "supported f" and fit: "fits J f fold_reassoc_shift"
  have o: "ins_o f \<in> shift_ops" "ins_o (fleft J f) = ins_o f" "ins_o (fright J f) = IR_KINT"
    using fit by (auto simp: fits_def fold_reassoc_shift_def)
  note T = shift_pre [OF A o(1)]
  note S = shift_value [OF A(1) T(1) o(2,1)]
  note K = kV [OF A(1) T(2) o(3)]
  define g where "g = f\<lparr>ins_op1 := ins_op1 (fleft J f)\<rparr>"
  define mk where "mk = shift_mask (ins_t f)"
  define k1 k2 where "k1 = ins_i (jir J (ins_op2 (fleft J f)))" and "k2 = ins_i (fright J f)"
  define k where "k = (k1 AND mk) + (k2 AND mk)"
  have op: "op_value (ins_o f)" "ins_o f \<notin> ov_ops" using gen_value T(5) by blast+
  show "res_ok J f (snd fold_reassoc_shift eng J f)"
  proof (cases "ins_o (jir J (ins_op2 (fleft J f))) = IR_KINT")
    case True
    define N where "N = (if wd f then 64 else 32 :: nat)"
    have m: "unat mk = N - 1" "mk = (if wd f then 63 else 31)" by (simp_all add: mk_def N_def shift_mask_def)
    have n12: "unat (k1 AND mk) = unat k1 mod N" "unat (k2 AND mk) = unat k2 mod N"
      by (simp_all add: m(2) N_def unat_and31 unat_and63)
    have nn: "unat k1 mod N < N" "unat k2 mod N < N" "N \<le> 64" by (simp_all add: N_def)
    then have "unat k1 mod N + unat k2 mod N < 4294967296" by linarith
    then have n: "unat k = unat k1 mod N + unat k2 mod N"
      unfolding k_def n12 [symmetric] by (intro unat_add_lem [THEN iffD1]) (simp add: n12)
    define a where "a = (\<lambda>v. rdv v (ins_op1 (fleft J f)))"
    have val: "valv (wd f) (ins_o f) (rdv v (ins_op1 f)) (rdv v (ins_op2 f)) =
        (if wd f then shift (ins_o f) (a v) (unat k) else ucast (shift (ins_o f) (ucast (a v) :: u32) (unat k)))"
      if v: "sat J v" for v
    proof -
      have "rdv v (ins_op2 (fleft J f)) = ucast k1" using kV [OF A(1) S(2) True] v by (simp add: k1_def)
      then show ?thesis using S(3) [OF v] K v o(1) n
        by (simp add: valv_def shv_k k2_def N_def a_def shift_shift [OF o(1)])
    qed
    have R: "res_ok J f (retry_op2_kint J g j)"
      if j: "\<And>x :: u64. wd f \<Longrightarrow> shift (ins_o f) x (unat j mod 64) = shift (ins_o f) x (unat k)"
        "\<And>x :: u32. \<not> wd f \<Longrightarrow> shift (ins_o f) x (unat j mod 32) = shift (ins_o f) x (unat k)" for j
    proof (rule res_kint2_gen [OF A(1) T(5), where w = False])
      show "fins_ok J' (g\<lparr>ins_op2 := r\<rparr>)" if "ext J J'" "opnd J' r False" for J' r
        by (rule shift_fins) (use ext_opnd [OF that(1) S(1)] that T o in \<open>auto simp: g_def\<close>)
      show "supported g" using A(3) by (simp add: supported_def g_def)
      show "valv (wd f) (ins_o g) (rdv v (ins_op1 g)) (ucast j) = valv (wd f) (ins_o f) (rdv v (ins_op1 f)) (rdv v (ins_op2 f))"
        if "sat J v" for v unfolding val [OF that] using j o(1) by (simp add: valv_def shv_k g_def a_def)
    qed (use T(5) in \<open>simp_all add: g_def\<close>)
    show ?thesis
    proof (cases "k > mk")
      case False
      then have "unat k < N" using m(1) by (simp add: word_le_nat_alt not_less N_def split: if_splits)
      then have "res_ok J f (retry_op2_kint J g k)" by (intro R) (simp_all add: N_def)
      then show ?thesis using True False
        by (simp add: fold_reassoc_shift_def Let_def flip: k1_def k2_def mk_def g_def k_def)
    next
      case big: True
      then have N: "N \<le> unat k" using m(1) by (simp add: word_less_nat_alt N_def split: if_splits)
      have "res_ok J f (if mk = 31 then KIntFold J 0 else Int64Fold J 0)" if s: "ins_o f = IR_BSHL \<or> ins_o f = IR_BSHR"
      proof -
        have z: "guard v f \<and> eval v f = 0" if v: "sat J v" for v
          unfolding eval_gen [OF T(5)] val [OF v] using guard_value [OF op] s N
          by (auto simp: N_def shift_over split: if_splits)
        show ?thesis
        proof (cases "wd f")
          case True
          then show ?thesis using res_int64 [OF A(1,2) True z] m(2) by simp
        next
          case False
          then show ?thesis using z m(2) op by (simp add: res_ok_def)
        qed
      qed
      moreover have "res_ok J f (retry_op2_kint J g mk)" if s: "ins_o f = IR_BSAR"
        by (intro R) (use s N m(2) in \<open>auto simp: N_def shift_over(3) [of "unat k"] simp del: shift.simps split: if_splits\<close>)
      moreover have "res_ok J f (retry_op2_kint J g (k AND mk))" if s: "ins_o f \<in> {IR_BROL, IR_BROR}"
      proof (intro R)
        have w: "\<not> wd f" using T(6) s by auto
        then show "shift (ins_o f) x (unat (k AND mk) mod 32) = shift (ins_o f) x (unat k)" for x :: u32
          using s shift_over(4,5) [of x "unat k"] m(2) by (auto simp: unat_and31)
      qed (use T(6) s in auto)
      ultimately have "res_ok J f (if ins_o f = IR_BSHL \<or> ins_o f = IR_BSHR then if mk = 31 then KIntFold J 0 else Int64Fold J 0
            else if ins_o f = IR_BSAR then retry_op2_kint J g mk else retry_op2_kint J g (k AND mk))"
        using o(1) by (intro res_if) auto
      then show ?thesis
        unfolding fold_reassoc_shift_def snd_conv Let_def k1_def [symmetric] k2_def [symmetric] mk_def [symmetric]
          g_def [symmetric] k_def [symmetric]
        by (simp only: True big if_True simp_thms) (rule res_if [OF res_Next])
    qed
  qed (simp add: fold_reassoc_shift_def Let_def)
qed

end
