(* ===== verification/Lj_Fold_Overflow.thy ===== *)
theory Lj_Fold_Overflow
  imports Lj_Fold_Rules
begin

text \<open>
  Soundness of the rules that also serve the operations that check for overflow, and of the rules
  for commutative operations.
\<close>

text \<open>Operations that check for overflow.\<close>

lemma in_int32_sint [simp]: "in_int32 (sint (a :: u32))"
  using sint_ge [of a] sint_lt [of a] by (simp add: in_int32_def)

lemma in_int32_0 [simp]: "in_int32 0"
  by (simp add: in_int32_def)

lemma ov_facts:
  assumes "typed J f" and "ins_o f \<in> ov_ops"
  shows "\<not> wd f" "ins_t f = IRT_INT" "opnd J (ins_op1 f) False" "opnd J (ins_op2 f) False"
proof -
  have n: "ins_o f \<notin> shift_ops \<union> un_ops \<union> {IR_CONV, IR_ABC}" using assms(2) by auto
  have l: "opnd J (ins_op1 f) (wd f)" "ty_ok (ins_o f) (ins_t f)" using left_opnd [OF assms(1)] n by blast+
  have r: "opnd J (ins_op2 f) (wd f)" using right_opnd [OF assms(1)] n by blast
  show t: "ins_t f = IRT_INT" using l(2) assms(2) by (auto simp: ty_ok_def)
  show "\<not> wd f" using t by simp
  then show "opnd J (ins_op1 f) False" "opnd J (ins_op2 f) False" using l(1) r by simp_all
qed

lemma ov_fins:
  assumes "ins_o f \<in> ov_ops" and "ins_t f = IRT_INT" "opnd J (ins_op1 f) False" "opnd J (ins_op2 f) False"
  shows "fins_ok J f \<and> supported f"
  using assms by (elim insertE emptyE) (simp_all add: fins_ok_def typed_def Let_def ty_ok_def supported_def)

lemma ov_eval:
  assumes "ins_o f \<in> ov_ops" and "ins_t f = IRT_INT"
  shows "eval v f = ucast (arith (ins_o f) (ucast (rdv v (ins_op1 f)) :: u32) (ucast (rdv v (ins_op2 f))))"
    "guard v f = in_int32 (ov_int (ins_o f) (sint (ucast (rdv v (ins_op1 f)) :: u32)) (sint (ucast (rdv v (ins_op2 f)) :: u32)))"
  using assms by (elim insertE emptyE; simp add: evals rdv_def)+

lemma res_ref_ov:
  assumes "jit_ok J" "typed J f" and o: "ins_o f \<in> ov_ops" and "opnd J r False"
    and "\<And>v. sat J v \<Longrightarrow> rdv v r < 0x100000000 \<Longrightarrow> rdv v r = ucast (arith (ins_o f) (ucast (rdv v (ins_op1 f)) :: u32) (ucast (rdv v (ins_op2 f)))) \<and>
      in_int32 (ov_int (ins_o f) (sint (ucast (rdv v (ins_op1 f)) :: u32)) (sint (ucast (rdv v (ins_op2 f)) :: u32)))"
  shows "res_ok J f (RefFold J r)"
proof (rule res_ref [OF assms(1)])
  note F = ov_facts [OF assms(2,3)]
  show "opnd J r (wd f)" using F(1) assms(4) by simp
  show "guard v f \<and> v r = eval v f" if v: "sat J v" for v
    using assms(5) [OF v] opnd_less [OF v assms(4)] ov_eval [OF o F(2), of v] by (simp add: rdv_def)
qed

lemma res_retry_ov:
  assumes "jit_ok J" "typed J f" and o: "ins_o f \<in> ov_ops" "ins_o f' \<in> ov_ops" "ins_t f' = ins_t f" "opnd J (ins_op1 f') False" "opnd J (ins_op2 f') False"
    and "\<And>v. sat J v \<Longrightarrow>
     arith (ins_o f') (ucast (rdv v (ins_op1 f')) :: u32) (ucast (rdv v (ins_op2 f'))) = arith (ins_o f) (ucast (rdv v (ins_op1 f)) :: u32) (ucast (rdv v (ins_op2 f))) \<and>
     ov_int (ins_o f') (sint (ucast (rdv v (ins_op1 f')) :: u32)) (sint (ucast (rdv v (ins_op2 f')) :: u32)) =
      ov_int (ins_o f) (sint (ucast (rdv v (ins_op1 f)) :: u32)) (sint (ucast (rdv v (ins_op2 f)) :: u32))"
  shows "res_ok J f (RetryFold J f')"
proof -
  have t: "ins_t f' = IRT_INT" using ov_facts(2) [OF assms(2,3)] o(3) by simp
  show ?thesis
  proof (rule res_retry [OF assms(1)])
    show "fins_ok J f'" "supported f'" using ov_fins [OF o(2) t o(4,5)] by blast+
    show "op_value (ins_o f') = op_value (ins_o f)" using o(1,2) by (auto simp: op_value_def)
    show "wd f' = wd f" using o(3) by simp
    show "guard v f' = guard v f \<and> (op_value (ins_o f) \<longrightarrow> eval v f' = eval v f)" if v: "sat J v" for v
      using assms(8) [OF v] ov_eval [OF o(2) t] ov_eval [OF o(1) ov_facts(2) [OF assms(2,3)]] by simp
  qed
qed

lemma intmul_k [fold_ok]: "rule_ok fold_simplify_intmul_k"
proof (rule rule_okI)
  fix eng J f assume A: "jit_ok J" "typed J f" and fit: "fits J f fold_simplify_intmul_k"
  have o: "ins_o f = IR_MULOV" "ins_o (fright J f) = IR_KINT"
    using fit by (auto simp: fits_def fold_simplify_intmul_k_def)
  have i: "ins_o f \<in> ov_ops" using o by simp
  note T = ov_facts [OF A(2) i]
  note K = kV [OF A(1) T(4) o(2)]
  show "res_ok J f (snd fold_simplify_intmul_k eng J f)" unfolding fold_simplify_intmul_k_def snd_conv
    by (intro res_if res_Next res_ref_ov res_retry_ov) (use A o T K in \<open>auto simp: ucast_ucast_less\<close>)
qed

lemma intadd_k [fold_ok]: "rule_ok fold_simplify_intadd_k"
proof (rule rule_okI)
  fix eng J f assume A: "jit_ok J" "typed J f" and fit: "fits J f fold_simplify_intadd_k"
  have o: "ins_o f \<in> {IR_ADD, IR_ADDOV, IR_SUBOV}" "ins_o (fright J f) = IR_KINT"
    using fit by (auto simp: fits_def fold_simplify_intadd_k_def)
  have T: "opnd J (ins_op1 f) (wd f)" "opnd J (ins_op2 f) (wd f)"
    using left_opnd [OF A(2)] right_opnd [OF A(2)] o(1) by auto
  note K = kV [OF A(1) T(2) o(2)]
  have "res_ok J f (LeftFold J f)" if z: "ins_i (fright J f) = 0"
  proof (cases "ins_o f = IR_ADD")
    case True
    then show ?thesis by (intro res_ref_pure) (use A T K z in \<open>auto simp: word_simps\<close>)
  next
    case False
    then have i: "ins_o f \<in> ov_ops" using o(1) by auto
    show ?thesis by (intro res_ref_ov A i) (use ov_facts [OF A(2) i] o(1) K z in \<open>auto simp: ucast_ucast_less\<close>)
  qed
  then show "res_ok J f (snd fold_simplify_intadd_k eng J f)" unfolding fold_simplify_intadd_k_def snd_conv
    by (intro res_if res_Next)
qed

lemma intsub [fold_ok]: "rule_ok fold_simplify_intsub"
proof (rule rule_okI)
  fix eng J f assume A: "jit_ok J" "typed J f" and fit: "fits J f fold_simplify_intsub"
  have o: "ins_o f \<in> {IR_SUB, IR_SUBOV}"
    using fit by (auto simp: fits_def fold_simplify_intsub_def)
  show "res_ok J f (snd fold_simplify_intsub eng J f)"
  proof (cases "ins_o f = IR_SUB")
    case True
    then show ?thesis unfolding fold_simplify_intsub_def snd_conv
      by (intro res_if res_Next res_k_pure res_k64_pure) (use A in \<open>auto simp: opv_def\<close>)
  next
    case False
    then have i: "ins_o f \<in> ov_ops" using o(1) by auto
    show ?thesis using ov_facts [OF A(2) i] False o(1) unfolding fold_simplify_intsub_def
      using ov_eval [OF i] by (auto simp: res_ok_def)
  qed
qed

lemma comm_swap [fold_ok]: "rule_ok fold_comm_swap"
proof (rule rule_okI)
  fix eng J f assume A: "jit_ok J" "typed J f" and fit: "fits J f fold_comm_swap"
  have o: "ins_o f \<in> {IR_ADD, IR_MUL, IR_ADDOV, IR_MULOV}"
    using fit by (auto simp: fits_def fold_comm_swap_def)
  have T: "opnd J (ins_op1 f) (wd f)" "opnd J (ins_op2 f) (wd f)" "ty_ok (ins_o f) (ins_t f)"
    using left_opnd [OF A(2)] right_opnd [OF A(2)] o(1) by auto
  show "res_ok J f (snd fold_comm_swap eng J f)"
  proof (cases "ins_o f \<in> {IR_ADD, IR_MUL}")
    case True
    then show ?thesis unfolding fold_comm_swap_def comm_swap_def snd_conv
      by (intro res_if res_Next res_retry_pure) (use A T in \<open>auto simp: opv_def ac_simps\<close>)
  next
    case False
    then have i: "ins_o f \<in> ov_ops" using o(1) by auto
    show ?thesis unfolding fold_comm_swap_def comm_swap_def snd_conv
      by (intro res_if res_Next res_retry_ov A i) (use ov_facts [OF A(2) i] i o False in \<open>auto simp: ac_simps\<close>)
  qed
qed

lemma comm_bxor [fold_ok]: "rule_ok fold_comm_bxor"
proof (rule rule_okI)
  fix eng J f assume A: "jit_ok J" "typed J f" and fit: "fits J f fold_comm_bxor"
  have o: "ins_o f = IR_BXOR"
    using fit by (auto simp: fits_def fold_comm_bxor_def)
  note x = xor_strict [OF A(2) o]
  note T = left_opnd [OF A(2)]
  have "res_ok J f (RetryFold J (f\<lparr>ins_op1 := ins_op2 f, ins_op2 := ins_op1 f\<rparr>))"
    by (rule res_retry [OF A(1)])
      (use o xor_fins [of "f\<lparr>ins_op1 := ins_op2 f, ins_op2 := ins_op1 f\<rparr>" J] x pure_ty [of "ins_o f" "ins_t f"] T
        in \<open>auto simp: eval_pure opv_def guard_value ac_simps\<close>)
  then show "res_ok J f (snd fold_comm_bxor eng J f)" unfolding fold_comm_bxor_def comm_swap_def snd_conv
    by (intro res_if res_Next res_k_pure res_k64_pure) (use A o in \<open>auto simp: opv_def\<close>)
qed

lemma bxor_k [fold_ok]: "rule_ok fold_simplify_bxor_k"
proof (rule rule_okI)
  fix eng J f assume A: "jit_ok J" "typed J f" and fit: "fits J f fold_simplify_bxor_k"
  have o: "ins_o f = IR_BXOR" "ins_o (fright J f) \<in> {IR_KINT, IR_KINT64}"
    using fit by (auto simp: fits_def fold_simplify_bxor_k_def)
  have x: "opnd_strict J (ins_op1 f) (wd f)" "opnd J (ins_op1 f) (wd f)" "opnd J (ins_op2 f) (wd f)"
     "irt_is64 (ins_t (fright J f)) = wd f" "ty_ok IR_BXOR (ins_t f)"
    using xor_strict [OF A(2) o(1)] opnd_of_strict strict_w left_opnd(2) [OF A(2)] o(1) by auto
  note K = kV [OF A(1) x(3)] kV64 [OF A(1) x(3)]
  have "res_ok J f (RetryFold J (f\<lparr>ins_o := IR_BNOT, ins_op2 := 0\<rparr>))" if m: "k64_of (fright J f) = - 1"
    by (rule res_retry [OF A(1)]) (use o x K m pure_ty [OF x(5)] in
       \<open>auto simp: fins_ok_def supported_def typed_def ty_ok_def Let_def eval_pure opv_def guard_value k64_of_def\<close>)
  then show "res_ok J f (snd fold_simplify_bxor_k eng J f)" unfolding fold_simplify_bxor_k_def comm_swap_def snd_conv Let_def
    by (intro res_if res_Next res_ref_pure) (use A o x K in \<open>auto simp: word_simps k64_of_def\<close>)
qed

end
