(* ===== verification/Lj_Fold_Konst.thy ===== *)
theory Lj_Fold_Konst
  imports Lj_Fold_Muldiv Lj_Fold_Overflow
begin

text \<open>
  Soundness of constant folding.
\<close>

text \<open>Constant folding.\<close>

lemma kfold_shift: "o1 \<in> shift_ops \<Longrightarrow> kfold_intop a b o1 = shift o1 a (unat b mod 32)"
  by (elim insertE emptyE) (simp_all add: unat_and31 rol_w_eq ror_w_eq)

lemma kfold_pure: "pure_op o1 \<Longrightarrow> o1 \<noteq> IR_BNOT \<Longrightarrow> kfold_intop a b o1 = arith o1 a b"
  by (auto simp: pure_op_def)

lemma arith_zero: "pure_op o1 \<Longrightarrow> o1 \<noteq> IR_BNOT \<Longrightarrow> arith o1 0 0 = 0"
  by (auto simp: pure_op_def)

lemma kfold_mod: "k2 \<noteq> 0 \<Longrightarrow> kfold_intop k1 k2 IR_MOD = arith IR_MOD k1 k2"
  using modi_floor [of k2 k1, symmetric] by simp

lemma kfold_neg_opnd:
  assumes "typed J f" and "ins_o f = IR_NEG" "ins_op2 f \<in> irefs J"
    and "jit_ok J"
  shows "opnd J (ins_op2 f) (wd f)"
  using assms jit_okD(1) [OF assms(4)] by (auto simp: typed_def Let_def irefs_def)

lemma kfold_intarith [fold_ok]: "rule_ok fold_kfold_intarith"
proof (rule rule_okI)
  fix eng J f assume A: "jit_ok J" "typed J f" "supported f" and fo: "fins_ok J f" and fit: "fits J f fold_kfold_intarith"
  have o: "ins_o f \<in> {IR_ADD, IR_SUB, IR_MUL, IR_NEG, IR_BAND, IR_BOR, IR_BXOR, IR_MIN, IR_MAX} \<union> shift_ops \<union> {IR_MOD}"
    "ins_o (fleft J f) = IR_KINT" "ins_o (fright J f) = IR_KINT" "ins_op2 f \<in> irefs J"
    using fit by (auto simp: fits_def fold_kfold_intarith_def)
  define a b where "a = ins_i (fleft J f)" and "b = ins_i (fright J f)"
  have l: "opnd J (ins_op1 f) (wd f)" using left_opnd(1) [OF A(2)] o(1) by auto
  note KL = kV [OF A(1) l o(2), folded a_def]
  show "res_ok J f (snd fold_kfold_intarith eng J f)"
    unfolding fold_kfold_intarith_def snd_conv a_def [symmetric] b_def [symmetric]
  proof -
    consider (p) "pure_op (ins_o f)" "ins_o f \<noteq> IR_BNOT" | (s) "ins_o f \<in> shift_ops" | (m) "ins_o f = IR_MOD"
      using o(1) by (auto simp: pure_op_def)
    then show "res_ok J f (KIntFold J (kfold_intop a b (ins_o f)))"
    proof cases
      case p
      have r: "opnd J (ins_op2 f) (wd f)"
      proof (cases "ins_o f = IR_NEG")
        case True then show ?thesis using kfold_neg_opnd A o(4) by blast
      next
        case False then show ?thesis using right_opnd [OF A(2)] o(1) p by (auto simp: pure_op_def)
      qed
      note KR = kV [OF A(1) r o(3), folded b_def]
      show ?thesis by (intro res_k_pure) (use p KL KR in \<open>auto simp: kfold_pure opv_def arith_zero\<close>)
    next
      case s
      note T = shift_pre [OF A s]
      note KR = kV [OF A(1) T(2) o(3), folded b_def]
      have "eval v f = ucast (kfold_intop a b (ins_o f))" if v: "sat J v" for v
        using eval_shift [OF s] KL KR v s by (cases "wd f") (simp_all add: shv_k kfold_shift)
      moreover have "kfold_intop a b (ins_o f) = 0" if "wd f" using KL that kfold_shift [OF s] by simp
      moreover have "op_value (ins_o f)" "ins_o f \<notin> ov_ops" using gen_value T(5) by blast+
      ultimately show ?thesis using guard_value [of f] by (simp add: res_ok_def)
    next
      case m
      have w: "\<not> wd f" using A(3) m by (auto simp: supported_def)
      have r: "opnd J (ins_op2 f) (wd f)" using right_opnd [OF A(2)] m by auto
      note KR = kV [OF A(1) r o(3), folded b_def]
      have "b \<noteq> 0" using fo m o(3) by (simp add: fins_ok_def b_def)
      then show ?thesis by (intro res_k_mod) (use m w KL KR in \<open>simp_all add: kfold_mod del: kfold_intop.simps\<close>)
    qed
  qed
qed

lemma ovarith_eq: "o1 \<in> ov_ops \<Longrightarrow> ovarith o1 a b = ov_int o1 (sint a) (sint b) \<and>
   (word_of_int (ovarith o1 a b) :: u32) = arith o1 a b"
  by (auto simp: ovarith_def)

lemma kfold_intovarith [fold_ok]: "rule_ok fold_kfold_intovarith"
proof (rule rule_okI)
  fix eng J f assume A: "jit_ok J" "typed J f" and fit: "fits J f fold_kfold_intovarith"
  have o: "ins_o f \<in> ov_ops" "ins_o (fleft J f) = IR_KINT" "ins_o (fright J f) = IR_KINT"
    using fit by (auto simp: fits_def fold_kfold_intovarith_def)
  note T = ov_facts [OF A(2) o(1)]
  note E = ov_eval [OF o(1) T(2)]
  define a b where "a = ins_i (fleft J f)" and "b = ins_i (fright J f)"
  note KL = kV [OF A(1) T(3) o(2), folded a_def] and KR = kV [OF A(1) T(4) o(3), folded b_def]
  note V = ovarith_eq [OF o(1), of a b]
  have g: "guard v f = (ovarith (ins_o f) a b = sint (word_of_int (ovarith (ins_o f) a b) :: u32))"
    "eval v f = ucast (word_of_int (ovarith (ins_o f) a b) :: u32)" if v: "sat J v" for v
  proof -
    have i: "in_int32 n = (n = sint (word_of_int n :: u32))" for n
      using sint_u32_of_int [of n] in_int32_sint [of "word_of_int n"] by (auto simp: in_int32_def)
    show "guard v f = (ovarith (ins_o f) a b = sint (word_of_int (ovarith (ins_o f) a b) :: u32))"
      unfolding E(2) i [symmetric] using V KL KR v by simp
    show "eval v f = ucast (word_of_int (ovarith (ins_o f) a b) :: u32)"
      unfolding E(1) conjunct2 [OF V] using KL KR v by simp
  qed
  have "op_value (ins_o f)" using o(1) by (auto simp: op_value_def)
  then show "res_ok J f (snd fold_kfold_intovarith eng J f)"
    unfolding fold_kfold_intovarith_def snd_conv a_def [symmetric] b_def [symmetric] Let_def
    using g T(1) by (simp add: res_ok_def)
qed

lemma kfold_bnot [fold_ok]: "rule_ok fold_kfold_bnot"
proof (rule rule_okI)
  fix eng J f assume A: "jit_ok J" "typed J f" and fit: "fits J f fold_kfold_bnot"
  have o: "ins_o f = IR_BNOT" "ins_o (fleft J f) = IR_KINT" using fit by (auto simp: fits_def fold_kfold_bnot_def)
  have s: "opnd_strict J (ins_op1 f) (wd f)" using A(2) o(1) by (simp add: typed_def Let_def)
  note K = kV [OF A(1) opnd_of_strict [OF s] o(2)]
  have w: "\<not> wd f" using strict_w [OF s] K by simp
  show "res_ok J f (snd fold_kfold_bnot eng J f)" unfolding fold_kfold_bnot_def snd_conv
    by (intro res_k_pure) (use o K w in \<open>simp_all add: opv_def\<close>)
qed

lemma kfold_bnot64 [fold_ok]: "rule_ok fold_kfold_bnot64"
proof (rule rule_okI)
  fix eng J f assume A: "jit_ok J" "typed J f" and fit: "fits J f fold_kfold_bnot64"
  have o: "ins_o f = IR_BNOT" "ins_o (fleft J f) = IR_KINT64" using fit by (auto simp: fits_def fold_kfold_bnot64_def)
  note K = kV64 [OF A(1) left_opnd(1) [OF A(2)] o(2)]
  show "res_ok J f (snd fold_kfold_bnot64 eng J f)" unfolding fold_kfold_bnot64_def snd_conv
    by (intro res_k64_pure A) (use o K in \<open>simp_all add: opv_def\<close>)
qed

lemma bswap_0: "lj_bswap 0 = 0" "lj_bswap64 0 = 0"
  by (simp_all add: lj_bswap_def lj_bswap64_def)

lemma kfold_bswap [fold_ok]: "rule_ok fold_kfold_bswap"
proof (rule rule_okI)
  fix eng J f assume A: "jit_ok J" "typed J f" and fit: "fits J f fold_kfold_bswap"
  have o: "ins_o f = IR_BSWAP" "ins_o (fleft J f) = IR_KINT" using fit by (auto simp: fits_def fold_kfold_bswap_def)
  note K = kV [OF A(1) left_opnd(1) [OF A(2)] o(2)]
  show "res_ok J f (snd fold_kfold_bswap eng J f)" unfolding fold_kfold_bswap_def snd_conv
    using o K guard_value [of f] by (auto simp: res_ok_def evals bswap_0 rdv_def)
qed

lemma kfold_bswap64 [fold_ok]: "rule_ok fold_kfold_bswap64"
proof (rule rule_okI)
  fix eng J f assume A: "jit_ok J" "typed J f" and fit: "fits J f fold_kfold_bswap64"
  have o: "ins_o f = IR_BSWAP" "ins_o (fleft J f) = IR_KINT64" using fit by (auto simp: fits_def fold_kfold_bswap64_def)
  note K = kV64 [OF A(1) left_opnd(1) [OF A(2)] o(2)]
  show "res_ok J f (snd fold_kfold_bswap64 eng J f)" unfolding fold_kfold_bswap64_def snd_conv
    by (intro res_int64 A) (use o K guard_value [of f] in \<open>simp_all add: evals rdv_def\<close>)
qed

lemma kfold_int64arith [fold_ok]: "rule_ok fold_kfold_int64arith"
proof (rule rule_okI)
  fix eng J f assume A: "jit_ok J" "typed J f" and fit: "fits J f fold_kfold_int64arith"
  have o: "ins_o f \<in> {IR_ADD, IR_SUB, IR_MUL, IR_BAND, IR_BOR, IR_BXOR}" "ins_o (fleft J f) = IR_KINT64" "ins_o (fright J f) = IR_KINT64"
    using fit by (auto simp: fits_def fold_kfold_int64arith_def)
  have T: "opnd J (ins_op1 f) (wd f)" "opnd J (ins_op2 f) (wd f)" using left_opnd [OF A(2)] right_opnd [OF A(2)] o(1) by auto
  have p: "pure_op (ins_o f)" using o(1) by (auto simp: pure_op_def)
  show "res_ok J f (snd fold_kfold_int64arith eng J f)" unfolding fold_kfold_int64arith_def snd_conv
    by (intro res_k64_pure A p) (use o kV64 [OF A(1) T(1) o(2)] kV64 [OF A(1) T(2) o(3)] in \<open>auto simp: opv_def\<close>)
qed

lemma kfold_int64arith2 [fold_ok]: "rule_ok fold_kfold_int64arith2"
proof (rule rule_okI)
  fix eng J f assume A: "jit_ok J" "typed J f" "supported f" and fit: "fits J f fold_kfold_int64arith2"
  have o: "ins_o f \<in> {IR_DIV, IR_MOD, IR_POW}" "ins_o (fleft J f) = IR_KINT64" using fit by (auto simp: fits_def fold_kfold_int64arith2_def)
  have "opnd J (ins_op1 f) (wd f)" using left_opnd [OF A(2)] o(1) by auto
  then have "wd f" using kV64 [OF A(1) _ o(2)] by blast
  then show "res_ok J f (snd fold_kfold_int64arith2 eng J f)" using A(3) o(1) by (auto simp: supported_def)
qed

lemma kfold_int64shift [fold_ok]: "rule_ok fold_kfold_int64shift"
proof (rule rule_okI)
  fix eng J f assume A: "jit_ok J" "typed J f" "supported f" and fit: "fits J f fold_kfold_int64shift"
  have o: "ins_o f \<in> shift_ops" "ins_o (fleft J f) = IR_KINT64" "ins_o (fright J f) = IR_KINT" using fit by (auto simp: fits_def fold_kfold_int64shift_def)
  note T = shift_pre [OF A o(1)]
  note K = kV64 [OF A(1) T(1) o(2)] kV [OF A(1) T(2) o(3)]
  have w: "wd f" using K by blast
  have op: "op_value (ins_o f)" "ins_o f \<notin> ov_ops" using gen_value T(5) by blast+
  have "eval v f = lj_carith_shift64 (ins_u64 (fleft J f)) (ins_i (fright J f) AND 63) (shift_of (ins_o f))"
    if "sat J v" for v
    unfolding eval_shift [OF o(1)] using that K w T(6) 
    by (auto simp: shv_k lj_carith_shl64_def lj_carith_sar64_def unat_and63)
  then show "res_ok J f (snd fold_kfold_int64shift eng J f)" unfolding fold_kfold_int64shift_def snd_conv Let_def
    by (intro res_int64 A w) (use guard_value [OF op] in simp)
qed

end
