(* ===== verification/Lj_Fold_Mask_Shift.thy ===== *)
theory Lj_Fold_Mask_Shift
  imports Lj_Fold_Mask Lj_Fold_Konst
begin

text \<open>
  Soundness of the shortcuts of idempotent operations and of the rule that masks after a shift.
\<close>

lemma un_strict:
  assumes "typed J f" and "ins_o f = IR_BNOT"
  shows "opnd_strict J (ins_op1 f) (wd f)"
  using assms by (simp add: typed_def Let_def)

lemma bit_u32_lt: "bit (x :: u32) n \<Longrightarrow> n < 32"
  using bit_imp_le_length [of x n] by simp

lemma bit_bswap:
  "bit (lj_bswap x) n \<longleftrightarrow> n < 32 \<and>
     bit x (if n < 8 then n + 24 else if n < 16 then n + 8 else if n < 24 then n - 8 else n - 24)"
proof -
  consider "n < 8" | "8 \<le> n" "n < 16" | "16 \<le> n" "n < 24" | "24 \<le> n" "n < 32" | "32 \<le> n" by linarith
  then show ?thesis unfolding lj_bswap_def
    by cases (simp_all only: word_bits bit_ff00, auto simp: add.commute dest: bit_u32_lt)
qed

lemma bit_bswap64:
  "bit (lj_bswap64 x) n \<longleftrightarrow> n < 64 \<and>
     (if n < 32 then bit (lj_bswap (ucast (drop_bit 32 x))) n else bit (lj_bswap (ucast x)) (n - 32))"
  unfolding lj_bswap64_def by (simp only: word_bit_iffs) (auto simp: bit_bswap)

lemma bswap_bswap: "lj_bswap (lj_bswap x) = x" "lj_bswap64 (lj_bswap64 y) = y"
proof -
  show b: "lj_bswap (lj_bswap x) = x" for x
  proof (rule bit_word_eqI)
    fix n assume "n < LENGTH(32)"
    then have "n < 32" by simp
    then have "n < 8 \<or> n = n mod 8 + 8 \<or> n = n mod 8 + 16 \<or> n = n mod 8 + 24" by presburger
    moreover have "n mod 8 < 8" by simp
    ultimately consider "n < 8" | m where "n = m + 8" "m < 8" | m where "n = m + 16" "m < 8" | m where "n = m + 24" "m < 8"
      by blast
    then show "bit (lj_bswap (lj_bswap x)) n = bit x n" by cases (simp_all add: bit_bswap add.commute)
  qed
  have "ucast (drop_bit 32 (lj_bswap64 y)) = lj_bswap (ucast y)" "ucast (lj_bswap64 y) = lj_bswap (ucast (drop_bit 32 y))"
    by (rule bit_word_eqI, simp add: bit_ucast_iff bit_drop_bit_eq bit_bswap64)+
  then show "lj_bswap64 (lj_bswap64 y) = y"
    unfolding lj_bswap64_def [of "lj_bswap64 y"]
    by (simp only: b) (rule bit_word_eqI, simp only: word_bit_iffs, auto)
qed

lemma leftleft [fold_ok]: "rule_ok fold_shortcut_leftleft"
proof (rule rule_okI)
  fix eng J f assume A: "jit_ok J" "typed J f" and fit: "fits J f fold_shortcut_leftleft"
  have o: "ins_o f \<in> un_ops" "ins_o (fleft J f) = ins_o f"
    using fit by (auto simp: fits_def fold_shortcut_leftleft_def)
  have l: "opnd J (ins_op1 f) (wd f)" using left_opnd(1) [OF A(2)] o(1) by auto
  have q: "op_value (ins_o (fleft J f))" "ins_o (fleft J f) \<noteq> IR_CONV" "ins_o (fleft J f) \<noteq> IR_ABC" using o by auto
  note V = opnd_value [OF A(1) l q(1,2)]
  have l2: "opnd J (ins_op1 (fleft J f)) (wd f)" using left_opnd(1) [OF V(1)] q V(2) by simp
  have "res_ok J f (RefFold J (ins_op1 (fleft J f)))"
  proof (rule res_ref [OF A(1) l2])
    fix v assume v: "sat J v"
    have "fits_w (wd f) (v (ins_op1 (fleft J f)))" by (rule opnd_fits [OF v l2])
    moreover have "v (ins_op1 f) = eval v (fleft J f)" using V(3) [OF v] by blast
    moreover have "op_value (ins_o f)" "ins_o f \<notin> ov_ops" using o(1) by auto
    moreover have "eval v f = v x" if "fits_w (wd f) (v x)" "v (ins_op1 f) = eval v i" "wd i = wd f" "ins_o i = ins_o f"
        "x = ins_op1 i" for x i
      using o(1) that by (elim insertE emptyE; cases "wd f"; simp add: evals fits_w_def ucast_ucast_less bswap_bswap)
    ultimately show "guard v f \<and> v (ins_op1 (fleft J f)) = eval v f"
      using o(2) V(2) guard_value by metis
  qed
  then show "res_ok J f (snd fold_shortcut_leftleft eng J f)" unfolding fold_shortcut_leftleft_def snd_conv
    by (intro res_if res_Next)
qed

lemma kint_nk:
  assumes "lj_ir_kint J k = (J', r)"
  shows "nk J' \<le> nk J"
proof (cases "chain_walk (\<lambda>i. ins_i i = k) (jir J) 0 (nins J) (chain J IR_KINT)")
  case None
  then show ?thesis using kint_fresh(1,2) [OF None assms] by simp
qed (use assms in \<open>simp add: lj_ir_kint_def\<close>)

lemma kint64_nk:
  assumes "lj_ir_kint64 J k = (J', r)"
  shows "nk J' \<le> nk J"
proof (cases "chain_walk (\<lambda>i. ins_u64 i = k) (jir J) 0 (nins J) (chain J IR_KINT64)")
  case None
  then show ?thesis using kint64_fresh(1,2) [OF None assms] by simp
qed (use assms in \<open>simp add: lj_ir_kint64_def\<close>)

lemma emit_spec_value:
  assumes "emit_spec J g J1 r" and "op_value (ins_o g)" "ins_o g \<notin> ov_ops"
  shows "cons J J1" "opnd J1 r (wd g)" "sat J1 v \<Longrightarrow> rdv v r = eval v g" "sat J1 v \<Longrightarrow> sat J v"
  using assms guard_value [OF assms(2,3)] unfolding emit_spec_def cons_def rdv_def by blast+

lemma retry_spec_cons: "cons J J1 \<Longrightarrow> retry_spec J1 f J2 f' \<Longrightarrow> retry_spec J f J2 f'"
  unfolding retry_spec_def using cons_trans by blast

lemma shiftk_andk [fold_ok]: "rule_ok fold_simplify_shiftk_andk"
proof (rule rule_okI)
  fix eng J f assume E: "eng_ok eng" and A: "jit_ok J" "typed J f" "supported f" and fit: "fits J f fold_simplify_shiftk_andk"
  have o: "ins_o f \<in> shift_ops - {IR_BSAR}" "ins_o (fleft J f) = IR_BAND" "ins_o (fright J f) = IR_KINT"
    using fit by (auto simp: fits_def fold_simplify_shiftk_andk_def)
  have s: "ins_o f \<in> shift_ops" using o(1) by blast
  note T = shift_pre [OF A s]
  have op: "op_value (ins_o f)" "ins_o f \<notin> ov_ops" using gen_value T(5) by blast+
  note L = pure_opnd [OF A(1) T(1) o(2)]
  have L1: "opnd J (ins_op1 (fleft J f)) (wd f)" "opnd J (ins_op2 (fleft J f)) (wd f)" using L by auto
  note KR = kV [OF A(1) T(2) o(3)]
  define g where "g = f\<lparr>ins_op1 := ins_op1 (fleft J f)\<rparr>"
  define x where "x = ins_op1 (fleft J f)"
  have pre: "pre_ok J g"
    using shift_fins [of g J] s T(2,4) L1(1) A(1,3) by (simp add: pre_ok_def g_def supported_def)
  have wl: "wd (fleft J f) = wd f" using opnd_value(2) [OF A(1) T(1)] o(2) by simp
  have gerr: "res_ok J f (ErrFold e)" if "eng J g = Inl e" for e
  proof -
    have "e = TRERR_GFAIL \<longrightarrow> (\<forall>v. sat J v \<longrightarrow> \<not> guard v g)" using E pre that unfolding eng_ok_def by fastforce
    then show ?thesis using guard_value [of g] op by (simp add: res_ok_def g_def)
  qed
  define irk where "irk = jir J (ins_op2 (fleft J f))"
  define k2 where "k2 = ins_i (fright J f)"
  have step: "cons J J1" "opnd J1 r (wd f)" "\<And>v. sat J1 v \<Longrightarrow> rdv v r = shv (wd f) (ins_o f) (rdv v x) (ucast k2)"
      "\<And>v. sat J1 v \<Longrightarrow> sat J v"
    if g: "eng J g = Inr (J1, r)" and nk: "0x1000 \<le> nk J1" for J1 r
  proof -
    have "emit_spec J g J1 r" using E pre g nk unfolding eng_ok_def by fastforce
    note V = emit_spec_value [OF this]
    have gs: "ins_o g \<in> shift_ops" "op_value (ins_o g)" "ins_o g \<notin> ov_ops" using s op by (simp_all add: g_def)
    show "cons J J1" "opnd J1 r (wd f)" using V(1,2) gs by (simp_all add: g_def)
    show sj: "sat J v" if "sat J1 v" for v using V(4) gs that by blast
    show "rdv v r = shv (wd f) (ins_o f) (rdv v x) (ucast k2)" if "sat J1 v" for v
      using V(3) [OF gs(2,3) that] eval_shift [OF gs(1)] KR sj [OF that] by (simp add: g_def x_def k2_def)
  qed
  have fv: "eval v f = shv (wd f) (ins_o f) (opv (wd f) IR_BAND (rdv v x) (rdv v (ins_op2 (fleft J f)))) (ucast k2)"
    if "sat J v" for v
    using eval_shift [OF s] L KR that by (simp add: x_def k2_def)
  have gf: "guard v f" for v by (rule guard_value [OF op])
  show "res_ok J f (snd fold_simplify_shiftk_andk eng J f)"
  proof (cases "ins_phi (fleft J f) \<or> ins_o irk \<notin> {IR_KINT, IR_KINT64}")
    case True
    then show ?thesis by (auto simp: fold_simplify_shiftk_andk_def Let_def irk_def)
  next
    case phi: False
    show ?thesis
    proof (cases "ins_o irk = IR_KINT")
      case True
      note K = kV [OF A(1) L1(2) True [unfolded irk_def]]
      have r: "ins_op1 f \<in> irefs J" using T(1) opnd_irefs by blast
      have w: "\<not> wd f"
        using jit_okD(4) [OF A(1) r] o(2) True wl by (auto simp: slot_ok_defs Let_def irk_def)
      define k where "k = kfold_intop (ins_i irk) k2 (ins_o f)"
      have kk: "k = shift (ins_o f) (ins_i irk) (unat k2 mod 32)" by (simp add: k_def kfold_shift [OF s])
      have "res_ok J f (retry_op2_kint J1 (g\<lparr>ins_o := IR_BAND, ins_t := IRT_INT, ins_phi := False,
            ins_guard := False, ins_op1 := r\<rparr>) k)" (is "res_ok J f (retry_op2_kint J1 ?h k)")
        if g: "eng J g = Inr (J1, r)" for J1 r
      proof -
        obtain J2 r2 where k2': "lj_ir_kint J1 k = (J2, r2)" by (cases "lj_ir_kint J1 k")
        have "retry_spec J f J2 (?h\<lparr>ins_op2 := r2\<rparr>)" if nk: "0x1000 \<le> nk J2"
        proof (rule retry_spec_cons)
          have nk1: "0x1000 \<le> nk J1" using kint_nk [OF k2'] nk by simp
          note S = step [OF g nk1]
          show "cons J J1" by (rule S(1))
          then have ok1: "jit_ok J1" by (simp add: cons_def)
          have "res_ok J1 f (retry_op2_kint J1 ?h k)"
          proof (rule res_retry_kint2 [OF ok1, where w = False])
            show "fins_ok J' (?h\<lparr>ins_op2 := q\<rparr>)" if "ext J1 J'" "opnd J' q False" for J' q
              using pure_fins [of "?h\<lparr>ins_op2 := q\<rparr>" J'] ext_opnd [OF that(1) S(2)] w that(2) by simp
            show "guard v (?h\<lparr>ins_op2 := q\<rparr>) = guard v f \<and> (op_value (ins_o f) \<longrightarrow> eval v (?h\<lparr>ins_op2 := q\<rparr>) = eval v f)"
              if v: "sat J1 v" "v q = ucast k" for v q
              using gf guard_value [of "?h\<lparr>ins_op2 := q\<rparr>"] fv [OF S(4) [OF v(1)]] S(3) [OF v(1)] K S(4) [OF v(1)] v(2) w
                eval_pure [of "?h\<lparr>ins_op2 := q\<rparr>" v]
              by (simp add: shv_k opv_def rdv_def [of v q] kk shift_and [OF s] irk_def)
          qed (use w op in \<open>simp_all add: supported_def\<close>)
          then show "retry_spec J1 f J2 (?h\<lparr>ins_op2 := r2\<rparr>)" using nk by (simp add: retry_op2_kint_def k2' res_ok_def)
        qed
        then show ?thesis by (simp add: retry_op2_kint_def k2' res_ok_def)
      qed
      then show ?thesis using phi True gerr
        by (auto simp: fold_simplify_shiftk_andk_def Let_def split: sum.splits simp flip: irk_def g_def k2_def k_def)
    next
      case False
      then have i: "ins_o irk = IR_KINT64" using phi by blast
      note K = kV64 [OF A(1) L1(2) i [unfolded irk_def]]
      then have w: "wd f" by blast
      then have b: "ins_o f = IR_BSHL" using T(6) o(1) by blast
      define k where "k = kfold_int64arith (ins_u64 irk) (scast k2) (ins_o f)"
      have "(scast k2 AND 63 :: u64) = ucast (k2 AND 63)"
      proof -
        show ?thesis
          by (rule bit_word_eqI) (simp only: bit_and_iff bit_ucast_iff bit_word_scast_iff mask_bits_low, auto)
      qed
      then have "unat (scast k2 AND 63 :: u64) = unat k2 mod 64" by (simp only: unat_ucast_u32 unat_and63)
      then have kk: "k = shift IR_BSHL (ins_u64 irk) (unat k2 mod 64)" by (simp add: k_def b)
      define l where "l = fleft J f"
      have lt: "ins_t l \<in> {IRT_INT, IRT_U32, IRT_I64, IRT_U64}" "ins_o l = IR_BAND" "wd l"
        using o(2) w wl opnd_value(1) [OF A(1) T(1)] left_opnd(2) [of J "fleft J f"] pure_ty [of IR_BAND "ins_t l"]
        by (auto simp: l_def)
      have "res_ok J f (retry_op2_kint64 J1 (g\<lparr>ins_o := ins_o l, ins_t := ins_t l, ins_phi := ins_phi l,
            ins_guard := ins_guard l, ins_op1 := r\<rparr>) k)" (is "res_ok J f (retry_op2_kint64 J1 ?h k)")
        if g: "eng J g = Inr (J1, r)" for J1 r
      proof -
        obtain J2 r2 where k2': "lj_ir_kint64 J1 k = (J2, r2)" by (cases "lj_ir_kint64 J1 k")
        have "retry_spec J f J2 (?h\<lparr>ins_op2 := r2\<rparr>)" if nk: "0x1000 \<le> nk J2"
        proof (rule retry_spec_cons)
          have nk1: "0x1000 \<le> nk J1" using kint64_nk [OF k2'] nk by simp
          note S = step [OF g nk1]
          show "cons J J1" by (rule S(1))
          then have ok1: "jit_ok J1" by (simp add: cons_def)
          have "res_ok J1 f (retry_op2_kint64 J1 ?h k)"
          proof (rule res_retry_kint64 [OF ok1])
            show "fins_ok J' (?h\<lparr>ins_op2 := q\<rparr>)" if "ext J1 J'" "opnd_strict J' q True" for J' q
              using pure_fins [of "?h\<lparr>ins_op2 := q\<rparr>" J'] ext_opnd [OF that(1) S(2)] w lt opnd_of_strict [OF that(2)] by simp
            show "guard v (?h\<lparr>ins_op2 := q\<rparr>) = guard v f \<and> (op_value (ins_o f) \<longrightarrow> eval v (?h\<lparr>ins_op2 := q\<rparr>) = eval v f)"
              if v: "sat J1 v" "v q = k" for v q
              using gf guard_value [of "?h\<lparr>ins_op2 := q\<rparr>"] fv [OF S(4) [OF v(1)]] S(3) [OF v(1)] K S(4) [OF v(1)] v(2) w
                eval_pure [of "?h\<lparr>ins_op2 := q\<rparr>" v] lt b
              by (simp add: shv_k opv_def rdv_def [of v q] kk push_bit_and irk_def)
          qed (use w op lt in \<open>simp_all add: supported_def\<close>)
          then show "retry_spec J1 f J2 (?h\<lparr>ins_op2 := r2\<rparr>)" using nk by (simp add: retry_op2_kint64_def k2' res_ok_def)
        qed
        then show ?thesis by (simp add: retry_op2_kint64_def k2' res_ok_def)
      qed
      then show ?thesis using phi i gerr unfolding g_def k_def k2_def irk_def l_def
        by (auto simp: fold_simplify_shiftk_andk_def Let_def split: sum.splits)
    qed
  qed
qed

end
