(* ===== verification/Lj_Fold_Conv.thy ===== *)
theory Lj_Fold_Conv
  imports Lj_Fold_Mask_Shift
begin

text \<open>
  Soundness of the rules for conversions between integer types.
\<close>

text \<open>The literal of a conversion determines its types.\<close>

lemma conv_fields: "m mod 1024 = m' mod 1024 \<Longrightarrow> conv_src m = conv_src m' \<and> conv_dst m = conv_dst m'"
proof -
  assume a: "m mod 1024 = m' mod 1024"
  have "m mod 32 = m mod 1024 mod 32" "m div 32 mod 32 = m mod 1024 div 32" for m :: nat
    using mod_mult2_eq [of m 32 32] by (simp_all add: mod_mod_cancel)
  then show ?thesis using a unfolding conv_src_def conv_dst_def by metis
qed

lemma conv_lit:
  "m mod 1024 = irconv d s \<Longrightarrow> d < 32 \<Longrightarrow> s < 32 \<Longrightarrow> conv_src m = s \<and> conv_dst m = d"
  using conv_fields [of m "irconv d s"] by (simp add: irconv_def conv_src_def conv_dst_def)

lemma conv_pre:
  assumes "typed J f" "ins_o f = IR_CONV"
  shows "conv_int (ins_op2 f)" "wd f = irt_is64 (conv_dst (ins_op2 f))" "opnd J (ins_op1 f) (irt_is64 (conv_src (ins_op2 f)))"
    "\<And>v. guard v f" "\<And>v. eval v f = conv (ins_op2 f) (v (ins_op1 f))" "op_value (ins_o f)" "ins_t f \<in> {IRT_INT, IRT_U32, IRT_I64, IRT_U64}"
  using assms by (auto simp: typed_def Let_def guard_value eval_def ty_ok_def)

lemma narrow_simps [simp]:
  "conv_narrow IRT_I8 a = scast (ucast a :: byte)" "conv_narrow IRT_U8 a = ucast (ucast a :: byte)"
  "conv_narrow IRT_I16 a = scast (ucast a :: u16)" "conv_narrow IRT_U16 a = ucast (ucast a :: u16)"
  "conv_narrow IRT_INT a = ucast a" "conv_narrow IRT_U32 a = ucast a" "conv_narrow IRT_I64 a = ucast a" "conv_narrow IRT_U64 a = ucast a"
  by (simp_all add: conv_narrow_def)

lemma ucast_scast32: "(ucast (scast (a :: u32) :: u64) :: u32) = a"
  by (rule bit_word_eqI) (simp add: bit_ucast_iff bit_word_scast_iff)

lemma small64 [simp]: "\<not> irt_is64 IRT_I8" "\<not> irt_is64 IRT_U8" "\<not> irt_is64 IRT_I16" "\<not> irt_is64 IRT_U16"
  by (simp_all add: irt_is64_def)

lemma ucast_low [simp]: "(ucast (ucast (a :: u32) :: u64) :: byte) = ucast a" "(ucast (ucast (a :: u32) :: u64) :: u16) = ucast a"
  by (rule bit_word_eqI, simp add: bit_ucast_iff)+

lemma conv_kint_ext [fold_ok]: "rule_ok fold_kfold_conv_kint_ext"
proof (rule rule_okI)
  fix eng J f assume A: "jit_ok J" "typed J f" and fit: "fits J f fold_kfold_conv_kint_ext"
  have o: "ins_o f = IR_CONV" "ins_o (fleft J f) = IR_KINT" "conv_dst (ins_op2 f) = IRT_INT"
    "conv_src (ins_op2 f) \<in> {IRT_I8, IRT_U8, IRT_I16, IRT_U16}"
    using fit by (auto simp: fits_def fold_kfold_conv_kint_ext_def dest!: conv_lit)
  note C = conv_pre [OF A(2) o(1)]
  have e: "eval v f = conv (ins_op2 f) (ucast (ins_i (fleft J f)))" if "sat J v" for v
    using C(5) [of v] kV [OF A(1) C(3) o(2)] that by (simp add: rdv_def)
  show "res_ok J f (snd fold_kfold_conv_kint_ext eng J f)"
    using e C(2,4,6) o(1,3,4) by (auto simp: fold_kfold_conv_kint_ext_def res_ok_def Let_def conv_def simp flip: conv_src_def)
qed

lemma sext_iff: "ircv_sext m = conv_sext m" by (simp add: ircv_sext_def conv_sext_def)

lemma conv_kint_i64 [fold_ok]: "rule_ok fold_kfold_conv_kint_i64"
proof (rule rule_okI)
  fix eng J f assume A: "jit_ok J" "typed J f" and fit: "fits J f fold_kfold_conv_kint_i64"
  have o: "ins_o f = IR_CONV" "ins_o (fleft J f) = IR_KINT" "conv_dst (ins_op2 f) \<in> {IRT_I64, IRT_U64}"
    "conv_src (ins_op2 f) \<in> {IRT_INT, IRT_U32}"
    using fit by (auto simp: fits_def fold_kfold_conv_kint_i64_def dest!: conv_lit)
  note C = conv_pre [OF A(2) o(1)]
  have v: "v (ins_op1 f) = ucast (ins_i (fleft J f))" if "sat J v" for v
    using kV [OF A(1) C(3) o(2)] that by (simp add: rdv_def)
  have e: "eval v f = conv (ins_op2 f) (ucast (ins_i (fleft J f)))" if "sat J v" for v
    using C(5) [of v] v [OF that] by simp
  have "wd f" using C(2) o(3) by auto
  then show "res_ok J f (snd fold_kfold_conv_kint_i64 eng J f)"
    unfolding fold_kfold_conv_kint_i64_def snd_conv
    by (intro res_if res_int64 [OF A]) (use e C(4) o(3,4) in \<open>auto simp: conv_def sext_iff\<close>)
qed

lemma conv_kint64_int_i64 [fold_ok]: "rule_ok fold_kfold_conv_kint64_int_i64"
proof (rule rule_okI)
  fix eng J f assume A: "jit_ok J" "typed J f" and fit: "fits J f fold_kfold_conv_kint64_int_i64"
  have o: "ins_o f = IR_CONV" "ins_o (fleft J f) = IR_KINT64" "conv_dst (ins_op2 f) \<in> {IRT_INT, IRT_U32}"
    "conv_src (ins_op2 f) = IRT_I64"
    using fit by (auto simp: fits_def fold_kfold_conv_kint64_int_i64_def dest!: conv_lit)
  note C = conv_pre [OF A(2) o(1)]
  have v: "v (ins_op1 f) = ins_u64 (fleft J f)" if "sat J v" for v
    using kV64 [OF A(1) C(3) o(2)] that by (simp add: rdv_def)
  have e: "eval v f = conv (ins_op2 f) (ins_u64 (fleft J f))" if "sat J v" for v
    using C(5) [of v] v [OF that] by simp
  show "res_ok J f (snd fold_kfold_conv_kint64_int_i64 eng J f)"
    using C(2,4,6) o(1,3,4) e by (auto simp: fold_kfold_conv_kint64_int_i64_def res_ok_def conv_def)
qed

text \<open>A conversion in the trace whose types are integers is covered by the semantics.\<close>

lemma conv_slot:
  assumes "jit_ok J" "r \<in> irefs J" "ins_o (jir J r) = IR_CONV" and s: "int_ty (conv_src (ins_op2 (jir J r)))"
    and "int_ty (ins_t (jir J r)) \<or> int_ty (conv_dst (ins_op2 (jir J r)))"
  shows "typed J (jir J r)" "sat J v \<Longrightarrow> v r = conv (ins_op2 (jir J r)) (v (ins_op1 (jir J r)))"
proof -
  have S: "slot_refs J (jir J r)" using jit_okD(4) [OF assms(1,2)] by (simp add: slot_ok_def)
  have c: "covered (jir J r)"
  proof (rule ccontr)
    assume "\<not> covered (jir J r)"
    then have "\<not> (int_ty (conv_dst (ins_op2 (jir J r))) \<and> int_ty (conv_src (ins_op2 (jir J r)))) \<and>
        (int_ty (ins_t (jir J r)) \<longrightarrow> int_ty (conv_dst (ins_op2 (jir J r))))"
      using S assms(3) unfolding slot_refs_def by simp
    then show False using s assms(5) by blast
  qed
  then show t: "typed J (jir J r)" using S unfolding slot_refs_def by blast
  show "v r = conv (ins_op2 (jir J r)) (v (ins_op1 (jir J r)))" if "sat J v"
    using sat_slot [OF that assms(2)] c conv_pre(5) [OF t assms(3)] assms(3) unfolding ins_sat_def by auto
qed

lemma ty_simps [simp]: "int_ty IRT_INT" "int_ty IRT_U32" "int_ty IRT_I64" "int_ty IRT_U64"
  by (simp_all add: int_ty_def)

lemma conv_int_i64 [fold_ok]: "rule_ok fold_simplify_conv_int_i64"
proof (rule rule_okI)
  fix eng J f assume A: "jit_ok J" "typed J f" and fit: "fits J f fold_simplify_conv_int_i64"
  define l m where "l = fleft J f" and "m = ins_op2 l"
  have o: "ins_o f = IR_CONV" "ins_o l = IR_CONV" "conv_dst (ins_op2 f) \<in> {IRT_INT, IRT_U32}"
    "conv_src (ins_op2 f) \<in> {IRT_I64, IRT_U64}"
    using fit by (auto simp: l_def fits_def fold_simplify_conv_int_i64_def dest!: conv_lit)
  note C = conv_pre [OF A(2) o(1)]
  have w: "opnd J (ins_op1 f) True" using C(3) o(4) by auto
  then have r: "ins_op1 f \<in> irefs J" "int_ty (ins_t l)" "wd l" using o(2) by (auto simp: opnd_def l_def)
  have nf: "\<not> wd f" using C(2) o(3) by auto
  have sem: "opnd J (ins_op1 l) False" "\<And>v. sat J v \<Longrightarrow> eval v f = v (ins_op1 l) \<and> v (ins_op1 l) < 0x100000000"
    if s: "conv_src m \<in> {IRT_INT, IRT_U32}"
  proof -
    have S: "typed J l" "\<And>v. sat J v \<Longrightarrow> v (ins_op1 f) = conv m (v (ins_op1 l))"
      using conv_slot [OF A(1) r(1)] o(2) r(2) s by (auto simp: l_def m_def)
    note D = conv_pre [OF S(1) o(2)]
    show x: "opnd J (ins_op1 l) False" using D(3) s by (auto simp: m_def)
    fix v assume v: "sat J v"
    have xl: "v (ins_op1 l) < 0x100000000" by (rule opnd_less [OF v x])
    have "irt_is64 (conv_dst m)" using D(2) r(3) by (simp add: m_def)
    then have "(ucast (conv m (v (ins_op1 l))) :: u32) = ucast (v (ins_op1 l))"
      using s by (auto simp: conv_def ucast_scast32)
    moreover have "conv (ins_op2 f) y = ucast (ucast y :: u32)" for y using o(3,4) by (auto simp: conv_def)
    ultimately show "eval v f = v (ins_op1 l) \<and> v (ins_op1 l) < 0x100000000"
      unfolding C(5) S(2) [OF v] using xl by (simp add: ucast_ucast_less)
  qed
  have "res_ok J f (RefFold J (ins_op1 l))" if s: "conv_src m \<in> {IRT_INT, IRT_U32}"
    by (rule res_ref [OF A(1)]) (use sem [OF s] nf C(4) in auto)
  moreover have "res_ok J f (RetryFold J (f\<lparr>ins_op2 := conv_dst (ins_op2 f) * 32 + conv_src m, ins_op1 := ins_op1 l\<rparr>))"
    (is "res_ok J f (RetryFold J ?g)") if s: "conv_src m \<in> {IRT_INT, IRT_U32}"
  proof (rule res_retry [OF A(1)])
    have g: "conv_src (ins_op2 ?g) = conv_src m" "conv_dst (ins_op2 ?g) = conv_dst (ins_op2 f)" "ins_op2 ?g < 0x1000"
      using s o(3) by (auto simp: conv_src_def conv_dst_def)
    have "conv_int (ins_op2 ?g)" unfolding conv_int_def g(1,2) using s o(3) g(3) by auto
    then have t: "typed J ?g" using s sem(1) [OF s] g C(2,7) o(1) unfolding typed_def Let_def by (auto simp: ty_ok_def)
    then show "fins_ok J ?g" using o(1) by (simp add: fins_ok_def)
    show "supported ?g" using o(1) by (simp add: supported_def)
    fix v assume v: "sat J v"
    show "guard v ?g = guard v f \<and> (op_value (ins_o f) \<longrightarrow> eval v ?g = eval v f)"
      using sem(2) [OF s v] C(4) conv_pre(4,5) [OF t] o(1,3) s unfolding conv_def g(1,2)
      by (auto simp: ucast_ucast_less)
  qed simp_all
  ultimately show "res_ok J f (snd fold_simplify_conv_int_i64 eng J f)"
    unfolding fold_simplify_conv_int_i64_def snd_conv Let_def
      conv_src_def [of m, symmetric, unfolded m_def l_def] conv_dst_def [symmetric]
    by (intro res_if res_Next) (auto simp: m_def l_def)
qed

lemma conv_sext [fold_ok]: "rule_ok fold_simplify_conv_sext"
proof (rule rule_okI)
  fix eng J f assume A: "jit_ok J" "typed J f" and fit: "fits J f fold_simplify_conv_sext"
  define l where "l = fleft J f"
  have o: "ins_o f = IR_CONV" "conv_dst (ins_op2 f) \<in> {IRT_I64, IRT_U64}" "conv_src (ins_op2 f) = IRT_INT"
    using fit by (auto simp: fits_def fold_simplify_conv_sext_def dest!: conv_lit)
  note C = conv_pre [OF A(2) o(1)]
  have w: "opnd J (ins_op1 f) False" "wd f" using C(2,3) o(2,3) by auto
  have load: "\<not> (ins_o l = IR_XLOAD \<and> (ins_t l = IRT_U8 \<or> ins_t l = IRT_U16))"
  proof -
    have "slot_shape (ins_op1 f) l" using jit_okD(4) [OF A(1) opnd_irefs(1) [OF w(1)]] by (simp add: slot_ok_def l_def)
    then show ?thesis unfolding slot_shape_def by blast
  qed
  have "ins_op1 f \<noteq> scev_idx J" using jit_okD2 [OF A(1)] w(1) by (auto simp: opnd_def)
  moreover have "ins_op1 l \<noteq> scev_idx J" if "ins_o l = IR_ADD"
    using pure_opnd [OF A(1) w(1) that [unfolded l_def]] jit_okD2 [OF A(1)] by (auto simp: opnd_def l_def)
  ultimately show "res_ok J f (snd fold_simplify_conv_sext eng J f)"
    using load unfolding fold_simplify_conv_sext_def snd_conv Let_def l_def sext_iff by auto
qed

lemma cse_conv [fold_ok]: "rule_ok fold_cse_conv"
proof (rule rule_okI)
  fix eng J f assume A: "jit_ok J" "fins_ok J f" "typed J f" and fit: "fits J f fold_cse_conv"
  have o: "ins_o f = IR_CONV" using fit by (auto simp: fits_def fold_cse_conv_def)
  note C = conv_pre [OF A(3) o]
  have m: "ins_op2 f mod 0x1000 = ins_op2 f" using C(1) by (simp add: conv_int_def)
  have "res_ok J f (EmitFold J f)"
  proof -
    obtain J' r where e: "lj_ir_emit J f = (J', r)" by (cases "lj_ir_emit J f")
    have "emit_ok J f" using A(2) o by (simp add: emit_ok_def)
    then show ?thesis using emit_spec_emit [OF A(1) _ e] by (simp add: EmitFold_def e res_ok_def)
  qed
  moreover have "res_ok J f (RefFold J ref)"
    if x: "chain_walk (\<lambda>ir. ins_op1 ir = ins_op1 f \<and> ins_op2 ir mod 0x1000 = ins_op2 f \<and> (ins_guard f \<longrightarrow> ins_guard ir))
                  (jir J) (ins_op1 f) (nins J) (chain J IR_CONV) = Some ref" for ref
  proof -
    define l where "l = jir J ref"
    have R: "ref \<in> irefs J" "ins_o l = IR_CONV" "ins_op1 l = ins_op1 f" "ins_op2 l mod 0x1000 = ins_op2 f"
      using chain_ok_walk(1) [OF A(1) _ x] by (auto simp: chained_def l_def)
    have "ins_op2 l mod 1024 = ins_op2 l mod 0x1000 mod 1024" by (simp add: mod_mod_cancel)
    then have ty: "conv_src (ins_op2 l) = conv_src (ins_op2 f)" "conv_dst (ins_op2 l) = conv_dst (ins_op2 f)"
      using conv_fields [of "ins_op2 l" "ins_op2 f"] R(4) by simp_all
    have it: "int_ty (conv_src (ins_op2 l))" "int_ty (conv_dst (ins_op2 l))"
      using C(1) ty by (auto simp: conv_int_def)
    have S: "typed J l" "\<And>v. sat J v \<Longrightarrow> v ref = conv (ins_op2 l) (v (ins_op1 l))"
      using conv_slot [OF A(1) R(1)] R(2) it by (auto simp: l_def)
    note D = conv_pre [OF S(1) R(2)]
    have e: "ins_op2 l = ins_op2 f" using D(1) R(4) by (simp add: conv_int_def)
    have "opnd J ref (wd f)" using R(1) D(2,7) C(2) e by (auto simp: opnd_def l_def)
    then show ?thesis by (rule res_ref [OF A(1)]) (use S(2) C(4,5) e R(3) in auto)
  qed
  ultimately show "res_ok J f (snd fold_cse_conv eng J f)"
    unfolding fold_cse_conv_def snd_conv Let_def m by (auto split: option.splits)
qed

end
