(* ===== verification/Lj_Fold_Narrow.thy ===== *)
theory Lj_Fold_Narrow
  imports Lj_Fold_Conv
begin

text \<open>
  Soundness of the narrowing of 64-bit arithmetic, the rule that calls the engine on new
  instructions.
\<close>

lemma eng_nk:
  assumes "eng_nk eng"
  shows "eng J g = Inr (J', r) \<Longrightarrow> nk J' \<le> nk J"
    and "eng J g = Inl e \<Longrightarrow> plain (ins_o g) \<Longrightarrow> e \<noteq> TRERR_GFAIL"
  using assms [unfolded eng_nk_def, rule_format, of g J] by auto

lemma eng_spec:
  assumes "eng_ok eng"
  shows "pre_ok J g \<Longrightarrow> eng J g = Inr (J', r) \<Longrightarrow> 0x1000 \<le> nk J' \<Longrightarrow> emit_spec J g J' r"
    and "eng J g = Inr (J', r) \<Longrightarrow> nk J' \<le> nk J"
    and "eng J g = Inl e \<Longrightarrow> plain (ins_o g) \<Longrightarrow> e \<noteq> TRERR_GFAIL"
  using assms eng_nk [of eng] unfolding eng_ok_def by fastforce+

abbreviation "narrow_ops \<equiv> {IR_ADD, IR_SUB, IR_MUL}"

lemma narrow_hom:
  assumes "o1 \<in> narrow_ops"
  shows "(ucast (arith o1 (a :: u64) b) :: u32) = arith o1 (ucast a) (ucast b)"
proof -
  have u: "(ucast (word_of_int x :: u64) :: u32) = word_of_int x" for x
    by (rule ucast_down_wi) (simp add: is_down)
  have w: "(ucast c :: u32) = word_of_int (uint c)" for c :: u64 using u [of "uint c"] by simp
  have h: "a + b = word_of_int (uint a + uint b)" "a - b = word_of_int (uint a - uint b)" "a * b = word_of_int (uint a * uint b)"
    by (simp_all flip: wi_homs)
  show ?thesis using assms by (elim insertE emptyE) (simp_all only: arith.simps h u, simp_all only: w wi_homs)
qed

lemma conv_narrow [fold_ok]: "rule_ok fold_simplify_conv_narrow"
proof (rule rule_okI)
  fix eng J f assume E: "eng_ok eng" and A: "jit_ok J" "typed J f" and fit: "fits J f fold_simplify_conv_narrow"
  define l a b m where "l = fleft J f" and "a = ins_op1 l" and "b = ins_op2 l" and "m = ins_op2 f"
  have o: "ins_o f = IR_CONV" "ins_o l \<in> narrow_ops" "conv_dst m \<in> {IRT_INT, IRT_U32}" "conv_src m \<in> {IRT_I64, IRT_U64}"
    using fit by (auto simp: fits_def fold_simplify_conv_narrow_def l_def m_def dest!: conv_lit)
  note C = conv_pre [OF A(2) o(1)]
  have w: "opnd J (ins_op1 f) True" "\<not> wd f" using C(2,3) o(3,4) by (auto simp: m_def)
  have P: "pure_op (ins_o l)" "ins_o l \<notin> un_ops" using o(2) by auto
  note L = pure_opnd [OF A(1) w(1) _ P(1), folded l_def, OF refl, folded a_def b_def]
  have L1: "opnd J a True" "opnd J b True" using L P(2) by auto
  have cm: "conv m y = ucast (ucast y :: u32)" for y using o(3,4) by (auto simp: conv_def)
  define g where "g x = f\<lparr>ins_o := IR_CONV, ins_t := IRT_INT, ins_phi := False, ins_guard := False, ins_op1 := x, ins_op2 := m\<rparr>" for x
  have conv_step: "pre_ok J1 (g x)" if "jit_ok J1" "opnd J1 x True" for J1 x
  proof -
    have "conv_int m" "irt_is64 (conv_src m)" "\<not> irt_is64 (conv_dst m)" using C(1) o(3,4) by (auto simp: m_def)
    then have "typed J1 (g x)" using that(2) by (simp add: typed_def g_def ty_ok_def Let_def)
    then show ?thesis using that(1) by (simp add: pre_ok_def fins_ok_def supported_def g_def)
  qed
  have gv: "guard v (g x)" "eval v (g x) = ucast (ucast (v x) :: u32)" for v x
    using guard_value [of "g x"] by (simp_all add: g_def eval_def cm)
  have done_step: "cons J1 J2 \<and> opnd J2 r False \<and> (\<forall>v. sat J2 v \<longrightarrow> rdv v r = ucast (ucast (rdv v x) :: u32))"
    if "jit_ok J1" "opnd J1 x True" "eng J1 (g x) = Inr (J2, r)" "0x1000 \<le> nk J2" for J1 J2 x r
  proof -
    have "emit_spec J1 (g x) J2 r" by (rule eng_spec(1) [OF E conv_step [OF that(1,2)] that(3,4)])
    note V = emit_spec_value [OF this]
    show ?thesis using V(1-3) gv(2) by (simp add: g_def rdv_def)
  qed
  have err: "res_ok J f (ErrFold e)" if "eng J1 (g x) = Inl e" for J1 e x
    using eng_spec(3) [OF E that] by (simp add: g_def plain_def res_ok_def)
  have last: "res_ok J f (RetryFold J2 (f\<lparr>ins_o := ins_o l, ins_t := ins_t f, ins_phi := False, ins_guard := False,
       ins_op1 := r1, ins_op2 := r2\<rparr>))" (is "res_ok J f (RetryFold J2 ?h)")
    if g1: "eng J (g a) = Inr (J1, r1)" and g2: "eng J1 (g b) = Inr (J2, r2)" for J1 J2 r1 r2
  proof -
    have "retry_spec J f J2 ?h" if nk: "0x1000 \<le> nk J2"
    proof -
      have nk1: "0x1000 \<le> nk J1" using eng_spec(2) [OF E g2] nk by simp
      note S1 = done_step [OF A(1) L1(1) g1 nk1]
      have ok1: "jit_ok J1" and e1: "ext J J1" using S1 by (simp_all add: cons_def)
      note S2 = done_step [OF ok1 ext_opnd [OF e1 L1(2)] g2 nk]
      have c: "cons J J2" using S1 S2 cons_trans by blast
      have e2: "ext J1 J2" "\<And>v. sat J2 v \<Longrightarrow> sat J1 v \<and> sat J v" using S1 S2 by (auto simp: cons_def)
      have h: "fins_ok J2 ?h \<and> supported ?h"
        by (rule pure_fins) (use o(2) C(7) w(2) S1 S2 ext_opnd [OF e2(1)] in auto)
      moreover have "guard v ?h = guard v f \<and> eval v ?h = eval v f" if v: "sat J2 v" for v
      proof -
        have "eval v ?h = opv False (ins_o l) (ucast (ucast (rdv v a) :: u32)) (ucast (ucast (rdv v b) :: u32))"
          using eval_pure [of ?h v] P(1) w(2) S1 S2 e2(2) [OF v] v by simp
        also have "\<dots> = ucast (ucast (arith (ins_o l) (rdv v a) (rdv v b)) :: u32)"
          by (simp add: opv_def narrow_hom [OF o(2)])
        also have "\<dots> = eval v f" using C(5) [of v] L e2(2) [OF v] by (simp add: m_def [symmetric] cm opv_def rdv_def)
        finally show ?thesis using C(4) guard_value [of ?h] P(1) pure_value by simp
      qed
      ultimately show ?thesis using c P(1) pure_value [of "ins_o l"] C(6) by (simp add: retry_spec_def)
    qed
    then show ?thesis by (simp add: res_ok_def)
  qed
  have "res_ok J f (case eng J (g a) of
            Inl e \<Rightarrow> ErrFold e
          | Inr (J, r1) \<Rightarrow>
              (case eng J (g b) of
                 Inl e \<Rightarrow> ErrFold e
               | Inr (J, r2) \<Rightarrow> RetryFold J (f\<lparr>ins_o := ins_o l, ins_t := ins_t f, ins_phi := False, ins_guard := False,
                                     ins_op1 := r1, ins_op2 := r2\<rparr>)))"
    using err last by (auto split: sum.splits)
  then show "res_ok J f (snd fold_simplify_conv_narrow eng J f)"
    unfolding fold_simplify_conv_narrow_def snd_conv Let_def emitir_def g_def l_def a_def b_def m_def
    by simp
qed

end
