(* ===== verification/Lj_Fold_Abc.thy ===== *)
theory Lj_Fold_Abc
  imports Lj_Fold_Narrow
begin

text \<open>
  Soundness of the elimination of array bounds checks, which may change an instruction in place.
\<close>

section \<open>Bounds checks\<close>

lemma linked_prev: "linked ir r cs \<Longrightarrow> (\<And>c. ins_prev (ir' c) = ins_prev (ir c)) \<Longrightarrow> linked ir' r cs"
  by (induction cs arbitrary: r) auto

lemma abc_patch:
  fixes J ref k
  defines "J' \<equiv> ir_store J ref ((jir J ref)\<lparr>ins_op2 := k\<rparr>)"
  assumes ok: "jit_ok J" and ref: "ref \<in> irefs J" "ins_o (jir J ref) = IR_ABC"
    and k: "opnd J k False" "ins_o (jir J k) = IR_KINT" "0 \<le> sint (ins_i (jir J k))"
  shows "jit_ok J'" "ext J J'"
    "sat J' v \<longleftrightarrow> (\<forall>r \<in> irefs J. r \<noteq> ref \<longrightarrow> ins_sat v r (jir J r)) \<and> ins_sat v ref ((jir J ref)\<lparr>ins_op2 := k\<rparr>)"
proof -
  have j: "jir J' = (jir J)(ref := (jir J ref)\<lparr>ins_op2 := k\<rparr>)" "irefs J' = irefs J" "nk J' = nk J" "nins J' = nins J"
    "chain J' = chain J" "jflag J' = jflag J" "scev_idx J' = scev_idx J"
    by (simp_all add: J'_def ir_store_def irefs_def jflag_def fun_eq_iff)
  have f: "ins_o (jir J' r) = ins_o (jir J r)" "ins_t (jir J' r) = ins_t (jir J r)" "ins_i (jir J' r) = ins_i (jir J r)"
    "ins_u64 (jir J' r) = ins_u64 (jir J r)" "ins_prev (jir J' r) = ins_prev (jir J r)" for r
    by (simp_all add: j)
  show e: "ext J J'" using ref by (auto simp: ext_def j same_ins_def)
  have s: "slot_shape ref (jir J ref)" "slot_refs J (jir J ref)" using jit_okD(4) [OF ok ref(1)] by (simp_all add: slot_ok_def)
  have kr: "k \<in> irefs J" "k < REF_BIAS"
    using k(1,2) jit_okD(4) [OF ok, of k] by (auto simp: opnd_def slot_ok_defs)
  have b: "REF_BIAS < ref" "ins_op1 (jir J ref) < ref" using s(1) ref(2) by (simp_all add: slot_shape_def op_guard_def)
  have "slot_ok J' r" if "r \<in> irefs J" for r
  proof (cases "r = ref")
    case True
    have t: "typed J (jir J ref)" using s(2) ref(2) by (simp add: slot_refs_def covered_def)
    have "typed J ((jir J ref)\<lparr>ins_op2 := k\<rparr>)"
      using t ref(2) k(1) by (simp add: typed_def Let_def)
    then have "slot_refs J ((jir J ref)\<lparr>ins_op2 := k\<rparr>)"
      using ref(2) k by (simp add: slot_refs_def covered_def)
    moreover have "slot_shape ref ((jir J ref)\<lparr>ins_op2 := k\<rparr>)"
      using b kr ref(2) by (simp add: slot_shape_def)
    ultimately show ?thesis using slot_refs_ext [OF e] True by (simp add: slot_ok_def j(1))
  next
    case False
    then show ?thesis using slot_ok_ext [OF e jit_okD(4) [OF ok that]] by (simp add: j(1))
  qed
  moreover have "chain_ok J' o1" if c: "chained o1" for o1
  proof -
    obtain cs where "linked (jir J) (chain J o1) cs" "distinct cs" "set cs = {r \<in> irefs J. ins_o (jir J r) = o1}"
      using jit_okD(5) [OF ok c] by (auto simp: chain_ok_def)
    then show ?thesis unfolding chain_ok_def j(2,5) f(1) using linked_prev [of "jir J"] f(5) by blast
  qed
  ultimately show "jit_ok J'" using ok unfolding jit_ok_def f j(2-7) by blast
  show "sat J' v \<longleftrightarrow> (\<forall>r \<in> irefs J. r \<noteq> ref \<longrightarrow> ins_sat v r (jir J r)) \<and> ins_sat v ref ((jir J ref)\<lparr>ins_op2 := k\<rparr>)"
    using ref(1) unfolding sat_def j(1,2) by auto
qed

text \<open>A bounds check whose index is a constant.\<close>

lemma abc_slot:
  assumes "jit_ok J" "r \<in> irefs J" "ins_o (jir J r) = IR_ABC"
  shows "opnd J (ins_op1 (jir J r)) False" "opnd J (ins_op2 (jir J r)) False"
    "sat J v \<Longrightarrow> (ucast (v (ins_op2 (jir J r))) :: u32) < ucast (v (ins_op1 (jir J r)))"
    "ins_o (jir J (ins_op2 (jir J r))) = IR_KINT \<Longrightarrow> 0 \<le> sint (ins_i (jir J (ins_op2 (jir J r))))"
proof -
  have s: "slot_refs J (jir J r)" using jit_okD(4) [OF assms(1,2)] by (simp add: slot_ok_def)
  then have t: "typed J (jir J r)" using assms(3) by (simp add: slot_refs_def covered_def)
  show "opnd J (ins_op1 (jir J r)) False" "opnd J (ins_op2 (jir J r)) False"
    using t assms(3) by (simp_all add: typed_def)
  show "ins_o (jir J (ins_op2 (jir J r))) = IR_KINT \<Longrightarrow> 0 \<le> sint (ins_i (jir J (ins_op2 (jir J r))))"
    using s assms(3) by (simp add: slot_refs_def)
  show "(ucast (v (ins_op2 (jir J r))) :: u32) < ucast (v (ins_op1 (jir J r)))" if "sat J v"
    using sat_slot [OF that assms(2)] assms(3) by (simp add: ins_sat_def covered_def guard_def)
qed

lemma abc_pre:
  assumes "fins_ok J f" "ins_o f = IR_ABC"
  shows "typed J f" "opnd J (ins_op1 f) False" "opnd J (ins_op2 f) False" "\<not> op_value (ins_o f)" "emit_ok J f"
    "guard v f \<longleftrightarrow> (ucast (v (ins_op2 f)) :: u32) < ucast (v (ins_op1 f))"
    "ins_o (fright J f) = IR_KINT \<Longrightarrow> 0 \<le> sint (ins_i (fright J f))"
proof -
  show t: "typed J f" using assms(1) by (simp add: fins_ok_def)
  show "opnd J (ins_op1 f) False" "opnd J (ins_op2 f) False" using t assms(2) by (simp_all add: typed_def)
  show "\<not> op_value (ins_o f)" "emit_ok J f" using assms by (simp_all add: emit_ok_def)
  show "guard v f \<longleftrightarrow> (ucast (v (ins_op2 f)) :: u32) < ucast (v (ins_op1 f))" using assms(2) by (simp add: guard_def)
  show "ins_o (fright J f) = IR_KINT \<Longrightarrow> 0 \<le> sint (ins_i (fright J f))" using assms by (simp add: fins_ok_def)
qed

lemma isk_kint:
  assumes "jit_ok J" "opnd J r False" "irref_isk r"
  shows "ins_o (jir J r) = IR_KINT" "sat J v \<Longrightarrow> v r = ucast (ins_i (jir J r))"
proof -
  have r: "r \<in> irefs J" "int_ty (ins_t (jir J r))" "\<not> irt_is64 (ins_t (jir J r))" using assms(2) by (auto simp: opnd_def)
  have "slot_shape r (jir J r)" using jit_okD(4) [OF assms(1) r(1)] by (simp add: slot_ok_def)
  then show o: "ins_o (jir J r) = IR_KINT" using r assms(3) unfolding slot_shape_def irref_isk_def by blast
  show "v r = ucast (ins_i (jir J r))" if "sat J v" by (rule kint_value [OF that r(1) o])
qed

lemma uint_nonneg: "0 \<le> sint (c :: u32) \<Longrightarrow> uint c = sint c"
  using sint_lt [of c] by (simp add: uint_sint take_bit_int_eq_self)

lemma nonneg_le: "0 \<le> sint (a :: u32) \<Longrightarrow> sint a \<le> sint b \<Longrightarrow> a \<le> b"
  "0 \<le> sint (a :: u32) \<Longrightarrow> sint a < sint b \<Longrightarrow> a < b"
  using uint_nonneg [of a] uint_nonneg [of b] by (simp_all add: word_le_def word_less_def)

lemma abc_k [fold_ok]: "rule_ok fold_abc_k"
proof (rule rule_okI)
  fix eng J f assume A: "jit_ok J" "fins_ok J f" and fit: "fits J f fold_abc_k"
  have o: "ins_o f = IR_ABC" "ins_o (fright J f) = IR_KINT" using fit by (auto simp: fits_def fold_abc_k_def)
  note C = abc_pre [OF A(2) o(1)]
  have emit: "res_ok J f (EmitFold J f)"
  proof -
    obtain J' r where e: "lj_ir_emit J f = (J', r)" by (cases "lj_ir_emit J f")
    show ?thesis using emit_spec_emit [OF A(1) C(5) e] by (simp add: EmitFold_def e res_ok_def)
  qed
  have drop: "res_ok J f (DropFold (if sint (ins_i (fright J f)) > sint (ins_i (jir J (ins_op2 (jir J ref))))
        then ir_store J ref ((jir J ref)\<lparr>ins_op2 := ins_op2 f\<rparr>) else J))"
    if x: "chain_walk (\<lambda>ir. ins_op1 ir = ins_op1 f \<and> irref_isk (ins_op2 ir)) (jir J) (ins_op1 f) (nins J)
       (chain J IR_ABC) = Some ref" for ref
  proof -
    define i where "i = jir J ref"
    have R: "ref \<in> irefs J" "ins_o i = IR_ABC" "ins_op1 i = ins_op1 f" "irref_isk (ins_op2 i)"
      using chain_ok_walk(1) [OF A(1) _ x] by (auto simp: chained_def i_def)
    note S = abc_slot [OF A(1) R(1) R(2) [unfolded i_def], folded i_def]
    note K = isk_kint [OF A(1) S(2) R(4)]
    define k k' where "k = ins_i (jir J (ins_op2 i))" and "k' = ins_i (fright J f)"
    have nn: "0 \<le> sint k" "0 \<le> sint k'" using S(4) K(1) C(7) o(2) by (simp_all add: k_def k'_def)
    have v': "v (ins_op2 f) = ucast k'" if "sat J v" for v
      using kV [OF A(1) C(3) o(2)] that by (simp add: rdv_def k'_def)
    have gi: "guard v f \<longleftrightarrow> k' < ucast (v (ins_op1 f))" if "v (ins_op2 f) = ucast k'" for v
      using C(6) [of v] that by simp
    show ?thesis
    proof (cases "sint k < sint k'")
      case False
      have "guard v f" if v: "sat J v" for v
      proof -
        have "k < ucast (v (ins_op1 f))" using S(3) [OF v] K(2) [OF v] R(3) by (simp add: k_def)
        moreover have "k' \<le> k" using False nonneg_le(1) [of k' k] nn by simp
        ultimately show ?thesis using gi [of v] v' [OF v] by simp
      qed
      then show ?thesis using False res_drop [OF A(1) C(4)] by (simp add: k_def k'_def i_def)
    next
      case True
      have kk: "k < k'" by (rule nonneg_le(2) [OF nn(1) True])
      define J' where "J' = ir_store J ref (i\<lparr>ins_op2 := ins_op2 f\<rparr>)"
      note P = abc_patch [OF A(1) R(1) R(2) [unfolded i_def] C(3) o(2) nn(2) [unfolded k'_def], folded i_def, folded J'_def]
      have kr: "ins_op2 f \<in> irefs J" "ins_op2 f \<noteq> ref" using C(3) opnd_irefs o(2) R(2) by (auto simp: i_def)
      have kr2: "ins_op2 i \<in> irefs J" "ins_op2 i \<noteq> ref" using S(2) opnd_irefs K(1) R(2) by (auto simp: i_def)
      have sx: "ins_sat v ref (i\<lparr>ins_op2 := x\<rparr>) \<longleftrightarrow>
          (ucast (v x) :: u32) < ucast (v (ins_op1 f)) \<and> (\<not> irt_is64 (ins_t i) \<longrightarrow> v ref < 2 ^ 32)" for v x
        using R(2,3) by (simp add: ins_sat_def covered_def guard_def)
      have old: "ins_sat v ref i \<longleftrightarrow>
          (ucast (v (ins_op2 i)) :: u32) < ucast (v (ins_op1 f)) \<and> (\<not> irt_is64 (ins_t i) \<longrightarrow> v ref < 2 ^ 32)" for v
        using sx [of v "ins_op2 i"] by simp
      have sat: "sat J v \<longleftrightarrow> (\<forall>r \<in> irefs J. r \<noteq> ref \<longrightarrow> ins_sat v r (jir J r)) \<and> ins_sat v ref i" for v
        using R(1) unfolding sat_def i_def by auto
      have kv: "v (ins_op2 f) = ucast k'" "v (ins_op2 i) = ucast k" if "\<forall>r \<in> irefs J. r \<noteq> ref \<longrightarrow> ins_sat v r (jir J r)" for v
        using that kr kr2 o(2) K(1) unfolding ins_sat_def k_def k'_def by blast+
      have "sat J v \<and> guard v f" if v: "sat J' v" for v
      proof -
        have a: "\<forall>r \<in> irefs J. r \<noteq> ref \<longrightarrow> ins_sat v r (jir J r)" and b: "ins_sat v ref (i\<lparr>ins_op2 := ins_op2 f\<rparr>)"
          using P(3) v by blast+
        have "k' < ucast (v (ins_op1 f))" using b kv(1) [OF a] unfolding sx by simp
        then show ?thesis using a b kk kv [OF a] gi sat [of v] unfolding sx old by simp
      qed
      moreover have "sat J' v" if v: "sat J v" "guard v f" for v
        using v sat [of v] kv [of v] gi [of v] unfolding P(3) sx old by simp
      ultimately have "emit_spec J f J' REF_DROP"
        using P(1,2) C(4) agree_refl unfolding emit_spec_def by blast
      then show ?thesis using True C(4) by (simp add: res_ok_def J'_def k_def k'_def i_def)
    qed
  qed
  show "res_ok J f (snd fold_abc_k eng J f)"
    unfolding fold_abc_k_def snd_conv Let_def
    using emit drop by (auto split: option.splits)
qed

lemma abc_fwd [fold_ok]: "rule_ok fold_abc_fwd"
proof (rule rule_okI)
  fix eng J f assume A: "jit_ok J" "fins_ok J f" and fit: "fits J f fold_abc_fwd"
  have o: "ins_o f = IR_ABC" "ins_o (fright J f) = IR_ADD" using fit by (auto simp: fits_def fold_abc_fwd_def)
  note C = abc_pre [OF A(2) o(1)]
  define l where "l = fright J f"
  note L = pure_opnd [OF A(1) C(3) o(2), folded l_def, simplified]
  define m where "m = jir J (ins_op1 l)"
  have "guard v f" if k: "irref_isk (ins_op2 l)" "ins_o m = IR_ADD" "irref_isk (ins_op2 m)"
      "ins_i (jir J (ins_op2 l)) = - ins_i (jir J (ins_op2 m))"
    and x: "chain_walk (\<lambda>ir. ins_op1 ir = ins_op1 f \<and> ins_op2 ir = ins_op1 m) (jir J)
                (max (ins_op1 m) (ins_op1 f)) (nins J) (chain J IR_ABC) = Some ref" and v: "sat J v" for v ref
  proof -
    note M = pure_opnd [OF A(1) _ k(2) [unfolded m_def], folded m_def, of False, simplified]
    have m: "opnd J (ins_op1 m) False" "opnd J (ins_op2 m) False"
      "rdv v (ins_op1 l) = opv False IR_ADD (rdv v (ins_op1 m)) (rdv v (ins_op2 m))" using M L v by auto
    have R: "ref \<in> irefs J" "ins_o (jir J ref) = IR_ABC" "ins_op1 (jir J ref) = ins_op1 f" "ins_op2 (jir J ref) = ins_op1 m"
      using chain_ok_walk(1) [OF A(1) _ x] by (auto simp: chained_def)
    have "(ucast (v (ins_op1 m)) :: u32) < ucast (v (ins_op1 f))"
      using abc_slot(3) [OF A(1) R(1,2) v] R(3,4) by simp
    moreover have "rdv v (ins_op2 f) = opv False IR_ADD (rdv v (ins_op1 l)) (rdv v (ins_op2 l))" using L v by blast
    moreover have "rdv v (ins_op2 l) = ucast (- ins_i (jir J (ins_op2 m)))" "rdv v (ins_op2 m) = ucast (ins_i (jir J (ins_op2 m)))"
      using isk_kint(2) [OF A(1) _ k(1) v] isk_kint(2) [OF A(1) m(2) k(3) v] L k(4) by (simp_all add: rdv_def)
    ultimately show ?thesis using m(3) C(6) [of v] by (simp add: opv_def rdv_def)
  qed
  then have "res_ok J f (DropFold J)" if "irref_isk (ins_op2 l)" "ins_o m = IR_ADD" "irref_isk (ins_op2 m)"
      "ins_i (jir J (ins_op2 l)) = - ins_i (jir J (ins_op2 m))"
    "chain_walk (\<lambda>ir. ins_op1 ir = ins_op1 f \<and> ins_op2 ir = ins_op1 m) (jir J)
                (max (ins_op1 m) (ins_op1 f)) (nins J) (chain J IR_ABC) = Some ref" for ref
    using res_drop [OF A(1) C(4)] that by blast
  then show "res_ok J f (snd fold_abc_fwd eng J f)"
    unfolding fold_abc_fwd_def snd_conv Let_def l_def m_def by (auto split: option.splits)
qed

end
