(* ===== verification/Lj_Fold_Algebra.thy ===== *)
theory Lj_Fold_Algebra
  imports Lj_Fold_Rules
begin

text \<open>
  Soundness of the algebraic rules: cancellation of sums and differences, neutral and absorbing
  constants, duplicated operands, minimum and maximum, and the reassociation of constants.
\<close>

lemma and_or_cancel: "(k :: 'a::len word) AND k2 = 0 \<Longrightarrow> (x OR k) AND k2 = x AND k2"
  by (simp add: bit.conj_disj_distrib2)

lemma or_and_cancel: "(k :: 'a::len word) OR k2 = - 1 \<Longrightarrow> (x AND k) OR k2 = x OR k2"
  by (simp add: bit.disj_conj_distrib2)

lemma numadd_negx [fold_ok]: "rule_ok fold_simplify_numadd_negx"
proof (rule rule_okI)
  fix eng J f assume A: "jit_ok J" "typed J f" and fit: "fits J f fold_simplify_numadd_negx"
  have o: "ins_o f = IR_ADD" "ins_o (fleft J f) = IR_NEG"
    using fit by (auto simp: fits_def fold_simplify_numadd_negx_def)
  note T = left_opnd [OF A(2)] right_opnd [OF A(2)]
  note L = pure_opnd [OF A(1) T(1) o(2)]
  show "res_ok J f (snd fold_simplify_numadd_negx eng J f)" unfolding fold_simplify_numadd_negx_def snd_conv
    by (intro res_if res_Next res_retry_pure) (use A o T L in \<open>auto simp: word_simps\<close>)
qed

lemma numadd_xneg [fold_ok]: "rule_ok fold_simplify_numadd_xneg"
proof (rule rule_okI)
  fix eng J f assume A: "jit_ok J" "typed J f" and fit: "fits J f fold_simplify_numadd_xneg"
  have o: "ins_o f = IR_ADD" "ins_o (fright J f) = IR_NEG"
    using fit by (auto simp: fits_def fold_simplify_numadd_xneg_def)
  note T = left_opnd [OF A(2)] right_opnd [OF A(2)]
  note R = pure_opnd [OF A(1) T(3) o(2)]
  show "res_ok J f (snd fold_simplify_numadd_xneg eng J f)" unfolding fold_simplify_numadd_xneg_def snd_conv
    by (intro res_if res_Next res_retry_pure) (use A o T R in \<open>auto simp: word_simps\<close>)
qed

lemma numsub_xneg [fold_ok]: "rule_ok fold_simplify_numsub_xneg"
proof (rule rule_okI)
  fix eng J f assume A: "jit_ok J" "typed J f" and fit: "fits J f fold_simplify_numsub_xneg"
  have o: "ins_o f = IR_SUB" "ins_o (fright J f) = IR_NEG"
    using fit by (auto simp: fits_def fold_simplify_numsub_xneg_def)
  note T = left_opnd [OF A(2)] right_opnd [OF A(2)]
  note R = pure_opnd [OF A(1) T(3) o(2)]
  show "res_ok J f (snd fold_simplify_numsub_xneg eng J f)" unfolding fold_simplify_numsub_xneg_def snd_conv
    by (intro res_if res_Next res_retry_pure) (use A o T R in \<open>auto simp: word_simps\<close>)
qed

lemma subadd_left [fold_ok]: "rule_ok fold_simplify_intsubadd_leftcancel"
proof (rule rule_okI)
  fix eng J f assume A: "jit_ok J" "typed J f" and fit: "fits J f fold_simplify_intsubadd_leftcancel"
  have o: "ins_o f = IR_SUB" "ins_o (fleft J f) = IR_ADD"
    using fit by (auto simp: fits_def fold_simplify_intsubadd_leftcancel_def)
  note T = left_opnd [OF A(2)] right_opnd [OF A(2)]
  note L = pure_opnd [OF A(1) T(1) o(2)]
  show "res_ok J f (snd fold_simplify_intsubadd_leftcancel eng J f)" unfolding fold_simplify_intsubadd_leftcancel_def snd_conv
    by (intro res_if res_Next res_ref_pure) (use A o T L in \<open>auto simp: word_simps\<close>)
qed

lemma subsub_left [fold_ok]: "rule_ok fold_simplify_intsubsub_leftcancel"
proof (rule rule_okI)
  fix eng J f assume A: "jit_ok J" "typed J f" and fit: "fits J f fold_simplify_intsubsub_leftcancel"
  have o: "ins_o f = IR_SUB" "ins_o (fleft J f) = IR_SUB"
    using fit by (auto simp: fits_def fold_simplify_intsubsub_leftcancel_def)
  note T = left_opnd [OF A(2)] right_opnd [OF A(2)]
  note L = pure_opnd [OF A(1) T(1) o(2)]
  show "res_ok J f (snd fold_simplify_intsubsub_leftcancel eng J f)" unfolding fold_simplify_intsubsub_leftcancel_def snd_conv
    by (intro res_if res_Next res_kint1_pure) (use A o T L in \<open>auto simp: word_simps\<close>)
qed

lemma subsub_right [fold_ok]: "rule_ok fold_simplify_intsubsub_rightcancel"
proof (rule rule_okI)
  fix eng J f assume A: "jit_ok J" "typed J f" and fit: "fits J f fold_simplify_intsubsub_rightcancel"
  have o: "ins_o f = IR_SUB" "ins_o (fright J f) = IR_SUB"
    using fit by (auto simp: fits_def fold_simplify_intsubsub_rightcancel_def)
  note T = left_opnd [OF A(2)] right_opnd [OF A(2)]
  note R = pure_opnd [OF A(1) T(3) o(2)]
  show "res_ok J f (snd fold_simplify_intsubsub_rightcancel eng J f)" unfolding fold_simplify_intsubsub_rightcancel_def snd_conv
    by (intro res_if res_Next res_ref_pure) (use A o T R in \<open>auto simp: word_simps\<close>)
qed

lemma subadd_right [fold_ok]: "rule_ok fold_simplify_intsubadd_rightcancel"
proof (rule rule_okI)
  fix eng J f assume A: "jit_ok J" "typed J f" and fit: "fits J f fold_simplify_intsubadd_rightcancel"
  have o: "ins_o f = IR_SUB" "ins_o (fright J f) = IR_ADD"
    using fit by (auto simp: fits_def fold_simplify_intsubadd_rightcancel_def)
  note T = left_opnd [OF A(2)] right_opnd [OF A(2)]
  note R = pure_opnd [OF A(1) T(3) o(2)]
  show "res_ok J f (snd fold_simplify_intsubadd_rightcancel eng J f)" unfolding fold_simplify_intsubadd_rightcancel_def snd_conv
    by (intro res_if res_Next res_kint1_pure) (use A o T R in \<open>auto simp: word_simps\<close>)
qed

lemma subaddadd [fold_ok]: "rule_ok fold_simplify_intsubaddadd_cancel"
proof (rule rule_okI)
  fix eng J f assume A: "jit_ok J" "typed J f" and fit: "fits J f fold_simplify_intsubaddadd_cancel"
  have o: "ins_o f = IR_SUB" "ins_o (fleft J f) = IR_ADD" "ins_o (fright J f) = IR_ADD"
    using fit by (auto simp: fits_def fold_simplify_intsubaddadd_cancel_def)
  note T = left_opnd [OF A(2)] right_opnd [OF A(2)]
  note L = pure_opnd [OF A(1) T(1) o(2)]
  note R = pure_opnd [OF A(1) T(3) o(3)]
  show "res_ok J f (snd fold_simplify_intsubaddadd_cancel eng J f)" unfolding fold_simplify_intsubaddadd_cancel_def snd_conv Let_def
    by (intro res_if res_Next res_retry_pure) (use A o T L R in \<open>auto simp: word_simps\<close>)
qed

lemma intadd_k64 [fold_ok]: "rule_ok fold_simplify_intadd_k64"
proof (rule rule_okI)
  fix eng J f assume A: "jit_ok J" "typed J f" and fit: "fits J f fold_simplify_intadd_k64"
  have o: "ins_o f = IR_ADD" "ins_o (fright J f) = IR_KINT64"
    using fit by (auto simp: fits_def fold_simplify_intadd_k64_def)
  note T = left_opnd [OF A(2)] right_opnd [OF A(2)]
  note K = kV64 [OF A(1) T(3) o(2)]
  show "res_ok J f (snd fold_simplify_intadd_k64 eng J f)" unfolding fold_simplify_intadd_k64_def snd_conv
    by (intro res_if res_Next res_ref_pure) (use A o T K in \<open>auto simp: word_simps\<close>)
qed

lemma intsub_k64 [fold_ok]: "rule_ok fold_simplify_intsub_k64"
proof (rule rule_okI)
  fix eng J f assume A: "jit_ok J" "typed J f" and fit: "fits J f fold_simplify_intsub_k64"
  have o: "ins_o f = IR_SUB" "ins_o (fright J f) = IR_KINT64"
    using fit by (auto simp: fits_def fold_simplify_intsub_k64_def)
  note T = left_opnd [OF A(2)] right_opnd [OF A(2)]
  note K = kV64 [OF A(1) T(3) o(2)]
  show "res_ok J f (snd fold_simplify_intsub_k64 eng J f)" unfolding fold_simplify_intsub_k64_def snd_conv Let_def
    by (intro res_if res_Next res_ref_pure res_kint64_pure) (use A o T K in \<open>auto simp: word_simps\<close>)
qed

lemma intsub_k [fold_ok]: "rule_ok fold_simplify_intsub_k"
proof (rule rule_okI)
  fix eng J f assume A: "jit_ok J" "typed J f" and fit: "fits J f fold_simplify_intsub_k"
  have o: "ins_o f = IR_SUB" "ins_o (fright J f) = IR_KINT"
    using fit by (auto simp: fits_def fold_simplify_intsub_k_def)
  note T = left_opnd [OF A(2)] right_opnd [OF A(2)]
  note K = kV [OF A(1) T(3) o(2)]
  show "res_ok J f (snd fold_simplify_intsub_k eng J f)" unfolding fold_simplify_intsub_k_def snd_conv
    by (intro res_if res_Next res_ref_pure res_kint2_pure) (use A o T K in \<open>auto simp: word_simps\<close>)
qed

lemma band_k [fold_ok]: "rule_ok fold_simplify_band_k"
proof (rule rule_okI)
  fix eng J f assume A: "jit_ok J" "typed J f" and fit: "fits J f fold_simplify_band_k"
  have o: "ins_o f = IR_BAND" "ins_o (fright J f) \<in> {IR_KINT, IR_KINT64}"
    using fit by (auto simp: fits_def fold_simplify_band_k_def)
  note T = left_opnd [OF A(2)] right_opnd [OF A(2)]
  note K = kV [OF A(1) T(3)]
  note K6 = kV64 [OF A(1) T(3)]
  show "res_ok J f (snd fold_simplify_band_k eng J f)" unfolding fold_simplify_band_k_def snd_conv Let_def
    by (intro res_if res_Next res_ref_pure) (use A o T K K6 in \<open>auto simp: word_simps k64_of_def\<close>)
qed

lemma bor_k [fold_ok]: "rule_ok fold_simplify_bor_k"
proof (rule rule_okI)
  fix eng J f assume A: "jit_ok J" "typed J f" and fit: "fits J f fold_simplify_bor_k"
  have o: "ins_o f = IR_BOR" "ins_o (fright J f) \<in> {IR_KINT, IR_KINT64}"
    using fit by (auto simp: fits_def fold_simplify_bor_k_def)
  note T = left_opnd [OF A(2)] right_opnd [OF A(2)]
  note K = kV [OF A(1) T(3)]
  note K6 = kV64 [OF A(1) T(3)]
  show "res_ok J f (snd fold_simplify_bor_k eng J f)" unfolding fold_simplify_bor_k_def snd_conv Let_def
    by (intro res_if res_Next res_ref_pure) (use A o T K K6 in \<open>auto simp: word_simps k64_of_def\<close>)
qed

lemma comm_dup [fold_ok]: "rule_ok fold_comm_dup"
proof (rule rule_okI)
  fix eng J f assume A: "jit_ok J" "typed J f" and fit: "fits J f fold_comm_dup"
  have o: "ins_o f \<in> {IR_BAND, IR_BOR, IR_MIN, IR_MAX}"
    using fit by (auto simp: fits_def fold_comm_dup_def)
  note T = left_opnd [OF A(2)] right_opnd [OF A(2)]
  show "res_ok J f (snd fold_comm_dup eng J f)" unfolding fold_comm_dup_def snd_conv comm_swap_def
    by (intro res_if res_Next res_ref_pure res_retry_pure) (use A o T in \<open>auto simp: word_simps ac_simps\<close>)
qed

lemma reassoc_dup [fold_ok]: "rule_ok fold_reassoc_dup"
proof (rule rule_okI)
  fix eng J f assume A: "jit_ok J" "typed J f" and fit: "fits J f fold_reassoc_dup"
  have o: "ins_o f \<in> {IR_MIN, IR_MAX, IR_BAND, IR_BOR}" "ins_o (fleft J f) = ins_o f"
    using fit by (auto simp: fits_def fold_reassoc_dup_def)
  note T = left_opnd [OF A(2)] right_opnd [OF A(2)]
  note L = pure_opnd [OF A(1) T(1) o(2)]
  show "res_ok J f (snd fold_reassoc_dup eng J f)" unfolding fold_reassoc_dup_def snd_conv
    by (intro res_if res_Next res_ref_pure) (use A o T L in \<open>auto simp: word_simps ac_simps\<close>)
qed

lemma minmax_left [fold_ok]: "rule_ok fold_reassoc_minmax_left"
proof (rule rule_okI)
  fix eng J f assume A: "jit_ok J" "typed J f" and fit: "fits J f fold_reassoc_minmax_left"
  have o: "ins_o f = IR_MIN \<and> ins_o (fleft J f) = IR_MAX \<or> ins_o f = IR_MAX \<and> ins_o (fleft J f) = IR_MIN"
    using fit by (auto simp: fits_def fold_reassoc_minmax_left_def)
  note T = left_opnd [OF A(2)] right_opnd [OF A(2)]
  note L = pure_opnd [OF A(1) T(1)]
  show "res_ok J f (snd fold_reassoc_minmax_left eng J f)" unfolding fold_reassoc_minmax_left_def snd_conv
    by (intro res_if res_Next res_ref_pure) (use A o T L in \<open>auto simp: word_simps\<close>)
qed

lemma minmax_right [fold_ok]: "rule_ok fold_reassoc_minmax_right"
proof (rule rule_okI)
  fix eng J f assume A: "jit_ok J" "typed J f" and fit: "fits J f fold_reassoc_minmax_right"
  have o: "ins_o f = IR_MIN \<and> ins_o (fright J f) = IR_MAX \<or> ins_o f = IR_MAX \<and> ins_o (fright J f) = IR_MIN"
    using fit by (auto simp: fits_def fold_reassoc_minmax_right_def)
  note T = left_opnd [OF A(2)] right_opnd [OF A(2)]
  note R = pure_opnd [OF A(1) T(3)]
  show "res_ok J f (snd fold_reassoc_minmax_right eng J f)" unfolding fold_reassoc_minmax_right_def snd_conv
    by (intro res_if res_Next res_ref_pure) (use A o T R in \<open>auto simp: word_simps intro: ucast_same\<close>)
qed

lemma andor_k [fold_ok]: "rule_ok fold_simplify_andor_k"
proof (rule rule_okI)
  fix eng J f assume A: "jit_ok J" "typed J f" and fit: "fits J f fold_simplify_andor_k"
  have o: "ins_o (fright J f) = IR_KINT" "ins_o f = IR_BAND \<and> ins_o (fleft J f) = IR_BOR \<or> ins_o f = IR_BOR \<and> ins_o (fleft J f) = IR_BAND"
    using fit by (auto simp: fits_def fold_simplify_andor_k_def)
  note T = left_opnd [OF A(2)] right_opnd [OF A(2)]
  note K = kV [OF A(1) T(3) o(1)]
  note L = pure_opnd [OF A(1) T(1)]
  have L2: "opnd J (ins_op2 (fleft J f)) (wd f)" using A o T L by auto
  note K2 = kV [OF A(1) L2]
  show "res_ok J f (snd fold_simplify_andor_k eng J f)" unfolding fold_simplify_andor_k_def snd_conv Let_def
    by (intro res_if res_Next res_retry_pure) (use A o T K L K2 in \<open>auto simp: word_simps and_or_cancel or_and_cancel\<close>)
qed

lemma andor_k64 [fold_ok]: "rule_ok fold_simplify_andor_k64"
proof (rule rule_okI)
  fix eng J f assume A: "jit_ok J" "typed J f" and fit: "fits J f fold_simplify_andor_k64"
  have o: "ins_o (fright J f) = IR_KINT64" "ins_o f = IR_BAND \<and> ins_o (fleft J f) = IR_BOR \<or> ins_o f = IR_BOR \<and> ins_o (fleft J f) = IR_BAND"
    using fit by (auto simp: fits_def fold_simplify_andor_k64_def)
  note T = left_opnd [OF A(2)] right_opnd [OF A(2)]
  note K = kV64 [OF A(1) T(3) o(1)]
  note L = pure_opnd [OF A(1) T(1)]
  have L2: "opnd J (ins_op2 (fleft J f)) (wd f)" using A o T L by auto
  note K2 = kV64 [OF A(1) L2]
  show "res_ok J f (snd fold_simplify_andor_k64 eng J f)" unfolding fold_simplify_andor_k64_def snd_conv Let_def
    by (intro res_if res_Next res_retry_pure) (use A o T K L K2 in \<open>auto simp: word_simps and_or_cancel or_and_cancel\<close>)
qed

lemma minmax_k [fold_ok]: "rule_ok fold_reassoc_minmax_k"
proof (rule rule_okI)
  fix eng J f assume A: "jit_ok J" "typed J f" and fit: "fits J f fold_reassoc_minmax_k"
  have o: "ins_o f \<in> {IR_MIN, IR_MAX}" "ins_o (fright J f) = IR_KINT" "ins_o (fleft J f) = ins_o f"
    using fit by (auto simp: fits_def fold_reassoc_minmax_k_def)
  note T = left_opnd [OF A(2)] right_opnd [OF A(2)]
  note K = kV [OF A(1) T(3) o(2)]
  note L = pure_opnd [OF A(1) T(1) o(3)]
  have L2: "opnd J (ins_op2 (fleft J f)) (wd f)" using A o T L by auto
  note K2 = kV [OF A(1) L2]
  show "res_ok J f (snd fold_reassoc_minmax_k eng J f)" unfolding fold_reassoc_minmax_k_def snd_conv Let_def
    by (intro res_if res_Next res_ref_pure res_kint2_pure) (use A o T K L K2 in \<open>auto simp: word_simps\<close>)
qed

lemma intsub_kleft [fold_ok]: "rule_ok fold_simplify_intsub_kleft"
proof (rule rule_okI)
  fix eng J f assume A: "jit_ok J" "typed J f" and fit: "fits J f fold_simplify_intsub_kleft"
  have o: "ins_o f = IR_SUB" "ins_o (fleft J f) \<in> {IR_KINT, IR_KINT64}" "ins_o (fright J f) \<noteq> IR_KINT"
    using fit by (auto simp: fits_def fits_last_def fold_simplify_intsub_kleft_def)
  note T = left_opnd [OF A(2)] right_opnd [OF A(2)] strict_opnd [OF right_opnd [OF A(2)]]
  note K = kV [OF A(1) T(1)]
  note K6 = kV64 [OF A(1) T(1)]
  show "res_ok J f (snd fold_simplify_intsub_kleft eng J f)" unfolding fold_simplify_intsub_kleft_def snd_conv
    by (intro res_if res_Next res_retry_pure) (use A o T K K6 in \<open>auto simp: word_simps\<close>)
qed

lemma mul_negneg [fold_ok]: "rule_ok fold_simplify_nummuldiv_negneg"
proof (rule rule_okI)
  fix eng J f assume A: "jit_ok J" "typed J f" "supported f" and fit: "fits J f fold_simplify_nummuldiv_negneg"
  have o: "ins_o f \<in> {IR_MUL, IR_DIV}" "ins_o (fleft J f) = IR_NEG" "ins_o (fright J f) = IR_NEG"
    using fit by (auto simp: fits_def fold_simplify_nummuldiv_negneg_def)
  note T = left_opnd [OF A(2)] right_opnd [OF A(2)]
  note L = pure_opnd [OF A(1) T(1) o(2)]
  note R = pure_opnd [OF A(1) T(3) o(3)]
  show "res_ok J f (snd fold_simplify_nummuldiv_negneg eng J f)" unfolding fold_simplify_nummuldiv_negneg_def snd_conv
    by (intro res_if res_Next res_retry_pure) (use A o T L R in \<open>auto simp: word_simps supported_def ty_ok_def\<close>)
qed

lemma intmod_kleft [fold_ok]: "rule_ok fold_simplify_intmod_kleft"
proof (rule rule_okI)
  fix eng J f assume A: "jit_ok J" "typed J f" "supported f" and fit: "fits J f fold_simplify_intmod_kleft"
  have o: "ins_o f = IR_MOD" "ins_o (fleft J f) = IR_KINT"
    using fit by (auto simp: fits_def fold_simplify_intmod_kleft_def)
  note T = left_opnd [OF A(2)] right_opnd [OF A(2)]
  note K = kV [OF A(1) T(1) o(2)]
  show "res_ok J f (snd fold_simplify_intmod_kleft eng J f)" unfolding fold_simplify_intmod_kleft_def snd_conv
    by (intro res_if res_Next res_k_mod) (use A o T K in \<open>auto simp: word_simps supported_def\<close>)
qed

lemma reassoc_k [fold_ok]: "rule_ok fold_reassoc_intarith_k"
proof (rule rule_okI)
  fix eng J f assume A: "jit_ok J" "typed J f" and fit: "fits J f fold_reassoc_intarith_k"
  have o: "ins_o f \<in> assoc_ops" "ins_o (fright J f) = IR_KINT" "ins_o (fleft J f) = ins_o f"
    using fit by (auto simp: fits_def fold_reassoc_intarith_k_def)
  have p: "pure_op (ins_o f)" "ins_o f \<in> pure2 \<union> {IR_BXOR}" "ins_o f \<notin> un_ops \<union> shift_ops \<union> {IR_CONV, IR_ABC}"
    using o(1) by (auto simp: pure_op_def)
  have T: "opnd J (ins_op1 f) (wd f)" "ty_ok (ins_o f) (ins_t f)" "opnd J (ins_op2 f) (wd f)"
    using left_opnd [OF A(2)] right_opnd [OF A(2)] p(3) by blast+
  note K = kV [OF A(1) T(3) o(2)]
  note L = pure_opnd [OF A(1) T(1) o(3) p(1)]
  have L2: "opnd J (ins_op2 (fleft J f)) (wd f)" using L p(3) by blast
  note K2 = kV [OF A(1) L2]
  have x: "\<not> wd f \<and> opnd_strict J (ins_op1 (fleft J f)) False" if b: "ins_o f = IR_BXOR"
    using xor_strict [OF A(2) b] xor_opnd [OF A(1) T(1)] o(3) b strict_w [of J "ins_op2 f" "wd f"] K by auto
  show "res_ok J f (snd fold_reassoc_intarith_k eng J f)" unfolding fold_reassoc_intarith_k_def snd_conv Let_def
    by (intro res_if res_Next res_ref_pure res_kint2_pure)
      (use A p T K L K2 x in \<open>simp_all add: kfold_arith [OF o(1)] opv_assoc [OF o(1)] opv_k [OF o(1)] arith_00 [OF o(1)]\<close>)
qed

lemma reassoc_k64 [fold_ok]: "rule_ok fold_reassoc_intarith_k64"
proof (rule rule_okI)
  fix eng J f assume A: "jit_ok J" "typed J f" and fit: "fits J f fold_reassoc_intarith_k64"
  have o: "ins_o f \<in> assoc_ops" "ins_o (fright J f) = IR_KINT64" "ins_o (fleft J f) = ins_o f"
    using fit by (auto simp: fits_def fold_reassoc_intarith_k64_def)
  have p: "pure_op (ins_o f)" "ins_o f \<in> pure2 \<union> {IR_BXOR}" "ins_o f \<notin> un_ops \<union> shift_ops \<union> {IR_CONV, IR_ABC}"
    using o(1) by (auto simp: pure_op_def)
  have T: "opnd J (ins_op1 f) (wd f)" "ty_ok (ins_o f) (ins_t f)" "opnd J (ins_op2 f) (wd f)"
    using left_opnd [OF A(2)] right_opnd [OF A(2)] p(3) by blast+
  note K = kV64 [OF A(1) T(3) o(2)]
  note L = pure_opnd [OF A(1) T(1) o(3) p(1)]
  have L2: "opnd J (ins_op2 (fleft J f)) (wd f)" using L p(3) by blast
  note K2 = kV64 [OF A(1) L2]
  have x: "opnd_strict J (ins_op1 (fleft J f)) True" if b: "ins_o f = IR_BXOR"
    using xor_opnd [OF A(1) T(1)] o(3) b K by simp
  show "res_ok J f (snd fold_reassoc_intarith_k64 eng J f)" unfolding fold_reassoc_intarith_k64_def snd_conv Let_def
    by (intro res_if res_Next res_kint64_pure)
      (use A p T K L K2 x in \<open>simp_all add: kfold_arith [OF o(1)] opv_def arith_assoc [OF o(1)]\<close>)
qed


end
