(* ===== verification/Lj_Fold_Compare.thy ===== *)
theory Lj_Fold_Compare
  imports Lj_Fold_Rules
begin

text \<open>
  Soundness of the rules for comparisons: constants, equal references, the order of operands.
\<close>

text \<open>Comparisons.\<close>

lemma cmp_facts:
  assumes "typed J f" and "ins_o f \<in> cmp_ops"
  shows "opnd J (ins_op1 f) (wd f)" "opnd J (ins_op2 f) (wd f)" "ty_ok (ins_o f) (ins_t f)" "\<not> op_value (ins_o f)"
proof -
  have n: "ins_o f \<notin> shift_ops \<union> un_ops \<union> {IR_CONV, IR_ABC}" using assms(2) by auto
  show "opnd J (ins_op1 f) (wd f)" "ty_ok (ins_o f) (ins_t f)" using left_opnd [OF assms(1)] n by blast+
  show "opnd J (ins_op2 f) (wd f)" using right_opnd [OF assms(1)] n by blast
  show "\<not> op_value (ins_o f)" using assms(2) by auto
qed

definition cmpw :: "bool \<Rightarrow> irop \<Rightarrow> u64 \<Rightarrow> u64 \<Rightarrow> bool" where
  "cmpw w o1 a b = (if w then cmp o1 a b else cmp o1 (ucast a :: u32) (ucast b))"

lemma cmp_guard: "ins_o f \<in> cmp_ops \<Longrightarrow> guard v f = cmpw (wd f) (ins_o f) (rdv v (ins_op1 f)) (rdv v (ins_op2 f))"
  by (auto simp: guard_def cmpw_def rdv_def Let_def)

lemma abc_guard: "ins_o f = IR_ABC \<Longrightarrow> guard v f = ((ucast (rdv v (ins_op1 f)) :: u32) > ucast (rdv v (ins_op2 f)))"
  by (simp add: guard_def rdv_def Let_def)

lemma abc_facts:
  assumes "typed J f" and "ins_o f = IR_ABC"
  shows "opnd J (ins_op1 f) False" "opnd J (ins_op2 f) False"
  using assms by (simp_all add: typed_def Let_def)

lemma cmp_fins:
  assumes "ins_o f \<in> cmp_ops" and "opnd J (ins_op1 f) (wd f)" "opnd J (ins_op2 f) (wd f)" "ty_ok (ins_o f) (ins_t f)"
  shows "fins_ok J f \<and> supported f"
  using assms by (elim insertE emptyE) (simp_all add: fins_ok_def typed_def Let_def supported_def op_guard_def)

lemma cond_true: "res_ok J f (CondFold J c) \<longleftrightarrow> (c \<longrightarrow> res_ok J f (DropFold J)) \<and> (\<not> c \<longrightarrow> res_ok J f FailFold)"
  by (simp add: CondFold_def)

lemma intcomp [fold_ok]: "rule_ok fold_kfold_intcomp"
proof (rule rule_okI)
  fix eng J f assume A: "jit_ok J" "typed J f" and fit: "fits J f fold_kfold_intcomp"
  have o: "ins_o f \<in> {IR_LT, IR_GE, IR_LE, IR_GT, IR_ULT, IR_UGE, IR_ULE, IR_UGT, IR_ABC}" "ins_o (fleft J f) = IR_KINT" "ins_o (fright J f) = IR_KINT"
    using fit by (auto simp: fits_def fold_kfold_intcomp_def)
  show "res_ok J f (snd fold_kfold_intcomp eng J f)"
  proof (cases "ins_o f = IR_ABC")
    case True
    note T = abc_facts [OF A(2) True]
    show ?thesis using res_cond [OF A(1)] abc_guard [OF True] kV [OF A(1) T(1) o(2)] kV [OF A(1) T(2) o(3)] True
      by (simp add: fold_kfold_intcomp_def Let_def)
  next
    case False
    then have i: "ins_o f \<in> cmp_ops" using o(1) by auto
    note T = cmp_facts [OF A(2) i]
    have g: "guard v f = cmp (ins_o f) (ins_i (fleft J f)) (ins_i (fright J f))" if "sat J v" for v
      using kV [OF A(1) T(1) o(2)] kV [OF A(1) T(2) o(3)] that unfolding cmp_guard [OF i] cmpw_def
      by (cases "wd f") (use i in auto)
    have "res_ok J f (CondFold J (cmp (ins_o f) (ins_i (fleft J f)) (ins_i (fright J f))))"
      by (rule res_cond [OF A(1) T(4) g])
    then show ?thesis using o(1) False unfolding fold_kfold_intcomp_def snd_conv Let_def by (elim insertE emptyE) simp_all
  qed
qed

lemma int64comp [fold_ok]: "rule_ok fold_kfold_int64comp"
proof (rule rule_okI)
  fix eng J f assume A: "jit_ok J" "typed J f" and fit: "fits J f fold_kfold_int64comp"
  have o: "ins_o f \<in> {IR_LT, IR_GE, IR_LE, IR_GT, IR_ULT, IR_UGE, IR_ULE, IR_UGT}" "ins_o (fleft J f) = IR_KINT64" "ins_o (fright J f) = IR_KINT64"
    using fit by (auto simp: fits_def fold_kfold_int64comp_def)
  then have i: "ins_o f \<in> cmp_ops" using o(1) by auto
  note T = cmp_facts [OF A(2) i]
  have g: "guard v f = cmp (ins_o f) (ins_u64 (fleft J f)) (ins_u64 (fright J f))" if "sat J v" for v
    using kV64 [OF A(1) T(1) o(2)] kV64 [OF A(1) T(2) o(3)] that unfolding cmp_guard [OF i] cmpw_def by simp
  have "res_ok J f (CondFold J (cmp (ins_o f) (ins_u64 (fleft J f)) (ins_u64 (fright J f))))"
    by (rule res_cond [OF A(1) T(4) g])
  then show "res_ok J f (snd fold_kfold_int64comp eng J f)"
    using o(1) unfolding fold_kfold_int64comp_def snd_conv Let_def by (elim insertE emptyE) simp_all
qed

lemma intcomp0 [fold_ok]: "rule_ok fold_kfold_intcomp0"
proof (rule rule_okI)
  fix eng J f assume A: "jit_ok J" "typed J f" and fit: "fits J f fold_kfold_intcomp0"
  have o: "ins_o f = IR_UGE" "ins_o (fright J f) = IR_KINT"
    using fit by (auto simp: fits_def fold_kfold_intcomp0_def)
  then have i: "ins_o f \<in> cmp_ops" using o(1) by auto
  note T = cmp_facts [OF A(2) i]
  show "res_ok J f (snd fold_kfold_intcomp0 eng J f)" unfolding fold_kfold_intcomp0_def snd_conv
    by (intro res_if res_Next res_drop A T) (use kV [OF A(1) T(2) o(2)] cmp_guard [OF i] o in \<open>simp add: cmpw_def\<close>)
qed

lemma int64comp0 [fold_ok]: "rule_ok fold_kfold_int64comp0"
proof (rule rule_okI)
  fix eng J f assume A: "jit_ok J" "typed J f" and fit: "fits J f fold_kfold_int64comp0"
  have o: "ins_o f = IR_UGE" "ins_o (fright J f) = IR_KINT64"
    using fit by (auto simp: fits_def fold_kfold_int64comp0_def)
  then have i: "ins_o f \<in> cmp_ops" using o(1) by auto
  note T = cmp_facts [OF A(2) i]
  show "res_ok J f (snd fold_kfold_int64comp0 eng J f)" unfolding fold_kfold_int64comp0_def snd_conv
    by (intro res_if res_Next res_drop A T) (use kV64 [OF A(1) T(2) o(2)] cmp_guard [OF i] o in \<open>simp add: cmpw_def\<close>)
qed

text \<open>Interned constants are equal exactly when their references are.\<close>

lemma kint_ref_eq:
  assumes "jit_ok J" and "a \<in> irefs J" "ins_o (jir J a) = IR_KINT" and "b \<in> irefs J" "ins_o (jir J b) = IR_KINT"
  shows "ins_i (jir J a) = ins_i (jir J b) \<longleftrightarrow> a = b"
proof -
  have "inj_on (\<lambda>r. ins_i (jir J r)) {r \<in> irefs J. ins_o (jir J r) = IR_KINT}" using assms(1) unfolding jit_ok_def by blast
  then show ?thesis using inj_on_eq_iff [of "\<lambda>r. ins_i (jir J r)" _ a b] assms(2-5) by blast
qed

lemma kint64_ref_eq:
  assumes "jit_ok J" and "a \<in> irefs J" "ins_o (jir J a) = IR_KINT64" and "b \<in> irefs J" "ins_o (jir J b) = IR_KINT64"
  shows "ins_u64 (jir J a) = ins_u64 (jir J b) \<longleftrightarrow> a = b"
proof -
  have "inj_on (\<lambda>r. ins_u64 (jir J r)) {r \<in> irefs J. ins_o (jir J r) = IR_KINT64}" using assms(1) unfolding jit_ok_def by blast
  then show ?thesis using inj_on_eq_iff [of "\<lambda>r. ins_u64 (jir J r)" _ a b] assms(2-5) by blast
qed

lemma kref [fold_ok]: "rule_ok fold_kfold_kref"
proof (rule rule_okI)
  fix eng J f assume A: "jit_ok J" "typed J f" and fit: "fits J f fold_kfold_kref"
  have o: "ins_o f \<in> {IR_EQ, IR_NE}" "ins_o (fleft J f) = ins_o (fright J f)" "ins_o (fright J f) \<in> {IR_KINT, IR_KINT64}"
    using fit by (auto simp: fits_def fold_kfold_kref_def)
  then have i: "ins_o f \<in> cmp_ops" using o(1) by auto
  note T = cmp_facts [OF A(2) i]
  have r: "ins_op1 f \<in> irefs J" "ins_op2 f \<in> irefs J" using opnd_irefs T by blast+
  have "guard v f = ((ins_op1 f = ins_op2 f) \<noteq> (ins_o f = IR_NE))" if v: "sat J v" for v
  proof (cases "ins_o (fright J f) = IR_KINT")
    case True
    then have l: "ins_o (fleft J f) = IR_KINT" using o(2) by simp
    have "(rdv v (ins_op1 f) = rdv v (ins_op2 f)) = (ins_op1 f = ins_op2 f)"
      using kint_ref_eq [OF A(1) r(1) l r(2) True] kV [OF A(1) T(1) l] kV [OF A(1) T(2) True] v by (simp add: ucast32_inj)
    moreover have "((ucast (rdv v (ins_op1 f)) :: u32) = ucast (rdv v (ins_op2 f))) = (ins_op1 f = ins_op2 f)"
      using kint_ref_eq [OF A(1) r(1) l r(2) True] kV [OF A(1) T(1) l] kV [OF A(1) T(2) True] v by simp
    ultimately show ?thesis using o(1) cmp_guard [OF i] by (auto simp: cmpw_def)
  next
    case False
    then have l: "ins_o (fright J f) = IR_KINT64" "ins_o (fleft J f) = IR_KINT64" using o(2,3) by auto
    show ?thesis using kint64_ref_eq [OF A(1) r(1) l(2) r(2) l(1)] kV64 [OF A(1) T(1) l(2)] kV64 [OF A(1) T(2) l(1)] v o(1)
      cmp_guard [OF i] by (auto simp: cmpw_def)
  qed
  then show "res_ok J f (snd fold_kfold_kref eng J f)" unfolding fold_kfold_kref_def snd_conv
    by (intro res_cond A T)
qed

lemma res_retry_cmp:
  assumes "jit_ok J" and "\<not> op_value (ins_o f)" and "ins_o f' \<in> cmp_ops" "wd f' = wd f"
    "opnd J (ins_op1 f') (wd f')" "opnd J (ins_op2 f') (wd f')" "ty_ok (ins_o f') (ins_t f')"
    and "\<And>v. sat J v \<Longrightarrow> guard v f' = guard v f"
  shows "res_ok J f (RetryFold J f')"
proof (rule res_retry [OF assms(1)])
  show "fins_ok J f'" "supported f'" using cmp_fins [OF assms(3,5,6,7)] by blast+
  show "op_value (ins_o f') = op_value (ins_o f)" using assms(2,3) by auto
  show "wd f' = wd f" by fact
  show "guard v f' = guard v f \<and> (op_value (ins_o f) \<longrightarrow> eval v f' = eval v f)" if "sat J v" for v
    using assms(2,8) that by blast
qed

lemma comm_equal [fold_ok]: "rule_ok fold_comm_equal"
proof (rule rule_okI)
  fix eng J f assume A: "jit_ok J" "typed J f" and fit: "fits J f fold_comm_equal"
  have o: "ins_o f \<in> {IR_EQ, IR_NE}"
    using fit by (auto simp: fits_def fold_comm_equal_def)
  then have i: "ins_o f \<in> cmp_ops" using o(1) by auto
  note T = cmp_facts [OF A(2) i]
  show "res_ok J f (snd fold_comm_equal eng J f)" unfolding fold_comm_equal_def snd_conv comm_swap_def
    by (intro res_if res_Next res_cond res_retry_cmp A T)
      (use o i T in \<open>auto simp: cmp_guard cmpw_def\<close>)
qed

lemma flip_cmp: "o1 \<in> cmp_ops - {IR_EQ, IR_NE} \<Longrightarrow>
   flip_cmp o1 \<in> cmp_ops \<and> cmpw w (flip_cmp o1) a b = cmpw w o1 b a \<and> ty_ok (flip_cmp o1) t = ty_ok o1 t"
  by (auto simp: cmpw_def ty_ok_def)

lemma comm_comp [fold_ok]: "rule_ok fold_comm_comp"
proof (rule rule_okI)
  fix eng J f assume A: "jit_ok J" "typed J f" and fit: "fits J f fold_comm_comp"
  have o: "ins_o f \<in> cmp_ops - {IR_EQ, IR_NE}"
    using fit by (auto simp: fits_def fold_comm_comp_def)
  then have i: "ins_o f \<in> cmp_ops" by auto
  note T = cmp_facts [OF A(2) i]
  have c: "guard v f = odd (opnum (ins_o f) XOR (opnum (ins_o f) div 2))" if "ins_op1 f = ins_op2 f" for v
    using that o cmp_guard [OF i] by (auto simp: cmpw_def)
  let ?f = "f\<lparr>ins_op1 := ins_op2 f, ins_op2 := ins_op1 f, ins_o := flip_cmp (ins_o f)\<rparr>"
  have n: "guard v ?f = guard v f" for v using cmp_guard [of ?f] cmp_guard [OF i] flip_cmp [OF o] by simp
  show "res_ok J f (snd fold_comm_comp eng J f)" unfolding fold_comm_comp_def snd_conv
    by (intro res_if res_Next res_cond res_retry_cmp A T n) (use T c flip_cmp [OF o] in simp_all)
qed

text \<open>Bounds checks.\<close>

lemma abc_invar [fold_ok]: "rule_ok fold_abc_invar"
proof (rule rule_okI)
  fix eng J f assume A: "fins_ok J f" "jit_ok J" "typed J f" and fit: "fits J f fold_abc_invar"
  have "ins_o f = IR_ABC" using fit by (auto simp: fits_def fold_abc_invar_def)
  then have "ins_t f = IRT_INT" using A(1) by (simp add: fins_ok_def)
  then show "res_ok J f (snd fold_abc_invar eng J f)" by (simp add: fold_abc_invar_def)
qed

end
