(* ===== verification/Lj_Fold_All.thy ===== *)
theory Lj_Fold_All
  imports Lj_Fold_Abc Lj_Fold_Algebra Lj_Fold_Overflow Lj_Fold_Compare Lj_Fold_Shift_Lemmas Lj_Fold_Shift Lj_Fold_Muldiv
begin

text \<open>
  The list of all rules: each is sound, and none needs the bound on constants to keep its shape.
\<close>

lemma xor_cancel: "((a :: 'a::len word) XOR b) XOR a = b" "((a :: 'a::len word) XOR b) XOR b = a"
  by (simp_all add: ac_simps flip: xor.assoc)

lemma reassoc_bxor [fold_ok]: "rule_ok fold_reassoc_bxor"
proof (rule rule_okI)
  fix eng J f assume A: "jit_ok J" "typed J f" and fit: "fits J f fold_reassoc_bxor"
  have o: "ins_o f = IR_BXOR" "ins_o (fleft J f) = IR_BXOR" using fit by (auto simp: fits_def fold_reassoc_bxor_def)
  note T = left_opnd [OF A(2)] xor_strict [OF A(2) o(1)]
  have l: "opnd J (ins_op1 f) (wd f)" using T(3) opnd_of_strict by blast
  note L = pure_opnd [OF A(1) l o(2)]
  show "res_ok J f (snd fold_reassoc_bxor eng J f)" unfolding fold_reassoc_bxor_def snd_conv
    by (intro res_if res_Next res_ref_pure) (use A(1) o L in \<open>auto simp: opv_def fits_w_def ucast_ucast_less xor_cancel\<close>)
qed

section \<open>All rules\<close>

lemma fold_rules_ok: "R \<in> set fold_rules \<Longrightarrow> rule_ok R"
proof -
  have "list_all rule_ok fold_rules" unfolding fold_rules_def list.pred_inject by (intro conjI list.pred_inject(1) fold_ok)
  then show "R \<in> set fold_rules \<Longrightarrow> rule_ok R" by (simp add: list_all_iff)
qed

lemmas fold_rule_defs =
  fold_kfold_intarith_def fold_kfold_intovarith_def fold_kfold_bnot_def fold_kfold_bswap_def
  fold_kfold_intcomp_def fold_kfold_intcomp0_def fold_kfold_int64arith_def fold_kfold_int64arith2_def
  fold_kfold_int64shift_def fold_kfold_bnot64_def fold_kfold_bswap64_def fold_kfold_int64comp_def
  fold_kfold_int64comp0_def fold_kfold_conv_kint_ext_def fold_kfold_conv_kint_i64_def
  fold_kfold_conv_kint64_int_i64_def fold_kfold_kref_def fold_shortcut_leftleft_def
  fold_simplify_numadd_negx_def fold_simplify_numadd_xneg_def fold_simplify_numsub_xneg_def
  fold_simplify_nummuldiv_negneg_def fold_simplify_conv_int_i64_def fold_simplify_conv_sext_def
  fold_simplify_conv_narrow_def fold_cse_conv_def fold_simplify_intadd_k_def
  fold_simplify_intmul_k_def fold_simplify_intsub_k_def fold_simplify_intsub_kleft_def
  fold_simplify_intadd_k64_def fold_simplify_intsub_k64_def fold_simplify_intmul_k32_def
  fold_simplify_intmul_k64_def fold_simplify_intmod_k_def fold_simplify_intmod_kleft_def
  fold_simplify_intsub_def fold_simplify_intsubadd_leftcancel_def
  fold_simplify_intsubsub_leftcancel_def fold_simplify_intsubsub_rightcancel_def
  fold_simplify_intsubadd_rightcancel_def fold_simplify_intsubaddadd_cancel_def
  fold_simplify_band_k_def fold_simplify_bor_k_def fold_simplify_bxor_k_def fold_simplify_shift_ik_def
  fold_simplify_shift_andk_def fold_simplify_shift1_ki_def fold_simplify_shift2_ki_def
  fold_simplify_shiftk_andk_def fold_simplify_andk_shiftk_def fold_simplify_andor_k_def
  fold_simplify_andor_k64_def fold_reassoc_intarith_k_def fold_reassoc_intarith_k64_def
  fold_reassoc_dup_def fold_reassoc_bxor_def fold_reassoc_shift_def fold_reassoc_minmax_k_def
  fold_reassoc_minmax_left_def fold_reassoc_minmax_right_def fold_abc_fwd_def fold_abc_k_def
  fold_abc_invar_def fold_comm_swap_def fold_comm_equal_def fold_comm_comp_def fold_comm_dup_def
  fold_comm_bxor_def

section \<open>What holds for every trace\<close>

definition res_nk :: "jit \<Rightarrow> irins \<Rightarrow> foldres \<Rightarrow> bool" where
  "res_nk J f res \<longleftrightarrow>
     (case res of
        NextFold \<Rightarrow> True
      | RetryFold J' f' \<Rightarrow> nk J' \<le> nk J \<and> (plain (ins_o f) \<longrightarrow> plain (ins_o f')) \<and> (nk J' = nk J \<or> plain (ins_o f))
      | KIntFold J' k \<Rightarrow> nk J' \<le> nk J
      | FailFold \<Rightarrow> \<not> plain (ins_o f)
      | DropFold J' \<Rightarrow> nk J' \<le> nk J
      | RefFold J' r \<Rightarrow> nk J' \<le> nk J
      | ErrFold e \<Rightarrow> plain (ins_o f) \<longrightarrow> e \<noteq> TRERR_GFAIL)"

definition rule_nk :: "rule \<Rightarrow> bool" where
  "rule_nk R \<longleftrightarrow> (\<forall>eng J f o1 l r. eng_nk eng \<longrightarrow> (o1, l, r) \<in> set (fst R) \<longrightarrow> ins_o f = o1 \<longrightarrow> fits_left J f l \<longrightarrow>
     res_nk J f (snd R eng J f))"

lemma plain_simps [simp]:
  "plain IR_ADD" "plain IR_SUB" "plain IR_MUL" "plain IR_DIV" "plain IR_MOD" "plain IR_POW" "plain IR_NEG" "plain IR_BNOT"
  "plain IR_BSWAP" "plain IR_BAND" "plain IR_BOR" "plain IR_BXOR" "plain IR_BSHL" "plain IR_BSHR" "plain IR_BSAR"
  "plain IR_BROL" "plain IR_BROR" "plain IR_MIN" "plain IR_MAX" "plain IR_CONV"
  "\<not> plain IR_ADDOV" "\<not> plain IR_SUBOV" "\<not> plain IR_MULOV" "\<not> plain IR_LT" "\<not> plain IR_GE" "\<not> plain IR_LE" "\<not> plain IR_GT"
  "\<not> plain IR_ULT" "\<not> plain IR_UGE" "\<not> plain IR_ULE" "\<not> plain IR_UGT" "\<not> plain IR_EQ" "\<not> plain IR_NE" "\<not> plain IR_ABC"
  by (simp_all add: plain_def)

lemma emit_nk: "lj_ir_emit J f = (J', r) \<Longrightarrow> nk J' = nk J"
  by (rule emit_fields(2))

lemma res_nk_simps [simp]:
  "res_nk J f NextFold"
  "res_nk J f (RetryFold J' f') \<longleftrightarrow>
     nk J' \<le> nk J \<and> (plain (ins_o f) \<longrightarrow> plain (ins_o f')) \<and> (nk J' = nk J \<or> plain (ins_o f))"
  "res_nk J f (KIntFold J' k) \<longleftrightarrow> nk J' \<le> nk J"
  "res_nk J f FailFold \<longleftrightarrow> \<not> plain (ins_o f)"
  "res_nk J f (DropFold J') \<longleftrightarrow> nk J' \<le> nk J"
  "res_nk J f (RefFold J' r) \<longleftrightarrow> nk J' \<le> nk J"
  "res_nk J f (ErrFold e) \<longleftrightarrow> (plain (ins_o f) \<longrightarrow> e \<noteq> TRERR_GFAIL)"
  "res_nk J f (CondFold J c) \<longleftrightarrow> (c \<or> \<not> plain (ins_o f))"
  "res_nk J f (Int64Fold J k64)"
  "res_nk J f (EmitFold J f')"
  by (auto simp: res_nk_def CondFold_def Int64Fold_def EmitFold_def kint64_nk emit_nk split: prod.splits)

lemma retry_nk [simp]:
  "nk J \<le> nk J0 \<Longrightarrow> plain (ins_o f) \<Longrightarrow> plain (ins_o g) \<Longrightarrow> res_nk J0 f (retry_op2_kint J g k)"
  "nk J \<le> nk J0 \<Longrightarrow> plain (ins_o f) \<Longrightarrow> plain (ins_o g) \<Longrightarrow> res_nk J0 f (retry_op1_kint J g k)"
  "nk J \<le> nk J0 \<Longrightarrow> plain (ins_o f) \<Longrightarrow> plain (ins_o g) \<Longrightarrow> res_nk J0 f (retry_op2_kint64 J g k64)"
  by (auto simp: retry_op2_kint_def retry_op1_kint_def retry_op2_kint64_def split: prod.splits
      dest!: kint_nk kint64_nk)

lemma nk_if: "(c \<Longrightarrow> res_nk J f x) \<Longrightarrow> (\<not> c \<Longrightarrow> res_nk J f y) \<Longrightarrow> res_nk J f (if c then x else y)"
  by simp

lemma store_nk [simp]: "nk (ir_store J r i) = nk J" by (simp add: ir_store_def)

lemma rule_nkI:
  assumes "\<And>eng J f o1 l r. eng_nk eng \<Longrightarrow> (o1, l, r) \<in> set ps \<Longrightarrow> ins_o f = o1 \<Longrightarrow> fits_left J f l \<Longrightarrow> res_nk J f (fn eng J f)"
  shows "rule_nk (ps, fn)"
  using assms by (auto simp: rule_nk_def)

lemma eng_Inr: "eng J g = Inr (J', r) \<Longrightarrow> eng_nk eng \<Longrightarrow> nk J' \<le> nk J"
  by (rule eng_nk)

lemma fold_rules_nk: "R \<in> set fold_rules \<Longrightarrow> rule_nk R"
proof -
  have "list_all rule_nk fold_rules"
    unfolding fold_rules_def list.pred_inject
    apply (intro conjI list.pred_inject(1); unfold fold_rule_defs; rule rule_nkI;
      (auto simp: Let_def simplify_intmul_k_def comm_swap_def emitir_def split: option.splits sum.splits dest!: eng_Inr dest: eng_nk(2))[1])
    done
  then show "R \<in> set fold_rules \<Longrightarrow> rule_nk R" by (simp add: list_all_iff)
qed

end
