(* ===== verification/Lj_Fold_Engine.thy ===== *)
theory Lj_Fold_Engine
  imports Lj_Fold_All
begin

text \<open>
  The engine: the search for a rule, CSE, and the loop that applies rules until none fits.
\<close>

section \<open>Finding a rule\<close>

definition pat_ok :: "irop \<times> opat \<times> opat \<Rightarrow> bool" where
  "pat_ok p = (case p of (q, a, b) \<Rightarrow>
     (case a of PAny \<Rightarrow> True | POp o1 \<Rightarrow> 1 \<le> opnum o1 \<and> opnum o1 < 96 | PLit n \<Rightarrow> False) \<and>
     (case b of PAny \<Rightarrow> True | POp o1 \<Rightarrow> 1 \<le> opnum o1 \<and> opnum o1 < 96 \<and> q \<notin> {IR_CONV, IR_BNOT, IR_BSWAP}
      | PLit n \<Rightarrow> q \<in> {IR_CONV, IR_BNOT, IR_BSWAP} \<and> n < 1000))"

lemma pats_ok: "R \<in> set fold_rules \<Longrightarrow> p \<in> set (fst R) \<Longrightarrow> pat_ok p"
proof -
  have "list_all (\<lambda>R. list_all pat_ok (fst R)) fold_rules"
    unfolding fold_rules_def fold_rule_defs by (simp add: pat_ok_def irconv_def)
  then show "R \<in> set fold_rules \<Longrightarrow> p \<in> set (fst R) \<Longrightarrow> pat_ok p" by (auto simp: list_all_iff)
qed

lemma opnum_inj: "opnum a = opnum b \<Longrightarrow> opnum b < 96 \<Longrightarrow> a = b"
  by (cases b; cases a; simp)

lemma lookup_rule:
  assumes "fold_lookup o1 l r = Some fn"
  obtains ps a b where "(ps, fn) \<in> set fold_rules" "(o1, a, b) \<in> set ps" "lpat_num a = l" "rpat_num b = r" "pat_ok (o1, a, b)"
proof -
  obtain R where "find (\<lambda>(ps, fn). (o1, l, r) \<in> set (map (\<lambda>(q, a, b). (q, lpat_num a, rpat_num b)) ps)) fold_rules = Some R"
    "fn = snd R" using assms by (auto simp: fold_lookup_def)
  then have R: "R \<in> set fold_rules" "(o1, l, r) \<in> set (map (\<lambda>(q, a, b). (q, lpat_num a, rpat_num b)) (fst R))" "fn = snd R"
    by (auto simp: find_Some_iff case_prod_beta)
  then obtain a b where "(o1, a, b) \<in> set (fst R)" "lpat_num a = l" "rpat_num b = r" by auto
  then show ?thesis using that [of "fst R" a b] R pats_ok by auto
qed

lemma lookup_left:
  assumes "pat_ok (o1, a, b)" "lpat_num a \<in> {key_left J f, 0x7f}"
  shows "fits_left J f a" "lpat_num a = 0x7f \<Longrightarrow> a = PAny \<or> key_left J f = 0x7f"
  using assms opnum_inj [of "ins_o (fleft J f)"]
  by (auto simp: pat_ok_def key_left_def split: opat.splits if_splits)

lemma typed_refs:
  assumes "typed J f"
  shows "ins_op1 f \<in> irefs J" "uses_op2 (ins_o f) \<Longrightarrow> ins_op2 f \<in> irefs J"
    "ins_o f \<in> {IR_BNOT, IR_BSWAP} \<Longrightarrow> ins_op2 f = 0" "ins_o f = IR_CONV \<Longrightarrow> ins_op2 f < 0x1000"
    "ins_o f = IR_NEG \<Longrightarrow> ins_op2 f = 0 \<or> ins_op2 f \<in> irefs J"
  using assms typed_op1 typed_op2 by (auto simp: typed_def Let_def conv_int_def dest: opnd_irefs)

lemma lookup_right:
  assumes "pre_ok J f" and "pat_ok (ins_o f, a, b)" "rpat_num b \<in> {key_right J f, 0x3ff}"
  shows "fits_right J f b"
proof -
  have t: "typed J f" and nk: "0x1000 \<le> nk J"
    using assms(1) jit_okD(1) by (auto simp: pre_ok_def fins_ok_def)
  show ?thesis
  proof (cases b)
    case (POp o1)
    have o: "1 \<le> opnum o1" "opnum o1 < 96" "ins_o f \<notin> {IR_CONV, IR_BNOT, IR_BSWAP}"
      using assms(2) POp by (simp_all add: pat_ok_def split: opat.splits)
    then have k: "key_right J f = opnum o1" using assms(3) POp by auto
    have "ins_op2 f \<in> irefs J"
    proof (cases "ins_o f = IR_NEG")
      case True
      then show ?thesis using typed_refs(5) [OF t] k o(1) nk by (auto simp: key_right_def)
    next
      case False
      then show ?thesis using typed_refs(2) [OF t] o(3) by (simp add: uses_op2_def)
    qed
    then show ?thesis using POp k opnum_inj [of "ins_o (fright J f)" o1] o(2) by (auto simp: key_right_def irefs_def)
  next
    case (PLit n)
    have o: "ins_o f \<in> {IR_CONV, IR_BNOT, IR_BSWAP}" "n < 1000"
      using assms(2) PLit by (simp_all add: pat_ok_def split: opat.splits)
    then have "ins_op2 f < 0x1000" using typed_refs(3,4) [OF t] by auto
    then have "key_right J f = ins_op2 f mod 1024" using nk by (simp add: key_right_def)
    then show ?thesis using PLit o assms(3) by (auto simp: uses_op2_def)
  qed simp
qed

section \<open>The steps of the search\<close>

definition keys :: "jit \<Rightarrow> irins \<Rightarrow> (nat \<times> nat) list" where
  "keys J f = [(key_left J f, key_right J f), (0x7f, key_right J f), (key_left J f, 0x3ff), (0x7f, 0x3ff)]"

text \<open>What the search does for one key.\<close>

definition try_key :: "engine \<Rightarrow> jit \<Rightarrow> irins \<Rightarrow> nat \<times> nat \<Rightarrow> foldres" where
  "try_key eng J f k = (case fold_lookup (ins_o f) (fst k) (snd k) of None \<Rightarrow> NextFold | Some fn \<Rightarrow> fn eng J f)"

lemma try_eq:
  "(case fold_lookup (ins_o f) l r of
      None \<Rightarrow> next | Some fn \<Rightarrow> (case fn eng J f of NextFold \<Rightarrow> next | res \<Rightarrow> res)) =
   (if try_key eng J f (l, r) = NextFold then next else try_key eng J f (l, r))"
  by (auto simp: try_key_def split: option.split foldres.split)

lemma fold_step_try:
  "fold_step eng J f = foldr (\<lambda>k next. if try_key eng J f k = NextFold then next else try_key eng J f k) (keys J f) NextFold"
  unfolding fold_step_def Let_def try_eq keys_def by simp

lemma fold_step_Next: "fold_step eng J f = NextFold \<longleftrightarrow> (\<forall>k \<in> set (keys J f). try_key eng J f k = NextFold)"
  by (auto simp: fold_step_try keys_def)

lemma fold_step_cases:
  "fold_step eng J f = NextFold \<or> (\<exists>k \<in> set (keys J f). fold_step eng J f = try_key eng J f k \<and>
     (k = (key_left J f, 0x3ff) \<longrightarrow> try_key eng J f (0x7f, key_right J f) = NextFold \<or> k = (key_left J f, key_right J f)
        \<or> k = (0x7f, key_right J f)))"
  by (auto simp: fold_step_try keys_def)

section \<open>Every step keeps its promise\<close>

lemma lookup_commands:
  "fold_lookup IR_BAND 0x7f 23 = Some (snd fold_simplify_band_k)"
  "fold_lookup IR_SUB 0x7f 23 = Some (snd fold_simplify_intsub_k)"
  "fold_lookup IR_BSWAP 23 0 = Some (snd fold_kfold_bswap)"
  "fold_lookup IR_EQ 23 23 = Some (snd fold_kfold_kref)" "fold_lookup IR_NE 23 23 = Some (snd fold_kfold_kref)"
  by (simp_all add: fold_lookup_def fold_rules_def fold_rule_defs irconv_def)

lemma lookup_kfold:
  "o1 \<in> {IR_ADD, IR_SUB, IR_MUL, IR_MOD, IR_BAND, IR_BOR, IR_MIN, IR_MAX} \<Longrightarrow> fold_lookup o1 23 23 = Some (snd fold_kfold_intarith)"
  "o1 \<in> {IR_LT, IR_GE, IR_LE, IR_GT, IR_ULT, IR_UGE, IR_ULE, IR_UGT} \<Longrightarrow> fold_lookup o1 23 23 = Some (snd fold_kfold_intcomp)"
  "fold_lookup IR_BSHL 23 0x3ff = Some (snd fold_simplify_shift1_ki)" "fold_lookup IR_BSHR 23 0x3ff = Some (snd fold_simplify_shift1_ki)"
  "o1 \<in> {IR_BSAR, IR_BROL, IR_BROR} \<Longrightarrow> fold_lookup o1 23 0x3ff = Some (snd fold_simplify_shift2_ki)"
  by (auto simp: fold_lookup_def fold_rules_def fold_rule_defs irconv_def)

lemma try_key_ok:
  assumes E: "eng_ok eng" and P: "pre_ok J f" and k: "k \<in> set (keys J f)"
    and n: "k = (key_left J f, 0x3ff) \<Longrightarrow> try_key eng J f (0x7f, key_right J f) = NextFold \<or>
       k = (key_left J f, key_right J f) \<or> k = (0x7f, key_right J f)"
  shows "res_ok J f (try_key eng J f k)"
proof (cases "fold_lookup (ins_o f) (fst k) (snd k)")
  case (Some fn)
  obtain ps a b where R: "(ps, fn) \<in> set fold_rules" "(ins_o f, a, b) \<in> set ps" "lpat_num a = fst k" "rpat_num b = snd k"
    "pat_ok (ins_o f, a, b)" by (rule lookup_rule [OF Some])
  have lr: "fits_left J f a" "fits_right J f b"
    using lookup_left(1) [OF R(5)] lookup_right [OF P R(5)] k R(3,4) by (auto simp: keys_def)
  have "fits_last J f a b"
  proof (rule ccontr)
    assume "\<not> fits_last J f a b"
    then have c: "ins_o f = IR_SUB" "a \<noteq> PAny" "b = PAny" "ins_o (fright J f) = IR_KINT" by (auto simp: fits_last_def)
    have t: "typed J f" using P by (simp add: pre_ok_def fins_ok_def)
    have r: "key_right J f = 23" using typed_refs(2) [OF t] c(1,4) by (simp add: uses_op2_def key_right_def irefs_def)
    have "k = (key_left J f, 0x3ff)" using k R(3,4) c(2,3) r lookup_left(2) [OF R(5), of J f]
      by (cases k) (auto simp: keys_def)
    then have "try_key eng J f (0x7f, 23) = NextFold" using n r by auto
    then show False using c(1) lookup_commands(2)
      by (auto simp: try_key_def fold_simplify_intsub_k_def retry_op2_kint_def split: if_splits prod.splits)
  qed
  then have "fits J f (ps, fn)" using R(2) lr by (auto simp: fits_def)
  then show ?thesis using fold_rules_ok [OF R(1)] E P Some by (simp add: rule_ok_def try_key_def)
qed (simp add: try_key_def)

lemma fold_step_ok: "eng_ok eng \<Longrightarrow> pre_ok J f \<Longrightarrow> res_ok J f (fold_step eng J f)"
  using fold_step_cases [of eng J f] try_key_ok [of eng J f] res_Next by metis

lemma fold_step_nk:
  assumes "eng_nk eng"
  shows "res_nk J f (fold_step eng J f)"
proof -
  have "res_nk J f (try_key eng J f k)" if k: "k \<in> set (keys J f)" for k
  proof (cases "fold_lookup (ins_o f) (fst k) (snd k)")
    case (Some fn)
    obtain ps a b where R: "(ps, fn) \<in> set fold_rules" "(ins_o f, a, b) \<in> set ps" "lpat_num a = fst k" "pat_ok (ins_o f, a, b)"
      by (rule lookup_rule [OF Some])
    have "fits_left J f a" using lookup_left(1) [OF R(4)] k R(3) by (auto simp: keys_def)
    then have "res_nk J f (fn eng J f)"
      using fold_rules_nk [OF R(1), unfolded rule_nk_def fst_conv snd_conv] assms R(2) by blast
    then show ?thesis using Some by (simp add: try_key_def)
  qed (simp add: try_key_def)
  then show ?thesis using fold_step_cases [of eng J f] by auto
qed

section \<open>What is not folded\<close>

text \<open>
  An instruction that no rule folds does not mix widths: it is not a \<open>BAND\<close> of a 64-bit value with a
  32-bit constant, and the operands determine its width.
\<close>

lemma opnd_both: "opnd J r w \<Longrightarrow> opnd J r (\<not> w) \<Longrightarrow> ins_o (jir J r) = IR_KINT \<and> ins_i (jir J r) = 0"
  by (cases w) (auto simp: opnd_def)

lemma opnd_strict_w: "opnd_strict J r w \<Longrightarrow> opnd_strict J r w' \<Longrightarrow> w = w'"
  by (auto simp: opnd_strict_def)

lemma op1_strict: "typed J f \<Longrightarrow> ins_o f \<in> {IR_BNOT, IR_NEG, IR_BXOR} \<Longrightarrow> opnd_strict J (ins_op1 f) (wd f)"
  by (auto simp: typed_def Let_def)

lemma key_kint:
  "ins_op1 f \<in> irefs J \<Longrightarrow> ins_o (fleft J f) = IR_KINT \<Longrightarrow> key_left J f = 23"
  "ins_op2 f \<in> irefs J \<Longrightarrow> ins_o (fright J f) = IR_KINT \<Longrightarrow> key_right J f = 23"
  by (simp_all add: key_left_def key_right_def irefs_def)

lemma Cond_Next [simp]: "CondFold J c \<noteq> NextFold"
  by (simp add: CondFold_def)

lemma k_folds_Next:
  "snd fold_kfold_intarith eng J f \<noteq> NextFold" "snd fold_kfold_kref eng J f \<noteq> NextFold"
  by (simp_all add: fold_kfold_intarith_def fold_kfold_kref_def)

lemma intcomp_Next: "snd fold_kfold_intcomp eng J f \<noteq> NextFold"
  unfolding fold_kfold_intcomp_def snd_conv Let_def by (cases "ins_o f") simp_all

lemma try_Some: "fold_lookup (ins_o f) (fst k) (snd k) = Some fn \<Longrightarrow> try_key eng J f k = fn eng J f"
  by (simp add: try_key_def)

lemma kk_folds:
  assumes "ins_o f \<in> {IR_ADD, IR_SUB, IR_MUL, IR_MOD, IR_BAND, IR_BOR, IR_MIN, IR_MAX} \<union>
      {IR_LT, IR_GE, IR_LE, IR_GT, IR_ULT, IR_UGE, IR_ULE, IR_UGT} \<union> {IR_EQ, IR_NE}"
  shows "try_key eng J f (23, 23) \<noteq> NextFold"
proof -
  consider "fold_lookup (ins_o f) 23 23 = Some (snd fold_kfold_intarith)"
    | "fold_lookup (ins_o f) 23 23 = Some (snd fold_kfold_intcomp)"
    | "fold_lookup (ins_o f) 23 23 = Some (snd fold_kfold_kref)"
    using assms lookup_kfold(1,2) [of "ins_o f"] lookup_commands(4,5) by auto
  then show ?thesis
    by cases (simp_all add: try_Some k_folds_Next intcomp_Next)
qed

lemma k_shift_folds:
  assumes s: "ins_o f \<in> shift_ops" and k: "ins_o (fleft J f) = IR_KINT" "ins_i (fleft J f) = 0"
  shows "try_key eng J f (23, 0x3ff) \<noteq> NextFold"
proof -
  consider "fold_lookup (ins_o f) 23 0x3ff = Some (snd fold_simplify_shift1_ki)"
    | "fold_lookup (ins_o f) 23 0x3ff = Some (snd fold_simplify_shift2_ki)"
    using s lookup_kfold(5) [of "ins_o f"] lookup_kfold(3,4) by auto
  then show ?thesis
    by cases (simp_all add: try_Some fold_simplify_shift1_ki_def fold_simplify_shift2_ki_def k64_of_def k Let_def)
qed

lemma next_band:
  assumes P: "pre_ok J f" and n: "fold_step eng J f = NextFold"
  shows "emit_ok J f"
proof -
  have t: "typed J f" "fins_ok J f" using P by (simp_all add: pre_ok_def fins_ok_def)
  have "ins_o (fright J f) \<noteq> IR_KINT" if "ins_o f = IR_BAND" "wd f"
  proof
    assume k: "ins_o (fright J f) = IR_KINT"
    have r: "opnd J (ins_op2 f) True" using right_opnd [OF t(1)] that by simp
    have "ins_i (fright J f) = 0" using r k kint_ty [of J "ins_op2 f"] P by (auto simp: opnd_def pre_ok_def)
    then have "try_key eng J f (0x7f, 23) \<noteq> NextFold"
      using lookup_commands(1) that(1) k by (simp add: try_key_def fold_simplify_band_k_def k64_of_def Let_def)
    then show False using n key_kint(2) [OF opnd_irefs(1) [OF r] k] unfolding fold_step_Next keys_def by simp
  qed
  then show ?thesis using t(2) by (simp add: emit_ok_def)
qed

lemma next_width:
  assumes P: "pre_ok J f" and n: "fold_step eng J f = NextFold"
    and i: "typed J i" "ins_o i = ins_o f" "ins_op1 i = ins_op1 f" "ins_op2 i = ins_op2 f"
    and o: "ins_o f \<noteq> IR_ABC"
  shows "wd i = wd f"
proof (rule ccontr)
  assume w: "wd i \<noteq> wd f"
  have t: "typed J f" "supported f" using P by (simp_all add: pre_ok_def fins_ok_def)
  have no: "try_key eng J f k \<noteq> NextFold \<Longrightarrow> k \<notin> set (keys J f)" for k using n fold_step_Next by blast
  have op: "op_value (ins_o f) \<or> op_guard (ins_o f)" by (rule typed_ops(1) [OF t(1)])
  have "ins_o f \<noteq> IR_CONV" using w t(1) i by (auto simp: typed_def Let_def)
  moreover have "ins_o f \<notin> {IR_BNOT, IR_NEG, IR_BXOR}"
    using w op1_strict [OF t(1)] op1_strict [OF i(1)] i(2,3) opnd_strict_w by metis
  moreover have "ins_o f \<notin> ov_ops \<union> {IR_DIV, IR_POW}"
    using w typed_ops(2) [OF t(1)] typed_ops(2) [OF i(1)] i(2) by (auto simp: ty_ok_def)
  ultimately have o2: "ins_o f \<in> {IR_ADD, IR_SUB, IR_MUL, IR_MOD, IR_BAND, IR_BOR, IR_MIN, IR_MAX} \<union>
      {IR_LT, IR_GE, IR_LE, IR_GT, IR_ULT, IR_UGE, IR_ULE, IR_UGT} \<union> {IR_EQ, IR_NE} \<union> shift_ops \<union> {IR_BSWAP}"
    using op o unfolding op_value_def op_guard_def by blast
  have l: "opnd J (ins_op1 f) (wd f)" "opnd J (ins_op1 f) (wd i)"
    using left_opnd(1) [OF t(1)] left_opnd(1) [OF i(1)] i(2,3) o o2 by auto
  then have k: "ins_o (fleft J f) = IR_KINT" "ins_i (fleft J f) = 0" "ins_op1 f \<in> irefs J"
    using opnd_both [of J "ins_op1 f" "wd f"] w opnd_irefs by auto
  note kl = key_kint(1) [OF k(3,1)]
  consider "ins_o f \<in> shift_ops" | "ins_o f = IR_BSWAP" | "ins_o f \<in> {IR_ADD, IR_SUB, IR_MUL, IR_MOD, IR_BAND, IR_BOR, IR_MIN, IR_MAX} \<union>
      {IR_LT, IR_GE, IR_LE, IR_GT, IR_ULT, IR_UGE, IR_ULE, IR_UGT} \<union> {IR_EQ, IR_NE}" using o2 by blast
  then show False
  proof cases
    case 1
    then show False using no [OF k_shift_folds [OF 1 k(1,2)]] kl by (simp add: keys_def)
  next
    case 2
    then have "ins_op2 f = 0" "0x1000 \<le> nk J" using typed_refs(3) [OF t(1)] P jit_okD(1) by (auto simp: pre_ok_def)
    then have "key_right J f = 0" by (simp add: key_right_def)
    moreover have "try_key eng J f (23, 0) \<noteq> NextFold"
      using 2 lookup_commands(3) by (simp add: try_key_def fold_kfold_bswap_def)
    ultimately show False using no kl by (auto simp: keys_def)
  next
    case 3
    have "opnd J (ins_op2 f) (wd f)" "opnd J (ins_op2 f) (wd i)"
      using right_opnd [OF t(1)] right_opnd [OF i(1)] i(2,4) 3 by auto
    then have "ins_o (fright J f) = IR_KINT" "ins_op2 f \<in> irefs J"
      using opnd_both [of J "ins_op2 f" "wd f"] w opnd_irefs by auto
    then show False using no [OF kk_folds [OF 3]] kl key_kint(2) by (simp add: keys_def)
  qed
qed

section \<open>CSE\<close>

lemma cse_found:
  assumes P: "pre_ok J f" and n: "fold_step eng J f = NextFold"
    and x: "chain_walk (\<lambda>ir. ins_op1 ir = ins_op1 f \<and> ins_op2 ir = ins_op2 f) (jir J) lim k (chain J (ins_o f)) = Some r"
  shows "emit_spec J f J r"
proof -
  have A: "jit_ok J" "fins_ok J f" "supported f" and t: "typed J f" using P by (simp_all add: pre_ok_def fins_ok_def)
  define i where "i = jir J r"
  have R: "r \<in> irefs J" "ins_o i = ins_o f" "ins_op1 i = ins_op1 f" "ins_op2 i = ins_op2 f"
    using chain_ok_walk(1) [OF A(1) op_chained [OF typed_ops(1) [OF t]] x] by (auto simp: i_def)
  have S: "slot_refs J i" using jit_okD(4) [OF A(1) R(1)] by (simp add: slot_ok_def i_def)
  have c: "covered i"
  proof (rule ccontr)
    assume nc: "\<not> covered i"
    have op: "op_value (ins_o i) \<or> op_guard (ins_o i)" using typed_ops(1) [OF t] R(2) by simp
    show False
    proof (cases "ins_o f = IR_CONV")
      case True
      have "conv_int (ins_op2 i)" using conv_pre(1) [OF t True] R(4) by simp
      then have "int_ty (conv_dst (ins_op2 i)) \<and> int_ty (conv_src (ins_op2 i))" by (auto simp: conv_int_def)
      then show False using S nc op True R(2) unfolding slot_refs_def by auto
    next
      case False
      then have "\<not> int_ty (ins_t (jir J (ins_op1 f)))" using S nc op R(2,3) unfolding slot_refs_def by auto
      moreover have "int_ty (ins_t (jir J (ins_op1 f)))"
        using left_opnd(1) [OF t False] t nc R(2) by (cases "ins_o f = IR_ABC") (auto simp: opnd_def typed_def covered_def)
      ultimately show False by blast
    qed
  qed
  then have ti: "typed J i" using S unfolding slot_refs_def by blast
  have w: "ins_o f \<noteq> IR_ABC \<Longrightarrow> wd i = wd f" by (rule next_width [OF P n ti R(2-4)])
  have e: "eval v i = eval v f" if "op_value (ins_o f)" for v
  proof -
    have "ins_o f \<noteq> IR_ABC" using that by auto
    then have "wd i = wd f" by (rule w)
    moreover have "wd f \<Longrightarrow> arith64 (ins_o f) (ins_t i) a b = arith64 (ins_o f) (ins_t f) a b" for a b
      using A(3) by (cases "ins_o f") (simp_all add: arith64_def supported_def)
    ultimately show ?thesis using R(2-4) by (simp add: eval_def Let_def)
  qed
  have g: "guard v i = guard v f" for v
    using w R(2-4) by (cases "ins_o f = IR_ABC") (simp_all add: guard_def Let_def)
  show ?thesis
  proof (rule emit_spec_same [OF A(1)])
    show "guard v f" if "sat J v" for v
      using sat_slot [OF that R(1)] c g by (simp add: ins_sat_def i_def)
    show "v r = eval v f" if "sat J v" "op_value (ins_o f)" for v
      using sat_slot [OF that(1) R(1)] c e [OF that(2)] that(2) R(2) by (simp add: ins_sat_def i_def)
    show "opnd J r (wd f)" if "op_value (ins_o f)"
    proof -
      have o: "ins_o f \<noteq> IR_ABC" using that by auto
      then have "int_ty (ins_t i)" using c R(2) by (simp add: covered_def)
      then show ?thesis using R(1) w [OF o] by (simp add: opnd_def i_def)
    qed
  qed
qed

lemma cse_ok:
  assumes P: "pre_ok J f" and n: "fold_step eng J f = NextFold" and c: "lj_opt_cse J f = (J', r)"
  shows "emit_spec J f J' r"
proof -
  have A: "jit_ok J" using P by (simp add: pre_ok_def)
  show ?thesis
    using c cse_found [OF P n] emit_spec_emit [OF A next_band [OF P n]]
    by (auto simp: lj_opt_cse_def split: option.splits if_splits)
qed

lemma cse_nk: "lj_opt_cse J f = (J', r) \<Longrightarrow> nk J' = nk J"
  using emit_nk by (auto simp: lj_opt_cse_def split: option.splits)

section \<open>The engine\<close>

lemma fold_nk: "eng_nk (lj_opt_fold n)"
proof (induction n)
  case 0
  then show ?case by (simp add: eng_nk_def)
next
  case (Suc n)
  show ?case unfolding eng_nk_def
  proof (intro allI)
    fix J f
    have R: "res_nk J f (fold_step (lj_opt_fold n) J f)" by (rule fold_step_nk [OF Suc])
    have c: "nk (fst (lj_opt_cse J f)) \<le> nk J" using cse_nk [of J f] by (cases "lj_opt_cse J f") simp
    show "case lj_opt_fold (Suc n) J f of Inl e \<Rightarrow> plain (ins_o f) \<longrightarrow> e \<noteq> TRERR_GFAIL | Inr (J', r) \<Rightarrow> nk J' \<le> nk J"
    proof (cases "fold_step (lj_opt_fold n) J f")
      case (RetryFold J' f')
      then show ?thesis using R c eng_nk [OF Suc, of J' f']
        by (cases "lj_opt_fold n J' f'") (auto simp: case_prod_beta)
    next
      case (KIntFold J' k)
      then show ?thesis using R c kint_nk [of J' k] by (cases "lj_ir_kint J' k") (auto simp: case_prod_beta)
    qed (use R c in \<open>auto simp: case_prod_beta\<close>)
  qed
qed

lemma fold_ok_step:
  assumes E: "eng_ok (lj_opt_fold n)" and P: "pre_ok J f"
  shows "case lj_opt_fold (Suc n) J f of
      Inl e \<Rightarrow> e = TRERR_GFAIL \<longrightarrow> (\<forall>v. sat J v \<longrightarrow> \<not> guard v f)
    | Inr (J', r) \<Rightarrow> 0x1000 \<le> nk J' \<longrightarrow> emit_spec J f J' r"
proof -
  have A: "jit_ok J" "typed J f" using P by (simp_all add: pre_ok_def fins_ok_def)
  have s: "lj_opt_fold (Suc n) J f = (case fold_step (lj_opt_fold n) J f of
          NextFold \<Rightarrow> Inr (lj_opt_cse J f)
        | RetryFold J' f' \<Rightarrow> lj_opt_fold n J' f'
        | KIntFold J' k \<Rightarrow> Inr (lj_ir_kint J' k)
        | FailFold \<Rightarrow> Inl TRERR_GFAIL
        | DropFold J' \<Rightarrow> Inr (J', REF_DROP)
        | RefFold J' r \<Rightarrow> Inr (J', r)
        | ErrFold e \<Rightarrow> Inl e)"
    using jit_okD3 [OF A(1)] by simp
  note R = fold_step_ok [OF E P]
  show ?thesis
  proof (cases "fold_step (lj_opt_fold n) J f")
    case NextFold
    then show ?thesis using s cse_ok [OF P NextFold] by (cases "lj_opt_cse J f") simp
  next
    case (RetryFold J' f')
    show ?thesis
    proof (cases "0x1000 \<le> nk J'")
      case True
      then have S: "retry_spec J f J' f'" using R RetryFold by (simp add: res_ok_def)
      then have P': "pre_ok J' f'" by (simp add: retry_spec_def pre_ok_def cons_def)
      note E' = E [unfolded eng_ok_def, THEN conjunct2, rule_format, OF P']
      show ?thesis
      proof (cases "lj_opt_fold n J' f'")
        case (Inl e)
        have "\<not> guard v f" if e: "e = TRERR_GFAIL" and v: "sat J v" for v
        proof
          assume g: "guard v f"
          obtain v' where v': "agree J v v'" "sat J' v'" using S v unfolding retry_spec_def cons_def by blast
          have "guard v' f" using agree_eval(2) [OF v'(1) A(2)] g by simp
          then have "guard v' f'" using S v'(2) unfolding retry_spec_def by blast
          then show False using E' Inl e v'(2) by simp
        qed
        then show ?thesis using s RetryFold Inl by simp
      next
        case (Inr x)
        obtain J'' r where x: "x = (J'', r)" by (cases x)
        have "emit_spec J f J'' r" if "0x1000 \<le> nk J''"
        proof (rule emit_spec_cons)
          show "emit_spec J' f' J'' r" using E' Inr x that by simp
          show "cons J J'" "op_value (ins_o f') = op_value (ins_o f)" "irt_is64 (ins_t f') = irt_is64 (ins_t f)"
            using S by (simp_all add: retry_spec_def)
          show "typed J f" by (rule A(2))
          show "guard v f' = guard v f \<and> (op_value (ins_o f) \<longrightarrow> eval v f' = eval v f)" if "sat J' v" for v
            using S that by (simp add: retry_spec_def)
        qed
        then show ?thesis using s RetryFold Inr x by simp
      qed
    next
      case False
      then have "nk J'' < 0x1000" if "lj_opt_fold n J' f' = Inr (J'', r)" for J'' r
        using eng_nk(1) [OF fold_nk that] by simp
      moreover have "\<not> guard v f" if g: "lj_opt_fold n J' f' = Inl TRERR_GFAIL" for v
      proof -
        have "plain (ins_o f')"
          using fold_step_nk [OF fold_nk [of n], of J f] RetryFold False jit_okD(1) [OF A(1)] by auto
        then show ?thesis using eng_nk(2) [OF fold_nk g] by simp
      qed
      ultimately show ?thesis using s RetryFold by (cases "lj_opt_fold n J' f'") auto
    qed
  next
    case (KIntFold J' k)
    then have K: "J' = J" "op_value (ins_o f)" "wd f \<longrightarrow> k = 0" "\<forall>v. sat J v \<longrightarrow> guard v f \<and> eval v f = ucast k"
      using R by (simp_all add: res_ok_def)
    obtain J1 r where k: "lj_ir_kint J k = (J1, r)" by (cases "lj_ir_kint J k")
    have "emit_spec J f J1 r" if nk: "0x1000 \<le> nk J1"
    proof -
      note C = kint_spec [OF A(1) k nk]
      show ?thesis
      proof (rule emit_spec_drop [OF C(1) A(2)])
        have ok: "jit_ok J1" using C(1) by (simp add: cons_def)
        show "opnd J1 r (wd f)" using C(2-4) kint_ty [OF ok C(2,3)] K(3) by (auto simp: opnd_def)
        fix v assume v: "sat J1 v"
        have "v r = ucast k" using kint_value [OF v C(2,3)] C(4) by simp
        moreover have "sat J v" using C(1) v unfolding cons_def by blast
        ultimately show "guard v f \<and> v r = eval v f" using K(4) by simp
      qed
    qed
    then show ?thesis using s KIntFold K(1) k by simp
  next
    case FailFold
    then show ?thesis using s R by (simp add: res_ok_def)
  next
    case (DropFold J')
    then show ?thesis using s R by (simp add: res_ok_def)
  next
    case (RefFold J' r)
    then show ?thesis using s R by (simp add: res_ok_def)
  next
    case (ErrFold e)
    then show ?thesis using s R by (simp add: res_ok_def)
  qed
qed

lemma fold_engine_ok: "eng_ok (lj_opt_fold n)"
proof (induction n)
  case 0
  show ?case unfolding eng_ok_def by (intro conjI fold_nk) simp
next
  case (Suc n)
  show ?case using fold_nk [of "Suc n"] fold_ok_step [OF Suc] unfolding eng_ok_def by blast
qed

end
