(* ===== verification/Lj_Fold_Props.thy ===== *)
theory Lj_Fold_Props
  imports Lj_Fold_Engine
begin

text \<open>
  The correctness of the FOLD engine: what an optimised emission of an integer instruction does to the
  executions of a trace.
\<close>

lemma fold_sound:
  "pre_ok J f \<Longrightarrow> lj_opt_fold n J f = Inr (J', r) \<Longrightarrow> 0x1000 \<le> nk J' \<Longrightarrow> emit_spec J f J' r"
  "pre_ok J f \<Longrightarrow> lj_opt_fold n J f = Inl TRERR_GFAIL \<Longrightarrow> sat J v \<Longrightarrow> \<not> guard v f"
  using fold_engine_ok [of n] unfolding eng_ok_def by force+


text \<open>
  C8: a failing instruction is folded away only if it always fails: when the engine raises
  \<open>LJ_TRERR_GFAIL\<close>, there is no execution of the trace in which the guard of the instruction passes.
\<close>

theorem lj_opt_fold_fails:
  assumes "pre_ok J f" and "lj_opt_fold n J f = Inl TRERR_GFAIL" and "sat J v"
  shows "\<not> guard v f"
  by (rule fold_sound(2) [OF assms])

section \<open>Witnesses\<close>

text \<open>A trace with the constant 5.\<close>

definition trace5 :: jit where "trace5 = fst (lj_ir_kint jit0 5)"
definition ref5 :: nat where "ref5 = snd (lj_ir_kint jit0 5)"

definition ins5 :: "irop \<Rightarrow> irins" where
  "ins5 o1 = (jir jit0 0)\<lparr>ins_o := o1, ins_t := IRT_INT, ins_op1 := ref5, ins_op2 := ref5\<rparr>"

lemma ref5: "ref5 = REF_TRUE - 1" "nk trace5 = REF_TRUE - 1" "nins trace5 = REF_BIAS + 1" "jflags trace5 = JIT_F_OPT_DEFAULT"
  by (simp_all add: ref5_def trace5_def jit0_def lj_ir_kint_def ir_nextk_def ir_store_def Let_def)

lemma kint5: "lj_ir_kint jit0 5 = (trace5, ref5)"
  by (simp add: trace5_def ref5_def)

lemma chain5: "chain trace5 IR_KINT = ref5" "ins_prev (jir trace5 ref5) = 0"
    "r \<noteq> ref5 \<Longrightarrow> jir trace5 r = jir jit0 r"
proof -
  have "chain jit0 o1 = 0" for o1 by (simp add: jit0_def)
  note K = kint_fresh [OF _ kint5, simplified this chain_walk_0, OF refl]
  show "chain trace5 IR_KINT = ref5" "ins_prev (jir trace5 ref5) = 0"
    "r \<noteq> ref5 \<Longrightarrow> jir trace5 r = jir jit0 r"
    using K(4,5) by simp_all
qed

lemma trace5: "jit_ok trace5" "ref5 \<in> irefs trace5" "ins_o (jir trace5 ref5) = IR_KINT" "ins_i (jir trace5 ref5) = 5"
    "ins_t (jir trace5 ref5) = IRT_INT"
proof -
  note K = kint_spec [OF jit0_ok kint5]
  have n: "0x1000 \<le> nk trace5" by (simp add: ref5(2))
  show "jit_ok trace5" using K(1) [OF n] by (simp add: cons_def)
  then show "ref5 \<in> irefs trace5" "ins_o (jir trace5 ref5) = IR_KINT" "ins_i (jir trace5 ref5) = 5"
    "ins_t (jir trace5 ref5) = IRT_INT"
    using K(2-4) [OF n] kint_ty by blast+
qed

lemma pre_ok5: "o1 = IR_ADD \<or> o1 = IR_LT \<Longrightarrow> pre_ok trace5 (ins5 o1)"
  using trace5 by (auto simp: pre_ok_def fins_ok_def supported_def ins5_def typed_def Let_def opnd_def ty_ok_def op_value_def op_guard_def int_ty_def irt_is64_def jit0_def)

lemma step5:
  "fold_step eng trace5 (ins5 IR_ADD) = KIntFold trace5 10"
  "fold_step eng trace5 (ins5 IR_LT) = FailFold"
  using trace5(3,4) ref5
  by (simp_all add: fold_step_def key_left_def key_right_def ins5_def fold_lookup_def fold_rules_def Let_def
      fold_kfold_intarith_def fold_kfold_intcomp_def fold_kfold_intovarith_def fold_kfold_bnot_def fold_kfold_bswap_def CondFold_def)

lemma fold5:
  "lj_opt_fold (Suc 0) trace5 (ins5 IR_ADD) = Inr (lj_ir_kint trace5 10)"
  "lj_opt_fold (Suc 0) trace5 (ins5 IR_LT) = Inl TRERR_GFAIL"
  by (simp_all add: step5 ref5 jflag_def JIT_F_OPT_DEFAULT_def JIT_F_OPT_MASK_def JIT_F_OPT_FOLD_def)


definition exec5 :: "nat \<Rightarrow> u64" where "exec5 r = (if r = ref5 then 5 else 0)"

lemma exec5: "sat trace5 exec5"
proof -
  have "ins_sat exec5 r (jir trace5 r)" if "r \<noteq> ref5" for r
    using that by (simp add: chain5(3) ins_sat_def exec5_def jit0_def covered_def op_value_def op_guard_def irt_is64_def)
  moreover have "ins_sat exec5 ref5 (jir trace5 ref5)"
    using trace5 by (simp add: ins_sat_def exec5_def covered_def op_value_def op_guard_def)
  ultimately show ?thesis unfolding sat_def by metis
qed

lemma lj_opt_fold_fails_witness: "sat trace5 exec5 \<and> \<not> guard exec5 (ins5 IR_LT)"
  using lj_opt_fold_fails [OF pre_ok5 fold5(2) exec5] exec5 by simp

end
