(* ===== verification/Lj_Fold_Bugs.thy ===== *)
theory Lj_Fold_Bugs
  imports Lj_Fold_Spec
begin

text \<open>
  Rules of \<open>lj_opt_fold.c\<close> that are wrong for 64-bit integers, each on a small trace. They are why
  \<open>supported\<close> and the invariant of traces leave some instructions out.
\<close>

text \<open>
  \<open>kfold_int64arith\<close> shifts and rotates only the lower half of a 64-bit constant to the right, and its
  arithmetic right shift fills with zeros. \<open>simplify_shiftk_andk\<close> uses it on the constant of a 64-bit
  \<open>BAND\<close> under a shift, where the constant has to be shifted at its full width.
\<close>

lemma kfold_int64arith_shifts:
  "kfold_int64arith 0x100000000 1 IR_BSHR \<noteq> shift IR_BSHR 0x100000000 1"
  "kfold_int64arith 0x8000000000000000 1 IR_BSAR \<noteq> shift IR_BSAR 0x8000000000000000 1"
  "kfold_int64arith 0x100000000 1 IR_BROL \<noteq> shift IR_BROL 0x100000000 1"
  "kfold_int64arith 0x100000000 1 IR_BROR \<noteq> shift IR_BROR 0x100000000 1"
  by code_simp+

definition ins64 :: "irop \<Rightarrow> nat \<Rightarrow> nat \<Rightarrow> nat \<Rightarrow> nat \<Rightarrow> irins" where
  "ins64 o1 t a b p =
     \<lparr>ins_o = o1, ins_t = t, ins_phi = False, ins_guard = False, ins_op1 = a, ins_op2 = b, ins_prev = p,
      ins_i = 0, ins_u64 = 0\<rparr>"

text \<open>
  The trace of the examples: two loads of type \<open>t\<close>, two instructions on them, and one instruction \<open>i\<close>.
\<close>

definition trace64 :: "nat \<Rightarrow> irins \<Rightarrow> irins \<Rightarrow> irins \<Rightarrow> jit" where
  "trace64 t i j k = jit0\<lparr>nins := REF_BIAS + 6,
     jir := (jir jit0)(REF_BIAS + 1 := ins64 IR_XLOAD t 0 0 0, REF_BIAS + 2 := ins64 IR_XLOAD t 0 0 0,
       REF_BIAS + 3 := i, REF_BIAS + 4 := j, REF_BIAS + 5 := k),
     chain := (chain jit0)(ins_o k := REF_BIAS + 5)\<rparr>"

text \<open>\<open>simplify_nummuldiv_negneg\<close> turns the unsigned quotient of two negated values into theirs.\<close>

lemma negneg_u64:
  fixes eng :: engine
  defines "J \<equiv> trace64 IRT_U64 (ins64 IR_NEG IRT_U64 (REF_BIAS + 1) 0 0)
      (ins64 IR_NEG IRT_U64 (REF_BIAS + 2) 0 0) (ins64 IR_NOP 0 0 0 0)"
    and "f \<equiv> ins64 IR_DIV IRT_U64 (REF_BIAS + 3) (REF_BIAS + 4) 0"
    and "v \<equiv> (\<lambda>_. 0)(REF_BIAS + 1 := 4, REF_BIAS + 2 := 2, REF_BIAS + 3 := - 4, REF_BIAS + 4 := - 2)"
  shows "\<exists>f'. snd fold_simplify_nummuldiv_negneg eng J f = RetryFold J f' \<and> eval v f' = 2 \<and> eval v f = 0"
  by (simp add: fold_simplify_nummuldiv_negneg_def J_def f_def v_def trace64_def ins64_def jit0_def eval_def
      Let_def arith64_def lj_carith_divu64_def irt_is64_def)

lemma cse_first:
  assumes "jflag J JIT_F_OPT_CSE" "0 < nins J" "ins_op1 f < chain J (ins_o f)" "ins_op2 f < chain J (ins_o f)"
    and "ins_op1 (jir J (chain J (ins_o f))) = ins_op1 f" "ins_op2 (jir J (chain J (ins_o f))) = ins_op2 f"
  shows "lj_opt_cse J f = (J, chain J (ins_o f))"
  using assms by (cases "nins J") (simp_all add: lj_opt_cse_def)

text \<open>
  \<open>lj_opt_cse\<close> compares the opcode and the operands but not the type, so a signed quotient stands for the
  unsigned one.
\<close>

lemma cse_div_type:
  defines "J \<equiv> trace64 IRT_U64 (ins64 IR_NOP 0 0 0 0) (ins64 IR_NOP 0 0 0 0)
      (ins64 IR_DIV IRT_I64 (REF_BIAS + 1) (REF_BIAS + 2) 0)"
    and "f \<equiv> ins64 IR_DIV IRT_U64 (REF_BIAS + 1) (REF_BIAS + 2) 0"
    and "v \<equiv> (\<lambda>_. 0)(REF_BIAS + 1 := - 4, REF_BIAS + 2 := 2)"
  shows "lj_opt_cse J f = (J, REF_BIAS + 5) \<and> eval v (jir J (REF_BIAS + 5)) = - 2 \<and> eval v f = 0x7ffffffffffffffe"
proof -
  have "chain J IR_DIV = REF_BIAS + 5" "jflag J JIT_F_OPT_CSE" "0 < nins J"
    by (simp_all add: J_def trace64_def ins64_def jit0_def jflag_def JIT_F_OPT_DEFAULT_def JIT_F_OPT_CSE_def)
  then have "lj_opt_cse J f = (J, REF_BIAS + 5)"
    using cse_first [of J f] by (simp add: f_def J_def trace64_def ins64_def)
  moreover have "eval v (jir J (REF_BIAS + 5)) = - 2" "eval v f = 0x7ffffffffffffffe"
    by (simp_all add: J_def f_def v_def trace64_def ins64_def eval_def Let_def arith64_def irt_is64_def) code_simp+
  ultimately show ?thesis by simp
qed

text \<open>
  \<open>simplify_conv_sext\<close> drops the sign extension of an unsigned load of 8 or 16 bits, so that a 64-bit
  operation has the same operands as a 32-bit one, and \<open>lj_opt_cse\<close> returns the narrow result.
\<close>

lemma conv_sext_width:
  fixes eng :: engine
  defines "J \<equiv> trace64 IRT_U8 (ins64 IR_NOP 0 0 0 0) (ins64 IR_NOP 0 0 0 0)
      (ins64 IR_SUB IRT_INT (REF_BIAS + 1) (REF_BIAS + 2) 0)"
    and "f \<equiv> ins64 IR_SUB IRT_I64 (REF_BIAS + 1) (REF_BIAS + 2) 0"
    and "v \<equiv> (\<lambda>_. 0)(REF_BIAS + 1 := 1, REF_BIAS + 2 := 2)"
  shows "snd fold_simplify_conv_sext eng J (ins64 IR_CONV IRT_I64 r (0x800 + irconv IRT_I64 IRT_INT) 0) =
      (if r = REF_BIAS + 1 \<or> r = REF_BIAS + 2 then RefFold J r else NextFold)"
    and "lj_opt_cse J f = (J, REF_BIAS + 5)" "eval v (jir J (REF_BIAS + 5)) = 0xffffffff" "eval v f = - 1"
proof -
  have "chain J IR_SUB = REF_BIAS + 5" "jflag J JIT_F_OPT_CSE" "0 < nins J"
    by (simp_all add: J_def trace64_def ins64_def jit0_def jflag_def JIT_F_OPT_DEFAULT_def JIT_F_OPT_CSE_def)
  then show "lj_opt_cse J f = (J, REF_BIAS + 5)"
    using cse_first [of J f] by (simp add: f_def J_def trace64_def ins64_def)
  show "eval v (jir J (REF_BIAS + 5)) = 0xffffffff" "eval v f = - 1"
    by (simp_all add: J_def f_def v_def trace64_def ins64_def eval_def Let_def arith64_def arith32_def irt_is64_def)
      code_simp
  show "snd fold_simplify_conv_sext eng J (ins64 IR_CONV IRT_I64 r (0x800 + irconv IRT_I64 IRT_INT) 0) =
      (if r = REF_BIAS + 1 \<or> r = REF_BIAS + 2 then RefFold J r else NextFold)"
    by (simp add: fold_simplify_conv_sext_def J_def trace64_def ins64_def jit0_def ircv_sext_def irconv_def Let_def)
qed

end
