(* ===== verification/Lj_Bcdump.thy ===== *)
theory Lj_Bcdump
  imports Lj_Buf Lj_Tab_Props
begin

text \<open>
  The data of bytecode dumps (\<open>src/src/lj_bcdump.h\<close>, the prototypes of \<open>lj_obj.h\<close> and the instruction
  format of \<open>lj_bc.h\<close>). A prototype is the record of its own fields with the list of its collectable
  constants, in the order of their addresses. The debug information is one block of bytes, from
  \<open>lineinfo\<close> to the end of the object; \<open>uvinfo\<close> and \<open>varinfo\<close> are offsets in it.
\<close>

section \<open>Prototypes\<close>

record gcproto =
  pt_flags :: byte
  numparams :: byte
  framesize :: byte
  pt_bc :: "u32 list"
  pt_uv :: "u16 list"
  pt_kn :: "u64 list"
  pt_trace :: nat
  chunkname :: bytes
  firstline :: u32
  numline :: u32
  lineinfo :: "bytes option"
  uvinfo :: "nat option"
  varinfo :: "nat option"

datatype kgc =
    KStr bytes
  | KProto proto
  | KTab gctab
  | KI64 u64
  | KU64 u64
  | KComplex u64 u64
and proto = Proto (pt_info: gcproto) (pt_kgc: "kgc list")

definition PROTO_CHILD :: byte where "PROTO_CHILD = 0x01"
definition PROTO_VARARG :: byte where "PROTO_VARARG = 0x02"
definition PROTO_FFI :: byte where "PROTO_FFI = 0x04"
definition PROTO_ILOOP :: byte where "PROTO_ILOOP = 0x10"

section \<open>Instructions\<close>

definition bc_op :: "u32 \<Rightarrow> nat" where "bc_op i = unat (i AND 0xff)"
definition bc_b :: "u32 \<Rightarrow> nat" where "bc_b i = unat (drop_bit 24 i)"
definition bc_c :: "u32 \<Rightarrow> nat" where "bc_c i = unat (drop_bit 16 i AND 0xff)"
definition bc_d :: "u32 \<Rightarrow> nat" where "bc_d i = unat (drop_bit 16 i)"

definition BCINS_AD :: "nat \<Rightarrow> u32 \<Rightarrow> u32 \<Rightarrow> u32" where
  "BCINS_AD o1 a d = of_nat o1 OR push_bit 8 a OR push_bit 16 d"

text \<open>\<open>setbc_op\<close>, \<open>setbc_c\<close> and \<open>setbc_b\<close> replace one byte of an instruction.\<close>

definition setbc_byte :: "u32 \<Rightarrow> nat \<Rightarrow> nat \<Rightarrow> u32" where
  "setbc_byte i x ofs = (i AND NOT (push_bit (8 * ofs) 0xff)) OR push_bit (8 * ofs) (of_nat x AND 0xff)"

abbreviation (input) "BC_JFORI \<equiv> 78 :: nat"
abbreviation (input) "BC_FORL \<equiv> 79 :: nat"
abbreviation (input) "BC_IFORL \<equiv> 80 :: nat"
abbreviation (input) "BC_JFORL \<equiv> 81 :: nat"
abbreviation (input) "BC_IITERL \<equiv> 83 :: nat"
abbreviation (input) "BC_JITERL \<equiv> 84 :: nat"
abbreviation (input) "BC_ILOOP \<equiv> 86 :: nat"
abbreviation (input) "BC_JLOOP \<equiv> 87 :: nat"
abbreviation (input) "BC_FUNCF \<equiv> 89 :: nat"
abbreviation (input) "BC_FUNCV \<equiv> 92 :: nat"

section \<open>Format\<close>

abbreviation (input) "BCDUMP_HEAD1 \<equiv> 0x1b :: byte"
abbreviation (input) "BCDUMP_HEAD2 \<equiv> 0x4c :: byte"
abbreviation (input) "BCDUMP_HEAD3 \<equiv> 0x4a :: byte"
abbreviation (input) "BCDUMP_VERSION \<equiv> 2 :: byte"

abbreviation (input) "BCDUMP_F_BE \<equiv> 0x01 :: u32"
abbreviation (input) "BCDUMP_F_STRIP \<equiv> 0x02 :: u32"
abbreviation (input) "BCDUMP_F_FFI \<equiv> 0x04 :: u32"
abbreviation (input) "BCDUMP_F_FR2 \<equiv> 0x08 :: u32"

definition BCDUMP_F_KNOWN :: u32 where "BCDUMP_F_KNOWN = BCDUMP_F_FR2 * 2 - 1"

abbreviation (input) "BCDUMP_KGC_CHILD \<equiv> 0 :: nat"
abbreviation (input) "BCDUMP_KGC_TAB \<equiv> 1 :: nat"
abbreviation (input) "BCDUMP_KGC_I64 \<equiv> 2 :: nat"
abbreviation (input) "BCDUMP_KGC_U64 \<equiv> 3 :: nat"
abbreviation (input) "BCDUMP_KGC_COMPLEX \<equiv> 4 :: nat"
abbreviation (input) "BCDUMP_KGC_STR \<equiv> 5 :: nat"

abbreviation (input) "BCDUMP_KTAB_NIL \<equiv> 0 :: nat"
abbreviation (input) "BCDUMP_KTAB_FALSE \<equiv> 1 :: nat"
abbreviation (input) "BCDUMP_KTAB_TRUE \<equiv> 2 :: nat"
abbreviation (input) "BCDUMP_KTAB_INT \<equiv> 3 :: nat"
abbreviation (input) "BCDUMP_KTAB_NUM \<equiv> 4 :: nat"
abbreviation (input) "BCDUMP_KTAB_STR \<equiv> 5 :: nat"

text \<open>
  The size of the object of a prototype with its arrays (\<open>sizept\<close>), in unbounded arithmetic: the header of
  64 bytes, the instructions and the references to constants, padded, the numbers, the upvalues, padded,
  and the debug information.
\<close>

definition proto_size :: "nat \<Rightarrow> nat \<Rightarrow> nat \<Rightarrow> nat \<Rightarrow> nat \<Rightarrow> nat" where
  "proto_size nbc nkgc nkn nuv ndbg =
     (let sizept = 64 + (nbc + 1) * 4 + nkgc * 4;
          ofsk = (sizept + 7) div 8 * 8;
          ofsuv = ofsk + nkn * 8;
          ofsdbg = ofsuv + (nuv + 1) div 2 * 2 * 2
      in ofsdbg + ndbg)"

text \<open>The two halves of a 64-bit value.\<close>

definition u64_lo :: "u64 \<Rightarrow> u32" where "u64_lo u = ucast u"
definition u64_hi :: "u64 \<Rightarrow> u32" where "u64_hi u = ucast (drop_bit 32 u)"
definition u64_of :: "u32 \<Rightarrow> u32 \<Rightarrow> u64" where "u64_of lo hi = ucast lo OR push_bit 32 (ucast hi)"

lemma u64_of_halves [simp]: "u64_of (u64_lo u) (u64_hi u) = u"
  unfolding u64_of_def u64_lo_def u64_hi_def
  by (rule bit_word_eqI) (auto simp: bit_or_iff bit_ucast_iff bit_push_bit_iff bit_drop_bit_eq)

section \<open>Steps that may fail\<close>

definition and_then :: "'e + 'a \<Rightarrow> ('a \<Rightarrow> 'e + 'b) \<Rightarrow> 'e + 'b" where
  "and_then r k = (case r of Inl e \<Rightarrow> Inl e | Inr x \<Rightarrow> k x)"

lemma and_then_simps [simp]: "and_then (Inl e) k = Inl e" "and_then (Inr x) k = k x"
  by (simp_all add: and_then_def)

lemma and_then_cong [fundef_cong]:
  "r = r' \<Longrightarrow> (\<And>x. r' = Inr x \<Longrightarrow> k x = k' x) \<Longrightarrow> and_then r k = and_then r' k'"
  by (auto simp: and_then_def split: sum.splits)

end
