(* ===== verification/Lj_Bcread.thy ===== *)
theory Lj_Bcread
  imports Lj_Bcdump
begin

text \<open>
  The bytecode reader (\<open>src/src/lj_bcread.c\<close>). The lexer state keeps the bytes between \<open>p\<close> and \<open>pe\<close>, the
  string buffer, the results the reader callback will still return, and the prototypes it has pushed
  on the stack. \<open>BcStray\<close> is an access outside of an object, undefined in C: a read behind \<open>pe\<close>, which the
  code only asserts not to happen, or a prototype whose size overflows 32 bits, so that its arrays are
  not in the memory allocated for it.
\<close>

datatype bcr_error = LJ_ERR_BCBAD | LJ_ERR_BCFMT | BcMem | BcStray | BcTab tab_error | BcFuel

record lexstate =
  ls_p :: bytes
  ls_sb :: sbuf
  ls_rfunc :: "bytes list"
  ls_eof :: bool
  ls_level :: u32
  ls_chunkname :: bytes
  ls_chunkarg :: bytes
  ls_top :: "proto list"

type_synonym 'a reader = "lexstate \<Rightarrow> bcr_error + 'a \<times> lexstate"

definition rret :: "'a \<Rightarrow> 'a reader" where "rret x = (\<lambda>s. Inr (x, s))"

definition rbind :: "'a reader \<Rightarrow> ('a \<Rightarrow> 'b reader) \<Rightarrow> 'b reader" where
  "rbind m f = (\<lambda>s. case m s of Inl e \<Rightarrow> Inl e | Inr (x, s) \<Rightarrow> f x s)"

definition rfail :: "bcr_error \<Rightarrow> 'a reader" where "rfail e = (\<lambda>s. Inl e)"

text \<open>A loop that reads \<open>n\<close> items.\<close>

fun rtimes :: "nat \<Rightarrow> 'a reader \<Rightarrow> 'a list reader" where
  "rtimes 0 m = rret []"
| "rtimes (Suc n) m = rbind m (\<lambda>x. rbind (rtimes n m) (\<lambda>xs. rret (x # xs)))"

section \<open>Input buffer handling\<close>

definition bcread_swap :: "u32 \<Rightarrow> bool" where "bcread_swap flags \<longleftrightarrow> flags AND BCDUMP_F_BE \<noteq> 0"

text \<open>
  One round of the loop of \<open>bcread_fill\<close>: the remainder is moved to the start of the string buffer and
  the next block is appended to it; without a remainder the block of the reader is used in place.
\<close>

definition fill_move :: "nat \<Rightarrow> lexstate \<Rightarrow> bcr_error + lexstate" where
  "fill_move len s =
     (let n = length (ls_p s); sb = ls_sb s in
      if n \<noteq> 0 then
        if sbuflen sb \<noteq> 0 then Inr (s\<lparr>ls_sb := sb\<lparr>sbufdata := ls_p s\<rparr>\<rparr>)
        else case lj_buf_need sb len of
            Inl _ \<Rightarrow> Inl BcMem
          | Inr sb \<Rightarrow> Inr (s\<lparr>ls_sb := sb\<lparr>sbufdata := ls_p s\<rparr>\<rparr>)
      else Inr (s\<lparr>ls_sb := sb\<lparr>sbufdata := []\<rparr>\<rparr>))"

definition fill_append :: "nat \<Rightarrow> bytes \<Rightarrow> lexstate \<Rightarrow> bcr_error + lexstate" where
  "fill_append len buf s =
     (let n = length (ls_p s) in
      if n \<noteq> 0 then
        let n = n + length buf in
        case lj_buf_need (ls_sb s) (if n < len then len else n) of
          Inl _ \<Rightarrow> Inl BcMem
        | Inr sb \<Rightarrow> let sb = sb\<lparr>sbufdata := sbufdata sb @ buf\<rparr> in Inr (s\<lparr>ls_sb := sb, ls_p := sbufdata sb\<rparr>)
      else Inr (s\<lparr>ls_p := buf\<rparr>))"

fun fill_loop :: "nat \<Rightarrow> bool \<Rightarrow> bytes list \<Rightarrow> lexstate \<Rightarrow> bcr_error + lexstate" where
  "fill_loop len need [] s =
     and_then (fill_move len s) (\<lambda>s. if need then Inl LJ_ERR_BCBAD else Inr (s\<lparr>ls_rfunc := [], ls_eof := True\<rparr>))"
| "fill_loop len need (buf # bufs) s =
     and_then (fill_move len s) (\<lambda>s.
       if buf = [] then if need then Inl LJ_ERR_BCBAD else Inr (s\<lparr>ls_rfunc := bufs, ls_eof := True\<rparr>)
       else and_then (fill_append len buf s) (\<lambda>s.
         if length (ls_p s) < len then fill_loop len need bufs s else Inr (s\<lparr>ls_rfunc := bufs\<rparr>)))"

definition bcread_fill :: "nat \<Rightarrow> bool \<Rightarrow> unit reader" where
  "bcread_fill len need s =
     (if len > LJ_MAX_BUF \<or> ls_eof s then Inl LJ_ERR_BCBAD
      else and_then (fill_loop len need (ls_rfunc s) s) (\<lambda>s. Inr ((), s)))"

definition bcread_need :: "nat \<Rightarrow> unit reader" where
  "bcread_need len s = (if length (ls_p s) < len then bcread_fill len True s else Inr ((), s))"

definition bcread_want :: "nat \<Rightarrow> unit reader" where
  "bcread_want len s = (if length (ls_p s) < len then bcread_fill len False s else Inr ((), s))"

definition bcread_mem :: "nat \<Rightarrow> bytes reader" where
  "bcread_mem len s =
     (if len \<le> length (ls_p s) then Inr (take len (ls_p s), s\<lparr>ls_p := drop len (ls_p s)\<rparr>) else Inl BcStray)"

definition bcread_byte :: "byte reader" where
  "bcread_byte s = (case ls_p s of [] \<Rightarrow> Inl BcStray | b # p \<Rightarrow> Inr (b, s\<lparr>ls_p := p\<rparr>))"

definition bcread_uleb128 :: "u32 reader" where
  "bcread_uleb128 s =
     (case lj_buf_ruleb128 (ls_p s) of None \<Rightarrow> Inl BcStray | Some (v, p) \<Rightarrow> Inr (v, s\<lparr>ls_p := p\<rparr>))"

text \<open>The top 32 bits of a ULEB128 of 33 bits; the loop shifts by 6, 13, 20 and 27.\<close>

fun ruleb33_loop :: "u32 \<Rightarrow> nat \<Rightarrow> bytes \<Rightarrow> (u32 \<times> bytes) option" where
  "ruleb33_loop v sh [] = None"
| "ruleb33_loop v sh (b # p) =
     (if 32 \<le> sh then None
      else
        let v = v OR push_bit sh (ucast b AND 0x7f) in
        if b \<ge> 0x80 then ruleb33_loop v (sh + 7) p else Some (v, p))"

definition bcread_uleb128_33 :: "u32 reader" where
  "bcread_uleb128_33 s =
     (case ls_p s of
        [] \<Rightarrow> Inl BcStray
      | b # p \<Rightarrow>
          let v = (ucast (drop_bit 1 b) :: u32) in
          case (if v \<ge> 0x40 then ruleb33_loop (v AND 0x3f) 6 p else Some (v, p)) of
            None \<Rightarrow> Inl BcStray
          | Some (v, p) \<Rightarrow> Inr (v, s\<lparr>ls_p := p\<rparr>))"

section \<open>Constants\<close>

definition bcread_u64 :: "u64 reader" where
  "bcread_u64 = rbind bcread_uleb128 (\<lambda>lo. rbind bcread_uleb128 (\<lambda>hi. rret (u64_of lo hi)))"

definition bcread_ktabk :: "tvalue reader" where
  "bcread_ktabk =
     rbind bcread_uleb128 (\<lambda>tp.
       if tp \<ge> of_nat BCDUMP_KTAB_STR then
         rbind (bcread_mem (unat (tp - of_nat BCDUMP_KTAB_STR))) (\<lambda>p. rret (TStr p))
       else if tp = of_nat BCDUMP_KTAB_INT then rbind bcread_uleb128 (\<lambda>k. rret (TNum (num_of_int (sint k))))
       else if tp = of_nat BCDUMP_KTAB_NUM then rbind bcread_u64 (\<lambda>u. rret (TNum u))
       else rret (if tp = 0 then TNil else if tp = 1 then TFalse else TTrue))"

fun bcread_khash :: "nat \<Rightarrow> gctab \<Rightarrow> gctab reader" where
  "bcread_khash 0 t = rret t"
| "bcread_khash (Suc n) t =
     rbind bcread_ktabk (\<lambda>key.
       case lj_tab_set t key of
         Inl e \<Rightarrow> rfail (BcTab e)
       | Inr (t, slot) \<Rightarrow> rbind bcread_ktabk (\<lambda>v. bcread_khash n (tab_store t slot v)))"

definition bcread_ktab :: "gctab reader" where
  "bcread_ktab =
     rbind bcread_uleb128 (\<lambda>narray.
     rbind bcread_uleb128 (\<lambda>nhash.
       case lj_tab_new (unat narray) (hsize2hbits (unat nhash)) of
         Inl e \<Rightarrow> rfail (BcTab e)
       | Inr t \<Rightarrow>
           rbind (if narray \<noteq> 0 then rbind (rtimes (unat narray) bcread_ktabk) (\<lambda>vs. rret (t\<lparr>tarray := vs\<rparr>))
                  else rret t)
             (\<lambda>t. if nhash \<noteq> 0 then bcread_khash (unat nhash) t else rret t)))"

text \<open>A child is popped from the stack.\<close>

definition bcread_child :: "kgc reader" where
  "bcread_child s =
     (case ls_top s of [] \<Rightarrow> Inl LJ_ERR_BCBAD | P # Ps \<Rightarrow> Inr (KProto P, s\<lparr>ls_top := Ps\<rparr>))"

definition bcread_kgc1 :: "kgc reader" where
  "bcread_kgc1 =
     rbind bcread_uleb128 (\<lambda>tp.
       if tp \<ge> of_nat BCDUMP_KGC_STR then
         rbind (bcread_mem (unat (tp - of_nat BCDUMP_KGC_STR))) (\<lambda>p. rret (KStr p))
       else if tp = of_nat BCDUMP_KGC_TAB then rbind bcread_ktab (\<lambda>t. rret (KTab t))
       else if tp \<noteq> of_nat BCDUMP_KGC_CHILD then
         rbind bcread_u64 (\<lambda>u.
           if tp = of_nat BCDUMP_KGC_COMPLEX then rbind bcread_u64 (\<lambda>im. rret (KComplex u im))
           else rret (if tp = of_nat BCDUMP_KGC_I64 then KI64 u else KU64 u))
       else bcread_child)"

definition bcread_kgc :: "nat \<Rightarrow> kgc list reader" where "bcread_kgc n = rtimes n bcread_kgc1"

definition bcread_isnum :: "bool reader" where
  "bcread_isnum s = (case ls_p s of [] \<Rightarrow> Inl BcStray | b # _ \<Rightarrow> Inr (b AND 1 \<noteq> 0, s))"

definition bcread_knum1 :: "u64 reader" where
  "bcread_knum1 =
     rbind bcread_isnum (\<lambda>isnum.
     rbind bcread_uleb128_33 (\<lambda>lo.
       if isnum then rbind bcread_uleb128 (\<lambda>hi. rret (u64_of lo hi))
       else rret (num_of_int (sint lo))))"

definition bcread_knum :: "nat \<Rightarrow> u64 list reader" where "bcread_knum n = rtimes n bcread_knum1"

section \<open>Prototypes\<close>

text \<open>
  A block as an array of half words or words in memory.
\<close>

definition halfs_of :: "nat \<Rightarrow> bytes \<Rightarrow> u16 list" where
  "halfs_of n b = map (\<lambda>i. u16_at (drop (2 * i) b)) [0..<n]"

definition words_of :: "nat \<Rightarrow> bytes \<Rightarrow> u32 list" where
  "words_of n b = map (\<lambda>i. u32_at (drop (4 * i) b)) [0..<n]"

definition swap16 :: "u16 \<Rightarrow> u16" where "swap16 w = drop_bit 8 w OR push_bit 8 w"

definition bcread_bytecode :: "byte \<Rightarrow> byte \<Rightarrow> nat \<Rightarrow> u32 list reader" where
  "bcread_bytecode flags fsize nbc s =
     rbind (bcread_mem (nbc * 4)) (\<lambda>b.
       let bc = words_of nbc b;
           hd = BCINS_AD (if flags AND PROTO_VARARG \<noteq> 0 then BC_FUNCV else BC_FUNCF) (ucast fsize) 0
       in rret (hd # (if bcread_swap (ls_level s) then map lj_bswap bc else bc))) s"

definition bcread_uv :: "nat \<Rightarrow> u16 list reader" where
  "bcread_uv sizeuv s =
     (if sizeuv \<noteq> 0 then
        rbind (bcread_mem (sizeuv * 2)) (\<lambda>b.
          let uv = halfs_of sizeuv b in rret (if bcread_swap (ls_level s) then map swap16 uv else uv)) s
      else rret [] s)"

text \<open>The line information has one, two or four bytes per instruction.\<close>

definition sizeli :: "nat \<Rightarrow> u32 \<Rightarrow> nat" where
  "sizeli nbc nline = nbc * (if sint nline < 256 then 1 else if sint nline < 65536 then 2 else 4)"

definition bcread_dbg :: "u32 \<Rightarrow> nat \<Rightarrow> nat \<Rightarrow> bytes reader" where
  "bcread_dbg nline nbc sizedbg s =
     rbind (bcread_mem sizedbg) (\<lambda>b.
       if bcread_swap (ls_level s) \<and> sint nline \<ge> 256 then
         if length b < sizeli nbc nline then rfail BcStray
         else if sint nline < 65536 then
           rret (concat (map (\<lambda>w. u16_bytes (swap16 w)) (halfs_of nbc b)) @ drop (2 * nbc) b)
         else rret (concat (map (\<lambda>w. u32_bytes (lj_bswap w)) (words_of nbc b)) @ drop (4 * nbc) b)
       else rret b) s"

text \<open>The variable information is behind the names of the upvalues, each ended by a zero.\<close>

fun varinfo_scan :: "bytes \<Rightarrow> nat \<Rightarrow> nat \<Rightarrow> nat option" where
  "varinfo_scan [] ofs n = (if n = 0 then Some ofs else None)"
| "varinfo_scan (c # b) ofs n =
     (if n = 0 then Some ofs else varinfo_scan b (ofs + 1) (if c \<noteq> 0 then n else n - 1))"

definition bcread_varinfo :: "bytes \<Rightarrow> nat \<Rightarrow> nat \<Rightarrow> nat option" where
  "bcread_varinfo dbg uvi sizeuv = (if sizeuv = 0 then Some uvi
      else if uvi \<le> length dbg then varinfo_scan (drop uvi dbg) uvi sizeuv else None)"

definition bcread_debug :: "gcproto \<Rightarrow> nat \<Rightarrow> gcproto reader" where
  "bcread_debug pt sizedbg =
     (if sizedbg \<noteq> 0 then
        rbind (bcread_dbg (numline pt) (length (pt_bc pt) - 1) sizedbg) (\<lambda>b.
          let uvi = sizeli (length (pt_bc pt) - 1) (numline pt) in
          case bcread_varinfo b uvi (length (pt_uv pt)) of
            None \<Rightarrow> rfail BcStray
          | Some vi \<Rightarrow> rret (pt\<lparr>lineinfo := Some b, uvinfo := Some uvi, varinfo := Some vi\<rparr>))
      else rret (pt\<lparr>lineinfo := None, uvinfo := None, varinfo := None\<rparr>))"

definition bcread_dbghead :: "(nat \<times> u32 \<times> u32) reader" where
  "bcread_dbghead s =
     (if ls_level s AND BCDUMP_F_STRIP = 0 then
        rbind bcread_uleb128 (\<lambda>dbg.
          if dbg \<noteq> 0 then rbind bcread_uleb128 (\<lambda>fl. rbind bcread_uleb128 (\<lambda>nl. rret (unat dbg, fl, nl)))
          else rret (0, 0, 0)) s
      else rret (0, 0, 0) s)"

definition lj_bcread_proto :: "proto reader" where
  "lj_bcread_proto s =
     rbind bcread_byte (\<lambda>flags.
     rbind bcread_byte (\<lambda>nparams.
     rbind bcread_byte (\<lambda>fsize.
     rbind bcread_byte (\<lambda>sizeuv.
     rbind bcread_uleb128 (\<lambda>sizekgc.
     rbind bcread_uleb128 (\<lambda>sizekn.
     rbind bcread_uleb128 (\<lambda>nbc.
     rbind bcread_dbghead (\<lambda>(dbg, fl, nl).
     if proto_size (unat nbc) (unat sizekgc) (unat sizekn) (unat sizeuv) dbg \<ge> 2 ^ 32 then rfail BcStray else
     rbind (bcread_bytecode flags fsize (unat nbc)) (\<lambda>bc.
     rbind (bcread_uv (unat sizeuv)) (\<lambda>uv.
     rbind (bcread_kgc (unat sizekgc)) (\<lambda>ks.
     rbind (bcread_knum (unat sizekn)) (\<lambda>kn.
     rbind (bcread_debug
         \<lparr>pt_flags = flags, numparams = nparams, framesize = fsize, pt_bc = bc, pt_uv = uv, pt_kn = kn,
          pt_trace = 0, chunkname = ls_chunkname s, firstline = fl, numline = nl, lineinfo = None,
          uvinfo = None, varinfo = None\<rparr> dbg) (\<lambda>pt.
       rret (Proto pt ks)))))))))))))) s"

section \<open>Dumps\<close>

text \<open>\<open>bcread_header\<close>; the result says whether the header is accepted.\<close>

definition bcread_header :: "bool reader" where
  "bcread_header =
     rbind (bcread_want (3 + 5 + 5)) (\<lambda>_.
     rbind bcread_byte (\<lambda>a. if a \<noteq> BCDUMP_HEAD2 then rret False else
     rbind bcread_byte (\<lambda>b. if b \<noteq> BCDUMP_HEAD3 then rret False else
     rbind bcread_byte (\<lambda>c. if c \<noteq> BCDUMP_VERSION then rret False else
     rbind bcread_uleb128 (\<lambda>flags s.
       let s = s\<lparr>ls_level := flags\<rparr> in
       if flags AND NOT BCDUMP_F_KNOWN \<noteq> 0 then Inr (False, s)
       else if flags AND BCDUMP_F_FR2 \<noteq> 0 then Inr (False, s)
       else if flags AND BCDUMP_F_STRIP \<noteq> 0 then Inr (True, s\<lparr>ls_chunkname := ls_chunkarg s\<rparr>)
       else rbind bcread_uleb128 (\<lambda>len.
            rbind (bcread_need (unat len)) (\<lambda>_.
            rbind (bcread_mem (unat len)) (\<lambda>b s. Inr (True, s\<lparr>ls_chunkname := b\<rparr>)))) s)))))"

text \<open>
  The loop over the prototypes. Its fuel is the number of bytes of the dump: each round reads at least
  one.
\<close>

fun bcread_protos :: "nat \<Rightarrow> unit reader" where
  "bcread_protos 0 s = Inl BcFuel"
| "bcread_protos (Suc n) s =
     (if ls_p s \<noteq> [] \<and> hd (ls_p s) = 0 then Inr ((), s\<lparr>ls_p := tl (ls_p s)\<rparr>)
      else rbind (bcread_want 5) (\<lambda>_.
           rbind bcread_uleb128 (\<lambda>len.
             if len = 0 then rret ()
             else rbind (bcread_need (unat len)) (\<lambda>_ s.
                    rbind lj_bcread_proto (\<lambda>P s'.
                      if length (ls_p s') + unat len \<noteq> length (ls_p s) then Inl LJ_ERR_BCBAD
                      else bcread_protos n (s'\<lparr>ls_top := P # ls_top s'\<rparr>)) s))) s)"

definition ls_size :: "lexstate \<Rightarrow> nat" where
  "ls_size s = length (ls_p s) + length (concat (ls_rfunc s))"

definition lj_bcread :: "proto reader" where
  "lj_bcread s =
     (let s = s\<lparr>ls_sb := lj_buf_reset (ls_sb s), ls_top := []\<rparr> in
      rbind bcread_header (\<lambda>ok.
        if \<not> ok then rfail LJ_ERR_BCFMT
        else rbind (bcread_protos (Suc (ls_size s))) (\<lambda>_ s.
          if sint (2 * of_nat (length (ls_p s)) :: u32) > 0 then Inl LJ_ERR_BCBAD
          else case ls_top s of [P] \<Rightarrow> Inr (P, s\<lparr>ls_top := []\<rparr>) | _ \<Rightarrow> Inl LJ_ERR_BCBAD)) s)"

end
