(* ===== verification/Lj_Bcwrite.thy ===== *)
theory Lj_Bcwrite
  imports Lj_Bcdump
begin

text \<open>
  The bytecode writer (\<open>src/src/lj_bcwrite.c\<close>). Each step reserves space in the string buffer and writes
  behind its content; a write past the allocation is the error \<open>BwOverrun\<close>, which the properties
  exclude. \<open>BwMem\<close> is the memory error of the buffer, \<open>BwAssert\<close> a constant the code asserts not to
  exist. The writer callback is a function on its own data, with its status.
\<close>

datatype bcw_error = BwMem | BwOverrun | BwAssert

definition bw_more :: "sbuf \<Rightarrow> nat \<Rightarrow> bcw_error + sbuf" where
  "bw_more sb n = (case lj_buf_more sb n of Inl e \<Rightarrow> Inl BwMem | Inr sb \<Rightarrow> Inr sb)"

definition bw_need :: "sbuf \<Rightarrow> nat \<Rightarrow> bcw_error + sbuf" where
  "bw_need sb n = (case lj_buf_need sb n of Inl e \<Rightarrow> Inl BwMem | Inr sb \<Rightarrow> Inr sb)"

text \<open>The bytes \<open>w\<close> written at \<open>p\<close>, and \<open>setsbufP\<close> behind them.\<close>

definition bw_put :: "sbuf \<Rightarrow> bytes \<Rightarrow> bcw_error + sbuf" where
  "bw_put sb w =
     (if sbuflen sb + length w \<le> sbufsz sb then Inr (sb\<lparr>sbufdata := sbufdata sb @ w\<rparr>) else Inl BwOverrun)"

section \<open>Constants\<close>

definition uleb_nat :: "nat \<Rightarrow> bytes" where "uleb_nat n = lj_strfmt_wuleb128 (of_nat n)"

definition uleb_u64 :: "u64 \<Rightarrow> bytes" where
  "uleb_u64 u = lj_strfmt_wuleb128 (u64_lo u) @ lj_strfmt_wuleb128 (u64_hi u)"

definition bcwrite_ktabk :: "sbuf \<Rightarrow> tvalue \<Rightarrow> bool \<Rightarrow> bcw_error + sbuf" where
  "bcwrite_ktabk sb o1 narrow =
     and_then (bw_more sb (1 + 10)) (\<lambda>sb.
       case o1 of
         TStr s \<Rightarrow> and_then (bw_more sb (5 + length s)) (\<lambda>sb.
             bw_put sb (uleb_nat (BCDUMP_KTAB_STR + length s) @ s))
       | TNum n \<Rightarrow>
           (let k = lj_num2int n in
            if narrow \<and> num_eq n (num_of_int k)
            then bw_put sb (of_nat BCDUMP_KTAB_INT # lj_strfmt_wuleb128 (word_of_int k))
            else bw_put sb (of_nat BCDUMP_KTAB_NUM # uleb_u64 n))
       | TNil \<Rightarrow> bw_put sb [of_nat BCDUMP_KTAB_NIL]
       | TFalse \<Rightarrow> bw_put sb [of_nat BCDUMP_KTAB_FALSE]
       | TTrue \<Rightarrow> bw_put sb [of_nat BCDUMP_KTAB_TRUE]
       | _ \<Rightarrow> Inl BwAssert)"

text \<open>The maximum length of the array part and the number of used hash slots.\<close>

fun last_used :: "tvalue list \<Rightarrow> nat \<Rightarrow> nat" where
  "last_used a 0 = 0"
| "last_used a (Suc i) = (if \<not> tvisnil (a ! i) then Suc i else last_used a i)"

definition ktab_narray :: "gctab \<Rightarrow> nat" where
  "ktab_narray t = (if asize t > 0 then last_used (tarray t) (asize t) else 0)"

fun count_used :: "node list \<Rightarrow> nat" where
  "count_used [] = 0"
| "count_used (n # ns) = (if \<not> tvisnil (nval n) then 1 else 0) + count_used ns"

definition ktab_nhash :: "gctab \<Rightarrow> nat" where
  "ktab_nhash t = (if hmask t > 0 then count_used (tnode t) else 0)"

fun bcwrite_karray :: "sbuf \<Rightarrow> tvalue list \<Rightarrow> bcw_error + sbuf" where
  "bcwrite_karray sb [] = Inr sb"
| "bcwrite_karray sb (o1 # os) = and_then (bcwrite_ktabk sb o1 True) (\<lambda>sb. bcwrite_karray sb os)"

text \<open>From the last node downwards, until \<open>i\<close> entries are written; the loop must not leave the nodes.\<close>

fun bcwrite_khash :: "sbuf \<Rightarrow> node list \<Rightarrow> nat \<Rightarrow> nat \<Rightarrow> bcw_error + sbuf" where
  "bcwrite_khash sb nodes 0 i = Inl BwOverrun"
| "bcwrite_khash sb nodes (Suc n) i =
     (if \<not> tvisnil (nval (nodes ! n)) then
        and_then (bcwrite_ktabk sb (nkey (nodes ! n)) False) (\<lambda>sb.
        and_then (bcwrite_ktabk sb (nval (nodes ! n)) True) (\<lambda>sb.
          if i - 1 = 0 then Inr sb else bcwrite_khash sb nodes n (i - 1)))
      else bcwrite_khash sb nodes n i)"

text \<open>\<open>p\<close> are the bytes already written behind the content of the buffer.\<close>

definition bcwrite_ktab :: "sbuf \<Rightarrow> bytes \<Rightarrow> gctab \<Rightarrow> bcw_error + sbuf" where
  "bcwrite_ktab sb p t =
     (let narray = ktab_narray t; nhash = ktab_nhash t in
      and_then (bw_put sb (p @ uleb_nat narray @ uleb_nat nhash)) (\<lambda>sb.
      and_then (if narray \<noteq> 0 then bcwrite_karray sb (take narray (tarray t)) else Inr sb) (\<lambda>sb.
        if nhash \<noteq> 0 then bcwrite_khash sb (tnode t) (hmask t + 1) nhash else Inr sb)))"

fun kgc_type :: "kgc \<Rightarrow> nat" where
  "kgc_type (KStr s) = BCDUMP_KGC_STR + length s"
| "kgc_type (KProto _) = BCDUMP_KGC_CHILD"
| "kgc_type (KTab _) = BCDUMP_KGC_TAB"
| "kgc_type (KI64 _) = BCDUMP_KGC_I64"
| "kgc_type (KU64 _) = BCDUMP_KGC_U64"
| "kgc_type (KComplex _ _) = BCDUMP_KGC_COMPLEX"

fun kgc_need :: "kgc \<Rightarrow> nat" where
  "kgc_need (KStr s) = 5 + length s"
| "kgc_need (KProto _) = 1"
| "kgc_need (KTab _) = 1 + 2 * 5"
| "kgc_need _ = 1 + 4 * 5"

fun bcwrite_kgc :: "sbuf \<Rightarrow> kgc list \<Rightarrow> bcw_error + sbuf" where
  "bcwrite_kgc sb [] = Inr sb"
| "bcwrite_kgc sb (o1 # os) =
     and_then
       (and_then (bw_more sb (kgc_need o1)) (\<lambda>sb.
          let p = uleb_nat (kgc_type o1) in
          case o1 of
            KStr s \<Rightarrow> bw_put sb (p @ s)
          | KTab t \<Rightarrow> bcwrite_ktab sb p t
          | KI64 u \<Rightarrow> bw_put sb (p @ uleb_u64 u)
          | KU64 u \<Rightarrow> bw_put sb (p @ uleb_u64 u)
          | KComplex re im \<Rightarrow> bw_put sb (p @ uleb_u64 re @ uleb_u64 im)
          | KProto _ \<Rightarrow> bw_put sb p))
       (\<lambda>sb. bcwrite_kgc sb os)"

text \<open>
  A number constant: the lower word with a mark in bit 0, as a ULEB128 of 33 bits. The last byte is
  patched where bit 31 of the word is set, since the 32-bit value to encode has no room for it.
\<close>

definition patch_last :: "bytes \<Rightarrow> u32 \<Rightarrow> bytes" where
  "patch_last p k = butlast p @ [(last p AND 7) OR (ucast (drop_bit 27 k) AND 0x18)]"

definition wuleb128_33 :: "u32 \<Rightarrow> u32 \<Rightarrow> bytes" where
  "wuleb128_33 m k =
     (let p = lj_strfmt_wuleb128 (m + (2 * k OR (k AND 0x80000000)))
      in if k \<ge> 0x80000000 then patch_last p k else p)"

definition knum_bytes :: "u64 \<Rightarrow> bytes" where
  "knum_bytes n =
     (let k = lj_num2int n in
      if num_eq n (num_of_int k) then wuleb128_33 0 (word_of_int k)
      else wuleb128_33 1 (u64_lo n) @ lj_strfmt_wuleb128 (u64_hi n))"

definition bcwrite_knum :: "sbuf \<Rightarrow> u64 list \<Rightarrow> bcw_error + sbuf" where
  "bcwrite_knum sb kn = and_then (bw_more sb (10 * length kn)) (\<lambda>sb. bw_put sb (concat (map knum_bytes kn)))"

section \<open>Instructions and prototypes\<close>

text \<open>\<open>startins r\<close> is the instruction that the trace \<open>r\<close> replaced.\<close>

definition unpatch :: "(nat \<Rightarrow> u32) \<Rightarrow> u32 \<Rightarrow> u32" where
  "unpatch startins i =
     (let op = bc_op i in
      if op = BC_IFORL \<or> op = BC_IITERL \<or> op = BC_ILOOP \<or> op = BC_JFORI then
        setbc_byte i (op + BC_FORL - BC_IFORL) 0
      else if op = BC_JFORL \<or> op = BC_JITERL \<or> op = BC_JLOOP then
        let ins = startins (bc_d i) in
        setbc_byte (setbc_byte (setbc_byte i (op + BC_FORL - BC_JFORL) 0) (bc_c ins) 2) (bc_b ins) 3
      else i)"

definition bcwrite_bytecode :: "(nat \<Rightarrow> u32) \<Rightarrow> gcproto \<Rightarrow> bytes" where
  "bcwrite_bytecode startins pt =
     (let ins = tl (pt_bc pt) in
      concat (map u32_bytes
        (if pt_flags pt AND PROTO_ILOOP \<noteq> 0 \<or> pt_trace pt \<noteq> 0 then map (unpatch startins) ins else ins)))"

record 'w bcwctx =
  bw_sb :: sbuf
  bw_data :: 'w
  bw_strip :: bool
  bw_status :: int

type_synonym 'w writer = "'w \<Rightarrow> bytes \<Rightarrow> int \<times> 'w"

definition sizedbg :: "bool \<Rightarrow> gcproto \<Rightarrow> nat" where
  "sizedbg strip pt = (if strip then 0 else case lineinfo pt of None \<Rightarrow> 0 | Some b \<Rightarrow> length b)"

definition phead :: "bool \<Rightarrow> proto \<Rightarrow> bytes" where
  "phead strip P =
     (let pt = pt_info P; dbg = sizedbg strip pt in
      [pt_flags pt AND (PROTO_CHILD OR PROTO_VARARG OR PROTO_FFI), numparams pt, framesize pt,
       of_nat (length (pt_uv pt))] @
      uleb_nat (length (pt_kgc P)) @ uleb_nat (length (pt_kn pt)) @ uleb_nat (length (pt_bc pt) - 1) @
      (if strip then []
       else uleb_nat dbg @
         (if dbg \<noteq> 0 then lj_strfmt_wuleb128 (firstline pt) @ lj_strfmt_wuleb128 (numline pt) else [])))"

text \<open>
  The part of \<open>bcwrite_proto\<close> behind its children. The buffer is written from its start again, with room
  for the final size in front, of which only the last \<open>nn\<close> bytes are used.
\<close>

definition bcwrite_proto1 :: "'w writer \<Rightarrow> (nat \<Rightarrow> u32) \<Rightarrow> 'w bcwctx \<Rightarrow> proto \<Rightarrow> bcw_error + 'w bcwctx" where
  "bcwrite_proto1 wfunc startins ctx P =
     (let pt = pt_info P; dbg = sizedbg (bw_strip ctx) pt in
      and_then (bw_need (bw_sb ctx) (5 + 4 + 6 * 5 + (length (pt_bc pt) - 1) * 4 + length (pt_uv pt) * 2)) (\<lambda>sb.
      and_then (bw_put (sb\<lparr>sbufdata := []\<rparr>) (replicate 5 0 @ phead (bw_strip ctx) P @
          bcwrite_bytecode startins pt @ concat (map u16_bytes (pt_uv pt)))) (\<lambda>sb.
      and_then (bcwrite_kgc sb (pt_kgc P)) (\<lambda>sb.
      and_then (bcwrite_knum sb (pt_kn pt)) (\<lambda>sb.
      and_then (if dbg \<noteq> 0 then and_then (bw_more sb dbg) (\<lambda>sb. bw_put sb (the (lineinfo pt))) else Inr sb) (\<lambda>sb.
        if bw_status ctx = 0 then
          let n = sbuflen sb - 5;
              nn = (lj_fls (of_nat n) + 8) * 9 div 2 ^ 6;
              w = uleb_nat n;
              b = take (5 - nn) (sbufdata sb) @ w @ drop (5 - nn + length w) (sbufdata sb);
              (st, d) = wfunc (bw_data ctx) (take (nn + n) (drop (5 - nn) b))
          in Inr (ctx\<lparr>bw_sb := sb\<lparr>sbufdata := b\<rparr>, bw_status := st, bw_data := d\<rparr>)
        else Inr (ctx\<lparr>bw_sb := sb\<rparr>)))))))"

text \<open>The children are written first, from the last constant to the first.\<close>

fun bcwrite_proto :: "'w writer \<Rightarrow> (nat \<Rightarrow> u32) \<Rightarrow> 'w bcwctx \<Rightarrow> proto \<Rightarrow> bcw_error + 'w bcwctx"
  and bcwrite_children :: "'w writer \<Rightarrow> (nat \<Rightarrow> u32) \<Rightarrow> 'w bcwctx \<Rightarrow> kgc list \<Rightarrow> bcw_error + 'w bcwctx" where
  "bcwrite_proto wfunc startins ctx (Proto pt ks) =
     and_then (if pt_flags pt AND PROTO_CHILD \<noteq> 0 then bcwrite_children wfunc startins ctx ks else Inr ctx)
       (\<lambda>ctx. bcwrite_proto1 wfunc startins ctx (Proto pt ks))"
| "bcwrite_children wfunc startins ctx [] = Inr ctx"
| "bcwrite_children wfunc startins ctx (k # ks) =
     and_then (bcwrite_children wfunc startins ctx ks) (\<lambda>ctx.
       case k of KProto P \<Rightarrow> bcwrite_proto wfunc startins ctx P | _ \<Rightarrow> Inr ctx)"

definition header_bytes :: "bool \<Rightarrow> gcproto \<Rightarrow> bytes" where
  "header_bytes strip pt =
     [BCDUMP_HEAD1, BCDUMP_HEAD2, BCDUMP_HEAD3, BCDUMP_VERSION,
      (if strip then ucast BCDUMP_F_STRIP else 0) +
        (if pt_flags pt AND PROTO_FFI \<noteq> 0 then ucast BCDUMP_F_FFI else 0)] @
     (if strip then [] else uleb_nat (length (chunkname pt)) @ chunkname pt)"

definition bcwrite_header :: "'w writer \<Rightarrow> 'w bcwctx \<Rightarrow> gcproto \<Rightarrow> bcw_error + 'w bcwctx" where
  "bcwrite_header wfunc ctx pt =
     and_then (bw_need (bw_sb ctx) (5 + 5 + length (chunkname pt))) (\<lambda>sb.
     and_then (bw_put (sb\<lparr>sbufdata := []\<rparr>) (header_bytes (bw_strip ctx) pt)) (\<lambda>sb'.
       let (st, d) = wfunc (bw_data ctx) (sbufdata sb')
       in Inr (ctx\<lparr>bw_sb := sb, bw_status := st, bw_data := d\<rparr>)))"

definition bcwrite_footer :: "'w writer \<Rightarrow> 'w bcwctx \<Rightarrow> 'w bcwctx" where
  "bcwrite_footer wfunc ctx =
     (if bw_status ctx = 0 then
        let (st, d) = wfunc (bw_data ctx) [0] in ctx\<lparr>bw_status := st, bw_data := d\<rparr>
      else ctx)"

definition cpwriter :: "'w writer \<Rightarrow> (nat \<Rightarrow> u32) \<Rightarrow> 'w bcwctx \<Rightarrow> proto \<Rightarrow> bcw_error + 'w bcwctx" where
  "cpwriter wfunc startins ctx P =
     and_then (bw_need (bw_sb ctx) 1024) (\<lambda>sb.
     and_then (bcwrite_header wfunc (ctx\<lparr>bw_sb := sb\<rparr>) (pt_info P)) (\<lambda>ctx.
     and_then (bcwrite_proto wfunc startins ctx P) (\<lambda>ctx. Inr (bcwrite_footer wfunc ctx))))"

text \<open>The status of the callback, with its data at the end; an error is caught by \<open>lj_vm_cpcall\<close>.\<close>

definition lj_bcwrite :: "(nat \<Rightarrow> u32) \<Rightarrow> proto \<Rightarrow> 'w writer \<Rightarrow> 'w \<Rightarrow> bool \<Rightarrow> bcw_error + int \<times> 'w" where
  "lj_bcwrite startins P wfunc wdata strip =
     and_then (cpwriter wfunc startins \<lparr>bw_sb = lj_buf_init, bw_data = wdata, bw_strip = strip, bw_status = 0\<rparr> P)
       (\<lambda>ctx. Inr (bw_status ctx, bw_data ctx))"

end
