(* ===== verification/Lj_Bcwrite_Props.thy ===== *)
theory Lj_Bcwrite_Props
  imports Lj_Bcwrite
begin

text \<open>
  What the bytecode writer writes: each step appends an encoding that is given here as a function of
  what is dumped, or raises the memory error; no step writes past the space it reserved.
\<close>

section \<open>Encodings\<close>

fun enc_ktabk :: "bool \<Rightarrow> tvalue \<Rightarrow> bytes" where
  "enc_ktabk narrow (TStr s) = uleb_nat (BCDUMP_KTAB_STR + length s) @ s"
| "enc_ktabk narrow (TNum n) =
     (if narrow \<and> num_eq n (num_of_int (lj_num2int n))
      then of_nat BCDUMP_KTAB_INT # lj_strfmt_wuleb128 (word_of_int (lj_num2int n))
      else of_nat BCDUMP_KTAB_NUM # uleb_u64 n)"
| "enc_ktabk narrow TFalse = [of_nat BCDUMP_KTAB_FALSE]"
| "enc_ktabk narrow TTrue = [of_nat BCDUMP_KTAB_TRUE]"
| "enc_ktabk narrow _ = [of_nat BCDUMP_KTAB_NIL]"

definition enc_node :: "node \<Rightarrow> bytes" where
  "enc_node n = enc_ktabk False (nkey n) @ enc_ktabk True (nval n)"

definition used_nodes :: "gctab \<Rightarrow> node list" where
  "used_nodes t = (if hmask t > 0 then filter live (rev (tnode t)) else [])"

definition enc_ktab :: "gctab \<Rightarrow> bytes" where
  "enc_ktab t = uleb_nat (ktab_narray t) @ uleb_nat (ktab_nhash t) @
     concat (map (enc_ktabk True) (take (ktab_narray t) (tarray t))) @ concat (map enc_node (used_nodes t))"

fun enc_kgc :: "kgc \<Rightarrow> bytes" where
  "enc_kgc (KStr s) = uleb_nat (BCDUMP_KGC_STR + length s) @ s"
| "enc_kgc (KProto _) = uleb_nat BCDUMP_KGC_CHILD"
| "enc_kgc (KTab t) = uleb_nat BCDUMP_KGC_TAB @ enc_ktab t"
| "enc_kgc (KI64 u) = uleb_nat BCDUMP_KGC_I64 @ uleb_u64 u"
| "enc_kgc (KU64 u) = uleb_nat BCDUMP_KGC_U64 @ uleb_u64 u"
| "enc_kgc (KComplex re im) = uleb_nat BCDUMP_KGC_COMPLEX @ uleb_u64 re @ uleb_u64 im"

definition enc_pdata :: "bool \<Rightarrow> (nat \<Rightarrow> u32) \<Rightarrow> proto \<Rightarrow> bytes" where
  "enc_pdata strip startins P =
     (let pt = pt_info P in
      phead strip P @ bcwrite_bytecode startins pt @ concat (map u16_bytes (pt_uv pt)) @
      concat (map enc_kgc (pt_kgc P)) @ concat (map knum_bytes (pt_kn pt)) @
      (if sizedbg strip pt \<noteq> 0 then the (lineinfo pt) else []))"

definition enc_proto :: "bool \<Rightarrow> (nat \<Rightarrow> u32) \<Rightarrow> proto \<Rightarrow> bytes" where
  "enc_proto strip startins P =
     (let b = enc_pdata strip startins P in uleb_nat (length b) @ b)"

text \<open>The prototypes in the order they are written.\<close>

fun protos_of :: "proto \<Rightarrow> proto list" and children_of :: "kgc list \<Rightarrow> proto list" where
  "protos_of (Proto pt ks) =
     (if pt_flags pt AND PROTO_CHILD \<noteq> 0 then children_of ks else []) @ [Proto pt ks]"
| "children_of [] = []"
| "children_of (k # ks) = children_of ks @ (case k of KProto P \<Rightarrow> protos_of P | _ \<Rightarrow> [])"

section \<open>What can be dumped\<close>

definition ktabk_ok :: "tvalue \<Rightarrow> bool" where
  "ktabk_ok o1 \<longleftrightarrow>
     (case o1 of TStr s \<Rightarrow> length s \<le> LJ_MAX_STR | TNum n \<Rightarrow> \<not> tvismzero (TNum n)
      | TLightud _ \<Rightarrow> False | TGC _ _ \<Rightarrow> False | _ \<Rightarrow> True)"

definition ktab_ok :: "gctab \<Rightarrow> bool" where
  "ktab_ok t \<longleftrightarrow> tab_ok t \<and> (\<forall>v \<in> set (tarray t). ktabk_ok v) \<and>
     (\<forall>n \<in> set (tnode t). live n \<longrightarrow> ktabk_ok (nkey n) \<and> ktabk_ok (nval n))"

definition knum_ok :: "u64 \<Rightarrow> bool" where "knum_ok n \<longleftrightarrow> n \<noteq> 0x8000000000000000"

text \<open>Sizes fit their fields, and the offsets of the debug information are those the parser computes.\<close>

definition dbg_ok :: "(bytes \<Rightarrow> nat \<Rightarrow> nat \<Rightarrow> nat option) \<Rightarrow> (nat \<Rightarrow> u32 \<Rightarrow> nat) \<Rightarrow> gcproto \<Rightarrow> bool" where
  "dbg_ok varinfo_of li_size pt \<longleftrightarrow>
     (case lineinfo pt of
        None \<Rightarrow> True
      | Some b \<Rightarrow> length b < 2 ^ 32 \<and> b \<noteq> [] \<and> uvinfo pt = Some (li_size (length (pt_bc pt) - 1) (numline pt)) \<and>
          varinfo pt \<noteq> None \<and> varinfo pt = varinfo_of b (the (uvinfo pt)) (length (pt_uv pt)))"

definition info_ok :: "gcproto \<Rightarrow> bool" where
  "info_ok pt \<longleftrightarrow> pt_bc pt \<noteq> [] \<and> length (pt_bc pt) \<le> 2 ^ 32 \<and> length (pt_uv pt) < 256 \<and>
     length (pt_kn pt) < 2 ^ 32 \<and> list_all knum_ok (pt_kn pt)"

fun is_child :: "kgc \<Rightarrow> bool" where
  "is_child (KProto _) = True" | "is_child _ = False"

fun kgc_ok :: "(gcproto \<Rightarrow> bool) \<Rightarrow> kgc \<Rightarrow> bool" and proto_ok :: "(gcproto \<Rightarrow> bool) \<Rightarrow> proto \<Rightarrow> bool" where
  "kgc_ok D (KStr s) = (length s \<le> LJ_MAX_STR)"
| "kgc_ok D (KTab t) = ktab_ok t"
| "kgc_ok D (KProto P) = proto_ok D P"
| "kgc_ok D (KI64 u) = True"
| "kgc_ok D (KU64 u) = True"
| "kgc_ok D (KComplex re im) = True"
| "proto_ok D (Proto pt ks) =
     (info_ok pt \<and> D pt \<and> length ks < 2 ^ 32 \<and>
      proto_size (length (pt_bc pt) - 1) (length ks) (length (pt_kn pt)) (length (pt_uv pt)) (sizedbg False pt) \<le> LJ_MAX_MEM32 \<and>
      (pt_flags pt AND PROTO_CHILD = 0 \<longrightarrow> \<not> list_ex is_child ks) \<and>
      (\<forall>k \<in> set ks. kgc_ok D k))"

section \<open>Steps of the writer\<close>

definition puts :: "sbuf \<Rightarrow> bcw_error + sbuf \<Rightarrow> bytes \<Rightarrow> bool" where
  "puts sb r w \<longleftrightarrow> sbuf_ok sb \<longrightarrow>
     (case r of Inl e \<Rightarrow> e = BwMem | Inr sb' \<Rightarrow> sbuf_ok sb' \<and> sbufdata sb' = sbufdata sb @ w)"

lemma puts_ret [simp]: "puts sb (Inr sb) []"
  by (simp add: puts_def)

lemma puts_then:
  assumes "puts sb r w1" and "\<And>sb'. puts sb' (k sb') w2"
  shows "puts sb (and_then r k) (w1 @ w2)"
  using assms unfolding puts_def by (auto simp: and_then_def split: sum.splits) fastforce+

lemma bw_more_cases:
  assumes "sbuf_ok sb"
  obtains "bw_more sb n = Inl BwMem"
  | sb' where "bw_more sb n = Inr sb'" "sbuf_ok sb'" "sbufdata sb' = sbufdata sb" "n \<le> sbufsz sb' - sbuflen sb"
  using lj_buf_more_spec [OF assms, of n] by (auto simp: bw_more_def sbufleft_def split: sum.splits)

lemma bw_put_room: "sbuf_ok sb \<Longrightarrow> length w \<le> sbufsz sb - sbuflen sb \<Longrightarrow> 
    bw_put sb w = Inr (sb\<lparr>sbufdata := sbufdata sb @ w\<rparr>) \<and> sbuf_ok (sb\<lparr>sbufdata := sbufdata sb @ w\<rparr>)"
  by (auto simp: bw_put_def sbuf_ok_def)

text \<open>Reserve space and write into it, then go on.\<close>

lemma puts_more_put:
  assumes "length w \<le> n" and "\<And>sb'. puts sb' (k sb') w2"
  shows "puts sb (and_then (bw_more sb n) (\<lambda>sb. and_then (bw_put sb w) k)) (w @ w2)"
  unfolding puts_def
proof
  assume ok: "sbuf_ok sb"
  show "case and_then (bw_more sb n) (\<lambda>sb. and_then (bw_put sb w) k) of
      Inl e \<Rightarrow> e = BwMem | Inr sb' \<Rightarrow> sbuf_ok sb' \<and> sbufdata sb' = sbufdata sb @ w @ w2"
  proof (cases rule: bw_more_cases [OF ok, of n])
    case (2 sb')
    then have "bw_put sb' w = Inr (sb'\<lparr>sbufdata := sbufdata sb @ w\<rparr>) \<and> sbuf_ok (sb'\<lparr>sbufdata := sbufdata sb @ w\<rparr>)"
      using bw_put_room [of sb' w] assms(1) by simp
    then show ?thesis using 2(1) assms(2) [of "sb'\<lparr>sbufdata := sbufdata sb @ w\<rparr>"]
      by (simp add: puts_def split: sum.splits)
  qed simp
qed

lemma and_then_ret: "and_then r Inr = r"
  by (cases r) simp_all

lemma puts_more: "length w \<le> n \<Longrightarrow> puts sb (and_then (bw_more sb n) (\<lambda>sb. bw_put sb w)) w"
  using puts_more_put [of w n Inr "[]" sb] by (simp add: and_then_ret)

text \<open>A reservation that is not used.\<close>

lemma puts_reserve:
  assumes "\<And>sb'. puts sb' (k sb') w"
  shows "puts sb (and_then (bw_more sb n) k) w"
  unfolding puts_def
proof
  assume ok: "sbuf_ok sb"
  show "case and_then (bw_more sb n) k of Inl e \<Rightarrow> e = BwMem | Inr sb' \<Rightarrow> sbuf_ok sb' \<and> sbufdata sb' = sbufdata sb @ w"
  proof (cases rule: bw_more_cases [OF ok, of n])
    case (2 sb')
    then show ?thesis using assms [of sb'] by (simp add: puts_def split: sum.splits)
  qed simp
qed

lemma length_uleb: "length (uleb_nat n) \<le> 5" "length (uleb_u64 u) \<le> 10"
  using lj_strfmt_wuleb128_length [of "u64_lo u"] lj_strfmt_wuleb128_length [of "u64_hi u"]
    lj_strfmt_wuleb128_length [of "of_nat n"]
  unfolding uleb_nat_def uleb_u64_def length_append by linarith+

lemma puts_ktabk:
  assumes "ktabk_ok o1"
  shows "puts sb (bcwrite_ktabk sb o1 narrow) (enc_ktabk narrow o1)"
proof (cases o1)
  case (TStr s)
  have "puts sb' (and_then (bw_more sb' (5 + length s)) (\<lambda>sb. bw_put sb (uleb_nat (5 + length s) @ s)))
      (uleb_nat (5 + length s) @ s)" for sb' :: sbuf
    by (rule puts_more) (simp add: length_uleb)
  then show ?thesis using TStr puts_reserve by (simp add: bcwrite_ktabk_def)
next
  case (TNum n)
  have "length (lj_strfmt_wuleb128 (word_of_int (lj_num2int n))) \<le> 5" by (rule lj_strfmt_wuleb128_length)
  then show ?thesis using TNum length_uleb(2) [of n]
    by (cases "narrow \<and> num_eq n (num_of_int (lj_num2int n))") (auto simp: bcwrite_ktabk_def Let_def intro!: puts_more)
qed (use assms in \<open>auto simp: bcwrite_ktabk_def ktabk_ok_def intro!: puts_more\<close>)

lemma puts_karray: "\<forall>v \<in> set vs. ktabk_ok v \<Longrightarrow> puts sb (bcwrite_karray sb vs) (concat (map (enc_ktabk True) vs))"
  by (induction vs arbitrary: sb) (auto intro!: puts_then puts_ktabk)

lemma live_tvisnil: "\<not> tvisnil (nval n) \<longleftrightarrow> live n"
  by (simp add: tvisnil_def live_def)

lemma count_used: "count_used ns = length (filter live ns)"
  by (induction ns) (simp_all add: live_tvisnil)

lemma puts_khash:
  assumes "\<forall>n \<in> set nodes. live n \<longrightarrow> ktabk_ok (nkey n) \<and> ktabk_ok (nval n)"
    and "m \<le> length nodes" and "i = length (filter live (take m nodes))" and "0 < i"
  shows "puts sb (bcwrite_khash sb nodes m i) (concat (map enc_node (filter live (rev (take m nodes)))))"
  using assms(2-)
proof (induction m arbitrary: sb i)
  case (Suc m)
  have t: "take (Suc m) nodes = take m nodes @ [nodes ! m]" using Suc.prems(1) by (simp add: take_Suc_conv_app_nth)
  show ?case
  proof (cases "live (nodes ! m)")
    case False
    then show ?thesis using Suc.IH [of i sb] Suc.prems t by (simp add: live_tvisnil)
  next
    case True
    then have i: "i = Suc (length (filter live (take m nodes)))" using Suc.prems(2) t by simp
    have "nodes ! m \<in> set nodes" using Suc.prems(1) by simp
    then have k: "ktabk_ok (nkey (nodes ! m))" "ktabk_ok (nval (nodes ! m))" using assms(1) True by blast+
    have "puts sb' (if i - 1 = 0 then Inr sb' else bcwrite_khash sb' nodes m (i - 1))
        (concat (map enc_node (filter live (rev (take m nodes)))))" for sb'
    proof (cases "i - 1 = 0")
      case True
      then have "filter live (take m nodes) = []" using i by simp
      then have "filter live (rev (take m nodes)) = []" by (simp add: rev_filter flip: rev_filter)
      then show ?thesis using True by simp
    next
      case False
      then show ?thesis using Suc.IH [of "i - 1" sb'] Suc.prems(1) i by simp
    qed
    then have "puts sb (and_then (bcwrite_ktabk sb (nkey (nodes ! m)) False) (\<lambda>sb.
        and_then (bcwrite_ktabk sb (nval (nodes ! m)) True) (\<lambda>sb.
          if i - 1 = 0 then Inr sb else bcwrite_khash sb nodes m (i - 1))))
        (enc_ktabk False (nkey (nodes ! m)) @ enc_ktabk True (nval (nodes ! m)) @
          concat (map enc_node (filter live (rev (take m nodes)))))"
      by (intro puts_then puts_ktabk k)
    moreover have "concat (map enc_node (filter live (rev (take (Suc m) nodes)))) =
        enc_ktabk False (nkey (nodes ! m)) @ enc_ktabk True (nval (nodes ! m)) @
          concat (map enc_node (filter live (rev (take m nodes))))"
      using True t by (simp add: enc_node_def [of "nodes ! m"])
    ultimately show ?thesis using True by (simp only: bcwrite_khash.simps live_tvisnil if_True)
  qed
qed simp

text \<open>The length of a ULEB128 code from the highest bit, as \<open>bcwrite_proto\<close> computes it.\<close>

lemma fls_div: "128 \<le> n \<Longrightarrow> fls_nat n = fls_nat (n div 128) + 7"
proof (rule fls_nat_unique)
  assume n: "128 \<le> n"
  then have d: "0 < n div 128" by (simp add: div_greater_zero_iff)
  have "2 ^ fls_nat (n div 128) \<le> n div 128" by (rule fls_nat_lower [OF d])
  then show "2 ^ (fls_nat (n div 128) + 7) \<le> n" by (simp add: power_add)
  have "n div 128 < 2 ^ Suc (fls_nat (n div 128))" by (rule fls_nat_upper)
  then have "n < 2 ^ Suc (fls_nat (n div 128)) * 128" by (simp add: div_less_iff_less_mult)
  then show "n < 2 ^ Suc (fls_nat (n div 128) + 7)" by (simp add: power_add)
qed

lemma wuleb128_length: "length (lj_strfmt_wuleb128 v) = Suc (fls_nat (unat v) div 7)"
proof (induction v rule: lj_strfmt_wuleb128.induct)
  case (1 v)
  show ?case
  proof (cases "v \<ge> 0x80")
    case True
    then have n: "128 \<le> unat v" by (simp add: word_le_nat_alt)
    have "unat (drop_bit 7 v) = unat v div 128" by (simp only: unat_drop_bit_eq drop_bit_eq_div [of 7 "unat v"]) simp
    then show ?thesis using True 1 fls_div [OF n] by (subst lj_strfmt_wuleb128.simps) simp
  next
    case False
    then have "unat v < 2 ^ Suc 6" by (simp add: word_le_nat_alt)
    then have "fls_nat (unat v) \<le> 6" by (rule fls_nat_le)
    then show ?thesis using False by (subst lj_strfmt_wuleb128.simps) simp
  qed
qed

lemma length_small: "n < 128 \<Longrightarrow> length (uleb_nat n) = 1"
  by (subst uleb_nat_def, subst lj_strfmt_wuleb128.simps) (simp add: word_le_nat_alt unsigned_of_nat take_bit_nat_eq_self)

lemma uleb_size: "(lj_fls v + 8) * 9 div 2 ^ 6 = length (lj_strfmt_wuleb128 v)"
proof -
  have "\<forall>f \<in> set [0..<32]. (f + 8) * 9 div 2 ^ 6 = Suc (f div 7)" by (simp add: upt_rec)
  moreover have "lj_fls v \<in> set [0..<32]" using lj_fls_less_32 [of v] by simp
  ultimately show ?thesis unfolding wuleb128_length lj_fls_def by blast
qed

section \<open>Tables and constants\<close>

lemma puts_ktab_rest:
  assumes "ktab_ok t"
  shows "puts sb (and_then (if ktab_narray t \<noteq> 0 then bcwrite_karray sb (take (ktab_narray t) (tarray t)) else Inr sb) (\<lambda>sb.
        if ktab_nhash t \<noteq> 0 then bcwrite_khash sb (tnode t) (hmask t + 1) (ktab_nhash t) else Inr sb))
      (concat (map (enc_ktabk True) (take (ktab_narray t) (tarray t))) @ concat (map enc_node (used_nodes t)))"
proof (rule puts_then)
  have "\<forall>v \<in> set (take (ktab_narray t) (tarray t)). ktabk_ok v"
    using assms by (auto simp: ktab_ok_def dest: in_set_takeD)
  then show "puts sb (if ktab_narray t \<noteq> 0 then bcwrite_karray sb (take (ktab_narray t) (tarray t)) else Inr sb)
      (concat (map (enc_ktabk True) (take (ktab_narray t) (tarray t))))"
    using puts_karray [of "take (ktab_narray t) (tarray t)" sb] by auto
  fix sb'
  show "puts sb' (if ktab_nhash t \<noteq> 0 then bcwrite_khash sb' (tnode t) (hmask t + 1) (ktab_nhash t) else Inr sb')
      (concat (map enc_node (used_nodes t)))"
  proof (cases "ktab_nhash t = 0")
    case True
    then have "used_nodes t = []"
      by (auto simp: ktab_nhash_def used_nodes_def count_used filter_empty_conv split: if_splits)
    then show ?thesis using True by simp
  next
    case False
    then have h: "hmask t > 0" "ktab_nhash t = length (filter live (tnode t))"
      by (auto simp: ktab_nhash_def count_used split: if_splits)
    then have l: "hmask t + 1 = length (tnode t)" by (simp add: hmask_def)
    have "puts sb' (bcwrite_khash sb' (tnode t) (hmask t + 1) (ktab_nhash t))
        (concat (map enc_node (filter live (rev (take (hmask t + 1) (tnode t))))))"
      by (rule puts_khash) (use assms False h(2) l in \<open>simp_all add: ktab_ok_def\<close>)
    then show ?thesis using False h(1) l by (simp add: used_nodes_def del: bcwrite_khash.simps)
  qed
qed

lemma puts_ktab:
  assumes "ktab_ok t" "length p = 1"
  shows "puts sb (and_then (bw_more sb (1 + 2 * 5)) (\<lambda>sb. bcwrite_ktab sb p t)) (p @ enc_ktab t)"
proof -
  have "length (p @ uleb_nat (ktab_narray t) @ uleb_nat (ktab_nhash t)) \<le> 1 + 2 * 5"
    using length_uleb(1) [of "ktab_narray t"] length_uleb(1) [of "ktab_nhash t"] assms(2) by simp
  from puts_more_put [OF this puts_ktab_rest [OF assms(1)], of sb]
  show ?thesis by (simp add: bcwrite_ktab_def Let_def enc_ktab_def)
qed

lemma puts_kgc: "\<forall>k \<in> set ks. kgc_ok D k \<Longrightarrow> puts sb (bcwrite_kgc sb ks) (concat (map enc_kgc ks))"
proof (induction ks arbitrary: sb)
  case (Cons k ks)
  have l: "length (uleb_nat (kgc_type k)) \<le> 5" "length (uleb_u64 u) \<le> 10" for u by (rule length_uleb)+
  have one: "length (uleb_nat n) = 1" if "n < 5" for n using that length_small [of n] by simp
  have "puts sb (and_then (bw_more sb (kgc_need k)) (\<lambda>sb.
          let p = uleb_nat (kgc_type k) in
          case k of
            KStr s \<Rightarrow> bw_put sb (p @ s)
          | KTab t \<Rightarrow> bcwrite_ktab sb p t
          | KI64 u \<Rightarrow> bw_put sb (p @ uleb_u64 u)
          | KU64 u \<Rightarrow> bw_put sb (p @ uleb_u64 u)
          | KComplex re im \<Rightarrow> bw_put sb (p @ uleb_u64 re @ uleb_u64 im)
          | KProto _ \<Rightarrow> bw_put sb p)) (enc_kgc k)"
  proof (cases k)
    case (KTab t)
    then show ?thesis using puts_ktab [of t "uleb_nat 1" sb] one [of 1] Cons.prems by (simp add: Let_def)
  next
    case (KComplex re im)
    then show ?thesis using one [of 4] l(2) [of re] l(2) [of im] by (auto simp: Let_def intro!: puts_more add_le_mono [of _ 10 _ 10, simplified])
  next
    case (KI64 u)
    then show ?thesis using one [of 2] l(2) [of u] by (auto simp: Let_def intro!: puts_more)
  next
    case (KU64 u)
    then show ?thesis using one [of 3] l(2) [of u] by (auto simp: Let_def intro!: puts_more)
  next
    case (KProto P)
    then show ?thesis using one [of 0] by (auto simp: Let_def intro!: puts_more)
  next
    case (KStr s)
    then show ?thesis using l(1) by (auto simp: Let_def intro!: puts_more)
  qed
  then show ?case unfolding bcwrite_kgc.simps list.map concat.simps
    by (rule puts_then) (use Cons in simp)
qed simp

lemma wuleb128_33_length: "length (wuleb128_33 m k) \<le> 5"
  using lj_strfmt_wuleb128_length [of "m + (2 * k OR (k AND 0x80000000))"]
  by (auto simp: wuleb128_33_def patch_last_def Let_def)

lemma knum_length: "length (knum_bytes n) \<le> 10"
  using wuleb128_33_length [of 0 "word_of_int (lj_num2int n)"] wuleb128_33_length [of 1 "u64_lo n"]
    lj_strfmt_wuleb128_length [of "u64_hi n"]
  by (simp add: knum_bytes_def Let_def)

lemma puts_knum: "puts sb (bcwrite_knum sb kn) (concat (map knum_bytes kn))"
proof -
  have "length (concat (map knum_bytes kn)) \<le> 10 * length kn"
    by (induction kn) (use knum_length in \<open>simp_all add: add_le_mono\<close>)
  then show ?thesis unfolding bcwrite_knum_def by (rule puts_more)
qed

section \<open>Prototypes and dumps\<close>

lemma phead_length: "length (phead strip P) \<le> 4 + 6 * 5"
proof -
  have u: "length (uleb_nat n) \<le> 5" "length (lj_strfmt_wuleb128 v) \<le> 5" for n v
    by (rule length_uleb lj_strfmt_wuleb128_length)+
  show ?thesis
    using u(1) [of "length (pt_kgc P)"] u(1) [of "length (pt_kn (pt_info P))"]
      u(1) [of "length (pt_bc (pt_info P)) - 1"] u(1) [of "sizedbg False (pt_info P)"] u(1) [of 0]
      u(2) [of "firstline (pt_info P)"] u(2) [of "numline (pt_info P)"]
    by (cases strip; cases "sizedbg False (pt_info P) = 0") (simp_all add: phead_def Let_def)
qed

lemma length_words [simp]: "length (concat (map u32_bytes ws)) = length ws * 4" "length (concat (map u16_bytes hs)) = length hs * 2"
  by (induction ws, simp_all) (induction hs, simp_all)

lemma bytecode_length: "length (bcwrite_bytecode startins pt) = (length (pt_bc pt) - 1) * 4"
  by (simp add: bcwrite_bytecode_def Let_def)

lemma bw_need_cases:
  assumes "sbuf_ok sb"
  obtains "bw_need sb n = Inl BwMem"
  | sb' where "bw_need sb n = Inr sb'" "sbuf_ok sb'" "n \<le> sbufsz sb'"
proof (cases "n \<le> sbufsz sb")
  case True
  then show ?thesis using that(2) [of sb] assms by (simp add: bw_need_def lj_buf_need_def)
next
  case False
  then show ?thesis using that buf_grow_size_bound [OF assms, of n]
    by (cases "n \<le> LJ_MAX_BUF") (simp_all add: bw_need_def lj_buf_need_def lj_buf_need2_def)
qed

lemma puts_need_put:
  assumes "sbuf_ok sb" "length w \<le> n" and "\<And>sb'. puts sb' (k sb') w2"
  shows "case and_then (bw_need sb n) (\<lambda>sb. and_then (bw_put (sb\<lparr>sbufdata := []\<rparr>) w) k) of
      Inl e \<Rightarrow> e = BwMem | Inr sb' \<Rightarrow> sbuf_ok sb' \<and> sbufdata sb' = w @ w2"
proof (cases rule: bw_need_cases [OF assms(1), of n])
  case (2 sb')
  then have "bw_put (sb'\<lparr>sbufdata := []\<rparr>) w = Inr (sb'\<lparr>sbufdata := w\<rparr>) \<and> sbuf_ok (sb'\<lparr>sbufdata := w\<rparr>)"
    using assms(2) by (auto simp: bw_put_def sbuf_ok_def)
  then show ?thesis using 2(1) assms(3) [of "sb'\<lparr>sbufdata := w\<rparr>"] by (simp add: puts_def split: sum.splits)
qed simp

lemma and_then_assoc: "and_then (and_then r f) g = and_then r (\<lambda>x. and_then (f x) g)"
  by (cases r) simp_all

text \<open>What the callback is given, and what remains of the context.\<close>

definition emitted :: "'w writer \<Rightarrow> 'w bcwctx \<Rightarrow> bytes \<Rightarrow> bcw_error + 'w bcwctx \<Rightarrow> bool" where
  "emitted wfunc ctx b r \<longleftrightarrow>
     (case r of
        Inl e \<Rightarrow> e = BwMem
      | Inr ctx' \<Rightarrow> sbuf_ok (bw_sb ctx') \<and> bw_strip ctx' = bw_strip ctx \<and>
          (bw_status ctx', bw_data ctx') =
            (if bw_status ctx = 0 then wfunc (bw_data ctx) b else (bw_status ctx, bw_data ctx)))"

lemma final_size:
  assumes "sbufdata sb = replicate 5 0 @ b" "sbuf_ok sb" "b \<noteq> []"
  defines "n \<equiv> sbuflen sb - 5"
  defines "nn \<equiv> (lj_fls (of_nat n) + 8) * 9 div 2 ^ 6"
  defines "c \<equiv> take (5 - nn) (sbufdata sb) @ uleb_nat n @ drop (5 - nn + length (uleb_nat n)) (sbufdata sb)"
  shows "take (nn + n) (drop (5 - nn) c) = uleb_nat (length b) @ b" "sbuf_ok (sb\<lparr>sbufdata := c\<rparr>)"
proof -
  have n: "n = length b" using assms(1) by (simp add: n_def)
  have nn: "nn = length (uleb_nat n)" unfolding nn_def uleb_size uleb_nat_def ..
  have l: "nn \<le> 5" unfolding nn by (rule length_uleb)
  have d: "drop 5 (sbufdata sb) = b" "length (take (5 - nn) (sbufdata sb)) = 5 - nn"
    using assms(1) l by simp_all
  have c: "c = take (5 - nn) (sbufdata sb) @ uleb_nat n @ b" using l d(1) by (simp add: c_def flip: nn)
  show "take (nn + n) (drop (5 - nn) c) = uleb_nat (length b) @ b"
    using d(2) n unfolding c by (simp add: nn)
  have "length c = sbuflen sb" unfolding c using d(2) l assms(1) by (simp flip: nn)
  then show "sbuf_ok (sb\<lparr>sbufdata := c\<rparr>)" using assms(2) by (simp add: sbuf_ok_def)
qed

lemma emitted_finish:
  assumes "sbufdata sb = replicate 5 0 @ b" "sbuf_ok sb" "b \<noteq> []"
  shows "emitted wfunc ctx (uleb_nat (length b) @ b)
    (if bw_status ctx = 0 then
       let n = sbuflen sb - 5;
           nn = (lj_fls (of_nat n) + 8) * 9 div 2 ^ 6;
           w = uleb_nat n;
           c = take (5 - nn) (sbufdata sb) @ w @ drop (5 - nn + length w) (sbufdata sb);
           (st, d) = wfunc (bw_data ctx) (take (nn + n) (drop (5 - nn) c))
       in Inr (ctx\<lparr>bw_sb := sb\<lparr>sbufdata := c\<rparr>, bw_status := st, bw_data := d\<rparr>)
     else Inr (ctx\<lparr>bw_sb := sb\<rparr>))"
proof (cases "bw_status ctx = 0")
  case True
  obtain st d where w: "wfunc (bw_data ctx) (uleb_nat (length b) @ b) = (st, d)" by fastforce
  show ?thesis
    unfolding Let_def final_size(1) [OF assms] w if_P [OF True] prod.case emitted_def sum.case
    using final_size(2) [OF assms] True w by simp
next
  case False
  then show ?thesis using assms(2) by (simp add: emitted_def)
qed

lemma emitted_proto1:
  assumes "sbuf_ok (bw_sb ctx)" and "proto_ok D P"
  shows "emitted wfunc ctx (enc_proto (bw_strip ctx) startins P) (bcwrite_proto1 wfunc startins ctx P)"
proof -
  define pt strip where "pt = pt_info P" and "strip = bw_strip ctx"
  define dbg where "dbg = sizedbg strip pt"
  define h where "h = phead strip P @ bcwrite_bytecode startins pt @ concat (map u16_bytes (pt_uv pt))"
  define d where "d = (if dbg \<noteq> 0 then the (lineinfo pt) else [])"
  define build where "build = and_then (bw_need (bw_sb ctx) (5 + 4 + 6 * 5 + (length (pt_bc pt) - 1) * 4 + length (pt_uv pt) * 2))
      (\<lambda>sb. and_then (bw_put (sb\<lparr>sbufdata := []\<rparr>) (replicate 5 0 @ h)) (\<lambda>sb.
        and_then (bcwrite_kgc sb (pt_kgc P)) (\<lambda>sb. and_then (bcwrite_knum sb (pt_kn pt)) (\<lambda>sb.
          if dbg \<noteq> 0 then and_then (bw_more sb dbg) (\<lambda>sb. bw_put sb (the (lineinfo pt))) else Inr sb))))"
  have k: "\<forall>k \<in> set (pt_kgc P). kgc_ok D k" using assms(2) by (cases P) auto
  have "length (the (lineinfo pt)) \<le> dbg" if "dbg \<noteq> 0"
    using that by (auto simp: dbg_def sizedbg_def split: if_splits option.splits)
  then have "puts sb (if dbg \<noteq> 0 then and_then (bw_more sb dbg) (\<lambda>sb. bw_put sb (the (lineinfo pt))) else Inr sb) d" for sb
    using puts_more unfolding d_def by auto
  then have rest: "puts sb (and_then (bcwrite_kgc sb (pt_kgc P)) (\<lambda>sb. and_then (bcwrite_knum sb (pt_kn pt)) (\<lambda>sb.
      if dbg \<noteq> 0 then and_then (bw_more sb dbg) (\<lambda>sb. bw_put sb (the (lineinfo pt))) else Inr sb)))
      (concat (map enc_kgc (pt_kgc P)) @ concat (map knum_bytes (pt_kn pt)) @ d)" for sb
    by (intro puts_then puts_kgc [OF k] puts_knum)
  have "length (replicate 5 0 @ h) \<le> 5 + 4 + 6 * 5 + (length (pt_bc pt) - 1) * 4 + length (pt_uv pt) * 2"
    using phead_length [of strip P] by (simp add: h_def bytecode_length)
  note B = puts_need_put [OF assms(1) this rest, folded build_def]
  have e: "h @ concat (map enc_kgc (pt_kgc P)) @ concat (map knum_bytes (pt_kn pt)) @ d = enc_pdata strip startins P"
    by (simp add: enc_pdata_def Let_def h_def d_def dbg_def pt_def)
  have "phead strip P \<noteq> []" by (simp add: phead_def Let_def)
  then have ne: "enc_pdata strip startins P \<noteq> []" by (simp add: enc_pdata_def Let_def)
  have w: "bcwrite_proto1 wfunc startins ctx P = and_then build (\<lambda>sb.
        if bw_status ctx = 0 then
          let n = sbuflen sb - 5;
              nn = (lj_fls (of_nat n) + 8) * 9 div 2 ^ 6;
              w = uleb_nat n;
              b = take (5 - nn) (sbufdata sb) @ w @ drop (5 - nn + length w) (sbufdata sb);
              (st, d) = wfunc (bw_data ctx) (take (nn + n) (drop (5 - nn) b))
          in Inr (ctx\<lparr>bw_sb := sb\<lparr>sbufdata := b\<rparr>, bw_status := st, bw_data := d\<rparr>)
        else Inr (ctx\<lparr>bw_sb := sb\<rparr>))"
    by (simp only: build_def h_def dbg_def pt_def strip_def bcwrite_proto1_def Let_def and_then_assoc)
  show ?thesis
  proof (cases build)
    case (Inl x)
    then show ?thesis using B w by (simp add: emitted_def)
  next
    case (Inr sb)
    then have sb: "sbuf_ok sb" "sbufdata sb = replicate 5 0 @ enc_pdata strip startins P" using B e by simp_all
    show ?thesis unfolding w Inr and_then_simps enc_proto_def Let_def strip_def [symmetric]
      by (rule emitted_finish [OF sb(2,1) ne, unfolded Let_def])
  qed
qed

text \<open>The callback is given the pieces one by one, as long as its status is 0.\<close>

fun feed :: "'w writer \<Rightarrow> bytes list \<Rightarrow> int \<times> 'w \<Rightarrow> int \<times> 'w" where
  "feed wfunc [] sd = sd"
| "feed wfunc (b # bs) sd = feed wfunc bs (if fst sd = 0 then wfunc (snd sd) b else sd)"

lemma feed_append: "feed wfunc (bs @ cs) sd = feed wfunc cs (feed wfunc bs sd)"
  by (induction bs arbitrary: sd) simp_all

definition wrote :: "'w writer \<Rightarrow> 'w bcwctx \<Rightarrow> bytes list \<Rightarrow> bcw_error + 'w bcwctx \<Rightarrow> bool" where
  "wrote wfunc ctx bs r \<longleftrightarrow> sbuf_ok (bw_sb ctx) \<longrightarrow>
     (case r of
        Inl e \<Rightarrow> e = BwMem
      | Inr ctx' \<Rightarrow> sbuf_ok (bw_sb ctx') \<and> bw_strip ctx' = bw_strip ctx \<and>
          (bw_status ctx', bw_data ctx') = feed wfunc bs (bw_status ctx, bw_data ctx))"

lemma wrote_ret [simp]: "wrote wfunc ctx [] (Inr ctx)"
  by (simp add: wrote_def)

lemma wrote_then:
  assumes "wrote wfunc ctx bs r" and "\<And>ctx'. bw_strip ctx' = bw_strip ctx \<Longrightarrow> wrote wfunc ctx' cs (k ctx')"
  shows "wrote wfunc ctx (bs @ cs) (and_then r k)"
  unfolding wrote_def
proof
  assume ok: "sbuf_ok (bw_sb ctx)"
  show "case and_then r k of
      Inl e \<Rightarrow> e = BwMem
    | Inr ctx' \<Rightarrow> sbuf_ok (bw_sb ctx') \<and> bw_strip ctx' = bw_strip ctx \<and>
        (bw_status ctx', bw_data ctx') = feed wfunc (bs @ cs) (bw_status ctx, bw_data ctx)"
  proof (cases r)
    case (Inl e)
    then show ?thesis using assms(1) ok by (simp add: wrote_def)
  next
    case (Inr c1)
    then have c1: "sbuf_ok (bw_sb c1)" "bw_strip c1 = bw_strip ctx"
      "feed wfunc bs (bw_status ctx, bw_data ctx) = (bw_status c1, bw_data c1)"
      using assms(1) ok by (simp_all add: wrote_def)
    then show ?thesis using Inr assms(2) [OF c1(2)] by (simp add: wrote_def feed_append split: sum.splits)
  qed
qed

lemma emitted_wrote: "(sbuf_ok (bw_sb ctx) \<Longrightarrow> emitted wfunc ctx b r) \<Longrightarrow> wrote wfunc ctx [b] r"
  by (auto simp: wrote_def emitted_def split: sum.splits)

lemma wrote_proto:
  "proto_ok D P \<Longrightarrow> wrote wfunc ctx (map (enc_proto (bw_strip ctx) startins) (protos_of P)) (bcwrite_proto wfunc startins ctx P)"
  "\<forall>k \<in> set ks. kgc_ok D k \<Longrightarrow> wrote wfunc ctx (map (enc_proto (bw_strip ctx) startins) (children_of ks))
    (bcwrite_children wfunc startins ctx ks)"
proof (induction P and ks arbitrary: ctx and ctx rule: protos_of_children_of.induct)
  case (1 pt ks)
  have c: "wrote wfunc ctx (map (enc_proto (bw_strip ctx) startins) (if pt_flags pt AND PROTO_CHILD \<noteq> 0 then children_of ks else []))
      (if pt_flags pt AND PROTO_CHILD \<noteq> 0 then bcwrite_children wfunc startins ctx ks else Inr ctx)"
    using 1 by auto
  have "wrote wfunc ctx' [enc_proto (bw_strip ctx) startins (Proto pt ks)]
      (bcwrite_proto1 wfunc startins ctx' (Proto pt ks))" if "bw_strip ctx' = bw_strip ctx" for ctx'
    using emitted_wrote [of ctx' wfunc] emitted_proto1 [of ctx' D "Proto pt ks" wfunc startins] "1.prems" that by simp
  from wrote_then [OF c this] show ?case by simp
next
  case (3 k ks)
  have "wrote wfunc ctx' (map (enc_proto (bw_strip ctx) startins) (case k of KProto P \<Rightarrow> protos_of P | _ \<Rightarrow> []))
      (case k of KProto P \<Rightarrow> bcwrite_proto wfunc startins ctx' P | _ \<Rightarrow> Inr ctx')"
    if "bw_strip ctx' = bw_strip ctx" for ctx'
  proof (cases k)
    case (KProto P)
    then have "proto_ok D P" using "3.prems" by auto
    then show ?thesis using "3.IH"(2) [OF KProto, of ctx'] KProto that by simp
  qed simp_all
  then show ?case using wrote_then [OF "3.IH"(1)] "3.prems" by auto
qed simp

definition enc_dump :: "bool \<Rightarrow> (nat \<Rightarrow> u32) \<Rightarrow> proto \<Rightarrow> bytes list" where
  "enc_dump strip startins P =
     header_bytes strip (pt_info P) # map (enc_proto strip startins) (protos_of P) @ [[0]]"

lemma wrote_header:
  "wrote wfunc ctx [header_bytes (bw_strip ctx) pt] (bcwrite_header wfunc ctx pt)" if "bw_status ctx = 0"
  unfolding wrote_def
proof
  assume ok: "sbuf_ok (bw_sb ctx)"
  let ?h = "header_bytes (bw_strip ctx) pt"
  have l: "length ?h \<le> 5 + 5 + length (chunkname pt)"
    using length_uleb(1) [of "length (chunkname pt)"] by (simp add: header_bytes_def)
  obtain st d where w: "wfunc (bw_data ctx) ?h = (st, d)" by fastforce
  show "case bcwrite_header wfunc ctx pt of
      Inl e \<Rightarrow> e = BwMem
    | Inr ctx' \<Rightarrow> sbuf_ok (bw_sb ctx') \<and> bw_strip ctx' = bw_strip ctx \<and>
        (bw_status ctx', bw_data ctx') = feed wfunc [?h] (bw_status ctx, bw_data ctx)"
  proof (cases rule: bw_need_cases [OF ok, of "5 + 5 + length (chunkname pt)"])
    case 1
    then show ?thesis by (simp add: bcwrite_header_def)
  next
    case (2 sb')
    then have "bw_put (sb'\<lparr>sbufdata := []\<rparr>) ?h = Inr (sb'\<lparr>sbufdata := ?h\<rparr>)" using l by (simp add: bw_put_def)
    then show ?thesis using 2 w that by (simp add: bcwrite_header_def)
  qed
qed

lemma lj_bcwrite_spec:
  assumes "proto_ok D P"
  shows "lj_bcwrite startins P wfunc wdata strip = Inl BwMem \<or>
    lj_bcwrite startins P wfunc wdata strip = Inr (feed wfunc (enc_dump strip startins P) (0, wdata))"
proof -
  define c0 where "c0 = \<lparr>bw_sb = lj_buf_init, bw_data = wdata, bw_strip = strip, bw_status = (0 :: int)\<rparr>"
  define h ps where "h = header_bytes strip (pt_info P)" and "ps = map (enc_proto strip startins) (protos_of P)"
  have "wrote wfunc ctx [[0]] (Inr (bcwrite_footer wfunc ctx))" for ctx
    by (cases "wfunc (bw_data ctx) [0]") (simp add: wrote_def bcwrite_footer_def)
  then have "wrote wfunc ctx (ps @ [[0]]) (and_then (bcwrite_proto wfunc startins ctx P) (\<lambda>ctx. Inr (bcwrite_footer wfunc ctx)))"
    if "bw_strip ctx = strip" for ctx
    using wrote_then [OF wrote_proto(1) [OF assms]] that by (fastforce simp: ps_def)
  then have H: "wrote wfunc ctx ([h] @ ps @ [[0]])
      (and_then (bcwrite_header wfunc ctx (pt_info P)) (\<lambda>ctx.
        and_then (bcwrite_proto wfunc startins ctx P) (\<lambda>ctx. Inr (bcwrite_footer wfunc ctx))))"
    if "bw_strip ctx = strip" "bw_status ctx = 0" for ctx
    using wrote_then [OF wrote_header [of ctx wfunc "pt_info P"]] that by (fastforce simp: h_def)
  have ok: "sbuf_ok (bw_sb c0)" by (simp add: c0_def)
  show ?thesis
  proof (cases rule: bw_need_cases [OF ok, of 1024])
    case 1
    then show ?thesis by (simp add: lj_bcwrite_def cpwriter_def flip: c0_def)
  next
    case (2 sb)
    then show ?thesis
      using H [of "c0\<lparr>bw_sb := sb\<rparr>"]
      by (auto simp: lj_bcwrite_def cpwriter_def wrote_def enc_dump_def c0_def h_def ps_def split: sum.splits prod.splits)
  qed
qed

end
