(* ===== verification/Lj_Bcread_Codec.thy ===== *)
theory Lj_Bcread_Codec
  imports Lj_Bcread Lj_Bcwrite_Props
begin

text \<open>
  The bytecode reader reads back what the writer encodes. The locale \<open>codec\<close> is the contract of an
  encoding and its reader; loops over constants are clients of it.
\<close>

lemma rbind_ret [simp]: "rbind (rret x) f = f x"
  by (simp add: rbind_def rret_def)

lemma rbind_Inr: "m s = Inr (x, s') \<Longrightarrow> rbind m f s = f x s'"
  by (simp add: rbind_def)

lemma rret_apply [simp]: "rret x s = Inr (x, s)"
  by (simp add: rret_def)

section \<open>Codecs\<close>

locale codec =
  fixes enc :: "'a \<Rightarrow> bytes" and dec :: "'b reader" and good :: "'a \<Rightarrow> bool" and val :: "'a \<Rightarrow> 'b"
  assumes decode: "good x \<Longrightarrow> ls_p s = enc x @ r \<Longrightarrow> dec s = Inr (val x, s\<lparr>ls_p := r\<rparr>)"
begin

lemma decode_list:
  "\<forall>x \<in> set xs. good x \<Longrightarrow> ls_p s = concat (map enc xs) @ r \<Longrightarrow> n = length xs \<Longrightarrow>
    rtimes n dec s = Inr (map val xs, s\<lparr>ls_p := r\<rparr>)"
proof (induction xs arbitrary: s n)
  case (Cons x xs)
  have "dec s = Inr (val x, s\<lparr>ls_p := concat (map enc xs) @ r\<rparr>)" using Cons.prems by (intro decode) simp_all
  moreover have "rtimes (length xs) dec (s\<lparr>ls_p := concat (map enc xs) @ r\<rparr>) = Inr (map val xs, s\<lparr>ls_p := r\<rparr>)"
    using Cons.IH [of "s\<lparr>ls_p := concat (map enc xs) @ r\<rparr>"] Cons.prems by simp
  ultimately show ?case using Cons.prems(3) by (simp add: rbind_def)
qed simp

end

section \<open>Numbers\<close>

lemma read_uleb: "ls_p s = lj_strfmt_wuleb128 v @ r \<Longrightarrow> bcread_uleb128 s = Inr (v, s\<lparr>ls_p := r\<rparr>)"
  by (simp add: bcread_uleb128_def ruleb128_wuleb128_aux)

interpretation uleb: codec lj_strfmt_wuleb128 bcread_uleb128 "\<lambda>_. True" "\<lambda>v. v"
  by unfold_locales (rule read_uleb)

lemma read_uleb_nat: "ls_p s = uleb_nat n @ r \<Longrightarrow> bcread_uleb128 s = Inr (of_nat n, s\<lparr>ls_p := r\<rparr>)"
  by (simp add: uleb_nat_def read_uleb)

lemma read_u64: "ls_p s = uleb_u64 u @ r \<Longrightarrow> bcread_u64 s = Inr (u, s\<lparr>ls_p := r\<rparr>)"
  using read_uleb [of s "u64_lo u" "lj_strfmt_wuleb128 (u64_hi u) @ r"]
    read_uleb [of "s\<lparr>ls_p := lj_strfmt_wuleb128 (u64_hi u) @ r\<rparr>" "u64_hi u" r]
  by (simp add: bcread_u64_def uleb_u64_def rbind_def)

lemma read_mem: "ls_p s = b @ r \<Longrightarrow> n = length b \<Longrightarrow> bcread_mem n s = Inr (b, s\<lparr>ls_p := r\<rparr>)"
  by (simp add: bcread_mem_def)

lemma read_byte: "ls_p s = b # r \<Longrightarrow> bcread_byte s = Inr (b, s\<lparr>ls_p := r\<rparr>)"
  by (simp add: bcread_byte_def)

text \<open>The 33-bit code.\<close>

lemma ruleb33_loop_wuleb:
  "sh < 32 \<Longrightarrow> unat w < 2 ^ (32 - sh) \<Longrightarrow>
   ruleb33_loop acc sh (lj_strfmt_wuleb128 w @ r) = Some (acc OR push_bit sh w, r)"
proof (induction w arbitrary: acc sh rule: lj_strfmt_wuleb128.induct)
  case (1 w)
  show ?case
  proof (cases "w \<ge> 0x80")
    case True
    have "2 ^ 7 < (2::nat) ^ (32 - sh)" using True "1.prems"(2) by (simp add: word_le_nat_alt)
    then have "7 < 32 - sh" by (rule power_less_imp_less_exp [rotated]) simp
    then have sh: "sh + 7 < 32" by simp
    have "unat (drop_bit 7 w) < 2 ^ (32 - (sh + 7))"
    proof -
      have "32 - sh = 32 - (sh + 7) + 7" using sh by linarith
      then have "(2::nat) ^ (32 - sh) = 2 ^ (32 - (sh + 7)) * 2 ^ 7" by (metis power_add)
      then show ?thesis using "1.prems"(2)
        by (simp only: unat_drop_bit_eq drop_bit_eq_div [of 7 "unat w"]) (simp add: div_less_iff_less_mult)
    qed
    then show ?thesis
      using True sh "1.prems" "1.IH" [OF True sh] uleb_more_mark [of w] uleb_join [of sh w]
      by (subst lj_strfmt_wuleb128.simps) (simp add: Let_def or.assoc del: push_bit_and)
  next
    case False
    then have w: "unat w < 2 ^ 7" by (simp add: word_le_nat_alt)
    have "\<not> (0x80 :: byte) \<le> ucast w"
      using False uleb_last(1) [OF w] ucast_ge_0x80 [of "ucast w"] by simp
    then show ?thesis using False "1.prems" uleb_last [OF w]
      by (subst lj_strfmt_wuleb128.simps) (simp add: Let_def)
  qed
qed

lemma bit_80000000: "bit (0x80000000 :: u32) n \<longleftrightarrow> n = 31"
  using bit_exp_word [of 31 n, where 'a = 32] by auto

lemma bit_enc33:
  assumes "m \<in> {0, 1}"
  shows "bit (m + (2 * k OR (k AND 0x80000000)) :: u32) n \<longleftrightarrow>
    (if n = 0 then m = 1 else n < 32 \<and> (bit k (n - 1) \<or> n = 31 \<and> bit k 31))"
proof -
  have d: "bit (2 * k) n \<longleftrightarrow> 0 < n \<and> n < 32 \<and> bit k (n - 1)" for n
  proof -
    have "2 * k = push_bit 1 k" by (simp add: push_bit_eq_mult)
    then show ?thesis by (simp only: bit_push_bit_iff possible_bit_word) auto
  qed
  have mb: "bit m n \<longleftrightarrow> n = 0 \<and> m = 1" for n using assms by (auto simp: bit_1_iff)
  have "m AND (2 * k OR (k AND 0x80000000)) = 0"
    by (rule bit_word_eqI) (simp only: bit_and_iff bit_or_iff bit_80000000 d mb bit_0_eq, auto)
  then have "m + (2 * k OR (k AND 0x80000000)) = m OR (2 * k OR (k AND 0x80000000))"
    by (rule disjunctive_add_eq_or)
  then show ?thesis by (simp only: bit_and_iff bit_or_iff bit_80000000 d mb) auto
qed

lemma upper_bit:
  fixes b :: "'a::len word"
  assumes "LENGTH('a) = Suc m"
  shows "bit b m \<longleftrightarrow> 2 ^ m \<le> unat b"
proof
  show "bit b m \<Longrightarrow> 2 ^ m \<le> unat b" using word_bit_above [of b m m] not_le by blast
  show "bit b m" if "2 ^ m \<le> unat b"
  proof (rule ccontr)
    assume n: "\<not> bit b m"
    have "\<not> bit b k" if "m \<le> k" for k
      using n that bit_imp_le_length [of b k] assms by (cases "k = m") auto
    then have "unat b < 2 ^ m" by (rule word_less_of_bits)
    then show False using that by simp
  qed
qed

lemma ge_0x80_bit: "(b :: byte) \<ge> 0x80 \<longleftrightarrow> bit b 7"
  using upper_bit [of 7 b] by (simp add: word_le_nat_alt)

lemma ge_bit31: "(k :: u32) \<ge> 0x80000000 \<longleftrightarrow> bit k 31"
  using upper_bit [of 31 k] by (simp add: word_le_nat_alt)

lemma ge_bit: "bit (x :: u32) n \<Longrightarrow> m \<le> n \<Longrightarrow> 2 ^ m \<le> unat x"
  using word_bit_above [of x m n] not_le by blast

text \<open>The first byte: the mark and the lower six bits.\<close>

lemma enc33_first:
  fixes m k :: u32
  assumes m: "m \<in> {0, 1}"
  defines "x \<equiv> m + (2 * k OR (k AND 0x80000000))"
  shows "lj_strfmt_wuleb128 x = (if x \<ge> 0x80 then ucast ((x AND 0x7f) OR 0x80) # lj_strfmt_wuleb128 (drop_bit 7 x) else [ucast x])"
    "x \<ge> 0x80 \<Longrightarrow> (ucast (drop_bit 1 (ucast ((x AND 0x7f) OR 0x80) :: byte)) :: u32) = (k AND 0x3f) OR 0x40"
    "\<not> x \<ge> 0x80 \<Longrightarrow> (ucast (drop_bit 1 (ucast x :: byte)) :: u32) = k \<and> k < 0x40"
    "(ucast ((x AND 0x7f) OR 0x80) :: byte) AND 1 = ucast m" "(ucast x :: byte) AND 1 = ucast m"
proof -
  have bx: "bit x n \<longleftrightarrow> (if n = 0 then m = 1 else n < 32 \<and> (bit k (n - 1) \<or> n = 31 \<and> bit k 31))" for n
    unfolding x_def by (rule bit_enc33 [OF m])
  have mb: "bit m n \<longleftrightarrow> n = 0 \<and> m = 1" for n using m by (auto simp: bit_1_iff)
  show "lj_strfmt_wuleb128 x = (if x \<ge> 0x80 then ucast ((x AND 0x7f) OR 0x80) # lj_strfmt_wuleb128 (drop_bit 7 x) else [ucast x])"
    by (subst lj_strfmt_wuleb128.simps) simp
  show "(ucast (drop_bit 1 (ucast ((x AND 0x7f) OR 0x80) :: byte)) :: u32) = (k AND 0x3f) OR 0x40" if "x \<ge> 0x80"
    by (rule bit_word_eqI, simp only: word_bits bx) auto
  show "(ucast ((x AND 0x7f) OR 0x80) :: byte) AND 1 = ucast m" "(ucast x :: byte) AND 1 = ucast m"
    by (rule bit_word_eqI, simp only: word_bits bx mb bit_1_iff, auto)+
  show "(ucast (drop_bit 1 (ucast x :: byte)) :: u32) = k \<and> k < 0x40" if "\<not> x \<ge> 0x80"
  proof
    have lt: "unat x < 2 ^ 7" using that by (simp add: word_le_nat_alt)
    have nk: "n < 6" if b: "bit k n" for n
    proof (rule ccontr)
      assume "\<not> n < 6"
      have "n < 32" using bit_imp_le_length [OF b] by simp
      then have "bit x (if n = 31 then 31 else n + 1)" using b by (auto simp: bx)
      then show False using word_bit_above [OF lt] \<open>\<not> n < 6\<close> by (auto split: if_splits)
    qed
    show "(ucast (drop_bit 1 (ucast x :: byte)) :: u32) = k"
      by (rule bit_word_eqI, simp only: word_bits bx) (use nk in force)
    have "unat k < 2 ^ 6" by (rule word_less_of_bits) (use nk in force)
    then show "k < 0x40" by (simp add: word_less_nat_alt)
  qed
qed

lemma wuleb_four:
  fixes y :: u32
  assumes "bit y 24" "unat y < 2 ^ 25"
  shows "lj_strfmt_wuleb128 y = [ucast ((y AND 0x7f) OR 0x80), ucast ((drop_bit 7 y AND 0x7f) OR 0x80),
    ucast ((drop_bit 14 y AND 0x7f) OR 0x80), ucast (drop_bit 21 y)]"
proof -
  have g: "drop_bit j y \<ge> 0x80" if "j \<le> 17" for j
    using ge_bit [of "drop_bit j y" "24 - j" 7] assms(1) that by (simp add: bit_drop_bit_eq word_le_nat_alt)
  have "unat (drop_bit 21 y) = unat y div 2 ^ 21" by (simp only: unat_drop_bit_eq drop_bit_eq_div [of 21 "unat y"])
  then have l: "\<not> drop_bit 21 y \<ge> 0x80" using assms(2) by (simp add: word_le_nat_alt less_mult_imp_div_less)
  show ?thesis
    using g [of 0] g [of 7] g [of 14] l
    by (subst lj_strfmt_wuleb128.simps, subst lj_strfmt_wuleb128.simps, subst lj_strfmt_wuleb128.simps,
        subst lj_strfmt_wuleb128.simps) simp
qed

lemma read_uleb33_aux:
  fixes m k :: u32
  assumes m: "m \<in> {0, 1}" and p: "ls_p s = wuleb128_33 m k @ r"
  shows "bcread_uleb128_33 s = Inr (k, s\<lparr>ls_p := r\<rparr>) \<and> hd (ls_p s) AND 1 = ucast m \<and> ls_p s \<noteq> []"
proof -
  define x where "x = m + (2 * k OR (k AND 0x80000000))"
  note F = enc33_first [OF m, of k, folded x_def]
  have bx: "bit x n \<longleftrightarrow> (if n = 0 then m = 1 else n < 32 \<and> (bit k (n - 1) \<or> n = 31 \<and> bit k 31))" for n
    unfolding x_def by (rule bit_enc33 [OF m])
  have w: "wuleb128_33 m k = (if k \<ge> 0x80000000 then patch_last (lj_strfmt_wuleb128 x) k else lj_strfmt_wuleb128 x)"
    by (simp add: wuleb128_33_def x_def Let_def)
  define b0 where "b0 = (ucast ((x AND 0x7f) OR 0x80) :: byte)"
  have more: ?thesis if b: "x \<ge> 0x80" "wuleb128_33 m k = b0 # q" and
    l: "ruleb33_loop (k AND 0x3f) 6 (q @ r) = Some (k, r)" for q
  proof -
    have "((k AND 0x3f) OR 0x40) AND 0x3f = k AND (0x3f :: u32)" by (rule bit_word_eqI, simp only: word_bits) auto
    moreover have "(0x40 :: u32) \<le> (k AND 0x3f) OR 0x40"
    proof -
      have "bit ((k AND 0x3f) OR 0x40) 6" by (simp only: word_bits) simp
      then show ?thesis using ge_bit [of "(k AND 0x3f) OR 0x40" 6 6] by (simp add: word_le_nat_alt)
    qed
    ultimately have "bcread_uleb128_33 s = Inr (k, s\<lparr>ls_p := r\<rparr>)"
      using p b(2) l F(2) [OF b(1), folded b0_def] by (simp add: bcread_uleb128_33_def Let_def)
    then show ?thesis using p b(2) F(4) by (simp add: b0_def)
  qed
  have u: "unat (drop_bit 7 x) < 2 ^ 25"
    using unat_u32_bound [of x] by (simp only: unat_drop_bit_eq drop_bit_eq_div [of 7 "unat x"]) simp
  show ?thesis
  proof (cases "k \<ge> 0x80000000")
    case False
    then have k31: "\<not> bit k 31" by (simp add: ge_bit31)
    show ?thesis
    proof (cases "x \<ge> 0x80")
      case True
      have "(k AND 0x3f) OR push_bit 6 (drop_bit 7 x) = k"
      proof (rule bit_word_eqI)
        fix n assume n: "n < LENGTH(32)"
        show "bit ((k AND 0x3f) OR push_bit 6 (drop_bit 7 x)) n = bit k n"
          using n k31 by (cases "n < 6"; cases "n = 31") (simp_all only: word_bits bx, auto)
      qed
      then show ?thesis
        using more [OF True, of "lj_strfmt_wuleb128 (drop_bit 7 x)"] w False F(1) True
          ruleb33_loop_wuleb [of 6 "drop_bit 7 x" "k AND 0x3f" r] u by (simp add: b0_def)
    next
      case sm: False
      then have "wuleb128_33 m k = [ucast x]" using w False F(1) by simp
      moreover have "\<not> 0x40 \<le> k" using F(3) [OF sm] by (simp add: not_le)
      ultimately show ?thesis using p F(3) [OF sm] F(5) by (simp add: bcread_uleb128_33_def Let_def)
    qed
  next
    case True
    then have k31: "bit k 31" by (simp add: ge_bit31)
    then have x31: "bit x 31" by (simp add: bx)
    have xs: "x \<ge> 0x80" using ge_bit [OF x31, of 7] by (simp add: word_le_nat_alt)
    define y where "y = drop_bit 7 x"
    have y: "bit y 24" using x31 by (simp add: y_def bit_drop_bit_eq)
    define l where "l = ((ucast (drop_bit 21 y) :: byte) AND 7) OR (ucast (drop_bit 27 k) AND 0x18)"
    have q: "wuleb128_33 m k = b0 # [ucast ((y AND 0x7f) OR 0x80), ucast ((drop_bit 7 y AND 0x7f) OR 0x80),
        ucast ((drop_bit 14 y AND 0x7f) OR 0x80), l]"
      using w True F(1) xs wuleb_four [OF y] u by (simp add: patch_last_def b0_def l_def y_def)
    show ?thesis
    proof (rule more [OF xs q])
      show "ruleb33_loop (k AND 0x3f) 6 ([ucast ((y AND 0x7f) OR 0x80), ucast ((drop_bit 7 y AND 0x7f) OR 0x80),
        ucast ((drop_bit 14 y AND 0x7f) OR 0x80), l] @ r) = Some (k, r)"
      proof -
        have yb: "bit y n \<longleftrightarrow> bit x (n + 7)" for n by (simp add: y_def bit_drop_bit_eq add.commute)
        have ms: "bit (7 :: byte) n \<longleftrightarrow> n < 3" "bit (0x18 :: byte) n \<longleftrightarrow> n = 3 \<or> n = 4" for n
        proof -
          have e: "(7 :: byte) = 2 ^ 3 - 1" "(0x18 :: byte) = 2 ^ 3 OR 2 ^ 4" by simp_all
          show "bit (7 :: byte) n \<longleftrightarrow> n < 3" "bit (0x18 :: byte) n \<longleftrightarrow> n = 3 \<or> n = 4"
            unfolding e by (simp_all only: bit_mask_word bit_or_iff bit_exp_word) auto
        qed
        have bl: "bit l n \<longleftrightarrow> n < 3 \<and> bit x (n + 28) \<or> (n = 3 \<or> n = 4) \<and> bit k (n + 27)" for n
          by (simp only: l_def word_bits ms yb) (auto simp: add.commute)
        have "\<not> (0x80 :: byte) \<le> l" by (simp add: ge_0x80_bit bl)
        moreover have "(k AND 0x3f) OR push_bit 6 (y AND 0x7f) OR push_bit 13 (drop_bit 7 y AND 0x7f) OR
            push_bit 20 (drop_bit 14 y AND 0x7f) OR push_bit 27 (ucast l AND 0x7f) = k"
        proof (rule bit_word_eqI)
          fix n assume n: "n < LENGTH(32)"
          let ?e = "(k AND 0x3f) OR push_bit 6 (y AND 0x7f) OR push_bit 13 (drop_bit 7 y AND 0x7f) OR
            push_bit 20 (drop_bit 14 y AND 0x7f) OR push_bit 27 (ucast l AND 0x7f)"
          consider "n < 6" | j where "n = 6 + j" "j < 7" | j where "n = 13 + j" "j < 7" | j where "n = 20 + j" "j < 7"
            | j where "n = 27 + j" "j < 3" | "n = 30" | "n = 31"
          proof -
            assume a: "n < 6 \<Longrightarrow> thesis" "\<And>j. n = 6 + j \<Longrightarrow> j < 7 \<Longrightarrow> thesis"
              "\<And>j. n = 13 + j \<Longrightarrow> j < 7 \<Longrightarrow> thesis" "\<And>j. n = 20 + j \<Longrightarrow> j < 7 \<Longrightarrow> thesis"
              "\<And>j. n = 27 + j \<Longrightarrow> j < 3 \<Longrightarrow> thesis" "n = 30 \<Longrightarrow> thesis" "n = 31 \<Longrightarrow> thesis"
            have "n < 6 \<or> 6 \<le> n \<and> n < 13 \<or> 13 \<le> n \<and> n < 20 \<or> 20 \<le> n \<and> n < 27 \<or> 27 \<le> n \<and> n < 30 \<or> n = 30 \<or> n = 31"
              using n by (simp; linarith)
            then show thesis
              using a(1) a(2) [of "n - 6"] a(3) [of "n - 13"] a(4) [of "n - 20"] a(5) [of "n - 27"] a(6,7) by force
          qed
          then show "bit ?e n = bit k n"
          proof cases
            case 1
            then show ?thesis by (simp only: word_bits) simp
          next
            case (2 j)
            then show ?thesis by (simp only: word_bits yb bx) simp
          next
            case (3 j)
            then show ?thesis by (simp only: word_bits yb bx) simp
          next
            case (4 j)
            then show ?thesis by (simp only: word_bits yb bx) simp
          next
            case (5 j)
            then show ?thesis by (simp only: word_bits bl yb bx) simp
          next
            case 6
            then show ?thesis by (simp only: word_bits bl yb bx) simp
          next
            case 7
            then show ?thesis using k31 by (simp only: word_bits bl yb bx) simp
          qed
        qed
        ultimately show ?thesis using uleb_more_mark by (simp add: Let_def or.assoc)
      qed
    qed
  qed
qed

lemma read_uleb33:
  fixes m k :: u32
  assumes "m \<in> {0, 1}" and "ls_p s = wuleb128_33 m k @ r"
  shows "bcread_uleb128_33 s = Inr (k, s\<lparr>ls_p := r\<rparr>)" "hd (ls_p s) AND 1 = ucast m" "ls_p s \<noteq> []"
  using read_uleb33_aux [OF assms] by simp_all

end
