(* ===== verification/Lj_Bcread_Props.thy ===== *)
theory Lj_Bcread_Props
  imports Lj_Bcread_Codec
begin

text \<open>
  The bytecode reader reads back tables, constants and prototypes.
\<close>

section \<open>Template tables\<close>

lemma of_nat_small: "n < 2 ^ 32 \<Longrightarrow> unat (of_nat n :: u32) = n"
  by (simp add: unsigned_of_nat take_bit_nat_eq_self)

lemma of_nat_zero: "n < 2 ^ 32 \<Longrightarrow> (of_nat n :: u32) = 0 \<longleftrightarrow> n = 0"
  using of_nat_small [of n] by (metis unat_0 unat_eq_zero of_nat_0)

lemma length_str: "length (s :: bytes) \<le> LJ_MAX_STR \<Longrightarrow> 5 + length s < 2 ^ 32"
  by (simp add: LJ_MAX_MEM32_def)

lemma tag_word: "n < 128 \<Longrightarrow> lj_strfmt_wuleb128 (of_nat n) = [of_nat n]"
  by (subst lj_strfmt_wuleb128.simps)
    (simp add: word_le_nat_alt unsigned_of_nat take_bit_nat_eq_self unsigned_ucast_eq word_unat_eq_iff)

lemma read_tag: "n < 128 \<Longrightarrow> ls_p s = of_nat n # r \<Longrightarrow> bcread_uleb128 s = Inr (of_nat n, s\<lparr>ls_p := r\<rparr>)"
  using read_uleb [of s "of_nat n" r] tag_word [of n] by simp

lemma num_value:
  assumes "\<not> tvismzero (TNum n)" "num_eq n (num_of_int (lj_num2int n))"
  shows "num_of_int (lj_num2int n) = n"
  using num_eq_num_of_int [of n "lj_num2int n"] assms by (auto simp: tvismzero_def)

lemma sint_int32: "int32 k \<Longrightarrow> sint (word_of_int k :: u32) = k"
  by (simp add: int32_def signed_of_int signed_take_bit_int_eq_self)

lemma read_ktabk:
  assumes "ktabk_ok o1 \<or> \<not> narrow \<and> (\<exists>n. o1 = TNum n)" and p: "ls_p s = enc_ktabk narrow o1 @ r"
  shows "bcread_ktabk s = Inr (o1, s\<lparr>ls_p := r\<rparr>)"
proof -
  note tag = read_uleb_nat [of s]
  show ?thesis
  proof (cases o1)
    case (TStr b)
    then have l: "5 + length b < 2 ^ 32" using assms(1) length_str by (auto simp: ktabk_ok_def)
    have u: "unat (of_nat (5 + length b) :: u32) = 5 + length b" by (rule of_nat_small [OF l])
    have "(of_nat (5 + length b) :: u32) \<ge> of_nat 5"
      using u by (simp add: word_le_nat_alt)
    moreover have "unat (of_nat (5 + length b) - of_nat 5 :: u32) = length b"
      using of_nat_small [of "length b"] l by simp
    moreover have "bcread_uleb128 s = Inr (of_nat (5 + length b), s\<lparr>ls_p := b @ r\<rparr>)"
      by (rule tag) (use p TStr in simp)
    ultimately show ?thesis using TStr by (simp add: bcread_ktabk_def rbind_Inr read_mem [of _ b r])
  next
    case (TNum n)
    let ?k = "lj_num2int n"
    show ?thesis
    proof (cases "narrow \<and> num_eq n (num_of_int ?k)")
      case True
      then have v: "num_of_int ?k = n" using num_value assms(1) TNum by (auto simp: ktabk_ok_def)
      have q: "bcread_uleb128 s = Inr (of_nat 3, s\<lparr>ls_p := lj_strfmt_wuleb128 (word_of_int ?k) @ r\<rparr>)"
        by (rule read_tag) (use p True TNum in simp_all)
      then show ?thesis using TNum v
        by (simp add: bcread_ktabk_def rbind_Inr read_uleb [of _ "word_of_int ?k" r] sint_int32)
    next
      case False
      have q: "bcread_uleb128 s = Inr (of_nat 4, s\<lparr>ls_p := uleb_u64 n @ r\<rparr>)"
        by (rule read_tag) (use p False TNum in auto)
      then show ?thesis using TNum by (simp add: bcread_ktabk_def rbind_Inr read_u64 [of _ n r])
    qed
  next
    case TNil
    then show ?thesis using read_tag [of 0 s r] p by (simp add: bcread_ktabk_def rbind_Inr)
  next
    case TFalse
    then show ?thesis using read_tag [of 1 s r] p by (simp add: bcread_ktabk_def rbind_Inr word_le_nat_alt)
  next
    case TTrue
    then show ?thesis using read_tag [of 2 s r] p by (simp add: bcread_ktabk_def rbind_Inr)
  qed (use assms in \<open>auto simp: ktabk_ok_def\<close>)
qed

interpretation ktabk: codec "enc_ktabk True" bcread_ktabk ktabk_ok "\<lambda>v. v"
  by unfold_locales (rule read_ktabk, simp_all)

text \<open>The array part is written up to its last used slot.\<close>

lemma last_used_le: "last_used a n \<le> n"
  by (induction n) simp_all

lemma last_used_nil: "last_used a n \<le> i \<Longrightarrow> i < n \<Longrightarrow> a ! i = TNil"
  by (induction n) (auto simp: tvisnil_def less_Suc_eq split: if_splits)

lemma narray_le: "ktab_narray t \<le> asize t"
  using last_used_le [of "tarray t" "asize t"] by (simp add: ktab_narray_def)

lemma narray_nil: "ktab_narray t \<le> i \<Longrightarrow> i < asize t \<Longrightarrow> tarray t ! i = TNil"
  using last_used_nil [of "tarray t" "asize t" i] by (simp add: ktab_narray_def split: if_splits)

text \<open>The loop over the hash part is the insertion of the used nodes.\<close>

definition node_ok :: "node \<Rightarrow> bool" where
  "node_ok n \<longleftrightarrow> live n \<and> ktabk_ok (nkey n) \<and> ktabk_ok (nval n)"

lemma read_khash:
  assumes "\<forall>n \<in> set ns. node_ok n" and "reinsert_hash (lj_tab_newkey 2) t ns = Inr t'"
    and "ls_p s = concat (map enc_node ns) @ r"
  shows "bcread_khash (length ns) t s = Inr (t', s\<lparr>ls_p := r\<rparr>)"
  using assms
proof (induction ns arbitrary: t s)
  case (Cons n ns)
  obtain t1 sl where set: "lj_tab_set t (nkey n) = Inr (t1, sl)"
    and rest: "reinsert_hash (lj_tab_newkey 2) (tab_store t1 sl (nval n)) ns = Inr t'"
    using Cons.prems(1,2) by (auto simp: node_ok_def live_def tvisnil_def lj_tab_set_def split: sum.splits)
  let ?r1 = "enc_ktabk True (nval n) @ concat (map enc_node ns) @ r" and ?r2 = "concat (map enc_node ns) @ r"
  have k: "ktabk_ok (nkey n)" "ktabk_ok (nval n)" using Cons.prems(1) by (simp_all add: node_ok_def)
  have "bcread_ktabk s = Inr (nkey n, s\<lparr>ls_p := ?r1\<rparr>)"
    using read_ktabk [of "nkey n" False s ?r1] k(1) Cons.prems(3) by (simp add: enc_node_def [of n])
  moreover have "bcread_ktabk (s\<lparr>ls_p := ?r1\<rparr>) = Inr (nval n, s\<lparr>ls_p := ?r2\<rparr>)"
    using read_ktabk [of "nval n" True "s\<lparr>ls_p := ?r1\<rparr>" ?r2] k(2) by simp
  moreover have "bcread_khash (length ns) (tab_store t1 sl (nval n)) (s\<lparr>ls_p := ?r2\<rparr>) = Inr (t', s\<lparr>ls_p := r\<rparr>)"
    using Cons.IH [OF _ rest, of "s\<lparr>ls_p := ?r2\<rparr>"] Cons.prems(1) by simp
  ultimately show ?case using set by (simp add: rbind_Inr)
qed simp

text \<open>The table that is read has the same values.\<close>

definition same_values :: "gctab \<Rightarrow> gctab \<Rightarrow> bool" where
  "same_values t t' \<longleftrightarrow> tab_ok t' \<and> (\<forall>q. valid_key q \<longrightarrow> lj_tab_get t' q = lj_tab_get t q)"

lemma used_nodes_live: "tab_ok t \<Longrightarrow> used_nodes t = filter live (rev (tnode t))"
proof (cases "hmask t > 0")
  case False
  assume t: "tab_ok t"
  then have "length (tnode t) = 1" using False hashkey_less [OF t, of TNil] unfolding hmask_def by linarith
  then have "tnode t = [nilnode]" using tab_okD(4) [OF t] by blast
  then show ?thesis using False by (simp add: used_nodes_def live_def nilnode_def)
qed (simp add: used_nodes_def)

lemma length_used: "tab_ok t \<Longrightarrow> ktab_nhash t = length (used_nodes t)"
  using used_nodes_live [of t]
  by (auto simp: ktab_nhash_def used_nodes_def count_used rev_filter [symmetric])

lemma length_used_le: "length (used_nodes t) \<le> length (tnode t)"
  using length_filter_le [of live "rev (tnode t)"] by (simp add: used_nodes_def)

lemma find_distinct:
  "distinct (map f (filter P xs)) \<Longrightarrow> find (\<lambda>x. P x \<and> f x = k) xs = Some x \<longleftrightarrow> x \<in> set xs \<and> P x \<and> f x = k"
proof (induction xs)
  case (Cons a xs)
  show ?case
  proof (cases "P a \<and> f a = k")
    case True
    then have "x \<notin> set xs \<or> \<not> P x \<or> f x \<noteq> k" using Cons.prems True by (auto simp: image_iff)
    then show ?thesis using True by auto
  next
    case False
    then show ?thesis using Cons by (auto split: if_splits)
  qed
qed simp

lemma nodes_le: "tab_ok t \<Longrightarrow> length (tnode t) \<le> 2 ^ 26"
proof -
  assume "tab_ok t"
  then obtain b where b: "b \<le> LJ_MAX_HBITS" "length (tnode t) = 2 ^ b" using tab_okD(2) by blast
  then have "(2 :: nat) ^ b \<le> 2 ^ 26" by (intro power_increasing) (simp_all add: LJ_MAX_HBITS_def)
  then show ?thesis using b(2) by simp
qed

lemma find_used:
  assumes "distinct (map f (filter P xs))"
  shows "find (\<lambda>x. P x \<and> f x = k) (filter P (rev xs)) = find (\<lambda>x. P x \<and> f x = k) xs"
proof -
  have "distinct (map f (filter P (filter P (rev xs))))" using assms by (simp flip: rev_filter rev_map)
  then have "find (\<lambda>x. P x \<and> f x = k) (filter P (rev xs)) = Some x \<longleftrightarrow> find (\<lambda>x. P x \<and> f x = k) xs = Some x" for x
    using find_distinct [of f P "filter P (rev xs)" k x] find_distinct [OF assms, of k x] by auto
  then show ?thesis by (metis option.exhaust)
qed

lemma hsize2hbits_le: "n \<le> 2 ^ 26 \<Longrightarrow> hsize2hbits n \<le> LJ_MAX_HBITS"
proof -
  assume n: "n \<le> 2 ^ 26"
  have "n - 1 < 2 ^ Suc 25" using n by (simp; linarith)
  then have "fls_nat (n - 1) \<le> 25" by (rule fls_nat_le)
  then show ?thesis by (simp add: hsize2hbits_def LJ_MAX_HBITS_def)
qed

lemma newtab_fields:
  assumes "as \<le> LJ_MAX_ASIZE" "hbits \<le> LJ_MAX_HBITS"
  obtains t where "lj_tab_new as hbits = Inr t" "tarray t = replicate as TNil"
    "tnode t = replicate (2 ^ hbits) nilnode" "freetop t = (if hbits = 0 then 0 else 2 ^ hbits)"
  using assms by (cases "hbits = 0") (auto simp: lj_tab_new_def newtab_def newhpart_def Let_def)

lemma table_roundtrip:
  assumes t: "ktab_ok t"
  obtains t0 t' where "lj_tab_new (ktab_narray t) (hsize2hbits (ktab_nhash t)) = Inr t0"
    "asize t0 = ktab_narray t"
    "reinsert_hash (lj_tab_newkey 2) (t0\<lparr>tarray := take (ktab_narray t) (tarray t)\<rparr>) (used_nodes t) = Inr t'"
    "same_values t t'"
proof -
  have ok: "tab_ok t" using t by (simp add: ktab_ok_def)
  note D = tab_okD [OF ok]
  let ?na = "ktab_narray t" and ?nh = "ktab_nhash t" and ?vs = "take (ktab_narray t) (tarray t)"
  let ?hb = "hsize2hbits ?nh"
  have nh: "?nh = length (used_nodes t)" by (rule length_used [OF ok])
  have "?nh \<le> 2 ^ 26" using nh length_used_le [of t] nodes_le [OF ok] by linarith
  then have hb: "?hb \<le> LJ_MAX_HBITS" by (rule hsize2hbits_le)
  have na: "?na \<le> LJ_MAX_ASIZE" using narray_le [of t] D(1) by simp
  obtain t0 where t0: "lj_tab_new ?na ?hb = Inr t0" "tarray t0 = replicate ?na TNil"
    "tnode t0 = replicate (2 ^ ?hb) nilnode" "freetop t0 = (if ?hb = 0 then 0 else 2 ^ ?hb)"
    by (rule newtab_fields [OF na hb])
  define t1 where "t1 = t0\<lparr>tarray := ?vs\<rparr>"
  have l: "length ?vs = ?na" using narray_le [of t] by simp
  have t1: "tab_ok t1"
    by (rule tab_ok_empty [of _ ?hb]) (use na l hb t0(3,4) in \<open>simp_all add: t1_def\<close>)
  have used: "used_nodes t = filter live (rev (tnode t))" by (rule used_nodes_live [OF ok])
  have dk: "distinct (map nkey (filter live (tnode t)))" by (rule distinct_keys [OF D(3)])
  have keys: "\<forall>n \<in> set (used_nodes t). live n \<longrightarrow> key_ok (nkey n)"
  proof (intro ballI impI)
    fix n assume "n \<in> set (used_nodes t)" "live n"
    then obtain x where x: "x < length (tnode t)" "n = tnode t ! x" by (auto simp: used in_set_conv_nth)
    then show "key_ok (nkey n)" using hash_okD(3,4) [OF D(3) x(1)] \<open>live n\<close> by (auto simp: live_def)
  qed
  have dist: "distinct (map nkey (filter live (used_nodes t)))" using dk by (simp add: used flip: rev_filter rev_map)
  have e: "card (keyed (tnode t1)) = 0" using t0(3) by (simp add: t1_def)
  have lt: "length (tnode t1) = 2 ^ ?hb" using t0(3) by (simp add: t1_def)
  have "?nh \<le> capacity t1"
    using hsize2hbits_enough [of ?nh] lt by (cases "?hb = 0") (simp_all add: capacity_def)
  moreover have "length (filter (\<lambda>n. live n \<and> \<not> in_arr t1 (nkey n)) (used_nodes t)) \<le> ?nh"
    unfolding nh by (rule length_filter_le)
  ultimately have "card (keyed (tnode t1)) + length (filter (\<lambda>n. live n \<and> \<not> in_arr t1 (nkey n)) (used_nodes t)) \<le> capacity t1"
    using e by linarith
  from reinsert_hash_spec [OF t1 keys dist this, of "lj_tab_newkey 1"]
  obtain t' where R: "reinsert_hash (newkey_with (lj_tab_newkey 1)) t1 (used_nodes t) = Inr t'" "tab_ok t'"
    "\<forall>k. key_ok k \<longrightarrow> tget t' k =
      (case find (\<lambda>n. live n \<and> nkey n = k) (used_nodes t) of Some n \<Rightarrow> nval n | None \<Rightarrow> tget t1 k)"
    by blast
  have g: "tget t' k = tget t k" if k: "key_ok k" for k
  proof -
    let ?f = "find (\<lambda>n. live n \<and> nkey n = k) (tnode t)"
    have f: "find (\<lambda>n. live n \<and> nkey n = k) (used_nodes t) = ?f" unfolding used by (rule find_used [OF dk])
    have h: "(case ?f of Some n \<Rightarrow> nval n | None \<Rightarrow> TNil) = hget (tnode t) k"
      by (rule hget_find [OF D(3)]) (use k in simp)
    have t1g: "tget t1 k = (case int_key k of Some i \<Rightarrow> if inarray t1 i then ?vs ! nat i else TNil | None \<Rightarrow> TNil)"
    proof -
      have tn: "tnode t1 = replicate (2 ^ ?hb) nilnode" and ta: "tarray t1 = ?vs" using t0(3) by (simp_all add: t1_def)
      show ?thesis using tget_empty [OF tn k] unfolding ta .
    qed
    have R3: "tget t' k = (case ?f of Some n \<Rightarrow> nval n | None \<Rightarrow> tget t1 k)"
      using R(3) k unfolding f [symmetric] by blast
    show ?thesis
    proof (cases "int_key k")
      case None
      then have "tget t1 k = TNil" "tget t k = hget (tnode t) k" using t1g by (simp_all add: tget_def [of t])
      then show ?thesis using R3 h by (simp split: option.splits)
    next
      case (Some i)
      have i32: "int32 i" using int_key_Some [OF k Some] by simp
      have a: "inarray t i \<longleftrightarrow> 0 \<le> i \<and> nat i < asize t" by (rule inarray_iff [OF D(1) i32])
      have a1: "inarray t1 i \<longleftrightarrow> 0 \<le> i \<and> nat i < ?na"
        using inarray_iff [of t1 i] l na i32 by (auto simp: t1_def)
      show ?thesis
      proof (cases "inarray t i")
        case True
        have "?f = None"
          unfolding find_None_iff using D(7) Some True by (auto simp: in_set_conv_nth)
        moreover have "(if inarray t1 i then ?vs ! nat i else TNil) = tarray t ! nat i"
          using a a1 True narray_nil [of t "nat i"] by auto
        ultimately show ?thesis using R3 t1g Some True by (simp add: tget_def [of t])
      next
        case False
        then have "\<not> inarray t1 i" using a a1 narray_le [of t] by auto
        then have "tget t1 k = TNil" "tget t k = hget (tnode t) k" using t1g Some False by (simp_all add: tget_def [of t])
        then show ?thesis using R3 h by (simp split: option.splits)
      qed
    qed
  qed
  have "same_values t t'"
    using R(2) g valid_norm lj_tab_get_spec [OF ok] lj_tab_get_spec [OF R(2)] by (simp add: same_values_def)
  moreover have "lj_tab_newkey 2 = newkey_with (lj_tab_newkey 1)" by (simp add: numeral_2_eq_2)
  ultimately show thesis using that [OF t0(1)] t0(2) R(1) by (simp add: t1_def)
qed

lemma read_ktab:
  assumes t: "ktab_ok t" and p: "ls_p s = enc_ktab t @ r"
  shows "\<exists>t'. bcread_ktab s = Inr (t', s\<lparr>ls_p := r\<rparr>) \<and> same_values t t'"
proof -
  obtain t0 t' where T: "lj_tab_new (ktab_narray t) (hsize2hbits (ktab_nhash t)) = Inr t0" "asize t0 = ktab_narray t"
    "reinsert_hash (lj_tab_newkey 2) (t0\<lparr>tarray := take (ktab_narray t) (tarray t)\<rparr>) (used_nodes t) = Inr t'"
    "same_values t t'"
    by (rule table_roundtrip [OF t])
  have ok: "tab_ok t" using t by (simp add: ktab_ok_def)
  let ?na = "ktab_narray t" and ?nh = "ktab_nhash t" and ?vs = "take (ktab_narray t) (tarray t)"
  let ?rh = "concat (map enc_node (used_nodes t)) @ r"
  let ?ra = "concat (map (enc_ktabk True) ?vs) @ ?rh"
  have lt: "?na < 2 ^ 32" "?nh < 2 ^ 32"
    using narray_le [of t] tab_okD(1) [OF ok] LJ_MAX_ASIZE_less length_used_le [of t] length_used [OF ok]
      nodes_le [OF ok] by simp_all
  note na = of_nat_small [OF lt(1)] and nh = of_nat_small [OF lt(2)]
  have q: "bcread_uleb128 s = Inr (of_nat ?na, s\<lparr>ls_p := uleb_nat ?nh @ ?ra\<rparr>)"
    "bcread_uleb128 (s\<lparr>ls_p := uleb_nat ?nh @ ?ra\<rparr>) = Inr (of_nat ?nh, s\<lparr>ls_p := ?ra\<rparr>)"
    using p by (simp_all add: enc_ktab_def read_uleb_nat)
  define ma where "ma = (if (of_nat ?na :: u32) \<noteq> 0 then rbind (rtimes ?na bcread_ktabk) (\<lambda>vs. rret (t0\<lparr>tarray := vs\<rparr>)) else rret t0)"
  define mh where "mh = (\<lambda>t. if (of_nat ?nh :: u32) \<noteq> 0 then bcread_khash ?nh t else rret t)"
  have vs: "\<forall>v \<in> set ?vs. ktabk_ok v" using t by (auto simp: ktab_ok_def dest: in_set_takeD)
  have l: "length ?vs = ?na" using narray_le [of t] by simp
  have "rtimes ?na bcread_ktabk (s\<lparr>ls_p := ?ra\<rparr>) = Inr (?vs, s\<lparr>ls_p := ?rh\<rparr>)"
    using ktabk.decode_list [OF vs, of "s\<lparr>ls_p := ?ra\<rparr>" ?rh ?na] l by simp
  moreover have "(of_nat ?na :: u32) = 0 \<longleftrightarrow> ?na = 0" by (rule of_nat_zero [OF lt(1)])
  moreover have "t0\<lparr>tarray := ?vs\<rparr> = t0" if "?na = 0" using T(2) that by simp
  ultimately have a: "ma (s\<lparr>ls_p := ?ra\<rparr>) = Inr (t0\<lparr>tarray := ?vs\<rparr>, s\<lparr>ls_p := ?rh\<rparr>)"
    by (cases "?na = 0") (simp_all add: rbind_Inr ma_def)
  have ns: "\<forall>n \<in> set (used_nodes t). node_ok n" using t by (auto simp: ktab_ok_def node_ok_def used_nodes_def split: if_splits)
  have "bcread_khash ?nh (t0\<lparr>tarray := ?vs\<rparr>) (s\<lparr>ls_p := ?rh\<rparr>) = Inr (t', s\<lparr>ls_p := r\<rparr>)"
    using read_khash [OF ns T(3), of "s\<lparr>ls_p := ?rh\<rparr>" r] length_used [OF ok] by simp
  moreover have "(of_nat ?nh :: u32) = 0 \<longleftrightarrow> ?nh = 0" by (rule of_nat_zero [OF lt(2)])
  ultimately have h: "mh (t0\<lparr>tarray := ?vs\<rparr>) (s\<lparr>ls_p := ?rh\<rparr>) = Inr (t', s\<lparr>ls_p := r\<rparr>)"
    by (cases "?nh = 0") (simp_all add: mh_def)
  have "bcread_ktab s = rbind ma mh (s\<lparr>ls_p := ?ra\<rparr>)"
    using q by (simp add: bcread_ktab_def rbind_Inr T(1) na nh ma_def mh_def [abs_def])
  then show ?thesis using h T(4) by (simp add: rbind_Inr [of ma, OF a])
qed

end
