(* ===== verification/Lj_Bcread_Proto.thy ===== *)
theory Lj_Bcread_Proto
  imports Lj_Bcread_Props
begin

text \<open>
  The bytecode reader reads back constants and prototypes. A prototype that is read is the one that was
  written (\<open>proto_same\<close>), up to the layout of its template tables and what \<open>dumped\<close> says of its fields:
  the instructions that traces replaced are back, and a stripped dump has no debug information.
\<close>

section \<open>What is read\<close>

definition dumped_bc :: "(nat \<Rightarrow> u32) \<Rightarrow> gcproto \<Rightarrow> u32 list" where
  "dumped_bc startins pt =
     BCINS_AD (if pt_flags pt AND PROTO_VARARG \<noteq> 0 then BC_FUNCV else BC_FUNCF) (ucast (framesize pt)) 0 #
     (if pt_flags pt AND PROTO_ILOOP \<noteq> 0 \<or> pt_trace pt \<noteq> 0 then map (unpatch startins) (tl (pt_bc pt))
      else tl (pt_bc pt))"

definition dumped :: "bool \<Rightarrow> (nat \<Rightarrow> u32) \<Rightarrow> bytes \<Rightarrow> gcproto \<Rightarrow> gcproto" where
  "dumped strip startins name pt =
     (let pt' = pt\<lparr>pt_flags := pt_flags pt AND (PROTO_CHILD OR PROTO_VARARG OR PROTO_FFI),
                  pt_bc := dumped_bc startins pt, pt_trace := 0, chunkname := name\<rparr>
      in if sizedbg strip pt \<noteq> 0 then pt'
         else pt'\<lparr>firstline := 0, numline := 0, lineinfo := None, uvinfo := None, varinfo := None\<rparr>)"

fun kgc_same :: "(gcproto \<Rightarrow> gcproto) \<Rightarrow> kgc \<Rightarrow> kgc \<Rightarrow> bool"
  and proto_same :: "(gcproto \<Rightarrow> gcproto) \<Rightarrow> proto \<Rightarrow> proto \<Rightarrow> bool" where
  "kgc_same F (KStr s) k' = (k' = KStr s)"
| "kgc_same F (KProto P) k' = (case k' of KProto P' \<Rightarrow> proto_same F P P' | _ \<Rightarrow> False)"
| "kgc_same F (KTab t) k' = (case k' of KTab t' \<Rightarrow> same_values t t' | _ \<Rightarrow> False)"
| "kgc_same F (KI64 u) k' = (k' = KI64 u)"
| "kgc_same F (KU64 u) k' = (k' = KU64 u)"
| "kgc_same F (KComplex re im) k' = (k' = KComplex re im)"
| "proto_same F (Proto pt ks) P' = (pt_info P' = F pt \<and> list_all2 (kgc_same F) ks (pt_kgc P'))"

fun children :: "kgc list \<Rightarrow> proto list" where
  "children [] = []"
| "children (k # ks) = (case k of KProto P \<Rightarrow> [P] | _ \<Rightarrow> []) @ children ks"

section \<open>Constants\<close>

lemma read_kgc1:
  assumes k: "kgc_ok D k" "\<not> is_child k" and p: "ls_p s = enc_kgc k @ r"
  shows "\<exists>k'. bcread_kgc1 s = Inr (k', s\<lparr>ls_p := r\<rparr>) \<and> kgc_same F k k'"
proof (cases k)
  case (KStr b)
  then have l: "5 + length b < 2 ^ 32" using k(1) length_str by auto
  have u: "unat (of_nat (5 + length b) :: u32) = 5 + length b" by (rule of_nat_small [OF l])
  have "(of_nat (5 + length b) :: u32) \<ge> of_nat 5" using u by (simp add: word_le_nat_alt)
  moreover have "unat (of_nat (5 + length b) - of_nat 5 :: u32) = length b"
    using of_nat_small [of "length b"] l by simp
  moreover have "bcread_uleb128 s = Inr (of_nat (5 + length b), s\<lparr>ls_p := b @ r\<rparr>)"
    by (rule read_uleb_nat) (use p KStr in simp)
  ultimately show ?thesis using KStr by (simp add: bcread_kgc1_def rbind_Inr read_mem [of _ b r])
next
  case (KTab t)
  have "bcread_uleb128 s = Inr (of_nat 1, s\<lparr>ls_p := enc_ktab t @ r\<rparr>)"
    by (rule read_uleb_nat) (use p KTab in simp)
  moreover obtain t' where "bcread_ktab (s\<lparr>ls_p := enc_ktab t @ r\<rparr>) = Inr (t', s\<lparr>ls_p := r\<rparr>)" "same_values t t'"
    using read_ktab [of t "s\<lparr>ls_p := enc_ktab t @ r\<rparr>" r] k(1) KTab by auto
  ultimately show ?thesis using KTab by (simp add: bcread_kgc1_def rbind_Inr word_le_nat_alt)
next
  case (KI64 u)
  have "bcread_uleb128 s = Inr (of_nat 2, s\<lparr>ls_p := uleb_u64 u @ r\<rparr>)"
    by (rule read_uleb_nat) (use p KI64 in simp)
  then show ?thesis using KI64
    by (simp add: bcread_kgc1_def rbind_Inr word_le_nat_alt read_u64 [of _ u r])
next
  case (KU64 u)
  have "bcread_uleb128 s = Inr (of_nat 3, s\<lparr>ls_p := uleb_u64 u @ r\<rparr>)"
    by (rule read_uleb_nat) (use p KU64 in simp)
  then show ?thesis using KU64
    by (simp add: bcread_kgc1_def rbind_Inr word_le_nat_alt read_u64 [of _ u r])
next
  case (KComplex re im)
  have "bcread_uleb128 s = Inr (of_nat 4, s\<lparr>ls_p := uleb_u64 re @ uleb_u64 im @ r\<rparr>)"
    by (rule read_uleb_nat) (use p KComplex in simp)
  then show ?thesis using KComplex
    by (simp add: bcread_kgc1_def rbind_Inr word_le_nat_alt read_u64 [of _ re "uleb_u64 im @ r"] read_u64 [of _ im r])
qed (use k in simp_all)

lemma read_child:
  assumes "ls_p s = enc_kgc (KProto P) @ r" "ls_top s = P' # Ps"
  shows "bcread_kgc1 s = Inr (KProto P', s\<lparr>ls_p := r, ls_top := Ps\<rparr>)"
proof -
  have "bcread_uleb128 s = Inr (of_nat 0, s\<lparr>ls_p := r\<rparr>)" by (rule read_uleb_nat) (use assms in simp)
  then show ?thesis using assms(2) by (simp add: bcread_kgc1_def rbind_Inr bcread_child_def)
qed

lemma read_kgc:
  assumes "\<forall>k \<in> set ks. kgc_ok D k" and "ls_p s = concat (map enc_kgc ks) @ r"
    and "ls_top s = Ps @ top0" and "list_all2 (proto_same F) (children ks) Ps"
  shows "\<exists>ks'. bcread_kgc (length ks) s = Inr (ks', s\<lparr>ls_p := r, ls_top := top0\<rparr>) \<and> list_all2 (kgc_same F) ks ks'"
  using assms
proof (induction ks arbitrary: s Ps)
  case (Cons k ks)
  let ?r = "concat (map enc_kgc ks) @ r"
  have "\<exists>k' s' Ps'. bcread_kgc1 s = Inr (k', s') \<and> s' = s\<lparr>ls_p := ?r, ls_top := Ps' @ top0\<rparr> \<and> kgc_same F k k' \<and>
      list_all2 (proto_same F) (children ks) Ps'"
  proof (cases "is_child k")
    case False
    then have "children (k # ks) = children ks" by (cases k) simp_all
    then show ?thesis
      using read_kgc1 [of D k s ?r F] Cons.prems False by (fastforce intro: exI [of _ Ps])
  next
    case True
    then obtain P where P: "k = KProto P" by (cases k) simp_all
    then obtain P' Ps' where P': "Ps = P' # Ps'" "proto_same F P P'" "list_all2 (proto_same F) (children ks) Ps'"
      using Cons.prems(4) by (auto simp: list_all2_Cons1)
    have "bcread_kgc1 s = Inr (KProto P', s\<lparr>ls_p := ?r, ls_top := Ps' @ top0\<rparr>)"
      by (rule read_child [of _ P]) (use Cons.prems(2,3) P P'(1) in simp_all)
    then show ?thesis using P P' by fastforce
  qed
  then obtain k' s' Ps' where k: "bcread_kgc1 s = Inr (k', s')" "s' = s\<lparr>ls_p := ?r, ls_top := Ps' @ top0\<rparr>"
    "kgc_same F k k'" "list_all2 (proto_same F) (children ks) Ps'"
    by blast
  then obtain ks' where "bcread_kgc (length ks) s' = Inr (ks', s\<lparr>ls_p := r, ls_top := top0\<rparr>)" "list_all2 (kgc_same F) ks ks'"
    using Cons.IH [of s' Ps'] Cons.prems(1) by auto
  then show ?case using k(1,3) by (simp add: bcread_kgc_def rbind_Inr)
qed (simp add: bcread_kgc_def)

lemma read_knum1:
  assumes n: "knum_ok n" and p: "ls_p s = knum_bytes n @ r"
  shows "bcread_knum1 s = Inr (n, s\<lparr>ls_p := r\<rparr>)"
proof -
  let ?k = "lj_num2int n"
  have "\<not> tvismzero (TNum n)" using n by (simp add: knum_ok_def tvismzero_def)
  note v = num_value [OF this]
  have isnum: "bcread_isnum s = Inr (hd (ls_p s) AND 1 \<noteq> 0, s)" if "ls_p s \<noteq> []"
    using that by (cases "ls_p s") (simp_all add: bcread_isnum_def)
  show ?thesis
  proof (cases "num_eq n (num_of_int ?k)")
    case True
    then have q: "ls_p s = wuleb128_33 0 (word_of_int ?k) @ r" using p by (simp add: knum_bytes_def Let_def)
    note U = read_uleb33 [OF _ q, simplified]
    have "bcread_isnum s = Inr (False, s)" using isnum [OF U(3)] U(2) by simp
    then show ?thesis using U(1) v [OF True]
      by (simp add: bcread_knum1_def rbind_Inr [of bcread_isnum _ False] rbind_Inr [of bcread_uleb128_33] sint_int32)
  next
    case False
    then have q: "ls_p s = wuleb128_33 1 (u64_lo n) @ lj_strfmt_wuleb128 (u64_hi n) @ r"
      using p by (simp add: knum_bytes_def Let_def)
    note U = read_uleb33 [OF _ q, simplified]
    show ?thesis using isnum [OF U(3)] U(1,2) read_uleb [of _ "u64_hi n" r]
      by (simp add: bcread_knum1_def rbind_Inr)
  qed
qed

interpretation knum: codec knum_bytes bcread_knum1 knum_ok "\<lambda>n. n"
  by unfold_locales (rule read_knum1)


section \<open>Prototypes\<close>

lemma words_of_bytes: "words_of (length ws) (concat (map u32_bytes ws)) = ws"
proof (induction ws)
  case (Cons w ws)
  have "words_of (Suc n) (u32_bytes w @ r) = w # words_of n r" for n r
    unfolding words_of_def upt_conv_Cons [OF zero_less_Suc] map_Suc_upt [symmetric] by simp
  then show ?case using Cons by simp
qed (simp add: words_of_def)

lemma halfs_of_bytes: "halfs_of (length ws) (concat (map u16_bytes ws)) = ws"
proof (induction ws)
  case (Cons w ws)
  have "halfs_of (Suc n) (u16_bytes w @ r) = w # halfs_of n r" for n r
    unfolding halfs_of_def upt_conv_Cons [OF zero_less_Suc] map_Suc_upt [symmetric] by simp
  then show ?case using Cons by simp
qed (simp add: halfs_of_def)

text \<open>The flags of a dump, as the header sets them.\<close>

definition level_ok :: "bool \<Rightarrow> u32 \<Rightarrow> bool" where
  "level_ok strip level \<longleftrightarrow> (level AND BCDUMP_F_STRIP \<noteq> 0 \<longleftrightarrow> strip) \<and> \<not> bcread_swap level"

lemma read_bytecode:
  assumes "level_ok strip (ls_level s)" and "ls_p s = bcwrite_bytecode startins pt @ r" and "n = length (pt_bc pt) - 1"
    and f: "flags AND PROTO_VARARG = pt_flags pt AND PROTO_VARARG"
  shows "bcread_bytecode flags (framesize pt) n s = Inr (dumped_bc startins pt, s\<lparr>ls_p := r\<rparr>)"
proof -
  have "words_of n (bcwrite_bytecode startins pt) = tl (dumped_bc startins pt)"
    using assms(3) words_of_bytes [of "tl (dumped_bc startins pt)"]
    by (auto simp: bcwrite_bytecode_def dumped_bc_def Let_def)
  moreover have "bcread_mem (n * 4) s = Inr (bcwrite_bytecode startins pt, s\<lparr>ls_p := r\<rparr>)"
    by (rule read_mem [OF assms(2)]) (simp add: bytecode_length assms(3))
  ultimately show ?thesis using assms(1) f
    by (simp add: bcread_bytecode_def rbind_Inr level_ok_def Let_def dumped_bc_def)
qed

lemma read_uv:
  assumes "level_ok strip (ls_level s)" and "ls_p s = concat (map u16_bytes uv) @ r" and "n = length uv"
  shows "bcread_uv n s = Inr (uv, s\<lparr>ls_p := r\<rparr>)"
proof (cases "uv = []")
  case False
  have "bcread_mem (n * 2) s = Inr (concat (map u16_bytes uv), s\<lparr>ls_p := r\<rparr>)"
    by (rule read_mem [OF assms(2)]) (simp add: assms(3))
  then show ?thesis using False assms by (simp add: bcread_uv_def rbind_Inr level_ok_def Let_def halfs_of_bytes)
qed (use assms in \<open>simp add: bcread_uv_def\<close>)

text \<open>The debug information.\<close>

definition dbg_bytes :: "bool \<Rightarrow> gcproto \<Rightarrow> bytes" where
  "dbg_bytes strip pt = (if sizedbg strip pt \<noteq> 0 then the (lineinfo pt) else [])"

abbreviation dbg_good :: "gcproto \<Rightarrow> bool" where "dbg_good \<equiv> dbg_ok bcread_varinfo sizeli"

lemma sizedbg_pos:
  assumes "dbg_good pt" "sizedbg strip pt \<noteq> 0"
  obtains b vi where "lineinfo pt = Some b" "sizedbg strip pt = length b" "\<not> strip" "length b < 2 ^ 32"
    "uvinfo pt = Some (sizeli (length (pt_bc pt) - 1) (numline pt))" "varinfo pt = Some vi"
    "bcread_varinfo b (sizeli (length (pt_bc pt) - 1) (numline pt)) (length (pt_uv pt)) = Some vi"
proof -
  obtain b where b: "lineinfo pt = Some b" "sizedbg strip pt = length b" "\<not> strip"
    using assms(2) by (auto simp: sizedbg_def split: if_splits option.splits)
  note d0 = assms(1) [unfolded dbg_ok_def b(1) option.case]
  then have "varinfo pt \<noteq> None" by blast
  then obtain vi where vi: "varinfo pt = Some vi" by blast
  have d: "length b < 2 ^ 32" "uvinfo pt = Some (sizeli (length (pt_bc pt) - 1) (numline pt))"
    "varinfo pt = bcread_varinfo b (sizeli (length (pt_bc pt) - 1) (numline pt)) (length (pt_uv pt))"
    using d0 by simp_all
  have "bcread_varinfo b (sizeli (length (pt_bc pt) - 1) (numline pt)) (length (pt_uv pt)) = Some vi"
    using d(3) vi by (rule subst)
  then show thesis by (rule that [OF b d(1,2) vi])
qed

lemma sizedbg_less: "dbg_good pt \<Longrightarrow> sizedbg strip pt < 2 ^ 32"
  by (cases "sizedbg strip pt = 0") (auto elim: sizedbg_pos)

lemma read_dbghead:
  assumes "level_ok strip (ls_level s)" and "dbg_good pt"
    and "ls_p s = (if strip then []
       else uleb_nat (sizedbg strip pt) @
         (if sizedbg strip pt \<noteq> 0 then lj_strfmt_wuleb128 (firstline pt) @ lj_strfmt_wuleb128 (numline pt) else [])) @ r"
  shows "bcread_dbghead s = Inr (if sizedbg strip pt \<noteq> 0 then (sizedbg strip pt, firstline pt, numline pt) else (0, 0, 0),
    s\<lparr>ls_p := r\<rparr>)"
proof (cases strip)
  case True
  then show ?thesis using assms by (simp add: bcread_dbghead_def level_ok_def sizedbg_def)
next
  case False
  let ?n = "sizedbg strip pt"
  let ?r = "(if ?n \<noteq> 0 then lj_strfmt_wuleb128 (firstline pt) @ lj_strfmt_wuleb128 (numline pt) else []) @ r"
  have n: "?n < 2 ^ 32" by (rule sizedbg_less [OF assms(2)])
  note z = of_nat_zero [OF n] and u = of_nat_small [OF n]
  have "bcread_uleb128 s = Inr (of_nat ?n, s\<lparr>ls_p := ?r\<rparr>)" by (rule read_uleb_nat) (use assms(3) False in simp)
  moreover have "ls_level s AND BCDUMP_F_STRIP = 0" using assms(1) False by (simp add: level_ok_def)
  ultimately show ?thesis
    using read_uleb [of _ "firstline pt" "lj_strfmt_wuleb128 (numline pt) @ r"] read_uleb [of _ "numline pt" r] z u
    by (cases "?n = 0") (simp_all add: bcread_dbghead_def rbind_Inr)
qed

lemma read_debug:
  assumes "level_ok strip (ls_level s)" and d: "dbg_good pt" and p: "ls_p s = dbg_bytes strip pt @ r"
    and q: "length (pt_bc q) = length (pt_bc pt)" "pt_uv q = pt_uv pt"
      "sizedbg strip pt \<noteq> 0 \<Longrightarrow> numline q = numline pt"
  shows "bcread_debug q (sizedbg strip pt) s =
    Inr (if sizedbg strip pt \<noteq> 0 then q\<lparr>lineinfo := lineinfo pt, uvinfo := uvinfo pt, varinfo := varinfo pt\<rparr>
         else q\<lparr>lineinfo := None, uvinfo := None, varinfo := None\<rparr>, s\<lparr>ls_p := r\<rparr>)"
proof (cases "sizedbg strip pt = 0")
  case False
  then obtain b vi where b: "lineinfo pt = Some b" "sizedbg strip pt = length b"
    "uvinfo pt = Some (sizeli (length (pt_bc pt) - 1) (numline pt))" "varinfo pt = Some vi"
    "bcread_varinfo b (sizeli (length (pt_bc pt) - 1) (numline pt)) (length (pt_uv pt)) = Some vi"
    by (rule sizedbg_pos [OF d]) blast
  have "bcread_mem (length b) s = Inr (b, s\<lparr>ls_p := r\<rparr>)"
    by (rule read_mem) (use p False b(1) in \<open>simp_all add: dbg_bytes_def\<close>)
  then have "bcread_dbg (numline q) (length (pt_bc q) - 1) (length b) s = Inr (b, s\<lparr>ls_p := r\<rparr>)"
    using assms(1) by (simp add: bcread_dbg_def rbind_Inr level_ok_def)
  then show ?thesis using False b q by (simp add: bcread_debug_def rbind_Inr Let_def)
qed (use p in \<open>simp add: bcread_debug_def dbg_bytes_def\<close>)

lemma flags_masked:
  "(x AND (PROTO_CHILD OR PROTO_VARARG OR PROTO_FFI)) AND PROTO_VARARG = x AND PROTO_VARARG"
  by (rule bit_word_eqI) (auto simp: bit_and_iff bit_or_iff)

lemma read_proto:
  assumes P: "proto_ok dbg_good (Proto pt ks)" and p: "ls_p s = enc_pdata strip startins (Proto pt ks) @ r"
    and lv: "level_ok strip (ls_level s)" and F: "F = dumped strip startins (ls_chunkname s)"
    and tp: "ls_top s = Ps @ top0" "list_all2 (proto_same F) (children ks) Ps"
  shows "\<exists>P'. lj_bcread_proto s = Inr (P', s\<lparr>ls_p := r, ls_top := top0\<rparr>) \<and> proto_same F (Proto pt ks) P'"
proof -
  have I: "info_ok pt" "dbg_good pt" "length ks < 2 ^ 32" "\<forall>k \<in> set ks. kgc_ok dbg_good k" using P by simp_all
  have n: "unat (of_nat (length (pt_uv pt)) :: byte) = length (pt_uv pt)"
    "unat (of_nat (length ks) :: u32) = length ks" "unat (of_nat (length (pt_kn pt)) :: u32) = length (pt_kn pt)"
    "unat (of_nat (length (pt_bc pt) - 1) :: u32) = length (pt_bc pt) - 1"
  proof -
    show "unat (of_nat (length (pt_uv pt)) :: byte) = length (pt_uv pt)"
      using I(1) by (simp add: info_ok_def unsigned_of_nat take_bit_nat_eq_self)
    have "length (pt_bc pt) - 1 < 2 ^ 32" using I(1) by (cases "pt_bc pt") (simp_all add: info_ok_def)
    then show "unat (of_nat (length (pt_bc pt) - 1) :: u32) = length (pt_bc pt) - 1" by (rule of_nat_small)
  qed (rule of_nat_small, use I in \<open>simp_all add: info_ok_def\<close>)+
  let ?dbg = "sizedbg strip pt"
  define r5 where "r5 = dbg_bytes strip pt @ r"
  define r4 where "r4 = concat (map knum_bytes (pt_kn pt)) @ r5"
  define r3 where "r3 = concat (map enc_kgc ks) @ r4"
  define r2 where "r2 = concat (map u16_bytes (pt_uv pt)) @ r3"
  define r1 where "r1 = bcwrite_bytecode startins pt @ r2"
  define r0 where "r0 = (if strip then []
       else uleb_nat ?dbg @
         (if ?dbg \<noteq> 0 then lj_strfmt_wuleb128 (firstline pt) @ lj_strfmt_wuleb128 (numline pt) else [])) @ r1"
  define fl where "fl = pt_flags pt AND (PROTO_CHILD OR PROTO_VARARG OR PROTO_FFI)"
  have p: "ls_p s = fl # numparams pt # framesize pt # of_nat (length (pt_uv pt)) #
      uleb_nat (length ks) @ uleb_nat (length (pt_kn pt)) @ uleb_nat (length (pt_bc pt) - 1) @ r0"
    unfolding p by (simp add: enc_pdata_def phead_def Let_def r0_def r1_def r2_def r3_def r4_def r5_def dbg_bytes_def fl_def)
  have kn: "\<forall>x \<in> set (pt_kn pt). knum_ok x" using I(1) by (simp add: info_ok_def list_all_iff)
  define q where "q = (\<lambda>(dbg :: nat, fl0, nl).
         \<lparr>pt_flags = fl, numparams = numparams pt, framesize = framesize pt, pt_bc = dumped_bc startins pt,
          pt_uv = pt_uv pt, pt_kn = pt_kn pt, pt_trace = 0, chunkname = ls_chunkname s, firstline = fl0, numline = nl,
          lineinfo = None, uvinfo = None, varinfo = None\<rparr>)"
  define h where "h = (if ?dbg \<noteq> 0 then (?dbg, firstline pt, numline pt) else (0, 0, 0))"
  define q' where "q' = (if ?dbg \<noteq> 0 then (q h)\<lparr>lineinfo := lineinfo pt, uvinfo := uvinfo pt, varinfo := varinfo pt\<rparr>
         else (q h)\<lparr>lineinfo := None, uvinfo := None, varinfo := None\<rparr>)"
  let ?s = "\<lambda>r. s\<lparr>ls_p := r\<rparr>"
  have s0: "bcread_dbghead (?s r0) = Inr (h, ?s r1)"
    using read_dbghead [of strip "?s r0" pt r1] lv I(2) by (simp add: h_def r0_def)
  have s1: "bcread_bytecode fl (framesize pt) (length (pt_bc pt) - 1) (?s r1) = Inr (dumped_bc startins pt, ?s r2)"
    using read_bytecode [of strip "?s r1" startins pt r2 "length (pt_bc pt) - 1" fl] lv flags_masked
    by (simp add: r1_def fl_def)
  have s2: "bcread_uv (length (pt_uv pt)) (?s r2) = Inr (pt_uv pt, ?s r3)"
    using read_uv [of strip "?s r2" "pt_uv pt" r3] lv by (simp add: r2_def)
  obtain ks' where s3: "bcread_kgc (length ks) (?s r3) = Inr (ks', s\<lparr>ls_p := r4, ls_top := top0\<rparr>)"
    "list_all2 (kgc_same F) ks ks'"
    using read_kgc [OF I(4), of "?s r3" r4 Ps top0 F] tp by (auto simp: r3_def)
  have s4: "bcread_knum (length (pt_kn pt)) (s\<lparr>ls_p := r4, ls_top := top0\<rparr>) = Inr (pt_kn pt, s\<lparr>ls_p := r5, ls_top := top0\<rparr>)"
    using knum.decode_list [OF kn, of "s\<lparr>ls_p := r4, ls_top := top0\<rparr>" r5] by (simp add: bcread_knum_def r4_def)
  have s5: "bcread_debug (q h) ?dbg (s\<lparr>ls_p := r5, ls_top := top0\<rparr>) = Inr (q', s\<lparr>ls_p := r, ls_top := top0\<rparr>)"
    using read_debug [OF _ I(2), of strip "s\<lparr>ls_p := r5, ls_top := top0\<rparr>" r "q h"] lv I(1)
    by (simp add: q'_def q_def r5_def h_def dumped_bc_def info_ok_def)
  have hf: "fst h = ?dbg" by (simp add: h_def)
  have fits: "\<not> proto_size (length (pt_bc pt) - 1) (length ks) (length (pt_kn pt)) (length (pt_uv pt)) ?dbg \<ge> 2 ^ 32"
    using P by (cases strip) (auto simp: proto_size_def Let_def sizedbg_def LJ_MAX_MEM32_def)
  have hd: "lj_bcread_proto s = Inr (Proto q' ks', s\<lparr>ls_p := r, ls_top := top0\<rparr>)"
    using p s0 s1 s2 s3(1) s4 s5 n hf fits
    by (simp add: lj_bcread_proto_def rbind_Inr read_byte read_uleb_nat q_def split_def)
  have "q' = F pt"
    unfolding F dumped_def q'_def q_def h_def fl_def Let_def by (cases pt) simp
  then show ?thesis using hd s3(2) by simp
qed

end
