(* ===== verification/Lj_Bcread_Dump.thy ===== *)
theory Lj_Bcread_Dump
  imports Lj_Bcread_Proto
begin

text \<open>
  Whole dumps. The reader callback may deliver a dump in any non-empty blocks; \<open>refilled\<close> says that a
  state differs from an earlier one only in how far the input has been moved into the buffer.
\<close>

section \<open>Input\<close>

definition ls_view :: "lexstate \<Rightarrow> bytes" where "ls_view s = ls_p s @ concat (ls_rfunc s)"

definition input_ok :: "lexstate \<Rightarrow> bool" where
  "input_ok s \<longleftrightarrow> [] \<notin> set (ls_rfunc s) \<and> length (ls_view s) \<le> LJ_MAX_BUF"

definition refilled :: "lexstate \<Rightarrow> lexstate \<Rightarrow> bool" where
  "refilled s s' \<longleftrightarrow> ls_view s' = ls_view s \<and> set (ls_rfunc s') \<subseteq> set (ls_rfunc s) \<and>
     s' = s\<lparr>ls_p := ls_p s', ls_sb := ls_sb s', ls_rfunc := ls_rfunc s', ls_eof := ls_eof s'\<rparr>"

lemma refilled_refl [simp]: "refilled s s"
  by (simp add: refilled_def)

lemma refilled_fields:
  assumes "refilled s s'"
  shows "ls_view s' = ls_view s" "ls_level s' = ls_level s" "ls_chunkname s' = ls_chunkname s"
    "ls_chunkarg s' = ls_chunkarg s" "ls_top s' = ls_top s" "input_ok s \<Longrightarrow> input_ok s'"
proof -
  have e: "s' = s\<lparr>ls_p := ls_p s', ls_sb := ls_sb s', ls_rfunc := ls_rfunc s', ls_eof := ls_eof s'\<rparr>"
    using assms by (simp add: refilled_def)
  show "ls_level s' = ls_level s" "ls_chunkname s' = ls_chunkname s"
    "ls_chunkarg s' = ls_chunkarg s" "ls_top s' = ls_top s"
    by (subst e, simp)+
  show "ls_view s' = ls_view s" using assms by (simp add: refilled_def)
  then show "input_ok s \<Longrightarrow> input_ok s'" using assms by (auto simp: input_ok_def refilled_def)
qed

lemma need_room: "n \<le> LJ_MAX_BUF \<Longrightarrow> \<exists>sb'. lj_buf_need sb n = Inr sb' \<and> sbufdata sb' = sbufdata sb"
  by (simp add: lj_buf_need_def lj_buf_need2_def buf_grow_def)

lemma fill_move_ok:
  assumes "len \<le> LJ_MAX_BUF"
  shows "\<exists>sb. fill_move len s = Inr (s\<lparr>ls_sb := sb\<rparr>) \<and> sbufdata sb = ls_p s"
proof -
  obtain sb where "lj_buf_need (ls_sb s) len = Inr sb" using need_room [OF assms] by blast
  then have "fill_move len s =
      Inr (s\<lparr>ls_sb := (if ls_p s \<noteq> [] \<and> sbuflen (ls_sb s) = 0 then sb else ls_sb s)\<lparr>sbufdata := ls_p s\<rparr>\<rparr>)"
    by (simp add: fill_move_def Let_def)
  then show ?thesis by auto
qed

lemma fill_append_ok:
  assumes "len \<le> LJ_MAX_BUF" "length (ls_p s @ buf) \<le> LJ_MAX_BUF" "sbufdata (ls_sb s) = ls_p s"
  shows "\<exists>sb. fill_append len buf s = Inr (s\<lparr>ls_sb := sb, ls_p := ls_p s @ buf\<rparr>)"
proof (cases "ls_p s = []")
  case True
  then have "fill_append len buf s = Inr (s\<lparr>ls_sb := ls_sb s, ls_p := ls_p s @ buf\<rparr>)" by (simp add: fill_append_def)
  then show ?thesis by blast
next
  case False
  let ?n = "length (ls_p s) + length buf"
  have "(if ?n < len then len else ?n) \<le> LJ_MAX_BUF" using assms(1,2) by simp
  from need_room [OF this, of "ls_sb s"] obtain sb where
    "lj_buf_need (ls_sb s) (if ?n < len then len else ?n) = Inr sb" "sbufdata sb = ls_p s"
    using assms(3) by auto
  then have "fill_append len buf s = Inr (s\<lparr>ls_sb := sb\<lparr>sbufdata := ls_p s @ buf\<rparr>, ls_p := ls_p s @ buf\<rparr>)"
    using False by (simp add: fill_append_def Let_def)
  then show ?thesis by blast
qed

lemma fill_loop_ok:
  assumes "length (ls_p s @ concat bufs) \<le> LJ_MAX_BUF" "[] \<notin> set bufs" "len \<le> LJ_MAX_BUF" "length (ls_p s) < len"
    and "need \<Longrightarrow> len \<le> length (ls_p s @ concat bufs)"
  shows "\<exists>sb p bufs' e. fill_loop len need bufs s = Inr (s\<lparr>ls_sb := sb, ls_p := p, ls_rfunc := bufs', ls_eof := e\<rparr>) \<and>
    p @ concat bufs' = ls_p s @ concat bufs \<and> set bufs' \<subseteq> set bufs \<and>
    (if len \<le> length (ls_p s @ concat bufs) then len \<le> length p \<and> e = ls_eof s else bufs' = [])"
  using assms
proof (induction bufs arbitrary: s)
  case Nil
  then have "\<not> need" by auto
  moreover obtain sb where "fill_move len s = Inr (s\<lparr>ls_sb := sb\<rparr>)" using fill_move_ok [of len s] Nil by blast
  ultimately have "fill_loop len need [] s = Inr (s\<lparr>ls_sb := sb, ls_p := ls_p s, ls_rfunc := [], ls_eof := True\<rparr>)"
    by simp
  then show ?case using Nil by fastforce
next
  case (Cons buf bufs)
  obtain sb where m: "fill_move len s = Inr (s\<lparr>ls_sb := sb\<rparr>)" "sbufdata sb = ls_p s"
    using fill_move_ok [of len s] Cons.prems by blast
  have "length (ls_p s @ buf) \<le> LJ_MAX_BUF" using Cons.prems(1) by simp
  then obtain sb' where a: "fill_append len buf (s\<lparr>ls_sb := sb\<rparr>) = Inr (s\<lparr>ls_sb := sb', ls_p := ls_p s @ buf\<rparr>)"
    using fill_append_ok [of len "s\<lparr>ls_sb := sb\<rparr>" buf] Cons.prems(3) m(2) by auto
  let ?s = "s\<lparr>ls_sb := sb', ls_p := ls_p s @ buf\<rparr>"
  have b: "buf \<noteq> []" using Cons.prems(2) by auto
  show ?case
  proof (cases "length (ls_p s @ buf) < len")
    case True
    then have step: "fill_loop len need (buf # bufs) s = fill_loop len need bufs ?s" using m a b by simp
    have "\<exists>sb p bufs' e. fill_loop len need bufs ?s = Inr (?s\<lparr>ls_sb := sb, ls_p := p, ls_rfunc := bufs', ls_eof := e\<rparr>) \<and>
      p @ concat bufs' = ls_p ?s @ concat bufs \<and> set bufs' \<subseteq> set bufs \<and>
      (if len \<le> length (ls_p ?s @ concat bufs) then len \<le> length p \<and> e = ls_eof ?s else bufs' = [])"
      by (rule Cons.IH) (use Cons.prems True in auto)
    then obtain sb p bufs' e where I:
      "fill_loop len need bufs ?s = Inr (?s\<lparr>ls_sb := sb, ls_p := p, ls_rfunc := bufs', ls_eof := e\<rparr>)"
      "p @ concat bufs' = ls_p ?s @ concat bufs" "set bufs' \<subseteq> set bufs"
      "if len \<le> length (ls_p ?s @ concat bufs) then len \<le> length p \<and> e = ls_eof ?s else bufs' = []"
      by blast
    then show ?thesis unfolding step by (intro exI [of _ sb] exI [of _ p] exI [of _ bufs'] exI [of _ e]) (use I(2,3,4) in \<open>auto simp: I(1) simp del: fill_loop.simps\<close>)
  next
    case False
    then have "fill_loop len need (buf # bufs) s =
        Inr (s\<lparr>ls_sb := sb', ls_p := ls_p s @ buf, ls_rfunc := bufs, ls_eof := ls_eof s\<rparr>)"
      using m a b by simp
    then show ?thesis using False by fastforce
  qed
qed

lemma bcread_fill_ok:
  assumes "input_ok s" "\<not> ls_eof s" "len \<le> LJ_MAX_BUF" "length (ls_p s) < len" "need \<Longrightarrow> len \<le> length (ls_view s)"
  shows "\<exists>s'. bcread_fill len need s = Inr ((), s') \<and> refilled s s' \<and>
    (if len \<le> length (ls_view s) then len \<le> length (ls_p s') \<and> \<not> ls_eof s' else ls_p s' = ls_view s)"
proof -
  have "\<exists>sb p bufs' e. fill_loop len need (ls_rfunc s) s = Inr (s\<lparr>ls_sb := sb, ls_p := p, ls_rfunc := bufs', ls_eof := e\<rparr>) \<and>
    p @ concat bufs' = ls_p s @ concat (ls_rfunc s) \<and> set bufs' \<subseteq> set (ls_rfunc s) \<and>
    (if len \<le> length (ls_p s @ concat (ls_rfunc s)) then len \<le> length p \<and> e = ls_eof s else bufs' = [])"
    by (rule fill_loop_ok) (use assms in \<open>auto simp: input_ok_def ls_view_def\<close>)
  then obtain sb p bufs' e where F: "fill_loop len need (ls_rfunc s) s = Inr (s\<lparr>ls_sb := sb, ls_p := p, ls_rfunc := bufs', ls_eof := e\<rparr>)"
    "p @ concat bufs' = ls_view s" "set bufs' \<subseteq> set (ls_rfunc s)"
    "if len \<le> length (ls_view s) then len \<le> length p \<and> e = ls_eof s else bufs' = []"
    unfolding ls_view_def by blast
  let ?s = "s\<lparr>ls_sb := sb, ls_p := p, ls_rfunc := bufs', ls_eof := e\<rparr>"
  have "refilled s ?s" using F(2,3) by (simp add: refilled_def ls_view_def [of ?s])
  moreover have "bcread_fill len need s = Inr ((), ?s)" using F(1) assms(2,3) by (simp add: bcread_fill_def not_less)
  moreover have "if len \<le> length (ls_view s) then len \<le> length (ls_p ?s) \<and> \<not> ls_eof ?s else ls_p ?s = ls_view s"
    using F(2,4) assms(2) by (auto split: if_splits)
  ultimately show ?thesis by blast
qed

text \<open>Both ways to ask for input.\<close>

lemma bcread_need_ok:
  assumes "input_ok s" "\<not> ls_eof s" "len \<le> length (ls_view s)"
  shows "\<exists>s'. bcread_need len s = Inr ((), s') \<and> refilled s s' \<and> len \<le> length (ls_p s') \<and> \<not> ls_eof s'"
proof (cases "length (ls_p s) < len")
  case True
  moreover have "len \<le> LJ_MAX_BUF" using assms(1,3) by (simp add: input_ok_def)
  ultimately show ?thesis using bcread_fill_ok [of s len True] assms by (auto simp: bcread_need_def)
next
  case False
  then show ?thesis using assms by (intro exI [of _ s]) (simp add: bcread_need_def)
qed

lemma bcread_want_ok:
  assumes "input_ok s" "\<not> ls_eof s" "len \<le> LJ_MAX_BUF"
  shows "\<exists>s'. bcread_want len s = Inr ((), s') \<and> refilled s s' \<and>
    (len \<le> length (ls_p s') \<and> \<not> ls_eof s' \<or> length (ls_view s) < len \<and> ls_p s' = ls_view s)"
proof (cases "length (ls_p s) < len")
  case True
  then show ?thesis using bcread_fill_ok [of s len False] assms
    by (auto simp: bcread_want_def not_le split: if_splits)
next
  case False
  then show ?thesis using assms by (intro exI [of _ s]) (simp add: bcread_want_def)
qed

lemma take_front:
  assumes "p @ x = u @ y" "length u \<le> length p"
  obtains r where "p = u @ r" "r @ x = y"
  using assms by (auto simp: append_eq_append_conv2)


lemma view_p [simp]: "ls_view (s\<lparr>ls_p := r\<rparr>) = r @ concat (ls_rfunc s)"
  by (simp add: ls_view_def)

lemma input_ok_shorter: "input_ok s \<Longrightarrow> ls_p s = u @ r \<Longrightarrow> input_ok (s\<lparr>ls_p := r\<rparr>)"
  by (simp add: input_ok_def ls_view_def)

lemma input_less: "input_ok s \<Longrightarrow> length (ls_view s) < 2 ^ 32"
  by (simp add: input_ok_def LJ_MAX_MEM32_def)

section \<open>Header\<close>

definition dump_state :: "bool \<Rightarrow> bytes \<Rightarrow> lexstate \<Rightarrow> bool" where
  "dump_state strip name s \<longleftrightarrow> input_ok s \<and> \<not> ls_eof s \<and> level_ok strip (ls_level s) \<and> ls_chunkname s = name"

definition dump_flags :: "bool \<Rightarrow> gcproto \<Rightarrow> nat" where
  "dump_flags strip pt = (if strip then 2 else 0) + (if pt_flags pt AND PROTO_FFI \<noteq> 0 then 4 else 0)"

lemma dump_flags_cases: "dump_flags strip pt = (if strip then 2 else 0) \<or> dump_flags strip pt = (if strip then 6 else 4)"
  by (simp add: dump_flags_def)

lemma header_split:
  "header_bytes strip pt = BCDUMP_HEAD1 # BCDUMP_HEAD2 # BCDUMP_HEAD3 # BCDUMP_VERSION # of_nat (dump_flags strip pt) #
     (if strip then [] else uleb_nat (length (chunkname pt)) @ chunkname pt)"
  by (simp add: header_bytes_def dump_flags_def)

lemma level_flags:
  defines "f \<equiv> \<lambda>strip pt. of_nat (dump_flags strip pt) :: u32"
  shows "f strip pt AND NOT BCDUMP_F_KNOWN = 0" "f strip pt AND BCDUMP_F_FR2 = 0"
    "f strip pt AND BCDUMP_F_STRIP \<noteq> 0 \<longleftrightarrow> strip" "level_ok strip (f strip pt)"
  using dump_flags_cases [of strip pt]
  by (cases strip; auto simp: f_def BCDUMP_F_KNOWN_def level_ok_def bcread_swap_def)+

lemma read_name:
  assumes i: "input_ok s" "\<not> ls_eof s" and v: "ls_p s = uleb_nat (length b) @ r" "ls_view s = uleb_nat (length b) @ b @ rest"
  shows "\<exists>s'. rbind bcread_uleb128 (\<lambda>len. rbind (bcread_need (unat len)) (\<lambda>_.
      rbind (bcread_mem (unat len)) (\<lambda>b s. Inr (True, s\<lparr>ls_chunkname := b\<rparr>)))) s = Inr (True, s'\<lparr>ls_chunkname := b\<rparr>) \<and>
    ls_view s' = rest \<and> input_ok s' \<and> \<not> ls_eof s' \<and> ls_level s' = ls_level s \<and> ls_top s' = ls_top s"
proof -
  let ?s = "s\<lparr>ls_p := r\<rparr>"
  have q: "bcread_uleb128 s = Inr (of_nat (length b), ?s)" by (rule read_uleb_nat [OF v(1)])
  have w: "ls_view ?s = b @ rest" using v by (simp add: ls_view_def [of s])
  have u: "unat (of_nat (length b) :: u32) = length b"
    by (rule of_nat_small) (use input_less [OF i(1)] v(2) in simp)
  have "input_ok ?s" by (rule input_ok_shorter [OF i(1) v(1)])
  moreover have "length b \<le> length (ls_view ?s)" unfolding w by simp
  ultimately obtain s' where s': "bcread_need (length b) ?s = Inr ((), s')"
    "refilled ?s s'" "length b \<le> length (ls_p s')" "\<not> ls_eof s'"
    using bcread_need_ok [of ?s "length b"] i(2) by auto
  note R = refilled_fields [OF s'(2)]
  obtain r' where r': "ls_p s' = b @ r'" "r' @ concat (ls_rfunc s') = rest"
    using R(1) w s'(3) take_front [of "ls_p s'" "concat (ls_rfunc s')" b rest] by (auto simp: ls_view_def)
  have m: "bcread_mem (length b) s' = Inr (b, s'\<lparr>ls_p := r'\<rparr>)" by (rule read_mem [OF r'(1) refl])
  have "input_ok (s'\<lparr>ls_p := r'\<rparr>)"
    by (rule input_ok_shorter [OF _ r'(1)]) (use R(6) input_ok_shorter [OF i(1) v(1)] in blast)
  then show ?thesis
    by (intro exI [of _ "s'\<lparr>ls_p := r'\<rparr>"]) (use q u s'(1,4) m r'(2) R(2,5) in \<open>simp add: rbind_Inr\<close>)
qed

lemma read_header:
  assumes i: "input_ok s" "\<not> ls_eof s" and v: "ls_view s = tl (header_bytes strip pt) @ rest" "13 \<le> length (ls_view s)"
  shows "\<exists>s'. bcread_header s = Inr (True, s') \<and> ls_view s' = rest \<and> ls_top s' = ls_top s \<and>
    dump_state strip (if strip then ls_chunkarg s else chunkname pt) s'"
proof -
  let ?f = "of_nat (dump_flags strip pt) :: u32"
  have "(13 :: nat) \<le> LJ_MAX_BUF" by (simp add: LJ_MAX_MEM32_def)
  from bcread_want_ok [OF i this] obtain s1 where s1: "bcread_want 13 s = Inr ((), s1)" "refilled s s1"
    "13 \<le> length (ls_p s1)" "\<not> ls_eof s1" using v(2) by auto
  note R = refilled_fields [OF s1(2)]
  define u where "u = (if strip then [] else uleb_nat (length (chunkname pt)))"
  define y where "y = (if strip then [] else chunkname pt) @ rest"
  have "ls_p s1 @ concat (ls_rfunc s1) = (0x4c # 0x4a # 2 # of_nat (dump_flags strip pt) # u) @ y"
    using R(1) v(1) by (simp add: ls_view_def [of s1] header_split u_def y_def)
  moreover have "length (0x4c # 0x4a # 2 # of_nat (dump_flags strip pt) # u) \<le> length (ls_p s1)"
    using s1(3) length_uleb(1) [of "length (chunkname pt)"] by (simp add: u_def)
  ultimately obtain r where r: "ls_p s1 = (0x4c # 0x4a # 2 # of_nat (dump_flags strip pt) # u) @ r"
    "r @ concat (ls_rfunc s1) = y" by (rule take_front)
  have fl: "bcread_uleb128 (s1\<lparr>ls_p := of_nat (dump_flags strip pt) # u @ r\<rparr>) = Inr (?f, s1\<lparr>ls_p := u @ r\<rparr>)"
    using read_tag [of "dump_flags strip pt" "s1\<lparr>ls_p := of_nat (dump_flags strip pt) # u @ r\<rparr>" "u @ r"]
    by (simp add: dump_flags_def)
  let ?s = "s1\<lparr>ls_p := u @ r, ls_level := ?f\<rparr>"
  have ok: "input_ok (s1\<lparr>ls_p := u @ r\<rparr>)"
    using input_ok_shorter [OF R(6) [OF i(1)], of "0x4c # 0x4a # 2 # of_nat (dump_flags strip pt) # []" "u @ r"] r(1) by simp
  then have ok: "input_ok ?s" by (simp add: input_ok_def ls_view_def)
  note L = level_flags [of strip pt]
  have h: "bcread_header s = (if strip then Inr (True, ?s\<lparr>ls_chunkname := ls_chunkarg s\<rparr>)
      else rbind bcread_uleb128 (\<lambda>len. rbind (bcread_need (unat len)) (\<lambda>_.
        rbind (bcread_mem (unat len)) (\<lambda>b s. Inr (True, s\<lparr>ls_chunkname := b\<rparr>)))) ?s)"
    using s1(1) r(1) fl L(1,2,3) R(4)
    by (simp add: bcread_header_def rbind_Inr read_byte Let_def)
  show ?thesis
  proof (cases strip)
    case True
    then show ?thesis using h ok s1(4) r(2) R(4,5) L(4)
      by (intro exI [of _ "?s\<lparr>ls_chunkname := ls_chunkarg s\<rparr>"])
        (simp add: u_def y_def dump_state_def input_ok_def ls_view_def)
  next
    case False
    have "\<exists>s'. rbind bcread_uleb128 (\<lambda>len. rbind (bcread_need (unat len)) (\<lambda>_.
        rbind (bcread_mem (unat len)) (\<lambda>b s. Inr (True, s\<lparr>ls_chunkname := b\<rparr>)))) ?s =
          Inr (True, s'\<lparr>ls_chunkname := chunkname pt\<rparr>) \<and>
      ls_view s' = rest \<and> input_ok s' \<and> \<not> ls_eof s' \<and> ls_level s' = ls_level ?s \<and> ls_top s' = ls_top ?s"
      by (rule read_name [OF ok, of "chunkname pt" r])
        (use False s1(4) r(2) in \<open>simp_all add: u_def y_def ls_view_def\<close>)
    then obtain s' where s': "bcread_header s = Inr (True, s'\<lparr>ls_chunkname := chunkname pt\<rparr>)" "ls_view s' = rest"
      "input_ok s'" "\<not> ls_eof s'" "ls_level s' = ?f" "ls_top s' = ls_top s"
      using h False R(5) by auto
    then show ?thesis using False L(4)
      by (intro exI [of _ "s'\<lparr>ls_chunkname := chunkname pt\<rparr>"]) (simp add: dump_state_def input_ok_def ls_view_def)
  qed
qed


section \<open>The loop over the prototypes\<close>

lemma hd_uleb: "v \<noteq> 0 \<Longrightarrow> hd (lj_strfmt_wuleb128 v) \<noteq> 0 \<and> lj_strfmt_wuleb128 v \<noteq> []"
proof (cases "v \<ge> 0x80")
  case True
  have "bit (ucast ((v AND 0x7f) OR 0x80) :: byte) 7" by (simp only: word_bits) simp
  then have "(ucast ((v AND 0x7f) OR 0x80) :: byte) \<noteq> 0" by (metis bit_0_eq bot_apply bot_bool_def)
  then show ?thesis using True by (subst (1 2) lj_strfmt_wuleb128.simps) simp
next
  case False
  assume v: "v \<noteq> 0"
  have l: "unat v < 128" using False by (simp add: word_le_nat_alt)
  have "v = of_nat (unat v)" by simp
  then have "lj_strfmt_wuleb128 v = [of_nat (unat v)]" using tag_word [OF l] by metis
  moreover have "(of_nat (unat v) :: byte) \<noteq> 0"
    using v l by (simp add: word_unat_eq_iff unsigned_ucast_eq unsigned_of_nat take_bit_nat_eq_self)
  ultimately show ?thesis by simp
qed

lemma pdata_length: "7 \<le> length (enc_pdata strip startins P)"
proof -
  have "1 \<le> length (uleb_nat n)" for n by (simp only: uleb_nat_def wuleb128_length)
  from this [of "length (pt_kgc P)"] this [of "length (pt_kn (pt_info P))"] this [of "length (pt_bc (pt_info P)) - 1"]
  have "7 \<le> length (phead strip P)" unfolding phead_def Let_def length_append list.size by linarith
  then show ?thesis unfolding enc_pdata_def Let_def length_append by linarith
qed

text \<open>The front of a prototype: its size is read, and then all of it is in the buffer.\<close>

lemma read_size:
  assumes i: "input_ok s" "\<not> ls_eof s" and v: "ls_view s = uleb_nat (length b) @ b @ rest" "7 \<le> length b" "rest \<noteq> []"
  shows "\<exists>s' r. ls_level s' = ls_level s \<and> ls_chunkname s' = ls_chunkname s \<and> ls_top s' = ls_top s \<and> \<not> ls_eof s' \<and> input_ok s' \<and> ls_p s' = b @ r \<and>
    r @ concat (ls_rfunc s') = rest \<and>
    bcread_protos (Suc n) s = rbind lj_bcread_proto (\<lambda>P s1.
      if length (ls_p s1) + length b \<noteq> length (ls_p s') then Inl LJ_ERR_BCBAD
      else bcread_protos n (s1\<lparr>ls_top := P # ls_top s1\<rparr>)) s'"
proof -
  have lt: "length b < 2 ^ 32" using input_less [OF i(1)] v(1) by simp
  have u: "unat (of_nat (length b) :: u32) = length b" by (rule of_nat_small [OF lt])
  have nz: "(of_nat (length b) :: u32) \<noteq> 0" using of_nat_zero [OF lt] v(2) by auto
  note hu = hd_uleb [OF nz, folded uleb_nat_def]
  have nonzero: "\<not> (ls_p s \<noteq> [] \<and> hd (ls_p s) = 0)"
  proof
    assume p: "ls_p s \<noteq> [] \<and> hd (ls_p s) = 0"
    then have "hd (ls_view s) = 0" by (simp add: ls_view_def)
    then show False using hu v(1) by simp
  qed
  have "(5 :: nat) \<le> LJ_MAX_BUF" by (simp add: LJ_MAX_MEM32_def)
  from bcread_want_ok [OF i this] obtain s1 where s1: "bcread_want 5 s = Inr ((), s1)" "refilled s s1"
    "5 \<le> length (ls_p s1)" "\<not> ls_eof s1" using v by auto
  note R = refilled_fields [OF s1(2)]
  have "length (uleb_nat (length b)) \<le> length (ls_p s1)" using s1(3) length_uleb(1) [of "length b"] by linarith
  then obtain r1 where r1: "ls_p s1 = uleb_nat (length b) @ r1" "r1 @ concat (ls_rfunc s1) = b @ rest"
    using R(1) v(1) take_front [of "ls_p s1" "concat (ls_rfunc s1)" "uleb_nat (length b)" "b @ rest"]
    by (auto simp: ls_view_def)
  let ?s = "s1\<lparr>ls_p := r1\<rparr>"
  have q: "bcread_uleb128 s1 = Inr (of_nat (length b), ?s)" by (rule read_uleb_nat [OF r1(1)])
  have ok: "input_ok ?s" by (rule input_ok_shorter [OF R(6) [OF i(1)] r1(1)])
  have "length b \<le> length (ls_view ?s)" using r1(2) by simp
  from bcread_need_ok [OF ok _ this] obtain s' where s': "bcread_need (length b) ?s = Inr ((), s')"
    "refilled ?s s'" "length b \<le> length (ls_p s')" "\<not> ls_eof s'" using s1(4) by auto
  note R' = refilled_fields [OF s'(2)]
  obtain r where r: "ls_p s' = b @ r" "r @ concat (ls_rfunc s') = rest"
    using R'(1) r1(2) s'(3) take_front [of "ls_p s'" "concat (ls_rfunc s')" b rest] by (auto simp: ls_view_def)
  have "bcread_protos (Suc n) s = rbind lj_bcread_proto (\<lambda>P s1.
      if length (ls_p s1) + length b \<noteq> length (ls_p s') then Inl LJ_ERR_BCBAD
      else bcread_protos n (s1\<lparr>ls_top := P # ls_top s1\<rparr>)) s'"
    unfolding bcread_protos.simps if_not_P [OF nonzero] using s1(1) q u nz s'(1) by (simp add: rbind_Inr)
  moreover have "ls_level s' = ls_level s" "ls_chunkname s' = ls_chunkname s" "ls_top s' = ls_top s"
    using R'(2,3,5) R(2,3,5) by simp_all
  ultimately show ?thesis using s'(4) R'(6) [OF ok] r by blast
qed


lemma read_one:
  assumes st: "dump_state strip name s" and P: "proto_ok dbg_good (Proto pt ks)"
    and v: "ls_view s = enc_proto strip startins (Proto pt ks) @ rest" "rest \<noteq> []"
    and tp: "ls_top s = Ps @ top0" "list_all2 (proto_same (dumped strip startins name)) (children ks) Ps"
  shows "\<exists>s' P'. bcread_protos (Suc n) s = bcread_protos n s' \<and> dump_state strip name s' \<and> ls_view s' = rest \<and>
    ls_top s' = P' # top0 \<and> proto_same (dumped strip startins name) (Proto pt ks) P'"
proof -
  let ?b = "enc_pdata strip startins (Proto pt ks)" and ?F = "dumped strip startins name"
  have i: "input_ok s" "\<not> ls_eof s" "level_ok strip (ls_level s)" "ls_chunkname s = name"
    using st by (simp_all add: dump_state_def)
  have w: "ls_view s = uleb_nat (length ?b) @ ?b @ rest" using v(1) by (simp add: enc_proto_def Let_def)
  obtain s1 r where s1: "ls_level s1 = ls_level s" "ls_chunkname s1 = ls_chunkname s" "ls_top s1 = ls_top s"
    "\<not> ls_eof s1" "input_ok s1" "ls_p s1 = ?b @ r" "r @ concat (ls_rfunc s1) = rest"
    "bcread_protos (Suc n) s = rbind lj_bcread_proto (\<lambda>P s2.
      if length (ls_p s2) + length ?b \<noteq> length (ls_p s1) then Inl LJ_ERR_BCBAD
      else bcread_protos n (s2\<lparr>ls_top := P # ls_top s2\<rparr>)) s1"
    using read_size [OF i(1,2) w pdata_length v(2), of n] by blast
  obtain P' where P': "lj_bcread_proto s1 = Inr (P', s1\<lparr>ls_p := r, ls_top := top0\<rparr>)" "proto_same ?F (Proto pt ks) P'"
    using read_proto [OF P s1(6), of ?F Ps top0] s1(1,2,3) i(3,4) tp by auto
  let ?s = "s1\<lparr>ls_p := r, ls_top := P' # top0\<rparr>"
  have "bcread_protos (Suc n) s = bcread_protos n ?s"
    unfolding s1(8) using P'(1) s1(6) by (simp add: rbind_Inr)
  moreover have "dump_state strip name ?s"
    using input_ok_shorter [OF s1(5,6)] s1(1,2,4) i(3,4) by (simp add: dump_state_def input_ok_def ls_view_def)
  moreover have "ls_view ?s = rest" using s1(7) by (simp add: ls_view_def)
  ultimately show ?thesis using P'(2) by (intro exI [of _ ?s] exI [of _ P']) simp
qed

lemma not_child: "pt_flags pt AND PROTO_CHILD = 0 \<Longrightarrow> proto_ok D (Proto pt ks) \<Longrightarrow> children ks = []"
proof -
  assume "pt_flags pt AND PROTO_CHILD = 0" "proto_ok D (Proto pt ks)"
  then have "\<not> list_ex is_child ks" by simp
  then show "children ks = []" by (induction ks) (auto split: kgc.splits)
qed

lemma read_protos:
  "proto_ok dbg_good P \<Longrightarrow> dump_state strip name s \<Longrightarrow>
    ls_view s = concat (map (enc_proto strip startins) (protos_of P)) @ rest \<Longrightarrow> rest \<noteq> [] \<Longrightarrow>
    \<exists>s' P'. bcread_protos (n + length (protos_of P)) s = bcread_protos n s' \<and> dump_state strip name s' \<and>
      ls_view s' = rest \<and> ls_top s' = P' # ls_top s \<and> proto_same (dumped strip startins name) P P'"
  "\<forall>k \<in> set ks. kgc_ok dbg_good k \<Longrightarrow> dump_state strip name s \<Longrightarrow>
    ls_view s = concat (map (enc_proto strip startins) (children_of ks)) @ rest \<Longrightarrow> rest \<noteq> [] \<Longrightarrow>
    \<exists>s' Ps. bcread_protos (n + length (children_of ks)) s = bcread_protos n s' \<and> dump_state strip name s' \<and>
      ls_view s' = rest \<and> ls_top s' = Ps @ ls_top s \<and>
      list_all2 (proto_same (dumped strip startins name)) (children ks) Ps"
proof (induction P and ks arbitrary: s rest n and s rest n rule: protos_of_children_of.induct)
  case (1 pt ks)
  let ?F = "dumped strip startins name" and ?e = "enc_proto strip startins (Proto pt ks)"
  let ?cs = "if pt_flags pt AND PROTO_CHILD \<noteq> 0 then children_of ks else []"
  have ne: "?e @ rest \<noteq> []" using "1.prems"(4) by simp
  have "\<exists>s1 Ps. bcread_protos (Suc n + length ?cs) s = bcread_protos (Suc n) s1 \<and> dump_state strip name s1 \<and>
      ls_view s1 = ?e @ rest \<and> ls_top s1 = Ps @ ls_top s \<and> list_all2 (proto_same ?F) (children ks) Ps"
  proof (cases "pt_flags pt AND PROTO_CHILD = 0")
    case True
    then show ?thesis using "1.prems" not_child [OF True "1.prems"(1)] by fastforce
  next
    case False
    moreover have "\<forall>k \<in> set ks. kgc_ok dbg_good k" using "1.prems"(1) by simp
    ultimately show ?thesis using "1.IH" [OF False _ "1.prems"(2) _ ne, of "Suc n"] "1.prems"(3) by simp
  qed
  then obtain s1 Ps where s1: "bcread_protos (Suc n + length ?cs) s = bcread_protos (Suc n) s1" "dump_state strip name s1"
    "ls_view s1 = ?e @ rest" "ls_top s1 = Ps @ ls_top s" "list_all2 (proto_same ?F) (children ks) Ps"
    by blast
  have "n + length (protos_of (Proto pt ks)) = Suc n + length ?cs" by simp
  then show ?case
    using read_one [OF s1(2) "1.prems"(1) s1(3) "1.prems"(4) s1(4,5), of n] s1(1) by metis
next
  case (3 k ks)
  let ?F = "dumped strip startins name"
  let ?ps = "case k of KProto P \<Rightarrow> protos_of P | _ \<Rightarrow> []"
  let ?rest = "concat (map (enc_proto strip startins) ?ps) @ rest"
  have k: "\<forall>k \<in> set ks. kgc_ok dbg_good k" "kgc_ok dbg_good k" using "3.prems"(1) by simp_all
  have "ls_view s = concat (map (enc_proto strip startins) (children_of ks)) @ ?rest" using "3.prems"(3) by simp
  from "3.IH"(1) [OF k(1) "3.prems"(2) this, of "n + length ?ps"] obtain s1 Ps where s1:
    "bcread_protos (n + length ?ps + length (children_of ks)) s = bcread_protos (n + length ?ps) s1"
    "dump_state strip name s1" "ls_view s1 = ?rest" "ls_top s1 = Ps @ ls_top s"
    "list_all2 (proto_same ?F) (children ks) Ps"
    using "3.prems"(4) by auto
  have l: "n + length (children_of (k # ks)) = n + length ?ps + length (children_of ks)" by simp
  show ?case
  proof (cases "is_child k")
    case True
    then obtain P where P: "k = KProto P" by (cases k) simp_all
    from "3.IH"(2) [OF P _ s1(2), of rest n] obtain s' P' where
      "bcread_protos (n + length (protos_of P)) s1 = bcread_protos n s'" "dump_state strip name s'"
      "ls_view s' = rest" "ls_top s' = P' # ls_top s1" "proto_same ?F P P'"
      using P k(2) s1(3) "3.prems"(4) by auto
    then show ?thesis unfolding l s1(1) using P s1(4,5)
      by (intro exI [of _ s'] exI [of _ "P' # Ps"]) simp
  next
    case False
    then have "?ps = []" "children (k # ks) = children ks" by (cases k; simp)+
    then show ?thesis unfolding l s1(1) using s1(2-5) by fastforce
  qed
qed fastforce


lemma read_end:
  assumes "input_ok s" "\<not> ls_eof s" "ls_view s = [0]"
  shows "\<exists>s'. bcread_protos (Suc n) s = Inr ((), s') \<and> ls_p s' = [] \<and> ls_top s' = ls_top s"
proof (cases "ls_p s = []")
  case True
  have "(5 :: nat) \<le> LJ_MAX_BUF" by (simp add: LJ_MAX_MEM32_def)
  from bcread_want_ok [OF assms(1,2) this] obtain s1 where s1: "bcread_want 5 s = Inr ((), s1)" "refilled s s1"
    "5 \<le> length (ls_p s1) \<or> ls_p s1 = [0]" using assms(3) by auto
  have "length (ls_p s1) \<le> length (ls_view s1)" by (simp add: ls_view_def)
  then have p: "ls_p s1 = [0]" using s1(3) assms(3) refilled_fields(1) [OF s1(2)] by auto
  have "bcread_uleb128 s1 = Inr (0, s1\<lparr>ls_p := []\<rparr>)" using read_tag [of 0 s1 "[]"] p by simp
  then show ?thesis using True s1(1) refilled_fields(5) [OF s1(2)] by (simp add: rbind_Inr)
next
  case False
  then have "ls_p s = [0]" using assms(3) by (cases "ls_p s") (simp_all add: ls_view_def)
  then show ?thesis by simp
qed

section \<open>The round trip\<close>

lemma feed_collect: "feed (\<lambda>d b. (0, d @ b)) bs (0, d) = (0, d @ concat bs)"
  by (induction bs arbitrary: d) simp_all

lemma length_concat_ge: "\<forall>x \<in> set xs. x \<noteq> [] \<Longrightarrow> length xs \<le> length (concat xs)"
  by (induction xs) (auto simp: Suc_le_eq neq_Nil_conv)

lemma dump_size: "14 \<le> length (concat (enc_dump strip startins P))"
proof -
  obtain Ps where ps: "protos_of P = Ps @ [P]" by (cases P) auto
  have one: "1 \<le> length (uleb_nat n)" for n by (simp only: uleb_nat_def wuleb128_length)
  have "8 \<le> length (enc_proto strip startins P)"
    using pdata_length [of strip startins P] one [of "length (enc_pdata strip startins P)"]
    unfolding enc_proto_def Let_def length_append by linarith
  moreover have "5 \<le> length (header_bytes strip (pt_info P))" by (simp add: header_bytes_def)
  moreover have "length (concat (enc_dump strip startins P)) = length (header_bytes strip (pt_info P)) +
      length (concat (map (enc_proto strip startins) Ps)) + length (enc_proto strip startins P) + 1"
    by (simp add: enc_dump_def ps)
  ultimately show ?thesis by linarith
qed

lemma read_dump:
  assumes P: "proto_ok dbg_good P" and l: "length (concat (enc_dump strip startins P)) \<le> Suc LJ_MAX_BUF"
    and s: "ls_view s = tl (concat (enc_dump strip startins P))" "[] \<notin> set (ls_rfunc s)" "\<not> ls_eof s"
  shows "\<exists>P' s'. lj_bcread s = Inr (P', s') \<and>
    proto_same (dumped strip startins (if strip then ls_chunkarg s else chunkname (pt_info P))) P P'"
proof -
  let ?name = "if strip then ls_chunkarg s else chunkname (pt_info P)" and ?enc = "enc_proto strip startins"
  let ?rest = "concat (map ?enc (protos_of P)) @ [0]"
  define s0 where "s0 = s\<lparr>ls_sb := lj_buf_reset (ls_sb s), ls_top := []\<rparr>"
  have v: "ls_view s0 = tl (header_bytes strip (pt_info P)) @ ?rest"
    using s(1) by (simp add: s0_def ls_view_def enc_dump_def header_bytes_def)
  have sz: "13 \<le> length (ls_view s0)" "length (ls_view s0) \<le> LJ_MAX_BUF"
    using dump_size [of strip startins P] l s(1) by (simp_all add: s0_def ls_view_def)
  have i: "input_ok s0" "\<not> ls_eof s0" using sz(2) s(2,3) by (simp_all add: input_ok_def s0_def ls_view_def)
  have ca: "ls_chunkarg s0 = ls_chunkarg s" by (simp add: s0_def)
  obtain s1 where s1: "bcread_header s0 = Inr (True, s1)" "ls_view s1 = ?rest" "ls_top s1 = []"
    "dump_state strip ?name s1"
    using read_header [OF i v sz(1)] unfolding ca by (auto simp: s0_def)
  have "?enc Q \<noteq> []" for Q using pdata_length [of strip startins Q] by (auto simp: enc_proto_def Let_def)
  then have "length (protos_of P) \<le> length (concat (map ?enc (protos_of P)))"
    using length_concat_ge [of "map ?enc (protos_of P)"] by auto
  then have "length (protos_of P) \<le> ls_size s" using arg_cong [OF v, of length] by (simp add: ls_size_def ls_view_def s0_def)
  then obtain n where n: "Suc (ls_size s) = Suc n + length (protos_of P)" by (metis add.commute add_Suc le_Suc_ex)
  obtain s2 P' where s2: "bcread_protos (Suc n + length (protos_of P)) s1 = bcread_protos (Suc n) s2"
    "dump_state strip ?name s2" "ls_view s2 = [0]" "ls_top s2 = [P']" "proto_same (dumped strip startins ?name) P P'"
    using read_protos(1) [OF P s1(4,2), of "Suc n"] s1(3) by auto
  obtain s3 where s3: "bcread_protos (Suc n) s2 = Inr ((), s3)" "ls_p s3 = []" "ls_top s3 = [P']"
    using read_end [of s2 n] s2(2,3,4) by (auto simp: dump_state_def)
  have "bcread_protos (Suc (ls_size s)) s1 = Inr ((), s3)" unfolding n s2(1) by (rule s3(1))
  then have "lj_bcread s = Inr (P', s3\<lparr>ls_top := []\<rparr>)"
    using s1(1) s3(2,3) by (simp add: lj_bcread_def Let_def rbind_Inr ls_size_def s0_def)
  then show ?thesis using s2(5) by blast
qed

end
