(* ===== verification/Lj_Bcread_Safe.thy ===== *)
theory Lj_Bcread_Safe
  imports Lj_Bcread_Dump
begin

text \<open>
  The bytecode reader on any input: it ends, and a prototype that it accepts is well-formed
  (\<open>proto_wf\<close>). \<open>safe Q m\<close> is the contract of a reader: it never runs out of fuel, its result
  satisfies \<open>Q\<close>, the input does not grow and the stack keeps only well-formed prototypes.
\<close>

section \<open>Well-formed prototypes\<close>

definition dbg_wf :: "gcproto \<Rightarrow> bool" where
  "dbg_wf pt \<longleftrightarrow>
     (case (lineinfo pt, uvinfo pt, varinfo pt) of
        (None, None, None) \<Rightarrow> True
      | (Some b, Some uvi, Some vi) \<Rightarrow>
          uvi = sizeli (length (pt_bc pt) - 1) (numline pt) \<and> uvi \<le> vi \<and> (pt_uv pt \<noteq> [] \<longrightarrow> vi \<le> length b)
      | _ \<Rightarrow> False)"

definition info_wf :: "gcproto \<Rightarrow> bool" where
  "info_wf pt \<longleftrightarrow> pt_bc pt \<noteq> [] \<and> bc_op (hd (pt_bc pt)) = (if pt_flags pt AND PROTO_VARARG \<noteq> 0 then BC_FUNCV else BC_FUNCF) \<and>
     length (pt_uv pt) < 256 \<and> pt_trace pt = 0 \<and> dbg_wf pt"

fun kgc_wf :: "kgc \<Rightarrow> bool" and proto_wf :: "proto \<Rightarrow> bool" where
  "kgc_wf (KTab t) = tab_ok t"
| "kgc_wf (KProto P) = proto_wf P"
| "kgc_wf _ = True"
| "proto_wf (Proto pt ks) = (info_wf pt \<and> (\<forall>k \<in> set ks. kgc_wf k))"

section \<open>The contract of readers\<close>

definition stack_wf :: "lexstate \<Rightarrow> bool" where "stack_wf s \<longleftrightarrow> (\<forall>P \<in> set (ls_top s). proto_wf P)"

definition safe :: "('a \<Rightarrow> bool) \<Rightarrow> 'a reader \<Rightarrow> bool" where
  "safe Q m \<longleftrightarrow>
     (\<forall>s. stack_wf s \<longrightarrow>
       (case m s of Inl e \<Rightarrow> e \<noteq> BcFuel | Inr (x, s') \<Rightarrow> Q x \<and> ls_size s' \<le> ls_size s \<and> stack_wf s'))"

named_theorems safe_rules "rules for the contract of readers"

lemma safeI:
  assumes "\<And>s. m s \<noteq> Inl BcFuel"
    and "\<And>s x s'. stack_wf s \<Longrightarrow> m s = Inr (x, s') \<Longrightarrow> Q x \<and> ls_size s' \<le> ls_size s \<and> stack_wf s'"
  shows "safe Q m"
  unfolding safe_def
proof (intro allI impI)
  fix s assume s: "stack_wf s"
  show "case m s of Inl e \<Rightarrow> e \<noteq> BcFuel | Inr (x, s') \<Rightarrow> Q x \<and> ls_size s' \<le> ls_size s \<and> stack_wf s'"
    using assms(1) [of s] assms(2) [OF s] by (cases "m s") auto
qed

lemma safeD:
  assumes "safe Q m" "stack_wf s"
  shows "m s \<noteq> Inl BcFuel" "m s = Inr (x, s') \<Longrightarrow> Q x \<and> ls_size s' \<le> ls_size s \<and> stack_wf s'"
  using assms unfolding safe_def by (auto split: sum.splits)

lemma safe_ret [safe_rules]: "Q x \<Longrightarrow> safe Q (rret x)"
  by (simp add: safe_def)

lemma safe_fail [safe_rules]: "e \<noteq> BcFuel \<Longrightarrow> safe Q (rfail e)"
  by (simp add: safe_def rfail_def)

lemma safe_bind:
  assumes "safe Q m" "\<And>x. Q x \<Longrightarrow> safe R (f x)"
  shows "safe R (rbind m f)"
  unfolding safe_def
proof (intro allI impI)
  fix s assume s: "stack_wf s"
  show "case rbind m f s of Inl e \<Rightarrow> e \<noteq> BcFuel | Inr (x, s') \<Rightarrow> R x \<and> ls_size s' \<le> ls_size s \<and> stack_wf s'"
  proof (cases "m s")
    case (Inl e)
    then show ?thesis using safeD(1) [OF assms(1) s] by (simp add: rbind_def)
  next
    case (Inr r)
    then obtain x s1 where r: "m s = Inr (x, s1)" by (cases r) simp
    then have s1: "Q x" "ls_size s1 \<le> ls_size s" "stack_wf s1" using safeD(2) [OF assms(1) s] by auto
    have "rbind m f s = f x s1" by (rule rbind_Inr [of m, OF r])
    then show ?thesis using safeD [OF assms(2) [OF s1(1)] s1(3)] s1(2) by (fastforce split: sum.splits)
  qed
qed

lemma safe_state: "(\<And>s0. safe Q (f s0)) \<Longrightarrow> safe Q (\<lambda>s. f s s)"
  by (simp add: safe_def)

lemma safe_weaken: "safe Q m \<Longrightarrow> (\<And>x. Q x \<Longrightarrow> R x) \<Longrightarrow> safe R m"
  by (auto simp: safe_def split: sum.splits)

lemma safe_if [safe_rules]: "(c \<Longrightarrow> safe Q m) \<Longrightarrow> (\<not> c \<Longrightarrow> safe Q m') \<Longrightarrow> safe Q (if c then m else m')"
  by simp

lemma safe_times:
  assumes "safe Q m"
  shows "safe (\<lambda>xs. length xs = n \<and> (\<forall>x \<in> set xs. Q x)) (rtimes n m)"
proof (induction n)
  case (Suc n)
  show ?case unfolding rtimes.simps
    by (rule safe_bind [OF assms], rule safe_bind [OF Suc], rule safe_ret) auto
qed (simp add: safe_ret [unfolded rret_def] rret_def)

text \<open>A reader that only shortens the input.\<close>

lemma safe_shorten:
  assumes "\<And>s. m s \<noteq> Inl BcFuel"
    and "\<And>s x s'. m s = Inr (x, s') \<Longrightarrow> Q x \<and> (\<exists>p. s' = s\<lparr>ls_p := p\<rparr> \<and> length p \<le> length (ls_p s))"
  shows "safe Q m"
  by (rule safeI [OF assms(1)]) (use assms(2) in \<open>fastforce simp: ls_size_def stack_wf_def\<close>)

lemma safe_mem: "safe (\<lambda>b. length b = n) (bcread_mem n)"
  by (rule safe_shorten) (auto simp: bcread_mem_def split: if_splits)

lemma safe_byte: "safe (\<lambda>_. True) bcread_byte"
  by (rule safe_shorten) (auto simp: bcread_byte_def split: list.splits)

lemma safe_isnum: "safe (\<lambda>_. True) bcread_isnum"
proof (rule safe_shorten)
  show "True \<and> (\<exists>p. s' = s\<lparr>ls_p := p\<rparr> \<and> length p \<le> length (ls_p s))" if "bcread_isnum s = Inr (x, s')" for s x s'
    using that by (intro conjI exI [of _ "ls_p s"]) (auto simp: bcread_isnum_def split: list.splits)
qed (simp add: bcread_isnum_def split: list.splits)

lemma ruleb_loop_shorter: "ruleb128_loop v sh p = Some (w, q) \<Longrightarrow> length q < length p"
  by (induction v sh p rule: ruleb128_loop.induct) (fastforce simp: Let_def split: if_splits)+

lemma ruleb_shorter: "lj_buf_ruleb128 p = Some (v, q) \<Longrightarrow> length q < length p"
  by (cases p) (auto simp: Let_def split: if_splits dest: ruleb_loop_shorter)

lemma ruleb33_shorter: "ruleb33_loop v sh p = Some (w, q) \<Longrightarrow> length q < length p"
  by (induction v sh p rule: ruleb33_loop.induct) (fastforce simp: Let_def split: if_splits)+

lemma safe_uleb: "safe (\<lambda>_. True) bcread_uleb128"
  by (rule safe_shorten) (fastforce simp: bcread_uleb128_def split: option.splits dest: ruleb_shorter)+

lemma safe_uleb33: "safe (\<lambda>_. True) bcread_uleb128_33"
  by (rule safe_shorten)
    (fastforce simp: bcread_uleb128_33_def Let_def split: option.splits list.splits if_splits dest: ruleb33_shorter)+

lemmas safe_base = safe_bind [OF safe_byte] safe_bind [OF safe_uleb] safe_bind [OF safe_uleb33] safe_bind [OF safe_isnum]
  safe_bind [OF safe_mem]

lemma safe_u64: "safe (\<lambda>_. True) bcread_u64"
  unfolding bcread_u64_def by (intro safe_base safe_ret) simp

lemma safe_ktabk: "safe (\<lambda>_. True) bcread_ktabk"
  unfolding bcread_ktabk_def by (intro safe_base safe_bind [OF safe_u64] safe_rules) simp_all


section \<open>Tables and constants\<close>

lemma set_valid_key: "lj_tab_set t key = Inr r \<Longrightarrow> valid_key key"
  by (auto simp: lj_tab_set_def set_with_def valid_key_def num_eq_def Let_def split: tvalue.splits if_splits)

lemma set_store_ok: "tab_ok t \<Longrightarrow> lj_tab_set t key = Inr (t', slot) \<Longrightarrow> tab_ok (tab_store t' slot v)"
  using tab_put_spec [of t key v] set_valid_key [of t key] by (simp add: tab_put_def)

lemma safe_khash: "tab_ok t \<Longrightarrow> safe tab_ok (bcread_khash n t)"
proof (induction n arbitrary: t)
  case (Suc n)
  have "safe tab_ok (case lj_tab_set t key of Inl e \<Rightarrow> rfail (BcTab e)
      | Inr (t, slot) \<Rightarrow> rbind bcread_ktabk (\<lambda>v. bcread_khash n (tab_store t slot v)))" for key
    using set_store_ok [OF Suc.prems, of key] Suc.IH
    by (auto split: sum.splits intro!: safe_fail safe_bind [OF safe_ktabk])
  then show ?case unfolding bcread_khash.simps by (rule safe_bind [OF safe_ktabk])
qed (simp add: safe_ret del: rret_apply)

lemma new_limits: "lj_tab_new as hbits = Inr t \<Longrightarrow> as \<le> LJ_MAX_ASIZE \<and> hbits \<le> LJ_MAX_HBITS"
  by (auto simp: lj_tab_new_def newtab_def newhpart_def Let_def LJ_MAX_COLOSIZE_def LJ_MAX_ASIZE_def
      LJ_MAX_ABITS_def LJ_MAX_HBITS_def split: if_splits)

lemma new_filled_ok:
  assumes "lj_tab_new as hbits = Inr t" "length vs = as"
  shows "tab_ok t" "tab_ok (t\<lparr>tarray := vs\<rparr>)"
proof -
  note l = new_limits [OF assms(1)]
  obtain t0 where t0: "lj_tab_new as hbits = Inr t0" "tarray t0 = replicate as TNil"
    "tnode t0 = replicate (2 ^ hbits) nilnode" "freetop t0 = (if hbits = 0 then 0 else 2 ^ hbits)"
    using l by (auto intro: newtab_fields)
  then have t: "t = t0" using assms(1) by simp
  show "tab_ok t" "tab_ok (t\<lparr>tarray := vs\<rparr>)"
    unfolding t by (rule tab_ok_empty [of _ hbits]; use t0 l assms(2) in simp)+
qed

lemma safe_ktab: "safe tab_ok bcread_ktab"
proof -
  have a: "safe tab_ok (if c then rbind (rtimes as bcread_ktabk) (\<lambda>vs. rret (t\<lparr>tarray := vs\<rparr>)) else rret t)"
    if "lj_tab_new as hbits = Inr t" for as hbits t c
    using new_filled_ok [OF that] new_filled_ok(1) [OF that, of "replicate as TNil"]
    by (intro safe_if safe_ret safe_bind [OF safe_times [OF safe_ktabk]]) simp_all
  have "safe tab_ok (case lj_tab_new as hbits of Inl e \<Rightarrow> rfail (BcTab e)
      | Inr t \<Rightarrow> rbind (if c then rbind (rtimes as bcread_ktabk) (\<lambda>vs. rret (t\<lparr>tarray := vs\<rparr>)) else rret t)
          (\<lambda>t. if c' then bcread_khash n t else rret t))" for as hbits c c' n
  proof (cases "lj_tab_new as hbits")
    case (Inr t)
    show ?thesis unfolding Inr sum.case
      by (intro safe_bind [OF a [OF Inr]] safe_if safe_khash safe_ret)
  qed (simp add: safe_fail)
  then show ?thesis unfolding bcread_ktab_def by (intro safe_base)
qed

lemma safe_child: "safe kgc_wf bcread_child"
  by (rule safeI) (auto simp: bcread_child_def stack_wf_def ls_size_def split: list.splits)

lemma safe_kgc1: "safe kgc_wf bcread_kgc1"
  unfolding bcread_kgc1_def
  by (intro safe_base safe_if safe_child safe_bind [OF safe_u64] safe_bind [OF safe_ktab] safe_ret) auto

lemma safe_kgc: "safe (\<lambda>ks. length ks = n \<and> (\<forall>k \<in> set ks. kgc_wf k)) (bcread_kgc n)"
  unfolding bcread_kgc_def by (rule safe_times [OF safe_kgc1])

lemma safe_knum: "safe (\<lambda>kn. length kn = n) (bcread_knum n)"
proof -
  have "safe (\<lambda>_. True) bcread_knum1"
    unfolding bcread_knum1_def by (intro safe_base safe_if safe_ret) simp_all
  then show ?thesis unfolding bcread_knum_def by (rule safe_weaken [OF safe_times]) simp
qed

section \<open>Prototypes\<close>

lemma funcf_op: "o1 < 256 \<Longrightarrow> bc_op (BCINS_AD o1 a 0) = o1"
proof -
  assume o1: "o1 < 256"
  have ff: "(0xff :: u32) = 2 ^ 8 - 1" by simp
  have "(of_nat o1 OR push_bit 8 a) AND 0xff = (of_nat o1 :: u32)"
  proof (rule bit_word_eqI)
    fix n assume "n < LENGTH(32)"
    have "bit (of_nat o1 :: u32) n \<Longrightarrow> n < 8"
      using word_bit_above [of "of_nat o1 :: u32" 8 n] o1 of_nat_small [of o1] by (cases "n < 8") auto
    then show "bit ((of_nat o1 OR push_bit 8 a) AND 0xff) n = bit (of_nat o1 :: u32) n"
      unfolding ff by (simp only: word_bits bit_mask_word) auto
  qed
  then show ?thesis using o1 of_nat_small [of o1] by (simp add: bc_op_def BCINS_AD_def)
qed

lemma safe_bytecode:
  "safe (\<lambda>bc. length bc = Suc n \<and> bc_op (hd bc) = (if flags AND PROTO_VARARG \<noteq> 0 then BC_FUNCV else BC_FUNCF))
    (bcread_bytecode flags fsize n)"
  unfolding bcread_bytecode_def
  by (rule safe_state, rule safe_bind [OF safe_mem])
    (auto simp: Let_def words_of_def funcf_op intro!: safe_ret simp del: rret_apply)

lemma safe_uv: "safe (\<lambda>uv. length uv = n) (bcread_uv n)"
proof (cases "n = 0")
  case True
  then show ?thesis by (simp add: bcread_uv_def [abs_def] safe_def)
next
  case False
  have "safe (\<lambda>uv. length uv = n) (rbind (bcread_mem (n * 2)) (\<lambda>b.
      let uv = halfs_of n b in rret (if bcread_swap (ls_level s0) then map swap16 uv else uv)))" for s0
    unfolding Let_def by (rule safe_bind [OF safe_mem], rule safe_ret) (simp add: halfs_of_def)
  from safe_state [OF this] show ?thesis using False by (simp add: bcread_uv_def [abs_def])
qed

lemma safe_dbg: "safe (\<lambda>b. length b = n) (bcread_dbg nl nbc n)"
proof -
  have l: "length (concat (map (\<lambda>w. u16_bytes (swap16 w)) (halfs_of nbc b)) @ drop (2 * nbc) b) = length b"
      if "2 * nbc \<le> length b" for b
    using that length_words(2) [of "map swap16 (halfs_of nbc b)"] by (simp add: halfs_of_def comp_def)
  have l4: "length (concat (map (\<lambda>w. u32_bytes (lj_bswap w)) (words_of nbc b)) @ drop (4 * nbc) b) = length b"
      if "4 * nbc \<le> length b" for b
    using that length_words(1) [of "map lj_bswap (words_of nbc b)"] by (simp add: words_of_def comp_def)
  show ?thesis
    unfolding bcread_dbg_def [abs_def]
    by (rule safe_state, rule safe_bind [OF safe_mem], intro safe_if safe_ret safe_fail)
      (use l l4 in \<open>auto simp: sizeli_def split: if_splits\<close>)
qed

lemma varinfo_scan_le: "varinfo_scan b ofs n = Some v \<Longrightarrow> ofs \<le> v \<and> v \<le> ofs + length b"
  by (induction b ofs n rule: varinfo_scan.induct) (fastforce split: if_splits)+

lemma varinfo_le: "bcread_varinfo b uvi n = Some v \<Longrightarrow> uvi \<le> v \<and> (n \<noteq> 0 \<longrightarrow> v \<le> length b)"
  using varinfo_scan_le [of "drop uvi b" uvi n v] by (auto simp: bcread_varinfo_def split: if_splits)

lemma safe_debug:
  "safe (\<lambda>pt'. dbg_wf pt' \<and> (\<exists>l u v. pt' = pt\<lparr>lineinfo := l, uvinfo := u, varinfo := v\<rparr>)) (bcread_debug pt n)"
proof (cases "n = 0")
  case True
  then show ?thesis by (auto simp: bcread_debug_def dbg_wf_def intro!: safe_ret simp del: rret_apply)
next
  case False
  have "safe (\<lambda>pt'. dbg_wf pt' \<and> (\<exists>l u v. pt' = pt\<lparr>lineinfo := l, uvinfo := u, varinfo := v\<rparr>))
      (case bcread_varinfo b uvi (length (pt_uv pt)) of None \<Rightarrow> rfail BcStray
       | Some vi \<Rightarrow> rret (pt\<lparr>lineinfo := Some b, uvinfo := Some uvi, varinfo := Some vi\<rparr>))"
    if "uvi = sizeli (length (pt_bc pt) - 1) (numline pt)" for b uvi
  proof (cases "bcread_varinfo b uvi (length (pt_uv pt))")
    case (Some vi)
    show ?thesis unfolding Some option.case
      by (rule safe_ret) (use varinfo_le [OF Some] that in \<open>auto simp: dbg_wf_def\<close>)
  qed (simp add: safe_fail)
  then show ?thesis using False by (simp add: bcread_debug_def Let_def safe_bind [OF safe_dbg])
qed

lemma safe_dbghead: "safe (\<lambda>_. True) bcread_dbghead"
proof -
  have "safe (\<lambda>_. True) (rbind bcread_uleb128 (\<lambda>dbg.
          if dbg \<noteq> 0 then rbind bcread_uleb128 (\<lambda>fl. rbind bcread_uleb128 (\<lambda>nl. rret (unat dbg, fl, nl)))
          else rret (0, 0, 0)))"
    by (intro safe_base safe_if safe_ret) simp_all
  then have "safe (\<lambda>_. True) (if c then rbind bcread_uleb128 (\<lambda>dbg.
          if dbg \<noteq> 0 then rbind bcread_uleb128 (\<lambda>fl. rbind bcread_uleb128 (\<lambda>nl. rret (unat dbg, fl, nl)))
          else rret (0, 0, 0)) else rret (0, 0, 0))" for c
    by (auto intro!: safe_ret simp del: rret_apply)
  from safe_state [OF this, of "\<lambda>s. ls_level s AND BCDUMP_F_STRIP = 0"]
  show ?thesis by (simp add: bcread_dbghead_def [abs_def] if_distrib [of "\<lambda>f. f _"])
qed

lemma safe_proto_rest:
  "safe proto_wf
     (rbind (bcread_bytecode flags fsize (unat nbc)) (\<lambda>bc.
      rbind (bcread_uv (unat (sizeuv :: byte))) (\<lambda>uv.
      rbind (bcread_kgc (unat sizekgc)) (\<lambda>ks.
      rbind (bcread_knum (unat sizekn)) (\<lambda>kn.
      rbind (bcread_debug
         \<lparr>pt_flags = flags, numparams = nparams, framesize = fsize, pt_bc = bc, pt_uv = uv, pt_kn = kn,
          pt_trace = 0, chunkname = name, firstline = fl, numline = nl, lineinfo = None,
          uvinfo = None, varinfo = None\<rparr> dbg) (\<lambda>pt.
       rret (Proto pt ks)))))))"
  by (rule safe_bind [OF safe_bytecode] safe_bind [OF safe_uv] safe_bind [OF safe_kgc] safe_bind [OF safe_knum]
        safe_bind [OF safe_debug] safe_ret)+
    (use unsigned_less [of sizeuv] in \<open>auto simp: info_wf_def\<close>)

lemma safe_proto: "safe proto_wf lj_bcread_proto"
proof -
  have "safe proto_wf
    (rbind bcread_byte (\<lambda>flags.
     rbind bcread_byte (\<lambda>nparams.
     rbind bcread_byte (\<lambda>fsize.
     rbind bcread_byte (\<lambda>sizeuv.
     rbind bcread_uleb128 (\<lambda>sizekgc.
     rbind bcread_uleb128 (\<lambda>sizekn.
     rbind bcread_uleb128 (\<lambda>nbc.
     rbind bcread_dbghead (\<lambda>(dbg, fl, nl).
     if proto_size (unat nbc) (unat sizekgc) (unat sizekn) (unat sizeuv) dbg \<ge> 2 ^ 32 then rfail BcStray else
     rbind (bcread_bytecode flags fsize (unat nbc)) (\<lambda>bc.
     rbind (bcread_uv (unat sizeuv)) (\<lambda>uv.
     rbind (bcread_kgc (unat sizekgc)) (\<lambda>ks.
     rbind (bcread_knum (unat sizekn)) (\<lambda>kn.
     rbind (bcread_debug
         \<lparr>pt_flags = flags, numparams = nparams, framesize = fsize, pt_bc = bc, pt_uv = uv, pt_kn = kn,
          pt_trace = 0, chunkname = name, firstline = fl, numline = nl, lineinfo = None,
          uvinfo = None, varinfo = None\<rparr> dbg) (\<lambda>pt.
       rret (Proto pt ks)))))))))))))))" for name
    by (intro safe_base safe_bind [OF safe_dbghead]) (auto intro!: safe_proto_rest safe_fail safe_if)
  from safe_state [OF this, of ls_chunkname] show ?thesis by (simp add: lj_bcread_proto_def [abs_def])
qed

section \<open>Dumps\<close>

lemma fill_move_safe:
  "fill_move len s \<noteq> Inl BcFuel"
  "fill_move len s = Inr s' \<Longrightarrow> ls_p s' = ls_p s \<and> sbufdata (ls_sb s') = ls_p s \<and> ls_rfunc s' = ls_rfunc s \<and> ls_top s' = ls_top s"
  by (auto simp: fill_move_def Let_def split: if_splits sum.splits)

lemma fill_append_safe:
  "fill_append len buf s \<noteq> Inl BcFuel"
  "fill_append len buf s = Inr s' \<Longrightarrow> sbufdata (ls_sb s) = ls_p s \<Longrightarrow> ls_p s' = ls_p s @ buf \<and> ls_top s' = ls_top s"
  by (auto simp: fill_append_def Let_def lj_buf_need_def lj_buf_need2_def buf_grow_def split: if_splits sum.splits)

lemma fill_loop_safe:
  "fill_loop len need bufs s \<noteq> Inl BcFuel"
  "fill_loop len need bufs s = Inr s' \<Longrightarrow> ls_size s' = length (ls_p s) + length (concat bufs) \<and> ls_top s' = ls_top s"
proof -
  show "fill_loop len need bufs s \<noteq> Inl BcFuel"
    using fill_move_safe(1) fill_append_safe(1)
    by (induction bufs arbitrary: s) (auto simp: and_then_def split: sum.splits)
  show "fill_loop len need bufs s = Inr s' \<Longrightarrow> ls_size s' = length (ls_p s) + length (concat bufs) \<and> ls_top s' = ls_top s"
  proof (induction bufs arbitrary: s)
    case Nil
    then show ?case using fill_move_safe(2) [of len s]
      by (auto simp: ls_size_def and_then_def split: sum.splits if_splits)
  next
    case (Cons buf bufs)
    obtain s1 where s1: "fill_move len s = Inr s1" using Cons.prems by (cases "fill_move len s") simp_all
    note M = fill_move_safe(2) [OF s1]
    show ?case
    proof (cases "buf = []")
      case True
      then show ?thesis using Cons.prems s1 M by (auto simp: ls_size_def split: if_splits)
    next
      case False
      then obtain s2 where s2: "fill_append len buf s1 = Inr s2"
        using Cons.prems s1 by (cases "fill_append len buf s1") simp_all
      have A: "ls_p s2 = ls_p s @ buf \<and> ls_top s2 = ls_top s" using fill_append_safe(2) [OF s2] M by simp
      then show ?thesis using Cons.prems Cons.IH [of s2] s1 s2 False
        by (auto simp: ls_size_def split: if_splits)
    qed
  qed
qed

lemma safe_fill: "safe (\<lambda>_. True) (bcread_fill len need)"
  using fill_loop_safe
  by (intro safeI) (auto simp: bcread_fill_def and_then_def ls_size_def stack_wf_def split: sum.splits if_splits)

lemma safe_need: "safe (\<lambda>_. True) (bcread_need len)"
  using safe_fill [of len True] by (auto simp: bcread_need_def safe_def)

lemma safe_want: "safe (\<lambda>_. True) (bcread_want len)"
  using safe_fill [of len False] by (auto simp: bcread_want_def safe_def)

lemma safe_set: "safe Q m \<Longrightarrow> (\<And>s. ls_size (g s) = ls_size s \<and> ls_top (g s) = ls_top s) \<Longrightarrow> safe Q (\<lambda>s. m (g s))"
  unfolding safe_def
proof (intro allI impI)
  fix s
  assume m: "\<forall>s. stack_wf s \<longrightarrow> (case m s of Inl e \<Rightarrow> e \<noteq> BcFuel | Inr (x, s') \<Rightarrow> Q x \<and> ls_size s' \<le> ls_size s \<and> stack_wf s')"
    and g: "\<And>s. ls_size (g s) = ls_size s \<and> ls_top (g s) = ls_top s" and s: "stack_wf s"
  have "stack_wf (g s)" using g s by (simp add: stack_wf_def)
  then show "case m (g s) of Inl e \<Rightarrow> e \<noteq> BcFuel | Inr (x, s') \<Rightarrow> Q x \<and> ls_size s' \<le> ls_size s \<and> stack_wf s'"
    using m [rule_format, of "g s"] g by (auto split: sum.splits)
qed

lemma safe_put: "(\<And>s. ls_size (g s) = ls_size s \<and> ls_top (g s) = ls_top s) \<Longrightarrow> Q x \<Longrightarrow> safe Q (\<lambda>s. Inr (x, g s))"
  by (simp add: safe_def stack_wf_def)

lemma safe_header: "safe (\<lambda>_. True) bcread_header"
proof -
  define name where "name = rbind bcread_uleb128 (\<lambda>len. rbind (bcread_need (unat len)) (\<lambda>_.
      rbind (bcread_mem (unat len)) (\<lambda>b s. Inr (True, s\<lparr>ls_chunkname := b\<rparr>))))"
  have n: "safe (\<lambda>_. True) name"
    unfolding name_def by (intro safe_base safe_bind [OF safe_need] safe_put) (simp_all add: ls_size_def)
  have "safe (\<lambda>_. True) (\<lambda>s. let s = s\<lparr>ls_level := flags\<rparr> in
       if c1 then Inr (False, s) else if c2 then Inr (False, s)
       else if c3 then Inr (True, s\<lparr>ls_chunkname := ls_chunkarg s\<rparr>) else name s)" for flags c1 c2 c3
    unfolding Let_def
    by (cases c1; cases c2; cases c3; simp) (intro safe_put safe_set [OF n]; simp add: ls_size_def)+
  then show ?thesis unfolding bcread_header_def name_def [symmetric]
    by (intro safe_base safe_bind [OF safe_want] safe_if safe_ret) simp_all
qed

text \<open>Each round of the loop over the prototypes reads at least one byte.\<close>

lemma uleb_progress: "bcread_uleb128 s = Inr (v, s') \<Longrightarrow> ls_size s' < ls_size s"
  by (auto simp: bcread_uleb128_def ls_size_def split: option.splits dest: ruleb_shorter)

definition loop_ok :: "bcr_error + 'a \<times> lexstate \<Rightarrow> bool" where
  "loop_ok r \<longleftrightarrow> (case r of Inl e \<Rightarrow> e \<noteq> BcFuel | Inr (x, s') \<Rightarrow> stack_wf s')"

lemma loop_ok_bind:
  assumes "safe Q m" "stack_wf s"
    and "\<And>x s'. m s = Inr (x, s') \<Longrightarrow> Q x \<Longrightarrow> ls_size s' \<le> ls_size s \<Longrightarrow> stack_wf s' \<Longrightarrow> loop_ok (f x s')"
  shows "loop_ok (rbind m f s)"
  using safeD [OF assms(1,2)] assms(3) by (cases "m s") (auto simp: rbind_def loop_ok_def)

lemma protos_safe: "stack_wf s \<Longrightarrow> ls_size s < n \<Longrightarrow> loop_ok (bcread_protos n s)"
proof (induction n arbitrary: s)
  case (Suc n)
  have "loop_ok (rbind (bcread_want 5) (\<lambda>_. rbind bcread_uleb128 (\<lambda>len.
      if len = 0 then rret ()
      else rbind (bcread_need (unat len)) (\<lambda>_ s. rbind lj_bcread_proto (\<lambda>P s'.
          if length (ls_p s') + unat len \<noteq> length (ls_p s) then Inl LJ_ERR_BCBAD
          else bcread_protos n (s'\<lparr>ls_top := P # ls_top s'\<rparr>)) s))) s)"
  proof (rule loop_ok_bind [OF safe_want Suc.prems(1)], rule loop_ok_bind [OF safe_uleb], assumption)
    fix s1 s2 len
    assume s1: "ls_size s1 \<le> ls_size s" and u: "bcread_uleb128 s1 = Inr (len, s2)" "stack_wf s2"
    have lt: "ls_size s2 < n" using uleb_progress [OF u(1)] s1 Suc.prems(2) by linarith
    show "loop_ok ((if len = 0 then rret ()
      else rbind (bcread_need (unat len)) (\<lambda>_ s. rbind lj_bcread_proto (\<lambda>P s'.
          if length (ls_p s') + unat len \<noteq> length (ls_p s) then Inl LJ_ERR_BCBAD
          else bcread_protos n (s'\<lparr>ls_top := P # ls_top s'\<rparr>)) s)) s2)"
    proof (cases "len = 0")
      case True
      then show ?thesis using u(2) by (simp add: loop_ok_def)
    next
      case False
      have "loop_ok (if c then Inl LJ_ERR_BCBAD else bcread_protos n (s4\<lparr>ls_top := P # ls_top s4\<rparr>))"
        if "proto_wf P" "ls_size s4 \<le> ls_size s3" "stack_wf s4" "ls_size s3 \<le> ls_size s2" for c P s3 s4
        using Suc.IH [of "s4\<lparr>ls_top := P # ls_top s4\<rparr>"] that lt by (simp add: loop_ok_def stack_wf_def ls_size_def)
      then show ?thesis using False
        by (simp only: if_False) (intro loop_ok_bind [OF safe_need u(2)] loop_ok_bind [OF safe_proto])
    qed
  qed
  then show ?case using Suc.prems(1) by (simp add: loop_ok_def stack_wf_def)
qed simp

lemma lj_bcread_safe: "lj_bcread s \<noteq> Inl BcFuel" "lj_bcread s = Inr (P, s') \<Longrightarrow> proto_wf P"
proof -
  define s0 where "s0 = s\<lparr>ls_sb := lj_buf_reset (ls_sb s), ls_top := []\<rparr>"
  have s0: "stack_wf s0" by (simp add: s0_def stack_wf_def)
  define finish where "finish = (\<lambda>_ :: unit. \<lambda>s :: lexstate. if sint (2 * of_nat (length (ls_p s)) :: u32) > 0 then Inl LJ_ERR_BCBAD
          else case ls_top s of [P] \<Rightarrow> Inr (P, s\<lparr>ls_top := []\<rparr>) | _ \<Rightarrow> Inl LJ_ERR_BCBAD)"
  have fin: "finish u s1 \<noteq> Inl BcFuel" "finish u s1 = Inr (P, s') \<Longrightarrow> stack_wf s1 \<Longrightarrow> proto_wf P" for u s1 P s'
    by (auto simp: finish_def stack_wf_def split: list.splits if_splits)
  have d: "lj_bcread s = rbind bcread_header (\<lambda>ok. if \<not> ok then rfail LJ_ERR_BCFMT
      else rbind (bcread_protos (Suc (ls_size s0))) finish) s0"
    unfolding lj_bcread_def Let_def s0_def finish_def ..
  have "case lj_bcread s of Inl e \<Rightarrow> e \<noteq> BcFuel | Inr (P, s') \<Rightarrow> proto_wf P"
  proof (cases "bcread_header s0")
    case (Inl e)
    then show ?thesis using safeD(1) [OF safe_header s0] by (simp add: d rbind_def)
  next
    case (Inr r)
    then obtain ok s1 where h: "bcread_header s0 = Inr (ok, s1)" by (cases r) simp
    then have s1: "ls_size s1 \<le> ls_size s0" "stack_wf s1" using safeD(2) [OF safe_header s0] by auto
    have e: "lj_bcread s = (if \<not> ok then rfail LJ_ERR_BCFMT else rbind (bcread_protos (Suc (ls_size s0))) finish) s1"
      unfolding d by (rule rbind_Inr [of bcread_header, OF h])
    have "loop_ok (bcread_protos (Suc (ls_size s0)) s1)" by (rule protos_safe [OF s1(2)]) (use s1(1) in simp)
    then show ?thesis using fin
      by (cases ok; cases "bcread_protos (Suc (ls_size s0)) s1")
        (auto simp: e rfail_def rbind_def loop_ok_def split: sum.splits)
  qed
  then show "lj_bcread s \<noteq> Inl BcFuel" "lj_bcread s = Inr (P, s') \<Longrightarrow> proto_wf P" by auto
qed

end
