(* ===== verification/Lj_Bcdump_Props.thy ===== *)
theory Lj_Bcdump_Props
  imports Lj_Bcread_Safe "HOL-Library.Code_Target_Numeral"
begin

text \<open>
  The properties of bytecode dumps: what the writer gives to its callback, the round trip through writer
  and reader, and the reader on any input.
\<close>

text \<open>A small chunk: a main function with a string, a child function and two numbers.\<close>

definition chunk_child :: proto where
  "chunk_child = Proto
     \<lparr>pt_flags = 0, numparams = 1, framesize = 2, pt_bc = [0x00000259, 0x0001004b], pt_uv = [0x8000], pt_kn = [],
      pt_trace = 0, chunkname = [61, 120], firstline = 1, numline = 1, lineinfo = None, uvinfo = None, varinfo = None\<rparr>
     []"

definition chunk_main :: proto where
  "chunk_main = Proto
     \<lparr>pt_flags = 0x03, numparams = 0, framesize = 3, pt_bc = [0x0000035c, 0x0001004b], pt_uv = [],
      pt_kn = [num_of_int 7, 0x3ff8000000000000], pt_trace = 0, chunkname = [61, 120], firstline = 0, numline = 2,
      lineinfo = Some [1], uvinfo = Some 1, varinfo = Some 1\<rparr>
     [KStr [104, 105], KProto chunk_child]"

definition chunk_bytes :: bytes where
  "chunk_bytes =
     [27, 76, 74, 2, 0, 2, 61, 120, 14, 0, 1, 2, 1, 0, 0, 1, 0, 75, 0, 1, 0, 0, 128, 26, 3, 0, 3, 0, 2, 2, 1, 1, 0, 2,
      75, 0, 1, 0, 7, 104, 105, 0, 14, 1, 128, 128, 224, 255, 3, 1, 0]"

definition chunk_input :: lexstate where
  "chunk_input =
     \<lparr>ls_p = [76, 74, 2], ls_sb = lj_buf_init, ls_rfunc = [take 7 (drop 4 chunk_bytes), drop 11 chunk_bytes], ls_eof = False,
      ls_level = 0, ls_chunkname = [], ls_chunkarg = [120], ls_top = []\<rparr>"

lemma num_7: "num_of_int 7 = 0x401c000000000000"
  by code_simp

lemma chunk_ok: "proto_ok dbg_good chunk_main"
  unfolding chunk_main_def chunk_child_def
  by (simp add: info_ok_def dbg_ok_def knum_ok_def proto_size_def sizedbg_def LJ_MAX_MEM32_def sizeli_def
      bcread_varinfo_def PROTO_CHILD_def num_7)

lemma chunk_written: "lj_bcwrite (\<lambda>_. 0) chunk_main (\<lambda>d b. (0, d @ b)) [] False = Inr (0, chunk_bytes)"
  by code_simp

section \<open>The writer\<close>

text \<open>
  C10: what the writer writes. For every prototype that can be dumped, \<open>lj_bcwrite\<close> either ends with the
  memory error of its buffer, or the writer callback has been given exactly these pieces, in order and
  until its status is not 0: the header, each prototype as the ULEB128 length of its data and the data,
  children before their parent and from the last constant to the first, and the final zero. No step
  writes past the space it reserved in the buffer (\<open>BwOverrun\<close>), although the space for numbers, tables
  and the length is reserved by upper bounds and the length is written last, and the scan of a hash part
  finds all the entries it has counted.
\<close>

theorem lj_bcwrite_pieces:
  assumes "proto_ok D P"
  shows "lj_bcwrite startins P wfunc wdata strip \<in>
    {Inl BwMem, Inr (feed wfunc (enc_dump strip startins P) (0, wdata))}"
  using lj_bcwrite_spec [OF assms, of startins wfunc wdata strip] by auto

lemma lj_bcwrite_pieces_witness:
  "lj_bcwrite (\<lambda>_. 0) chunk_main (\<lambda>d b. (0, d @ b)) [] False \<in>
    {Inl BwMem, Inr (feed (\<lambda>d b. (0, d @ b)) (enc_dump False (\<lambda>_. 0) chunk_main) (0, []))}"
  by (rule lj_bcwrite_pieces [OF chunk_ok])

section \<open>The round trip\<close>

text \<open>
  C3: a dump is read back. Let \<open>lj_bcwrite\<close> give the bytes \<open>out\<close> to its callback for a prototype that can
  be dumped, of at most \<open>LJ_MAX_BUF\<close> bytes behind the escape the lexer has read. However these bytes
  are cut into non-empty blocks by the callback of the reader, \<open>lj_bcread\<close> accepts them and returns the
  same tree of prototypes: the same constants, template tables with the same value for every key, the
  instructions with those replaced by traces restored, upvalues, parameters, frame size and, unless
  stripped, the line and variable information; a stripped dump has the name of the chunk being loaded.
\<close>

theorem bcdump_roundtrip:
  assumes "proto_ok dbg_good P"
    and "lj_bcwrite startins P (\<lambda>d b. (0, d @ b)) [] strip = Inr (st, out)"
    and "length out \<le> Suc LJ_MAX_BUF"
    and "ls_p s @ concat (ls_rfunc s) = tl out" and "[] \<notin> set (ls_rfunc s)" and "\<not> ls_eof s"
  shows "\<exists>P' s'. lj_bcread s = Inr (P', s') \<and>
    proto_same (dumped strip startins (if strip then ls_chunkarg s else chunkname (pt_info P))) P P'"
proof -
  have "out = concat (enc_dump strip startins P)"
    using lj_bcwrite_spec [OF assms(1), of startins "\<lambda>d b. (0, d @ b)" "[]" strip] assms(2)
    by (simp add: feed_collect)
  then show ?thesis using read_dump [OF assms(1) _ _ assms(5,6)] assms(3,4) by (simp add: ls_view_def)
qed

lemma bcdump_roundtrip_witness:
  "\<exists>P' s'. lj_bcread chunk_input = Inr (P', s') \<and> proto_same (dumped False (\<lambda>_. 0) [61, 120]) chunk_main P'"
proof -
  have b: "length chunk_bytes \<le> Suc LJ_MAX_BUF"
    "ls_p chunk_input @ concat (ls_rfunc chunk_input) = tl chunk_bytes" "[] \<notin> set (ls_rfunc chunk_input)"
    "\<not> ls_eof chunk_input"
    by (simp_all add: chunk_bytes_def chunk_input_def LJ_MAX_MEM32_def)
  show ?thesis using bcdump_roundtrip [OF chunk_ok chunk_written b] by (simp add: chunk_main_def)
qed

section \<open>The reader on any input\<close>

text \<open>
  C16: the reader ends. For every state of the lexer and every sequence of blocks its callback returns,
  the loop of \<open>lj_bcread\<close> over the prototypes ends: with the number of input bytes as fuel it is never
  out of fuel, since each round reads at least one byte.
\<close>

theorem lj_bcread_ends: "lj_bcread s \<noteq> Inl BcFuel"
  by (rule lj_bcread_safe)

text \<open>
  C7: what the reader accepts is well-formed. For any input, also a malformed or a hostile one, a
  prototype returned by \<open>lj_bcread\<close> and all its children start with the function header that fits their
  flags, have at most 255 upvalues, no trace, template tables that satisfy the invariant of tables (a nil or a
  NaN as key is rejected), and debug information whose parts are in order and inside its block.
\<close>

theorem lj_bcread_wf:
  assumes "lj_bcread s = Inr (P, s')"
  shows "proto_wf P"
  using assms by (rule lj_bcread_safe)

lemma lj_bcread_wf_witness: "\<exists>P s'. lj_bcread chunk_input = Inr (P, s') \<and> proto_wf P"
proof -
  have "case lj_bcread chunk_input of Inl e \<Rightarrow> False | Inr (P, s') \<Rightarrow> True" by code_simp
  then obtain P s' where "lj_bcread chunk_input = Inr (P, s')" by (auto split: sum.splits)
  then show ?thesis using lj_bcread_wf by blast
qed

end
