(* ===== verification/Lj_Strscan.thy ===== *)
theory Lj_Strscan
  imports Lj_Strfmt Lj_Obj "HOL-Library.Monad_Syntax"
begin

text \<open>
  The scanner for numbers (\<open>src/src/lj_strscan.c\<close>). The text is a C string: \<open>sc_at\<close> is zero at its end.
  Pointers are offsets. A double is its bit pattern, as in \<open>Lj_Obj\<close>; the conversion of an integer and
  \<open>ldexp\<close> round to the nearest double, ties to even. Signed arithmetic on lengths and exponents is
  unbounded. The loops that scale a decimal number are partial functions: \<open>None\<close> is running forever.
\<close>

section \<open>Formats and options\<close>

datatype strscan_fmt = STRSCAN_NUM | STRSCAN_IMAG | STRSCAN_INT | STRSCAN_U32 | STRSCAN_I64 | STRSCAN_U64

text \<open>The format with the value in the union: \<open>n\<close>, \<open>i\<close> or \<open>u64\<close>; \<open>STRSCAN_ERROR\<close> has no value.\<close>

datatype scan_result =
    ScanError
  | ScanNum u64
  | ScanImag u64
  | ScanInt u32
  | ScanU32 u32
  | ScanI64 u64
  | ScanU64 u64

definition STRSCAN_OPT_TOINT :: u32 where "STRSCAN_OPT_TOINT = 0x01"
definition STRSCAN_OPT_TONUM :: u32 where "STRSCAN_OPT_TONUM = 0x02"
definition STRSCAN_OPT_IMAG :: u32 where "STRSCAN_OPT_IMAG = 0x04"
definition STRSCAN_OPT_LL :: u32 where "STRSCAN_OPT_LL = 0x08"
definition STRSCAN_OPT_C :: u32 where "STRSCAN_OPT_C = 0x10"

lemmas strscan_opts = STRSCAN_OPT_TOINT_def STRSCAN_OPT_TONUM_def STRSCAN_OPT_IMAG_def STRSCAN_OPT_LL_def STRSCAN_OPT_C_def

definition has_opt :: "u32 \<Rightarrow> u32 \<Rightarrow> bool" where "has_opt opt f \<longleftrightarrow> opt AND f \<noteq> 0"

abbreviation (input) "c_dot \<equiv> 0x2e :: byte"
abbreviation (input) "c_plus \<equiv> 0x2b :: byte"
abbreviation (input) "c_minus \<equiv> 0x2d :: byte"
abbreviation (input) "c_0 \<equiv> 0x30 :: byte"

definition sc_at :: "bytes \<Rightarrow> nat \<Rightarrow> byte" where "sc_at s i = (if i < length s then s ! i else 0)"

definition casecmp :: "byte \<Rightarrow> byte \<Rightarrow> bool" where "casecmp c k \<longleftrightarrow> c OR 0x20 = k"

definition sc_isdigit :: "byte \<Rightarrow> bool" where "sc_isdigit c \<longleftrightarrow> lj_char_isdigit (uint c)"
definition sc_isspace :: "byte \<Rightarrow> bool" where "sc_isspace c \<longleftrightarrow> lj_char_isspace (uint c)"

section \<open>Doubles\<close>

text \<open>The double nearest to \<open>m * 2 ^ e\<close>; the exponent field counts up by itself when the mantissa overflows.\<close>

definition round_even :: "nat \<Rightarrow> nat \<Rightarrow> nat" where
  "round_even m k =
     (let q = m div 2 ^ k; r = m mod 2 ^ k in if 2 * r > 2 ^ k \<or> 2 * r = 2 ^ k \<and> odd q then q + 1 else q)"

definition num_round :: "nat \<Rightarrow> int \<Rightarrow> nat" where
  "num_round m e =
     (if m = 0 then 0
      else
        let e' = max (int (fls_nat m) + e - 52) (- 1074);
            q = (if e' \<le> e then m * 2 ^ nat (e - e') else round_even m (nat (e' - e)));
            b = nat (e' + 1074) * 2 ^ 52 + q
        in min b (2047 * 2 ^ 52))"

definition num_of_u63 :: "u64 \<Rightarrow> u64" where "num_of_u63 x = of_nat (num_round (unat x) 0)"

definition num_neg :: "u64 \<Rightarrow> u64" where "num_neg n = n XOR 0x8000000000000000"

definition num_ldexp :: "u64 \<Rightarrow> int \<Rightarrow> u64" where
  "num_ldexp n k =
     (if num_exp n = 2047 then n
      else
        let m = (if num_exp n = 0 then num_man n else 2 ^ 52 + num_man n);
            e = (if num_exp n = 0 then - 1074 else int (num_exp n) - 1075)
        in of_nat (num_sign n * 2 ^ 63 + num_round m (e + k)))"

definition num_pinf :: u64 where "num_pinf = 0x7ff0000000000000"
definition num_minf :: u64 where "num_minf = 0xfff0000000000000"
definition num_nanV :: u64 where "num_nanV = 0xfff8000000000000"

definition fls64 :: "u64 \<Rightarrow> int" where "fls64 x = int (fls_nat (unat x))"

definition strscan_double :: "u64 \<Rightarrow> int \<Rightarrow> bool \<Rightarrow> u64" where
  "strscan_double x ex2 neg =
     (let x =
        (if ex2 \<le> - 1075 \<and> x \<noteq> 0 then
           let b = fls64 x in
           if b + ex2 \<le> - 1023 \<and> b + ex2 \<ge> - 1075 then
             let rb = push_bit (nat (- 1075 - ex2)) 1;
                 x = (if x AND rb \<noteq> 0 \<and> x AND (rb + rb + rb - 1) \<noteq> 0 then x + (rb + rb) else x)
             in x AND NOT (rb + rb - 1)
           else x
         else x);
        n = num_of_u63 x;
        n = (if neg then num_neg n else n)
      in if ex2 \<noteq> 0 then num_ldexp n ex2 else n)"

section \<open>Base-specific parsers\<close>

text \<open>\<open>neg ? -(int32_t)x : (int32_t)x\<close> and the same on 64 bits.\<close>

definition signed32 :: "bool \<Rightarrow> u64 \<Rightarrow> u32" where "signed32 neg x = (if neg then - ucast x else ucast x)"
definition signed64 :: "bool \<Rightarrow> u64 \<Rightarrow> u64" where "signed64 neg x = (if neg then - x else x)"

definition fits31 :: "bool \<Rightarrow> u64 \<Rightarrow> bool" where "fits31 neg x \<longleftrightarrow> x < 0x80000000 + (if neg then 1 else 0)"

definition fmt_num :: "strscan_fmt \<Rightarrow> u64 \<Rightarrow> scan_result" where
  "fmt_num fmt n = (if fmt = STRSCAN_IMAG then ScanImag n else ScanNum n)"

definition fmt_64 :: "strscan_fmt \<Rightarrow> u64 \<Rightarrow> scan_result" where
  "fmt_64 fmt u = (if fmt = STRSCAN_I64 then ScanI64 u else ScanU64 u)"

text \<open>\<open>*p != '.' ? *p : *++p\<close>.\<close>

definition skip_dot :: "bytes \<Rightarrow> nat \<Rightarrow> nat" where
  "skip_dot s p = (if sc_at s p \<noteq> c_dot then p else p + 1)"

fun hex_digits :: "bytes \<Rightarrow> nat \<Rightarrow> nat \<Rightarrow> u64 \<Rightarrow> u64 \<times> nat" where
  "hex_digits s 0 p x = (x, p)"
| "hex_digits s (Suc i) p x =
     (let p = skip_dot s p;
          d = (ucast (sc_at s p) :: u64);
          d = (if d > 0x39 then d + 9 else d)
      in hex_digits s i (p + 1) (push_bit 4 x + (d AND 15)))"

fun hex_excess :: "bytes \<Rightarrow> nat \<Rightarrow> nat \<Rightarrow> u64 \<Rightarrow> int \<Rightarrow> u64 \<times> int" where
  "hex_excess s 0 p x ex2 = (x, ex2)"
| "hex_excess s (Suc i) p x ex2 =
     (let p = skip_dot s p in hex_excess s i (p + 1) (x OR (if sc_at s p \<noteq> c_0 then 1 else 0)) (ex2 + 4))"

definition strscan_rest :: "u64 \<Rightarrow> strscan_fmt \<Rightarrow> int \<Rightarrow> bool \<Rightarrow> scan_result" where
  "strscan_rest x fmt ex2 neg =
     (if x AND 0xc000000000000000 \<noteq> 0 then fmt_num fmt (strscan_double (drop_bit 2 x OR (x AND 3)) (ex2 + 2) neg)
      else fmt_num fmt (strscan_double x ex2 neg))"

definition strscan_hex :: "bytes \<Rightarrow> nat \<Rightarrow> strscan_fmt \<Rightarrow> u32 \<Rightarrow> int \<Rightarrow> bool \<Rightarrow> nat \<Rightarrow> scan_result" where
  "strscan_hex s p fmt opt ex2 neg dig =
     (let (x, p) = hex_digits s (if dig > 16 then 16 else dig) p 0;
          (x, ex2) = hex_excess s (dig - 16) p x ex2;
          u32 = (if dig > 8 then ScanError else ScanU32 (signed32 neg x))
      in case fmt of
           STRSCAN_INT \<Rightarrow>
             if \<not> has_opt opt STRSCAN_OPT_TONUM \<and> fits31 neg x then ScanInt (signed32 neg x)
             else if \<not> has_opt opt STRSCAN_OPT_C then strscan_rest x STRSCAN_NUM ex2 neg
             else u32
         | STRSCAN_U32 \<Rightarrow> u32
         | STRSCAN_I64 \<Rightarrow> if dig > 16 then ScanError else ScanI64 (signed64 neg x)
         | STRSCAN_U64 \<Rightarrow> if dig > 16 then ScanError else ScanU64 (signed64 neg x)
         | _ \<Rightarrow> strscan_rest x fmt ex2 neg)"

fun oct_digits :: "bytes \<Rightarrow> nat \<Rightarrow> nat \<Rightarrow> u64 \<Rightarrow> u64 option" where
  "oct_digits s 0 p x = Some x"
| "oct_digits s (Suc dig) p x =
     (let c = sc_at s p in
      if \<not> (c \<ge> c_0 \<and> c \<le> 0x37) then None else oct_digits s dig (p + 1) (push_bit 3 x + (ucast c AND 7)))"

definition strscan_oct :: "bytes \<Rightarrow> nat \<Rightarrow> strscan_fmt \<Rightarrow> bool \<Rightarrow> nat \<Rightarrow> scan_result" where
  "strscan_oct s p fmt neg dig =
     (if dig > 22 \<or> dig = 22 \<and> sc_at s p > 0x31 then ScanError
      else case oct_digits s dig p 0 of
             None \<Rightarrow> ScanError
           | Some x \<Rightarrow>
               let fmt = (if fmt = STRSCAN_INT \<and> \<not> fits31 neg x then STRSCAN_U32 else fmt) in
               if fmt = STRSCAN_INT \<or> fmt = STRSCAN_U32 then
                 if drop_bit 32 x \<noteq> 0 then ScanError
                 else if fmt = STRSCAN_INT then ScanInt (signed32 neg x) else ScanU32 (signed32 neg x)
               else fmt_64 fmt (signed64 neg x))"

fun bin_digits :: "bytes \<Rightarrow> nat \<Rightarrow> nat \<Rightarrow> u64 \<Rightarrow> u64 option" where
  "bin_digits s 0 p x = Some x"
| "bin_digits s (Suc i) p x =
     (let c = sc_at s p in
      if c AND NOT 1 \<noteq> c_0 then None else bin_digits s i (p + 1) (push_bit 1 x OR (ucast c AND 1)))"

definition strscan_bin :: "bytes \<Rightarrow> nat \<Rightarrow> strscan_fmt \<Rightarrow> u32 \<Rightarrow> int \<Rightarrow> bool \<Rightarrow> nat \<Rightarrow> scan_result" where
  "strscan_bin s p fmt opt ex2 neg dig =
     (if ex2 \<noteq> 0 \<or> dig > 64 then ScanError
      else case bin_digits s dig p 0 of
             None \<Rightarrow> ScanError
           | Some x \<Rightarrow>
               let u32 = (if dig > 32 then ScanError else ScanU32 (signed32 neg x)) in
               case fmt of
                 STRSCAN_INT \<Rightarrow>
                   if \<not> has_opt opt STRSCAN_OPT_TONUM \<and> fits31 neg x then ScanInt (signed32 neg x)
                   else if \<not> has_opt opt STRSCAN_OPT_C then strscan_rest x STRSCAN_NUM ex2 neg
                   else u32
               | STRSCAN_U32 \<Rightarrow> u32
               | STRSCAN_I64 \<Rightarrow> ScanI64 (signed64 neg x)
               | STRSCAN_U64 \<Rightarrow> ScanU64 (signed64 neg x)
               | _ \<Rightarrow> strscan_rest x fmt ex2 neg)"

section \<open>Decimal numbers\<close>

text \<open>
  The digits are collected in base 100 and scaled in a circular buffer of \<open>STRSCAN_DDIG\<close> bytes, of which
  \<open>hi\<close> to \<open>lo\<close> are in use.
\<close>

definition STRSCAN_MAXDIG :: nat where "STRSCAN_MAXDIG = 800"
definition STRSCAN_DDIG :: nat where "STRSCAN_DDIG = 512"

definition DNEXT :: "nat \<Rightarrow> nat" where "DNEXT a = (a + 1) mod STRSCAN_DDIG"
definition DPREV :: "nat \<Rightarrow> nat" where "DPREV a = (a + (STRSCAN_DDIG - 1)) mod STRSCAN_DDIG"
definition DLEN :: "nat \<Rightarrow> nat \<Rightarrow> int" where "DLEN lo hi = (int lo - int hi) mod int STRSCAN_DDIG"

definition dec_digit :: "bytes \<Rightarrow> nat \<Rightarrow> byte" where "dec_digit s p = sc_at s p AND 15"

fun dec_pairs :: "bytes \<Rightarrow> nat \<Rightarrow> nat \<Rightarrow> byte list \<Rightarrow> nat \<times> nat \<times> byte list" where
  "dec_pairs s i p xi =
     (if i > 1 then
        let p1 = skip_dot s p; p2 = skip_dot s (p1 + 1)
        in dec_pairs s (i - 2) (p2 + 1) (xi @ [10 * dec_digit s p1 + dec_digit s p2])
      else (i, p, xi))"

declare dec_pairs.simps [simp del]

definition or_last :: "byte list \<Rightarrow> byte list" where "or_last xi = butlast xi @ [last xi OR 1]"

fun dec_excess :: "bytes \<Rightarrow> nat \<Rightarrow> nat \<Rightarrow> byte list \<Rightarrow> byte list" where
  "dec_excess s 0 p xi = xi"
| "dec_excess s (Suc n) p xi =
     (let p = skip_dot s p in if sc_at s p \<noteq> c_0 then or_last xi else dec_excess s n (p + 1) xi)"

function dec_simplify :: "byte list \<Rightarrow> int \<Rightarrow> nat \<Rightarrow> byte list \<times> int \<times> nat" where
  "dec_simplify xi ex10 dig =
     (if ex10 > 0 \<and> dig \<le> 18 then dec_simplify (xi @ [0]) (ex10 - 2) (dig + 2) else (xi, ex10, dig))"
  by pat_completeness auto
termination by (relation "measure (\<lambda>(xi, ex10, dig). 19 - dig)") auto

declare dec_simplify.simps [simp del]

text \<open>The digits of the text in base 100, with the exponent and the number of decimal digits.\<close>

definition dec_collect :: "bytes \<Rightarrow> nat \<Rightarrow> int \<Rightarrow> nat \<Rightarrow> byte list \<times> int \<times> nat" where
  "dec_collect s p ex10 dig =
     (if dig \<noteq> 0 then
        let ex10 = (if dig > STRSCAN_MAXDIG then ex10 + int (dig - STRSCAN_MAXDIG) else ex10);
            i = (if dig > STRSCAN_MAXDIG then STRSCAN_MAXDIG else dig);
            (i, p, xi) =
              (if odd (ex10 + int i) then let p = skip_dot s p in (i - 1, p + 1, [dec_digit s p]) else (i, p, []));
            (i, p, xi) = dec_pairs s i p xi;
            (xi, ex10, dig, p) =
              (if i \<noteq> 0 then let p = skip_dot s p in (xi @ [10 * dec_digit s p], ex10 - 1, dig + 1, p + 1)
               else (xi, ex10, dig, p))
        in if dig > STRSCAN_MAXDIG then (dec_excess s (dig - STRSCAN_MAXDIG) p xi, ex10, STRSCAN_MAXDIG)
           else dec_simplify xi ex10 dig
      else ([0], 0, 0))"

text \<open>
  One round of scaling up by 64: from the last digit to the first, with the carry; zeros at the end are
  dropped. \<open>i\<close> runs through the buffer until \<open>hi\<close>, in at most \<open>STRSCAN_DDIG\<close> steps.
\<close>

fun up_digits :: "nat \<Rightarrow> nat \<Rightarrow> nat \<Rightarrow> byte list \<Rightarrow> nat \<Rightarrow> nat \<Rightarrow> byte list \<times> nat \<times> nat" where
  "up_digits 0 hi i xi lo cy = (xi, lo, cy)"
| "up_digits (Suc n) hi i xi lo cy =
     (let d = unat (xi ! i) * 64 + cy;
          cy = d div 4 * 5243 div 2 ^ 17;
          d = d - cy * 100;
          xi = xi[i := of_nat d]
      in if i = hi then (xi, lo, cy)
         else up_digits n hi (DPREV i) xi (if d = 0 \<and> i = DPREV lo then i else lo) cy)"

definition up_round :: "byte list \<times> nat \<times> nat \<times> int \<Rightarrow> byte list \<times> nat \<times> nat \<times> int" where
  "up_round = (\<lambda>(xi, hi, lo, idig).
     let (xi, lo, cy) = up_digits STRSCAN_DDIG hi (DPREV lo) xi lo 0 in
     if cy \<noteq> 0 then
       let hi = DPREV hi;
           (xi, lo) =
             (if xi ! DPREV lo = 0 then (xi, DPREV lo)
              else if hi = lo then
                let lo = DPREV lo in (xi[DPREV lo := xi ! DPREV lo OR xi ! lo], lo)
              else (xi, lo))
       in (xi[hi := of_nat cy], hi, lo, idig + 1)
     else (xi, hi, lo, idig))"

partial_function (option) dec_up :: "byte list \<times> nat \<times> nat \<times> int \<Rightarrow> int \<Rightarrow> ((byte list \<times> nat \<times> nat \<times> int) \<times> int) option" where
  "dec_up b ex2 =
     (case b of (xi, hi, lo, idig) \<Rightarrow>
        if idig < 9 \<and> idig < DLEN lo hi then dec_up (up_round b) (ex2 - 6) else Some (b, ex2))"

declare dec_up.simps [code]

text \<open>One round of scaling down by 64, from the first digit to the last.\<close>

fun down_digits :: "nat \<Rightarrow> nat \<Rightarrow> nat \<Rightarrow> byte list \<Rightarrow> nat \<Rightarrow> int \<Rightarrow> nat \<Rightarrow> byte list \<times> nat \<times> int \<times> nat" where
  "down_digits 0 lo i xi hi idig cy = (xi, hi, idig, cy)"
| "down_digits (Suc n) lo i xi hi idig cy =
     (let cy = cy + unat (xi ! i);
          xi = xi[i := of_nat (cy div 64)];
          cy = 100 * (cy mod 64);
          (hi, idig) = (if xi ! i = 0 \<and> i = hi then (DNEXT hi, idig - 1) else (hi, idig));
          i = DNEXT i
      in if i \<noteq> lo then down_digits n lo i xi hi idig cy else (xi, hi, idig, cy))"

partial_function (option) down_tail :: "byte list \<Rightarrow> nat \<Rightarrow> nat \<Rightarrow> nat \<Rightarrow> (byte list \<times> nat) option" where
  "down_tail xi hi lo cy =
     (if cy \<noteq> 0 then
        if hi = lo then Some (xi[DPREV lo := xi ! DPREV lo OR 1], lo)
        else down_tail (xi[lo := of_nat (cy div 64)]) hi (DNEXT lo) (100 * (cy mod 64))
      else Some (xi, lo))"

partial_function (option) dec_down :: "byte list \<times> nat \<times> nat \<times> int \<Rightarrow> int \<Rightarrow> ((byte list \<times> nat \<times> nat \<times> int) \<times> int) option" where
  "dec_down b ex2 =
     (case b of (xi, hi, lo, idig) \<Rightarrow>
        if idig > 9 then
          case down_digits STRSCAN_DDIG lo hi xi hi idig 0 of
            (xi, hi, idig, cy) \<Rightarrow>
              Option.bind (down_tail xi hi lo cy) (\<lambda>(xi, lo). dec_down (xi, hi, lo, idig) (ex2 + 6))
        else Some (b, ex2))"

declare dec_down.simps [code] down_tail.simps [code]

text \<open>The integer part and the round bit.\<close>

fun int_part :: "nat \<Rightarrow> byte list \<Rightarrow> nat \<Rightarrow> nat \<Rightarrow> int \<Rightarrow> u64 \<Rightarrow> u64 \<times> nat \<times> int" where
  "int_part 0 xi lo i idig x = (x, i, idig)"
| "int_part (Suc n) xi lo i idig x =
     (let idig = idig - 1 in
      if idig > 0 \<and> i \<noteq> lo then int_part n xi lo (DNEXT i) idig (x * 100 + ucast (xi ! i)) else (x, i, idig))"

fun times100 :: "nat \<Rightarrow> u64 \<Rightarrow> u64" where
  "times100 0 x = x"
| "times100 (Suc n) x = times100 n (x * 100)"

fun round_bit :: "nat \<Rightarrow> byte list \<Rightarrow> nat \<Rightarrow> nat \<Rightarrow> bool" where
  "round_bit 0 xi lo i = False"
| "round_bit (Suc n) xi lo i =
     (if xi ! i \<noteq> 0 then True else let i = DNEXT i in if i \<noteq> lo then round_bit n xi lo i else False)"

definition dec_result :: "byte list \<times> nat \<times> nat \<times> int \<Rightarrow> int \<Rightarrow> bool \<Rightarrow> u64" where
  "dec_result = (\<lambda>(xi, hi, lo, idig) ex2 neg.
     let (x, i, idig) = int_part STRSCAN_DDIG xi lo (DNEXT hi) idig (ucast (xi ! hi)) in
     if i = lo then strscan_double (times100 (nat idig) x) ex2 neg
     else strscan_double (push_bit 1 x OR (if round_bit STRSCAN_DDIG xi lo i then 1 else 0)) (ex2 - 1) neg)"

definition dec_slow :: "byte list \<Rightarrow> strscan_fmt \<Rightarrow> int \<Rightarrow> bool \<Rightarrow> scan_result option" where
  "dec_slow xi fmt ex10 neg =
     (let lo = length xi; idig = int lo + ex10 div 2 in
      if idig > 310 div 2 then Some (fmt_num fmt (if neg then num_minf else num_pinf))
      else if idig < - (326 div 2) then Some (fmt_num fmt (if neg then 0x8000000000000000 else 0))
      else
        Option.bind (dec_up (xi @ replicate (STRSCAN_DDIG - lo) 0, 0, lo, idig) 0) (\<lambda>(b, ex2).
        Option.bind (dec_down b ex2) (\<lambda>(b, ex2).
          Some (fmt_num fmt (dec_result b ex2 neg)))))"

definition strscan_dec :: "bytes \<Rightarrow> nat \<Rightarrow> strscan_fmt \<Rightarrow> u32 \<Rightarrow> int \<Rightarrow> bool \<Rightarrow> nat \<Rightarrow> scan_result option" where
  "strscan_dec s p fmt opt ex10 neg dig =
     (let (xi, ex10, dig) = dec_collect s p ex10 dig;
          x = foldl (\<lambda>x d. x * 100 + ucast d) (ucast (hd xi)) (tl xi) :: u64;
          slow =
            (if fmt = STRSCAN_INT then
               if has_opt opt STRSCAN_OPT_C then Some ScanError else dec_slow xi STRSCAN_NUM ex10 neg
             else if fmt \<noteq> STRSCAN_NUM \<and> fmt \<noteq> STRSCAN_IMAG then Some ScanError
             else dec_slow xi fmt ex10 neg);
          plain = (\<lambda>fmt. Some (fmt_num fmt (if neg then num_neg (num_of_u63 x) else num_of_u63 x)));
          u32 = (if drop_bit 32 x \<noteq> 0 then ScanError else ScanU32 (signed32 neg x))
      in if dig \<le> 20 \<and> ex10 = 0 \<and> \<not> (dig = 20 \<and> (hd xi > 18 \<or> sint x \<ge> 0)) then
           case fmt of
             STRSCAN_INT \<Rightarrow>
               if \<not> has_opt opt STRSCAN_OPT_TONUM \<and> fits31 neg x then Some (ScanInt (signed32 neg x))
               else if \<not> has_opt opt STRSCAN_OPT_C then if sint x < 0 then dec_slow xi STRSCAN_NUM ex10 neg else plain STRSCAN_NUM
               else Some u32
           | STRSCAN_U32 \<Rightarrow> Some u32
           | STRSCAN_I64 \<Rightarrow> Some (ScanI64 (signed64 neg x))
           | STRSCAN_U64 \<Rightarrow> Some (ScanU64 (signed64 neg x))
           | _ \<Rightarrow> if sint x < 0 then slow else plain fmt
         else slow)"

section \<open>Scanning\<close>

text \<open>The loops over the text are recursions over the rest of it; the end of the list is the terminator.\<close>

fun skip_spaces :: "bytes \<Rightarrow> nat \<Rightarrow> nat" where
  "skip_spaces [] p = p"
| "skip_spaces (c # cs) p = (if sc_isspace c then skip_spaces cs (p + 1) else p)"

definition skip_space :: "bytes \<Rightarrow> nat \<Rightarrow> nat" where "skip_space s p = skip_spaces (drop p s) p"

text \<open>The text \<open>inf\<close>, \<open>infinity\<close> or \<open>nan\<close>, or anything else.\<close>

definition casecmps :: "bytes \<Rightarrow> nat \<Rightarrow> byte list \<Rightarrow> bool" where
  "casecmps s p ks \<longleftrightarrow> (\<forall>i \<in> set [0..<length ks]. casecmp (sc_at s (p + i)) (ks ! i))"

definition strscan_special :: "bytes \<Rightarrow> nat \<Rightarrow> bool \<Rightarrow> scan_result" where
  "strscan_special s p neg =
     (let (v, p) =
        (if casecmps s p [0x69, 0x6e, 0x66] then
           (if neg then num_minf else num_pinf,
            if casecmps s (p + 3) [0x69, 0x6e, 0x69, 0x74, 0x79] then p + 8 else p + 3)
         else if casecmps s p [0x6e, 0x61, 0x6e] then (num_nanV, p + 3)
         else (num_nanV, p));
        p = skip_space s p
      in if sc_at s p \<noteq> 0 then ScanError else ScanNum v)"

fun scan_zeros :: "bytes \<Rightarrow> nat \<Rightarrow> bool \<Rightarrow> nat option \<Rightarrow> (nat \<times> bool \<times> nat option) option" where
  "scan_zeros [] p hasdig dp = Some (p, hasdig, dp)"
| "scan_zeros (c # cs) p hasdig dp =
     (if c = c_0 then scan_zeros cs (p + 1) True dp
      else if c = c_dot then if dp \<noteq> None then None else scan_zeros cs (p + 1) hasdig (Some p)
      else Some (p, hasdig, dp))"

fun scan_digits :: "byte \<Rightarrow> bytes \<Rightarrow> nat \<Rightarrow> u32 \<Rightarrow> nat \<Rightarrow> nat option \<Rightarrow> (nat \<times> u32 \<times> nat \<times> nat option) option" where
  "scan_digits cmask [] p x dig dp = Some (p, x, dig, dp)"
| "scan_digits cmask (c # cs) p x dig dp =
     (if lj_char_isa (uint c) cmask \<noteq> 0 then scan_digits cmask cs (p + 1) (x * 10 + (ucast c AND 15)) (dig + 1) dp
      else if c = c_dot then if dp \<noteq> None then None else scan_digits cmask cs (p + 1) x dig (Some p)
      else Some (p, x, dig, dp))"

function trim_zeros :: "bytes \<Rightarrow> nat \<Rightarrow> int \<Rightarrow> nat \<Rightarrow> int \<times> nat" where
  "trim_zeros s dp ex dig = (if ex < 0 \<and> sc_at s dp = c_0 then trim_zeros s (dp - 1) (ex + 1) (dig - 1) else (ex, dig))"
  by pat_completeness auto
termination by (relation "measure (\<lambda>(s, dp, ex, dig). nat (- ex))") auto

declare trim_zeros.simps [simp del]

fun exp_digits :: "bytes \<Rightarrow> nat \<Rightarrow> nat \<Rightarrow> nat \<times> nat" where
  "exp_digits [] p xx = (p, xx)"
| "exp_digits (c # cs) p xx =
     (if sc_isdigit c then exp_digits cs (p + 1) (if xx < 65536 then xx * 10 + unat (c AND 15) else xx) else (p, xx))"

text \<open>The exponent, if there is one: the format, the exponent and the position, or an error.\<close>

definition scan_exponent :: "bytes \<Rightarrow> nat \<Rightarrow> nat \<Rightarrow> strscan_fmt \<Rightarrow> int \<Rightarrow> (strscan_fmt \<times> int \<times> nat) option" where
  "scan_exponent s base p fmt ex =
     (if base \<ge> 10 \<and> casecmp (sc_at s p) (if base = 16 then 0x70 else 0x65) then
        let p = p + 1;
            negx = (sc_at s p = c_minus);
            p = (if sc_at s p = c_plus \<or> negx then p + 1 else p)
        in if \<not> sc_isdigit (sc_at s p) then None
           else let (q, xx) = exp_digits (drop (p + 1) s) (p + 1) (unat (sc_at s p AND 15))
                in Some (STRSCAN_NUM, if negx then ex - int xx else ex + int xx, q)
      else Some (fmt, ex, p))"

definition fmt_ll :: "strscan_fmt \<Rightarrow> strscan_fmt" where
  "fmt_ll fmt = (if fmt = STRSCAN_INT then STRSCAN_I64 else STRSCAN_U64)"

definition fmt_unsigned :: "strscan_fmt \<Rightarrow> strscan_fmt" where
  "fmt_unsigned fmt = (if fmt = STRSCAN_INT then STRSCAN_U32 else STRSCAN_U64)"

definition scan_suffix_u :: "bytes \<Rightarrow> strscan_fmt \<Rightarrow> nat \<Rightarrow> strscan_fmt \<times> nat" where
  "scan_suffix_u s fmt p =
     (if casecmp (sc_at s p) 0x75 \<and> (fmt = STRSCAN_INT \<or> fmt = STRSCAN_I64) then (fmt_unsigned fmt, p + 1) else (fmt, p))"

definition scan_suffix_int :: "bytes \<Rightarrow> u32 \<Rightarrow> nat \<Rightarrow> (strscan_fmt \<times> nat) option" where
  "scan_suffix_int s opt p =
     (let (fmt, p) = (if casecmp (sc_at s p) 0x75 then (STRSCAN_U32, p + 1) else (STRSCAN_INT, p));
          r = (if casecmp (sc_at s p) 0x6c then
                 if casecmp (sc_at s (p + 1)) 0x6c then Some (fmt_ll fmt, p + 2)
                 else if \<not> has_opt opt STRSCAN_OPT_C then None
                 else Some (fmt_ll fmt, p + 1)
               else Some (fmt, p))
      in case r of
           None \<Rightarrow> None
         | Some (fmt, p) \<Rightarrow>
             (let (fmt, p) = scan_suffix_u s fmt p in
              if fmt = STRSCAN_U32 \<and> \<not> has_opt opt STRSCAN_OPT_C \<or>
                 (fmt = STRSCAN_I64 \<or> fmt = STRSCAN_U64) \<and> \<not> has_opt opt STRSCAN_OPT_LL then None
              else Some (fmt, p)))"

definition scan_suffix :: "bytes \<Rightarrow> u32 \<Rightarrow> strscan_fmt \<Rightarrow> nat \<Rightarrow> strscan_fmt option" where
  "scan_suffix s opt fmt p =
     (if sc_at s p \<noteq> 0 then
        case (if casecmp (sc_at s p) 0x69 then
                if \<not> has_opt opt STRSCAN_OPT_IMAG then None else Some (STRSCAN_IMAG, p + 1)
              else if fmt = STRSCAN_INT then scan_suffix_int s opt p
              else Some (fmt, p)) of
          None \<Rightarrow> None
        | Some (fmt, p) \<Rightarrow> if sc_at s (skip_space s p) \<noteq> 0 then None else Some fmt
      else Some fmt)"

definition scan_toint :: "u32 \<Rightarrow> scan_result \<Rightarrow> scan_result" where
  "scan_toint opt r =
     (case r of
        ScanNum n \<Rightarrow>
          if has_opt opt STRSCAN_OPT_TOINT then
            let i = lj_num2int n in if num_eq n (num_of_int i) then ScanInt (word_of_int i) else r
          else r
      | _ \<Rightarrow> r)"

definition strscan_dispatch :: "bytes \<Rightarrow> u32 \<Rightarrow> nat \<Rightarrow> nat \<Rightarrow> strscan_fmt \<Rightarrow> int \<Rightarrow> bool \<Rightarrow> u32 \<Rightarrow> nat \<Rightarrow> scan_result option" where
  "strscan_dispatch s opt base sp fmt ex neg x dig =
     (if fmt = STRSCAN_INT \<and> base = 10 \<and>
         (dig < 10 \<or> dig = 10 \<and> sc_at s sp \<le> 0x32 \<and> x < 0x80000000 + (if neg then 1 else 0)) then
        let y = (if neg then - x else x)
        in Some (if has_opt opt STRSCAN_OPT_TONUM then ScanNum (num_of_int (sint y)) else ScanInt y)
      else if base = 0 \<and> fmt \<noteq> STRSCAN_NUM \<and> fmt \<noteq> STRSCAN_IMAG then Some (strscan_oct s sp fmt neg dig)
      else Option.bind
             (if base = 16 then Some (strscan_hex s sp fmt opt ex neg dig)
              else if base = 2 then Some (strscan_bin s sp fmt opt ex neg dig)
              else strscan_dec s sp fmt opt ex neg dig)
             (\<lambda>r. Some (scan_toint opt r)))"

definition strscan_regular :: "bytes \<Rightarrow> u32 \<Rightarrow> nat \<Rightarrow> bool \<Rightarrow> scan_result option" where
  "strscan_regular s opt p neg =
     (let base = (if has_opt opt STRSCAN_OPT_C \<and> sc_at s p = c_0 then 0 else 10);
          (base, p) =
            (if sc_at s p = c_0 \<and> casecmp (sc_at s (p + 1)) 0x78 then (16, p + 2)
             else if sc_at s p = c_0 \<and> casecmp (sc_at s (p + 1)) 0x62 then (2, p + 2)
             else (base, p));
          cmask = (if base = 16 then LJ_CHAR_XDIGIT else LJ_CHAR_DIGIT)
      in case scan_zeros (drop p s) p False None of
           None \<Rightarrow> Some ScanError
         | Some (sp, hasdig, dp) \<Rightarrow>
      (case scan_digits cmask (drop sp s) sp 0 0 dp of
           None \<Rightarrow> Some ScanError
         | Some (p, x, dig, dp) \<Rightarrow>
      (if \<not> hasdig \<and> dig = 0 then Some ScanError
      else
        let fmt = (if dp \<noteq> None then STRSCAN_NUM else STRSCAN_INT);
            (ex, dig) =
              (case dp of
                 None \<Rightarrow> (0, dig)
               | Some d \<Rightarrow>
                   if dig \<noteq> 0 then
                     let (ex, dig) = trim_zeros s (p - 1) (int d - int (p - 1)) dig
                     in (if base = 16 then ex * 4 else ex, dig)
                   else (0, dig))
        in case scan_exponent s base p fmt ex of
             None \<Rightarrow> Some ScanError
           | Some (fmt, ex, p) \<Rightarrow>
        (case scan_suffix s opt fmt p of
             None \<Rightarrow> Some ScanError
           | Some fmt \<Rightarrow> strscan_dispatch s opt base sp fmt ex neg x dig))))"

definition lj_strscan_scan :: "bytes \<Rightarrow> u32 \<Rightarrow> scan_result option" where
  "lj_strscan_scan s opt =
     (if \<not> sc_isdigit (sc_at s 0) then
        let p = skip_space s 0;
            neg = (sc_at s p = c_minus);
            p = (if sc_at s p = c_plus \<or> neg then p + 1 else p)
        in if sc_at s p \<ge> 0x41 then Some (strscan_special s p neg) else strscan_regular s opt p neg
      else strscan_regular s opt 0 False)"

text \<open>The value of a string as a number, and 0 if it is none.\<close>

definition lj_strscan_num :: "bytes \<Rightarrow> u64 option option" where
  "lj_strscan_num str =
     Option.bind (lj_strscan_scan str STRSCAN_OPT_TONUM) (\<lambda>r.
       Some (case r of ScanNum n \<Rightarrow> Some n | _ \<Rightarrow> None))"

end
