(* ===== verification/Lj_Strscan_Props.thy ===== *)
theory Lj_Strscan_Props
  imports Lj_Strscan
begin

text \<open>The number scanner reads back the decimal representation of every 32-bit integer.\<close>

definition dec_char :: "byte \<Rightarrow> bool" where "dec_char c \<longleftrightarrow> (\<exists>k < 10. c = of_nat (48 + k))"

lemma dec_char_uint: "k < 10 \<Longrightarrow> uint (of_nat (48 + k) :: byte) = 48 + int k"
proof -
  assume "k < 10"
  then have "unat (of_nat (48 + k) :: byte) = 48 + k" by (simp only: unsigned_of_nat) (simp add: take_bit_nat_eq_self)
  then show ?thesis unfolding uint_nat by simp
qed

lemma dec_char_bounds: "dec_char c \<Longrightarrow> 48 \<le> uint c \<and> uint c \<le> 57"
  unfolding dec_char_def using dec_char_uint by auto

lemma isdigit_iff: "lj_char_isa (uint (c :: byte)) LJ_CHAR_DIGIT \<noteq> 0 \<longleftrightarrow> 48 \<le> uint c \<and> uint c \<le> 57"
proof -
  have c: "- 1 \<le> uint c" "uint c \<le> 255" using uint_bounded [of c] order_trans [OF _ uint_ge_0 [of c], of "- 1"] by simp_all
  show ?thesis using lj_char_isdigit_iff [OF c] unfolding lj_char_isdigit_def .
qed

lemma sc_isdigit_iff: "sc_isdigit c \<longleftrightarrow> 48 \<le> uint c \<and> uint c \<le> 57"
  using isdigit_iff [of c] by (simp add: sc_isdigit_def lj_char_isdigit_def)

text \<open>A text that ends here: the end of the list or a terminator.\<close>

definition at_end :: "bytes \<Rightarrow> bool" where "at_end z \<longleftrightarrow> z = [] \<or> hd z = 0"

lemma scan_digits_digits:
  "\<forall>d \<in> set ds. dec_char d \<Longrightarrow> at_end z \<Longrightarrow>
   scan_digits LJ_CHAR_DIGIT (ds @ z) p x dig dp =
     Some (p + length ds, foldl (\<lambda>x d. x * 10 + (ucast d AND 15)) x ds, dig + length ds, dp)"
proof (induction ds arbitrary: p x dig)
  case Nil
  then show ?case using isdigit_iff [of 0] by (cases z) (auto simp: at_end_def)
next
  case (Cons d ds)
  then have "lj_char_isa (uint d) LJ_CHAR_DIGIT \<noteq> 0" using dec_char_bounds by (simp add: isdigit_iff)
  then show ?case using Cons by simp
qed

lemma digit_value: "k < 10 \<Longrightarrow> (ucast (of_nat (48 + k) :: byte) AND 15 :: u32) = of_nat k"
  by (simp add: less_Suc_eq numeral_eq_Suc) (elim disjE; simp)

lemma dec_digits_chars: "\<forall>d \<in> set (dec_digits n). dec_char d"
proof (induction n rule: dec_digits.induct)
  case (1 n)
  then show ?case by (subst dec_digits.simps) (auto simp: dec_char_def intro: exI [of _ "n mod 10"] exI [of _ n])
qed

lemma dec_digits_foldl: "foldl (\<lambda>x d. x * 10 + (ucast d AND 15)) 0 (dec_digits n) = (of_nat n :: u32)"
proof (induction n rule: dec_digits.induct)
  case (1 n)
  show ?case
  proof (cases "n < 10")
    case True
    then show ?thesis using digit_value [of n] by (subst dec_digits.simps) simp
  next
    case False
    have "of_nat (n div 10) * 10 + of_nat (n mod 10) = (of_nat n :: u32)"
      by (metis div_mult_mod_eq of_nat_add of_nat_mult of_nat_numeral)
    then show ?thesis using False 1 digit_value [of "n mod 10"] by (subst dec_digits.simps) simp
  qed
qed

text \<open>The first digit of a number with ten digits.\<close>

lemma dec_digits_nz: "0 < n \<Longrightarrow> hd (dec_digits n) \<noteq> 48 \<and> dec_digits n \<noteq> []"
proof (induction n rule: dec_digits.induct)
  case (1 n)
  show ?case
  proof (cases "n < 10")
    case True
    then have "uint (of_nat (48 + n) :: byte) = 48 + int n" by (rule dec_char_uint)
    then have "(of_nat (48 + n) :: byte) \<noteq> 48" using "1.prems" by auto
    then show ?thesis using True by (subst (1 2) dec_digits.simps) simp
  next
    case False
    then show ?thesis using 1 by (subst (1 2) dec_digits.simps) simp
  qed
qed

lemma dec_digits_first:
  assumes "n \<le> 2 ^ 31" "length (dec_digits n) = 10"
  shows "hd (dec_digits n) \<le> 0x32"
proof (cases "n < 10 ^ 9")
  case True
  then show ?thesis using length_dec_digits [of n 8] assms(2) by simp
next
  case False
  then have "dec_digits n = pad_digits (Suc 9) n" using pad_digits_head [of 9 n] assms(1) by simp
  then have h: "hd (dec_digits n) = of_nat (48 + n div 10 ^ 9)" by (simp only: pad_digits.simps list.sel)
  have "n div 10 ^ 9 \<le> 2" using assms(1) by simp
  then have "n div 10 ^ 9 \<in> {0, 1, 2}" by auto
  then show ?thesis unfolding h by (elim insertE emptyE) simp_all
qed

lemma sint_small: "n \<le> 2 ^ 31 \<Longrightarrow> n = 2 ^ 31 \<longrightarrow> neg \<Longrightarrow>
  sint (if neg then - of_nat n else of_nat n :: u32) = (if neg then - int n else int n)"
proof -
  assume n: "n \<le> 2 ^ 31" "n = 2 ^ 31 \<longrightarrow> neg"
  have "(if neg then - of_nat n else of_nat n :: u32) = word_of_int (if neg then - int n else int n)" by simp
  moreover have "sint (word_of_int (if neg then - int n else int n) :: u32) = (if neg then - int n else int n)"
    using n by (subst signed_of_int, subst signed_take_bit_int_eq_self) auto
  ultimately show ?thesis by simp
qed

lemma strscan_regular_int:
  assumes n: "n \<le> 2 ^ 31" "n = 2 ^ 31 \<longrightarrow> neg" and s: "drop p s = dec_digits n @ z" "at_end z"
    and o1: "has_opt opt STRSCAN_OPT_TONUM" "\<not> has_opt opt STRSCAN_OPT_C"
  shows "strscan_regular s opt p neg = Some (ScanNum (num_of_int (if neg then - int n else int n)))"
proof -
  define ds where "ds = dec_digits n"
  have ne: "ds \<noteq> []" unfolding ds_def by (subst dec_digits.simps) simp
  then have p: "p < length s" using s(1) by (cases "p < length s") (auto simp: ds_def)
  have at: "sc_at s (p + i) = (if i < length (ds @ z) then (ds @ z) ! i else 0)" for i
  proof -
    have "sc_at (drop p s) i = sc_at s (p + i)" using p by (auto simp: sc_at_def)
    then show ?thesis unfolding s(1) ds_def by (simp add: sc_at_def)
  qed
  have end0: "sc_at s (p + length ds) = 0" using at [of "length ds"] s(2) by (cases z) (auto simp: at_end_def)
  have dr: "drop (p + length ds) s = z" using arg_cong [OF s(1), of "drop (length ds)"] by (simp add: ds_def add.commute)
  have zz: "scan_zeros z q h d = Some (q, h, d)" for q h d using s(2) by (cases z) (auto simp: at_end_def)
  have l: "length ds \<le> 10" using length_dec_digits [of n 9] n(1) by (simp add: ds_def)
  have c0: "\<not> casecmp 0 k" if "k \<in> {0x78, 0x62, 0x65, 0x70, 0x69}" for k using that by (auto simp: casecmp_def)
  have ex: "scan_exponent s 10 (p + length ds) STRSCAN_INT 0 = Some (STRSCAN_INT, 0, p + length ds)"
    using end0 c0 by (simp add: scan_exponent_def)
  have su: "scan_suffix s opt STRSCAN_INT (p + length ds) = Some STRSCAN_INT" using end0 by (simp add: scan_suffix_def)
  have di: "strscan_dispatch s opt 10 sp STRSCAN_INT 0 neg (of_nat n) dig = Some (ScanNum (num_of_int (if neg then - int n else int n)))"
    if "dig < 10 \<or> dig = 10 \<and> sc_at s sp \<le> 0x32" for sp dig
  proof -
    have "unat (of_nat n :: u32) = n" using n(1) by (intro unat_of_nat_small) simp
    then have "(of_nat n :: u32) < 0x80000000 + (if neg then 1 else 0)" using n by (auto simp: word_less_nat_alt)
    then show ?thesis using that o1(1) sint_small [OF n] by (simp add: strscan_dispatch_def Let_def)
  qed
  show ?thesis
  proof (cases "n = 0")
    case True
    then have ds: "ds = [48]" by (simp add: ds_def dec_digits.simps)
    have d: "drop p s = 48 # z" "drop (p + 1) s = z" using s(1) dr by (simp_all add: ds flip: ds_def)
    have "sc_at s p = 48" "sc_at s (p + 1) = 0" using at [of 0] end0 by (simp_all add: ds)
    moreover have "scan_digits LJ_CHAR_DIGIT z (p + 1) 0 0 None = Some (p + 1, 0, 0, None)"
      using scan_digits_digits [of "[]" z "p + 1" 0 0 None] s(2) by simp
    ultimately show ?thesis
      using d zz c0 o1 ex su di [of 0 "p + 1"] True by (simp add: strscan_regular_def Let_def ds)
  next
    case False
    then have h: "hd ds \<noteq> 48" using dec_digits_nz [of n] by (simp add: ds_def)
    have hc: "dec_char (hd ds)" using dec_digits_chars [of n] ne by (simp add: ds_def)
    then have hd: "hd ds \<noteq> 0x2e" using dec_char_bounds [of "hd ds"] by auto
    have a0: "sc_at s p = hd ds" using at [of 0] ne by (cases ds) simp_all
    obtain d ds' where dd: "ds = d # ds'" using ne by (cases ds) simp_all
    have sz: "scan_zeros (drop p s) p False None = Some (p, False, None)"
      using s(1) h hd by (simp add: dd flip: ds_def)
    have sd: "scan_digits LJ_CHAR_DIGIT (drop p s) p 0 0 None = Some (p + length ds, of_nat n, length ds, None)"
      unfolding s(1) ds_def using scan_digits_digits [OF dec_digits_chars s(2), of n p 0 0 None] dec_digits_foldl [of n] by simp
    have "length ds < 10 \<or> length ds = 10 \<and> sc_at s p \<le> 0x32"
      using l dec_digits_first [OF n(1)] a0 by (auto simp: ds_def)
    from di [OF this] show ?thesis
      using h a0 o1 sz sd ex su ne by (simp add: strscan_regular_def Let_def)
  qed
qed

text \<open>The text may end with a terminator, as the buffer of the lexer does.\<close>

lemma strscan_int:
  assumes i: "int32 i" and z: "at_end z"
    and o1: "has_opt opt STRSCAN_OPT_TONUM" "\<not> has_opt opt STRSCAN_OPT_C"
  shows "lj_strscan_scan (dec_int i @ z) opt = Some (ScanNum (num_of_int i))"
proof (cases "i < 0")
  case False
  let ?n = "nat i" and ?s = "dec_digits (nat i) @ z"
  have ne: "dec_digits ?n \<noteq> []" by (subst dec_digits.simps) simp
  then have "sc_at ?s 0 = hd (dec_digits ?n)" by (cases "dec_digits ?n") (simp_all add: sc_at_def)
  moreover have "dec_char (hd (dec_digits ?n))" using dec_digits_chars [of ?n] ne by simp
  ultimately have "sc_isdigit (sc_at ?s 0)" using dec_char_bounds by (simp add: sc_isdigit_iff)
  moreover have "strscan_regular ?s opt 0 False = Some (ScanNum (num_of_int (if False then - int ?n else int ?n)))"
    by (rule strscan_regular_int) (use i z o1 False in \<open>auto simp: int32_def\<close>)
  ultimately show ?thesis using False by (simp add: lj_strscan_scan_def dec_int_def)
next
  case True
  let ?n = "nat (- i)" and ?s = "45 # dec_digits (nat (- i)) @ z"
  have a: "sc_at ?s 0 = 45" by (simp add: sc_at_def)
  have ne: "dec_digits ?n \<noteq> []" by (subst dec_digits.simps) simp
  then have "sc_at ?s 1 = hd (dec_digits ?n)" by (cases "dec_digits ?n") (simp_all add: sc_at_def)
  moreover have "dec_char (hd (dec_digits ?n))" using dec_digits_chars [of ?n] ne by simp
  ultimately have lt: "\<not> sc_at ?s 1 \<ge> 0x41" using dec_char_bounds by (fastforce simp: word_le_def)
  have sp: "skip_space ?s 0 = 0" by (simp add: skip_space_def sc_isspace_def lj_char_isspace_def lj_char_isa_def lj_char_bits_def LJ_CHAR_SPACE_def)
  have "\<not> sc_isdigit 45" by (simp add: sc_isdigit_iff)
  moreover have "strscan_regular ?s opt 1 True = Some (ScanNum (num_of_int (if True then - int ?n else int ?n)))"
    by (rule strscan_regular_int [of _ _ _ _ z]) (use i z o1 True in \<open>auto simp: int32_def\<close>)
  ultimately show ?thesis using True a sp lt by (simp add: lj_strscan_scan_def dec_int_def Let_def)
qed

end
