(* ===== verification/Lj_Strscan_Ends.thy ===== *)
theory Lj_Strscan_Ends
  imports Lj_Strscan_Props
begin

text \<open>
  The number scanner returns on every text. Only the loops that scale a decimal number can run forever:
  scaling up does for a buffer of zeros. The first digit is not a zero here, so that every second round
  has a carry; scaling down removes a digit at least every second round.
\<close>

section \<open>Scaling up\<close>

definition buf_ok :: "byte list \<times> nat \<times> nat \<times> int \<Rightarrow> bool" where
  "buf_ok = (\<lambda>(xi, hi, lo, idig). length xi = STRSCAN_DDIG \<and> hi < STRSCAN_DDIG \<and> lo < STRSCAN_DDIG \<and> xi ! hi \<noteq> 0)"

lemma DPREV_less [simp]: "DPREV a < STRSCAN_DDIG" and DNEXT_less [simp]: "DNEXT a < STRSCAN_DDIG"
  by (simp_all add: DPREV_def DNEXT_def STRSCAN_DDIG_def)

lemma DPREV_neq: "a < STRSCAN_DDIG \<Longrightarrow> DPREV a \<noteq> a" "a < STRSCAN_DDIG \<Longrightarrow> DNEXT a \<noteq> a"
  by (auto simp: DPREV_def DNEXT_def STRSCAN_DDIG_def mod_if)

lemma carry_le:
  assumes "c \<le> 255"
  shows "(unat (x :: byte) * 64 + c) div 4 * 5243 div 2 ^ 17 \<le> 255"
proof -
  have "unat x < 2 ^ LENGTH(8)" by (rule unsigned_less)
  then have "unat x \<le> 255" by simp
  then have "(unat x * 64 + c) div 4 \<le> 4143" using assms by linarith
  then have "(unat x * 64 + c) div 4 * 5243 \<le> 4143 * 5243" by simp
  then have "(unat x * 64 + c) div 4 * 5243 div 2 ^ 17 \<le> 4143 * 5243 div 2 ^ 17" by (rule div_le_mono)
  then show ?thesis by simp
qed

lemma up_digits_props:
  assumes "length xi = STRSCAN_DDIG" "hi < STRSCAN_DDIG" "i < STRSCAN_DDIG"
    and "up_digits n hi i xi lo cy = (xi', lo', cy')" "(i + STRSCAN_DDIG - hi) mod STRSCAN_DDIG < n" "cy \<le> 255"
  shows "length xi' = STRSCAN_DDIG \<and>
    (\<exists>c \<le> 255. let d = unat (xi ! hi) * 64 + c in cy' = d div 4 * 5243 div 2 ^ 17 \<and> xi' ! hi = of_nat (d - cy' * 100))"
  using assms
proof (induction n hi i xi lo cy rule: up_digits.induct)
  case (2 n hi i xi lo cy)
  show ?case
  proof (cases "i = hi")
    case True
    then show ?thesis using "2.prems" by (auto simp: Let_def)
  next
    case False
    let ?d = "unat (xi ! i) * 64 + cy"
    let ?cy = "?d div 4 * 5243 div 2 ^ 17"
    let ?xi = "xi[i := of_nat (?d - ?cy * 100)]"
    have h: "?xi ! hi = xi ! hi" using False by simp
    have "?cy \<le> 255" by (rule carry_le [OF "2.prems"(6)])
    moreover
    have "(DPREV i + STRSCAN_DDIG - hi) mod STRSCAN_DDIG < n"
    proof -
      have "(DPREV i + STRSCAN_DDIG - hi) mod STRSCAN_DDIG = (i + STRSCAN_DDIG - hi) mod STRSCAN_DDIG - 1"
        "(i + STRSCAN_DDIG - hi) mod STRSCAN_DDIG \<noteq> 0"
        using False "2.prems"(2,3) by (auto simp: DPREV_def STRSCAN_DDIG_def mod_if split: if_splits)
      then show ?thesis using "2.prems"(5) by linarith
    qed
    ultimately show ?thesis using "2.IH" [OF refl refl refl refl False] "2.prems" False h by (simp add: Let_def)
  qed
qed simp

lemma up_digits_lo:
  "lo < STRSCAN_DDIG \<Longrightarrow> i < STRSCAN_DDIG \<Longrightarrow> up_digits n hi i xi lo cy = (xi', lo', cy') \<Longrightarrow> lo' < STRSCAN_DDIG"
  by (induction n hi i xi lo cy rule: up_digits.induct) (auto simp: Let_def split: if_splits)

lemma carry_zero: "d div 4 * 5243 div 2 ^ 17 = 0 \<Longrightarrow> d < (100 :: nat)"
proof (rule ccontr)
  assume a: "d div 4 * 5243 div 2 ^ 17 = 0" "\<not> d < 100"
  then have "25 \<le> d div 4" by simp
  then have "25 * 5243 \<le> d div 4 * 5243" by simp
  then have "25 * 5243 div 2 ^ 17 \<le> d div 4 * 5243 div 2 ^ 17" by (rule div_le_mono)
  then show False using a(1) by simp
qed

definition up_measure :: "byte list \<times> nat \<times> nat \<times> int \<Rightarrow> nat" where
  "up_measure = (\<lambda>(xi, hi, lo, idig). 2 * nat (9 - idig) + (if xi ! hi < 2 then 1 else 0))"

lemma up_round_less:
  assumes ok: "buf_ok b" and lt: "snd (snd (snd b)) < 9"
  shows "buf_ok (up_round b) \<and> up_measure (up_round b) < up_measure b"
proof -
  obtain xi hi lo idig where b: "b = (xi, hi, lo, idig)" by (cases b)
  obtain xi' lo' cy where u: "up_digits STRSCAN_DDIG hi (DPREV lo) xi lo 0 = (xi', lo', cy)"
    by (cases "up_digits STRSCAN_DDIG hi (DPREV lo) xi lo 0")
  have o1: "length xi = STRSCAN_DDIG" "hi < STRSCAN_DDIG" "xi ! hi \<noteq> 0" "idig < 9" using ok lt by (simp_all add: b buf_ok_def)
  have lo': "lo' < STRSCAN_DDIG" using ok up_digits_lo [OF _ DPREV_less u] by (simp add: b buf_ok_def)
  have n: "(DPREV lo + STRSCAN_DDIG - hi) mod STRSCAN_DDIG < STRSCAN_DDIG" by (simp add: STRSCAN_DDIG_def)
  obtain c where P: "c \<le> 255" "length xi' = STRSCAN_DDIG" "cy = (unat (xi ! hi) * 64 + c) div 4 * 5243 div 2 ^ 17"
    "xi' ! hi = of_nat (unat (xi ! hi) * 64 + c - cy * 100)"
    using up_digits_props [OF o1(1,2) DPREV_less u n] by (auto simp: Let_def)
  show ?thesis
  proof (cases "cy = 0")
    case True
    let ?d = "unat (xi ! hi) * 64 + c"
    have d: "?d < 100" using carry_zero [of ?d] P(3) True by simp
    have p: "unat (xi ! hi) \<ge> 1" using o1(3) by (simp add: Suc_le_eq unat_gt_0)
    then have one: "unat (xi ! hi) = 1" using d by linarith
    have v: "xi' ! hi = of_nat ?d" using P(4) True by simp
    have "unat (xi' ! hi) = ?d" unfolding v using d by (simp only: unsigned_of_nat) (simp add: take_bit_nat_eq_self)
    then have "unat (xi' ! hi) \<ge> 64" using one by simp
    then have "xi' ! hi \<noteq> 0" "\<not> xi' ! hi < 2" by (auto simp: word_less_nat_alt)
    moreover have "xi ! hi < 2" using one by (simp add: word_less_nat_alt)
    moreover have "up_round b = (xi', hi, lo', idig)" using u True by (simp add: up_round_def b)
    ultimately show ?thesis using P(2) o1(2) lo' by (simp add: buf_ok_def up_measure_def b)
  next
    case False
    define q where "q = (if xi' ! DPREV lo' = 0 then (xi', DPREV lo')
              else if DPREV hi = lo' then
                let lo = DPREV lo' in (xi'[DPREV lo := xi' ! DPREV lo OR xi' ! lo], lo)
              else (xi', lo'))"
    have r: "up_round b = ((fst q)[DPREV hi := of_nat cy], DPREV hi, snd q, idig + 1)"
      unfolding up_round_def b prod.case Let_def u if_P [OF False] q_def by (simp add: split_def)
    have l: "length (fst q) = STRSCAN_DDIG" "snd q < STRSCAN_DDIG" using P(2) lo' by (simp_all add: q_def Let_def)
    have "cy < 256" using carry_le [OF P(1), of "xi ! hi"] unfolding P(3) by linarith
    then have "(of_nat cy :: byte) \<noteq> 0" using False by (simp add: word_unat_eq_iff unsigned_of_nat take_bit_nat_eq_self)
    then show ?thesis using r l o1(4) by (auto simp: buf_ok_def up_measure_def b)
  qed
qed


lemma dec_up_ends:
  "buf_ok b \<Longrightarrow> \<exists>b' ex2'. dec_up b ex2 = Some (b', ex2') \<and> buf_ok b'"
proof (induction "up_measure b" arbitrary: b ex2 rule: less_induct)
  case less
  obtain xi hi lo idig where b: "b = (xi, hi, lo, idig)" by (cases b)
  show ?case
  proof (cases "idig < 9 \<and> idig < DLEN lo hi")
    case True
    then have "buf_ok (up_round b)" "up_measure (up_round b) < up_measure b"
      using up_round_less [OF less.prems] by (simp_all add: b)
    from less.hyps [OF this(2,1)] show ?thesis
      unfolding dec_up.simps [of b] unfolding b prod.case if_P [OF True] by simp
  next
    case False
    then show ?thesis using less.prems
      unfolding dec_up.simps [of b] unfolding b prod.case if_not_P [OF False] by simp
  qed
qed

section \<open>Scaling down\<close>

lemma down_step_cases:
  assumes "down_digits (Suc n) lo i xi hi idig cy = r"
  obtains xi1 hi1 idig1 cy1
  where "xi1 = xi[i := of_nat ((cy + unat (xi ! i)) div 64)]"
    and "(hi1, idig1) = (if xi1 ! i = 0 \<and> i = hi then (DNEXT hi, idig - 1) else (hi, idig))"
    and "cy1 = 100 * ((cy + unat (xi ! i)) mod 64)"
    and "r = (if DNEXT i \<noteq> lo then down_digits n lo (DNEXT i) xi1 hi1 idig1 cy1 else (xi1, hi1, idig1, cy1))"
  using that assms by (auto simp: Let_def split: if_splits)

lemma down_digits_props:
  "length xi = STRSCAN_DDIG \<Longrightarrow> hi < STRSCAN_DDIG \<Longrightarrow> down_digits n lo i xi hi idig cy = (xi', hi', idig', cy')
    \<Longrightarrow> length xi' = STRSCAN_DDIG \<and> hi' < STRSCAN_DDIG \<and> idig' \<le> idig"
proof (induction n arbitrary: i xi hi idig cy)
  case (Suc n)
  from Suc.prems(3) show ?case
  proof (rule down_step_cases)
    fix xi1 hi1 idig1 cy1
    assume a: "xi1 = xi[i := of_nat ((cy + unat (xi ! i)) div 64)]"
      "(hi1, idig1) = (if xi1 ! i = 0 \<and> i = hi then (DNEXT hi, idig - 1) else (hi, idig))"
      "(xi', hi', idig', cy') = (if DNEXT i \<noteq> lo then down_digits n lo (DNEXT i) xi1 hi1 idig1 cy1 else (xi1, hi1, idig1, cy1))"
    have l: "length xi1 = STRSCAN_DDIG" "hi1 < STRSCAN_DDIG" "idig1 \<le> idig"
      using a(1,2) Suc.prems(1,2) by (auto split: if_splits)
    show ?case
    proof (cases "DNEXT i = lo")
      case True
      then show ?thesis using a(3) l by simp
    next
      case False
      then show ?thesis using Suc.IH [OF l(1,2), of "DNEXT i" idig1 cy1] a(3) l(3) by auto
    qed
  qed
qed simp

text \<open>The digits before the ones still to be scaled are not touched any more.\<close>

lemma down_digits_keep:
  "down_digits n lo i xi hi idig cy = (xi', hi', idig', cy') \<Longrightarrow> hi < STRSCAN_DDIG \<Longrightarrow> i < STRSCAN_DDIG
    \<Longrightarrow> (i + STRSCAN_DDIG - hi) mod STRSCAN_DDIG \<noteq> 0 \<Longrightarrow> n + (i + STRSCAN_DDIG - hi) mod STRSCAN_DDIG \<le> STRSCAN_DDIG
    \<Longrightarrow> hi' = hi \<and> idig' = idig \<and> xi' ! hi = xi ! hi"
proof (induction n arbitrary: i xi idig cy)
  case (Suc n)
  have ih: "i \<noteq> hi" using Suc.prems(4) by (auto simp: STRSCAN_DDIG_def)
  from Suc.prems(1) show ?case
  proof (rule down_step_cases)
    fix xi1 hi1 idig1 cy1
    assume a: "xi1 = xi[i := of_nat ((cy + unat (xi ! i)) div 64)]"
      "(hi1, idig1) = (if xi1 ! i = 0 \<and> i = hi then (DNEXT hi, idig - 1) else (hi, idig))"
      "(xi', hi', idig', cy') = (if DNEXT i \<noteq> lo then down_digits n lo (DNEXT i) xi1 hi1 idig1 cy1 else (xi1, hi1, idig1, cy1))"
    have e: "hi1 = hi" "idig1 = idig" "xi1 ! hi = xi ! hi" using a(1,2) ih by auto
    show ?case
    proof (cases "DNEXT i = lo")
      case True
      then show ?thesis using a(3) e by simp
    next
      case False
      note r = a(3) [unfolded if_P [OF False] e(1,2), symmetric]
      show ?thesis
      proof (cases n)
        case 0
        then show ?thesis using r e(3) by simp
      next
        case (Suc m)
        have "(DNEXT i + STRSCAN_DDIG - hi) mod STRSCAN_DDIG = (i + STRSCAN_DDIG - hi) mod STRSCAN_DDIG + 1"
          using Suc Suc.prems(2-5) by (auto simp: DNEXT_def STRSCAN_DDIG_def mod_if split: if_splits)
        then show ?thesis using Suc.IH [OF r Suc.prems(2) DNEXT_less] Suc.prems(5) e(3) by simp
      qed
    qed
  qed
qed simp

definition down_measure :: "byte list \<Rightarrow> nat \<Rightarrow> int \<Rightarrow> nat" where
  "down_measure xi hi idig = 2 * nat (idig - 9) + (if xi ! hi < 64 then 0 else 1)"

lemma down_round_less:
  assumes "length xi = STRSCAN_DDIG" "hi < STRSCAN_DDIG" "idig > 9"
    and d: "down_digits STRSCAN_DDIG lo hi xi hi idig 0 = (xi', hi', idig', cy')"
  shows "down_measure xi' hi' idig' < down_measure xi hi idig"
proof -
  obtain n where n: "STRSCAN_DDIG = Suc n" "n = 511" by (simp add: STRSCAN_DDIG_def)
  from d [unfolded n(1)] show ?thesis
  proof (rule down_step_cases)
    fix xi1 hi1 idig1 cy1
    assume a: "xi1 = xi[hi := of_nat ((0 + unat (xi ! hi)) div 64)]"
      "(hi1, idig1) = (if xi1 ! hi = 0 \<and> hi = hi then (DNEXT hi, idig - 1) else (hi, idig))"
      "(xi', hi', idig', cy') = (if DNEXT hi \<noteq> lo then down_digits n lo (DNEXT hi) xi1 hi1 idig1 cy1 else (xi1, hi1, idig1, cy1))"
    have l: "length xi1 = STRSCAN_DDIG" "hi1 < STRSCAN_DDIG" using a(1,2) assms(1,2) by (auto split: if_splits)
    have v: "xi1 ! hi = of_nat (unat (xi ! hi) div 64)" using a(1) assms(1,2) by simp
    show ?thesis
    proof (cases "xi1 ! hi = 0")
      case True
      then have "idig1 = idig - 1" using a(2) by simp
      moreover have "idig' \<le> idig1"
      proof (cases "DNEXT hi = lo")
        case False
        note r = a(3) [unfolded if_P [OF False], symmetric]
        show ?thesis using down_digits_props [OF l r] by simp
      qed (use a(3) in simp)
      ultimately have "nat (idig' - 9) + 1 \<le> nat (idig - 9)" using assms(3) by linarith
      then show ?thesis unfolding down_measure_def by (split if_split)+ linarith
    next
      case False
      then have e: "hi1 = hi" "idig1 = idig" using a(2) by simp_all
      have k: "hi' = hi \<and> idig' = idig \<and> xi' ! hi = xi1 ! hi"
      proof (cases "DNEXT hi = lo")
        case True
        then show ?thesis using a(3) e by simp
      next
        case False
        note r = a(3) [unfolded if_P [OF False] e, symmetric]
        have "(DNEXT hi + STRSCAN_DDIG - hi) mod STRSCAN_DDIG = 1"
          using assms(2) by (auto simp: DNEXT_def STRSCAN_DDIG_def mod_if)
        then show ?thesis using down_digits_keep [OF r assms(2) DNEXT_less] n by simp
      qed
      have big: "\<not> xi ! hi < 64"
      proof
        assume "xi ! hi < 64"
        then have "unat (xi ! hi) div 64 = 0" by (simp add: word_less_nat_alt)
        then show False using False v by simp
      qed
      have "unat (xi ! hi) < 2 ^ LENGTH(8)" by (rule unsigned_less)
      then have q: "unat (xi ! hi) div 64 < 4" by simp
      have "unat (xi1 ! hi) = unat (xi ! hi) div 64"
        unfolding v using q by (simp only: unsigned_of_nat) (simp add: take_bit_nat_eq_self)
      then have "xi1 ! hi < 64" using q by (simp add: word_less_nat_alt)
      then show ?thesis using k big by (simp add: down_measure_def)
    qed
  qed
qed

text \<open>The carry at the end: \<open>100 * (cy mod 64)\<close> gains two factors of two each time.\<close>

lemma down_tail_0 [simp]: "down_tail xi hi lo 0 = Some (xi, lo)"
  by (subst down_tail.simps) simp

lemma down_tail_step:
  assumes "\<And>xi lo. length xi = STRSCAN_DDIG \<Longrightarrow> lo < STRSCAN_DDIG
      \<Longrightarrow> \<exists>xi' lo'. down_tail xi hi lo (100 * (cy mod 64)) = Some (xi', lo') \<and> length xi' = STRSCAN_DDIG
            \<and> lo' < STRSCAN_DDIG \<and> xi' ! hi = xi ! hi"
    and "length xi = STRSCAN_DDIG" "lo < STRSCAN_DDIG" "hi < STRSCAN_DDIG"
  shows "\<exists>xi' lo'. down_tail xi hi lo cy = Some (xi', lo') \<and> length xi' = STRSCAN_DDIG \<and> lo' < STRSCAN_DDIG
          \<and> xi' ! hi = xi ! hi"
proof (cases "cy = 0 \<or> hi = lo")
  case True
  then show ?thesis using assms(2-4) DPREV_neq(1) [of lo] by (subst down_tail.simps) (auto simp: nth_list_update)
next
  case False
  have "down_tail xi hi lo cy = down_tail (xi[lo := of_nat (cy div 64)]) hi (DNEXT lo) (100 * (cy mod 64))"
    using False by (subst down_tail.simps) simp
  then show ?thesis using assms(1) [of "xi[lo := of_nat (cy div 64)]" "DNEXT lo"] assms(2) False by simp
qed

lemma down_tail_ends:
  assumes "length xi = STRSCAN_DDIG" "lo < STRSCAN_DDIG" "hi < STRSCAN_DDIG"
  shows "\<exists>xi' lo'. down_tail xi hi lo cy = Some (xi', lo') \<and> length xi' = STRSCAN_DDIG \<and> lo' < STRSCAN_DDIG
          \<and> xi' ! hi = xi ! hi"
proof -
  have dv: "4 * k dvd 100 * (cy mod 64)" if "k dvd cy" "k dvd 64" for k cy :: nat
  proof -
    have "k dvd cy mod 64" using that by (simp add: dvd_mod)
    then have "4 * k dvd 4 * (25 * (cy mod 64))" by (intro mult_dvd_mono) auto
    then show ?thesis by simp
  qed
  note st = down_tail_step [OF _ _ _ assms(3)]
  have e64: "\<exists>xi' lo'. down_tail xi hi lo cy = Some (xi', lo') \<and> length xi' = STRSCAN_DDIG \<and> lo' < STRSCAN_DDIG
          \<and> xi' ! hi = xi ! hi" if "64 dvd cy" "length xi = STRSCAN_DDIG" "lo < STRSCAN_DDIG" for xi lo cy
    by (rule st [OF _ that(2,3)]) (use that(1) in \<open>simp add: dvd_eq_mod_eq_0\<close>)
  have e16: "\<exists>xi' lo'. down_tail xi hi lo cy = Some (xi', lo') \<and> length xi' = STRSCAN_DDIG \<and> lo' < STRSCAN_DDIG
          \<and> xi' ! hi = xi ! hi" if "16 dvd cy" "length xi = STRSCAN_DDIG" "lo < STRSCAN_DDIG" for xi lo cy
    by (rule st [OF e64 that(2,3)]) (use dv [OF that(1)] in simp)
  have e4: "\<exists>xi' lo'. down_tail xi hi lo cy = Some (xi', lo') \<and> length xi' = STRSCAN_DDIG \<and> lo' < STRSCAN_DDIG
          \<and> xi' ! hi = xi ! hi" if "4 dvd cy" "length xi = STRSCAN_DDIG" "lo < STRSCAN_DDIG" for xi lo cy
    by (rule st [OF e16 that(2,3)]) (use dv [OF that(1)] in simp)
  show ?thesis by (rule st [OF e4 assms(1,2)]) (use dv [of 1 cy] in simp)
qed

lemma dec_down_ends:
  "length xi = STRSCAN_DDIG \<Longrightarrow> hi < STRSCAN_DDIG \<Longrightarrow> lo < STRSCAN_DDIG
    \<Longrightarrow> \<exists>b' ex2'. dec_down (xi, hi, lo, idig) ex2 = Some (b', ex2')"
proof (induction "down_measure xi hi idig" arbitrary: xi hi lo idig ex2 rule: less_induct)
  case less
  note e = dec_down.simps [of "(xi, hi, lo, idig)" ex2]
  show ?case
  proof (cases "idig > 9")
    case True
    obtain xi1 hi1 idig1 cy where d: "down_digits STRSCAN_DDIG lo hi xi hi idig 0 = (xi1, hi1, idig1, cy)"
      by (cases "down_digits STRSCAN_DDIG lo hi xi hi idig 0")
    have p: "length xi1 = STRSCAN_DDIG" "hi1 < STRSCAN_DDIG"
      using down_digits_props [OF less.prems(1,2) d] by simp_all
    obtain xi2 lo2 where t: "down_tail xi1 hi1 lo cy = Some (xi2, lo2)" "length xi2 = STRSCAN_DDIG" "lo2 < STRSCAN_DDIG"
      "xi2 ! hi1 = xi1 ! hi1"
      using down_tail_ends [OF p(1) less.prems(3) p(2)] by blast
    have "down_measure xi2 hi1 idig1 < down_measure xi hi idig"
      using down_round_less [OF less.prems(1,2) True d] t(4) by (simp add: down_measure_def)
    from less.hyps [OF this t(2) p(2) t(3)] show ?thesis using True d t(1) e by simp
  qed (use e in simp)
qed

section \<open>The digits\<close>

lemma hd_append_ne: "xs \<noteq> [] \<Longrightarrow> hd (xs @ ys) = hd xs" by simp

lemma or_last_props:
  "xi \<noteq> [] \<Longrightarrow> length (or_last xi) = length xi \<and> or_last xi \<noteq> [] \<and> (hd xi \<noteq> 0 \<longrightarrow> hd (or_last xi) \<noteq> 0)"
  by (cases xi rule: rev_cases) (auto simp: or_last_def hd_append or_eq_0_iff split: if_splits)

lemma dec_excess_props:
  "xi \<noteq> [] \<Longrightarrow> length (dec_excess s n p xi) = length xi \<and> dec_excess s n p xi \<noteq> []
    \<and> (hd xi \<noteq> 0 \<longrightarrow> hd (dec_excess s n p xi) \<noteq> 0)"
  by (induction s n p xi rule: dec_excess.induct) (auto simp: or_last_props Let_def)

lemma dec_simplify_props:
  "xi \<noteq> [] \<Longrightarrow> dec_simplify xi ex dig = (xi', ex', dig')
    \<Longrightarrow> length xi' \<le> length xi + (20 - dig) div 2 \<and> xi' \<noteq> [] \<and> hd xi' = hd xi"
proof (induction xi ex dig rule: dec_simplify.induct)
  case (1 xi ex dig)
  show ?case
  proof (cases "ex > 0 \<and> dig \<le> 18")
    case True
    then have "dec_simplify (xi @ [0]) (ex - 2) (dig + 2) = (xi', ex', dig')"
      using "1.prems" by (subst (asm) dec_simplify.simps) simp
    with "1.IH" [OF True] show ?thesis using True "1.prems"(1) by auto
  next
    case False
    then show ?thesis using "1.prems" by (subst (asm) dec_simplify.simps) auto
  qed
qed

lemma dec_pairs_props:
  "dec_pairs s i p xi = (i', p', xi') \<Longrightarrow> i' \<le> 1 \<and> length xi' = length xi + i div 2 \<and> (i' \<noteq> 0 \<longleftrightarrow> odd i)
     \<and> (xi \<noteq> [] \<longrightarrow> hd xi' = hd xi)
     \<and> (xi = [] \<longrightarrow> i > 1 \<longrightarrow> hd xi' = 10 * dec_digit s (skip_dot s p) + dec_digit s (skip_dot s (skip_dot s p + 1)))
     \<and> (i \<le> 1 \<longrightarrow> xi' = xi \<and> p' = p)"
proof (induction s i p xi rule: dec_pairs.induct)
  case (1 s i p xi)
  show ?case
  proof (cases "i > 1")
    case True
    define p1 where "p1 = skip_dot s p"
    define p2 where "p2 = skip_dot s (p1 + 1)"
    define xi1 where "xi1 = xi @ [10 * dec_digit s p1 + dec_digit s p2]"
    have "dec_pairs s (i - 2) (p2 + 1) xi1 = (i', p', xi')"
      using "1.prems" True by (subst (asm) dec_pairs.simps) (simp add: Let_def p1_def p2_def xi1_def)
    from "1.IH" [OF True p1_def p2_def this [unfolded xi1_def]] show ?thesis
      using True by (auto simp: p1_def p2_def)
  next
    case False
    then show ?thesis using "1.prems" by (subst (asm) dec_pairs.simps) (auto simp: less_Suc_eq odd_pos)
  qed
qed

lemma dec_digit_bound: "unat (dec_digit s p) \<le> 15"
proof -
  have "dec_digit s p \<le> 15" unfolding dec_digit_def by (rule word_and_le1)
  then show ?thesis by (simp add: word_le_nat_alt)
qed

lemma dec_pair_nonzero:
  assumes "dec_digit s p \<noteq> 0"
  shows "10 * dec_digit s p + dec_digit s q \<noteq> 0" "10 * dec_digit s p \<noteq> 0"
proof -
  have p: "unat (dec_digit s p) \<noteq> 0" "unat (dec_digit s p) \<le> 15" "unat (dec_digit s q) \<le> 15"
    using assms dec_digit_bound by (auto simp: unat_eq_zero)
  have m: "unat (10 * dec_digit s p) = 10 * unat (dec_digit s p)"
    using p by (simp add: unat_word_ariths)
  then have "unat (10 * dec_digit s p + dec_digit s q) = 10 * unat (dec_digit s p) + unat (dec_digit s q)"
    using p by (simp add: unat_word_ariths)
  then have "unat (10 * dec_digit s p + dec_digit s q) \<noteq> 0" using p by simp
  then show "10 * dec_digit s p + dec_digit s q \<noteq> 0" by auto
  have "unat (10 * dec_digit s p) \<noteq> 0" using m p by simp
  then show "10 * dec_digit s p \<noteq> 0" by auto
qed

lemma dec_collect_props:
  assumes "dec_collect s p ex dig = (xi, ex', dig')" "dig \<noteq> 0" "dec_digit s p \<noteq> 0" "sc_at s p \<noteq> c_dot"
  shows "xi \<noteq> [] \<and> hd xi \<noteq> 0 \<and> length xi < STRSCAN_DDIG"
proof -
  define i where "i = min dig STRSCAN_MAXDIG"
  define e where "e = (if dig > STRSCAN_MAXDIG then ex + int (dig - STRSCAN_MAXDIG) else ex)"
  define o1 where "o1 = odd (e + int i)"
  have sk: "skip_dot s p = p" using assms(4) by (simp add: skip_dot_def)
  obtain i1 p1 xi1 where s1: "(if o1 then (i - 1, p + 1, [dec_digit s p]) else (i, p, [])) = (i1, p1, xi1)" by (cases o1) auto
  obtain i2 p2 xi2 where s2: "dec_pairs s i1 p1 xi1 = (i2, p2, xi2)" by (cases "dec_pairs s i1 p1 xi1")
  define xi3 where "xi3 = (if i2 \<noteq> 0 then xi2 @ [10 * dec_digit s (skip_dot s p2)] else xi2)"
  obtain e3 d3 p3 where s3: "(if i2 \<noteq> 0 then let p = skip_dot s p2 in (xi2 @ [10 * dec_digit s p], e - 1, dig + 1, p + 1)
       else (xi2, e, dig, p2)) = (xi3, e3, d3, p3)"
    by (cases "i2 \<noteq> 0") (simp_all add: xi3_def Let_def)
  have i: "i \<noteq> 0" "i \<le> 800" using assms(2) by (simp_all add: i_def STRSCAN_MAXDIG_def)
  have mi: "(if dig > STRSCAN_MAXDIG then STRSCAN_MAXDIG else dig) = i" by (auto simp: i_def)
  have r: "(if d3 > STRSCAN_MAXDIG then (dec_excess s (d3 - STRSCAN_MAXDIG) p3 xi3, e3, STRSCAN_MAXDIG)
      else dec_simplify xi3 e3 d3) = (xi, ex', dig')"
    using assms(1) unfolding dec_collect_def if_P [OF assms(2)] Let_def e_def [symmetric] mi o1_def [symmetric] sk
      s1 prod.case s2 s3 [unfolded Let_def] .
  note P = dec_pairs_props [OF s2]
  have 3: "xi3 \<noteq> [] \<and> hd xi3 \<noteq> 0 \<and> length xi3 \<le> 402"
  proof (cases o1)
    case True
    then have "i1 = i - 1" "xi1 = [dec_digit s p]" using s1 by auto
    then show ?thesis using P assms(3) i by (auto simp: xi3_def hd_append)
  next
    case False
    then have s: "i1 = i" "p1 = p" "xi1 = []" using s1 by auto
    show ?thesis
    proof (cases "i > 1")
      case True
      then have "hd xi2 \<noteq> 0" "xi2 \<noteq> []" "length xi2 \<le> 400" using P s sk dec_pair_nonzero(1) [OF assms(3)] i by auto
      then show ?thesis by (auto simp: xi3_def hd_append)
    next
      case False
      then show ?thesis using P s sk i dec_pair_nonzero(2) [OF assms(3)] by (auto simp: xi3_def)
    qed
  qed
  show ?thesis
  proof (cases "d3 > STRSCAN_MAXDIG")
    case True
    then have "xi = dec_excess s (d3 - STRSCAN_MAXDIG) p3 xi3" using r by simp
    then show ?thesis using dec_excess_props 3 by (auto simp: STRSCAN_DDIG_def)
  next
    case False
    then have "dec_simplify xi3 e3 d3 = (xi, ex', dig')" using r by simp
    from dec_simplify_props [OF _ this] show ?thesis using 3 by (auto simp: STRSCAN_DDIG_def)
  qed
qed

lemma dec_slow_ends:
  assumes "xi \<noteq> [] \<and> hd xi \<noteq> 0 \<and> length xi < STRSCAN_DDIG"
  shows "\<exists>r. dec_slow xi fmt ex neg = Some r"
proof -
  have ok: "buf_ok (xi @ replicate (STRSCAN_DDIG - length xi) 0, 0, length xi, int (length xi) + ex div 2)"
    using assms by (auto simp: buf_ok_def nth_append hd_conv_nth STRSCAN_DDIG_def)
  obtain xi1 hi lo idig ex1 where u: "dec_up (xi @ replicate (STRSCAN_DDIG - length xi) 0, 0, length xi,
      int (length xi) + ex div 2) 0 = Some ((xi1, hi, lo, idig), ex1)" "buf_ok (xi1, hi, lo, idig)"
    using dec_up_ends [OF ok, of 0] by force
  then obtain b ex2 where d: "dec_down (xi1, hi, lo, idig) ex1 = Some (b, ex2)"
    using dec_down_ends [of xi1 hi lo idig ex1] by (auto simp: buf_ok_def)
  show ?thesis by (simp add: dec_slow_def Let_def u(1) d)
qed

definition first_digit :: "bytes \<Rightarrow> nat \<Rightarrow> bool" where
  "first_digit s p \<longleftrightarrow> dec_digit s p \<noteq> 0 \<and> sc_at s p \<noteq> c_dot"

lemma strscan_dec_ends:
  assumes d: "dig \<noteq> 0 \<Longrightarrow> first_digit s p"
  shows "\<exists>r. strscan_dec s p fmt opt ex neg dig = Some r"
proof -
  obtain xi ex' dig' where c: "dec_collect s p ex dig = (xi, ex', dig')" by (cases "dec_collect s p ex dig")
  show ?thesis
  proof (cases "dig = 0")
    case True
    then have "xi = [0]" "ex' = 0" "dig' = 0" using c by (simp_all add: dec_collect_def)
    then show ?thesis by (cases fmt) (simp_all add: strscan_dec_def c Let_def)
  next
    case False
    then have xi: "xi \<noteq> [] \<and> hd xi \<noteq> 0 \<and> length xi < STRSCAN_DDIG"
      using dec_collect_props [OF c] d by (simp add: first_digit_def)
    have sl: "\<exists>r. dec_slow xi f ex' neg = Some r" for f by (rule dec_slow_ends [OF xi])
    show ?thesis
      unfolding strscan_dec_def c prod.case Let_def
      by (cases fmt) (use sl in \<open>auto split: if_splits\<close>)
  qed
qed

lemma strscan_dispatch_ends:
  assumes "base \<noteq> 16 \<Longrightarrow> base \<noteq> 2 \<Longrightarrow> dig \<noteq> 0 \<Longrightarrow> first_digit s sp"
  shows "\<exists>r. strscan_dispatch s opt base sp fmt ex neg x dig = Some r"
proof -
  have "\<exists>r. (if base = 16 then Some (strscan_hex s sp fmt opt ex neg dig)
              else if base = 2 then Some (strscan_bin s sp fmt opt ex neg dig)
              else strscan_dec s sp fmt opt ex neg dig) = Some r"
    using strscan_dec_ends [of dig s sp fmt opt ex neg] assms by auto
  then show ?thesis by (auto simp: strscan_dispatch_def Let_def)
qed

section \<open>The text\<close>

lemma scan_zeros_stop:
  "scan_zeros (drop p s) p h dp = Some (sp, h', dp') \<Longrightarrow> sc_at s sp \<noteq> c_0 \<and> sc_at s sp \<noteq> c_dot"
proof (induction "drop p s" p h dp rule: scan_zeros.induct)
  case (1 p h dp)
  then have "scan_zeros [] p h dp = Some (sp, h', dp')" "length s \<le> p" by simp_all
  then show ?case by (simp add: sc_at_def)
next
  case (2 c cs p h dp)
  have c: "sc_at s p = c" "drop (p + 1) s = cs" using "2.hyps"(3)
    by (auto simp: sc_at_def hd_drop_conv_nth [symmetric] drop_Suc tl_drop [symmetric] simp flip: drop_drop dest: sym
      split: if_splits)
  show ?case
    using "2.prems" "2.hyps"(1) [OF _ c(2) [symmetric]] "2.hyps"(2) [OF _ _ _ c(2) [symmetric]] c
    unfolding "2.hyps"(3) [symmetric] by (auto split: if_splits)
qed

lemma scan_digits_first:
  assumes "scan_digits m (drop sp s) sp x 0 dp = Some (p, y, dig, dp')" "dig \<noteq> 0" "sc_at s sp \<noteq> c_dot"
  shows "lj_char_isa (uint (sc_at s sp)) m \<noteq> 0"
proof (cases "drop sp s")
  case Nil
  then show ?thesis using assms(1,2) by simp
next
  case (Cons c cs)
  then have c: "sc_at s sp = c" by (auto simp: sc_at_def hd_drop_conv_nth [symmetric] split: if_splits)
  then show ?thesis using assms unfolding Cons by (auto split: if_splits)
qed

lemma digit_nonzero:
  assumes "lj_char_isa (uint (sc_at s p)) LJ_CHAR_DIGIT \<noteq> 0" "sc_at s p \<noteq> c_0" "sc_at s p \<noteq> c_dot"
  shows "first_digit s p"
proof -
  have "48 \<le> uint (sc_at s p) \<and> uint (sc_at s p) \<le> 57" using assms(1) isdigit_iff by blast
  then have "uint (sc_at s p) \<in> {48, 49, 50, 51, 52, 53, 54, 55, 56, 57}"
    unfolding insert_iff empty_iff by presburger
  then have "sc_at s p \<in> {48, 49, 50, 51, 52, 53, 54, 55, 56, 57}" by (auto simp: word_uint_eq_iff)
  then show ?thesis using assms(2,3) by (auto simp: first_digit_def dec_digit_def)
qed

lemma trim_zeros_le: "snd (trim_zeros s dp ex dig) \<le> dig"
proof (induction s dp ex dig rule: trim_zeros.induct)
  case (1 s dp ex dig)
  show ?case
  proof (cases "ex < 0 \<and> sc_at s dp = c_0")
    case True
    from "1.IH" [OF this] show ?thesis using True by (subst trim_zeros.simps) simp
  next
    case False
    then show ?thesis by (subst trim_zeros.simps) auto
  qed
qed

lemma strscan_regular_ends: "\<exists>r. strscan_regular s opt p neg = Some r"
proof -
  define bp where "bp = (if sc_at s p = c_0 \<and> casecmp (sc_at s (p + 1)) 0x78 then (16, p + 2)
             else if sc_at s p = c_0 \<and> casecmp (sc_at s (p + 1)) 0x62 then (2, p + 2)
             else ((if has_opt opt STRSCAN_OPT_C \<and> sc_at s p = c_0 then 0 else 10 :: nat), p))"
  obtain base q where bq: "bp = (base, q)" by (cases bp)
  define cm where "cm = (if base = 16 then LJ_CHAR_XDIGIT else LJ_CHAR_DIGIT)"
  have fd: "first_digit s sp" if "scan_zeros (drop q s) q False None = Some (sp, h, dp)" "base \<noteq> 16"
    "scan_digits cm (drop sp s) sp 0 0 dp = Some (p', x, dig, dp')" "dig \<noteq> 0" for sp h dp p' x dig dp'
  proof -
    have st: "sc_at s sp \<noteq> c_0" "sc_at s sp \<noteq> c_dot" using scan_zeros_stop [OF that(1)] by auto
    from scan_digits_first [OF that(3,4) st(2)] show ?thesis using st that(2) by (intro digit_nonzero) (simp_all add: cm_def)
  qed
  have tr: "first_digit s sp" if "scan_zeros (drop q s) q False None = Some (sp, h, dp)" "base \<noteq> 16"
    "scan_digits cm (drop sp s) sp 0 0 dp = Some (p', x, dig, dp')" "d' \<noteq> 0"
    "(ex, d') = (case dp' of
                 None \<Rightarrow> (0, dig)
               | Some d \<Rightarrow>
                   if dig \<noteq> 0 then
                     case trim_zeros s (p' - 1) (int d - int (p' - 1)) dig of
                       (ex, dig) \<Rightarrow> (if base = 16 then ex * 4 else ex, dig)
                   else (0, dig))" for sp h dp p' x dig dp' ex d'
  proof (rule fd [OF that(1-3)])
    show "dig \<noteq> 0" using that(4,5) by (cases "dig = 0") (auto split: option.splits)
  qed
  show ?thesis
    unfolding strscan_regular_def Let_def bp_def [symmetric] bq prod.case cm_def [symmetric]
    by (auto split: option.split prod.split intro!: strscan_dispatch_ends dest: tr)
qed

text \<open>C17: the number scanner returns on every text, with every option: also the loops that scale a
  decimal number to base 64 in the circular buffer of digits come to an end.\<close>

theorem lj_strscan_scan_ends: "\<exists>r. lj_strscan_scan s opt = Some r"
  using strscan_regular_ends by (auto simp: lj_strscan_scan_def Let_def)

text \<open>C32: the number of the decimal representation \<open>lj_strfmt_wint\<close> writes for a 32-bit integer is that
  integer again.\<close>

theorem lj_strscan_num_wint: "lj_strscan_num (lj_strfmt_wint k) = Some (Some (num_of_int (sint k)))"
proof -
  have "int32 (sint k)" using sint_greater_eq [of k] sint_less [of k] by (simp add: int32_def)
  then have "lj_strscan_scan (dec_int (sint k) @ []) STRSCAN_OPT_TONUM = Some (ScanNum (num_of_int (sint k)))"
    by (rule strscan_int) (simp_all add: at_end_def has_opt_def strscan_opts)
  then show ?thesis by (simp add: lj_strscan_num_def lj_strfmt_wint_decimal_aux)
qed

end
