(* ===== verification/Tj_Lex.thy ===== *)
theory Tj_Lex
  imports Lj_Strscan_Ends Lib_Utf8 Lj_Buf
begin

text \<open>
  The lexer of the TP language (\<open>src/src/tj_lex.c\<close>, \<open>src/src/tj_lex.h\<close>). The input comes in blocks from
  the reader callback: \<open>lx_p\<close> is the rest of the current block, \<open>lx_blocks\<close> is what the callback still
  gives; when it has no more, or gives an empty block, the current character is \<open>LEX_EOF\<close>. An error is
  the value \<open>Inl\<close>, with the text of the token, the line and the message. A string token is its content,
  a 64-bit integer or imaginary number its bits; loading the FFI library on demand is not modelled.
\<close>

section \<open>State\<close>

datatype err_msg = LJ_ERR_XLINES | LJ_ERR_XNUMBER | LJ_ERR_XSTR | LJ_ERR_XESC

datatype lex_error =
    LexMem
  | LexStrov
  | LexBcbad
  | LexErr "bytes option" nat err_msg
  | LexNoReturn

datatype lex_val = LexNone | LexNum u64 | LexStr bytes | LexInt64 u64 | LexUint64 u64 | LexImag u64

type_synonym lex_token = int

definition TK_OFS :: lex_token where "TK_OFS = 256"
definition TK_number :: lex_token where "TK_number = 257"
definition TK_name :: lex_token where "TK_name = 258"
definition TK_string :: lex_token where "TK_string = 259"
definition TK_eof :: lex_token where "TK_eof = 260"

lemmas tk_defs = TK_OFS_def TK_number_def TK_name_def TK_string_def TK_eof_def

text \<open>\<open>#sym\<close> for the symbols of \<open>TKDEF\<close>: <number>, <name>, <string> and <eof>.\<close>

definition tokennames :: "bytes list" where
  "tokennames =
     [[60, 110, 117, 109, 98, 101, 114, 62], [60, 110, 97, 109, 101, 62], [60, 115, 116, 114, 105, 110, 103, 62],
      [60, 101, 111, 102, 62]]"

record lex_state =
  lx_p :: bytes
  lx_blocks :: "bytes list"
  lx_c :: int
  lx_sb :: sbuf
  lx_line :: nat
  lx_lastline :: nat
  lx_tok :: lex_token
  lx_val :: lex_val

definition LEX_EOF :: int where "LEX_EOF = - 1"

abbreviation (input) "ch_nl \<equiv> 10 :: int"
abbreviation (input) "ch_cr \<equiv> 13 :: int"
abbreviation (input) "ch_quote \<equiv> 34 :: int"
abbreviation (input) "ch_bslash \<equiv> 92 :: int"

definition lbind :: "lex_error + lex_state \<Rightarrow> (lex_state \<Rightarrow> lex_error + 'a) \<Rightarrow> lex_error + 'a" where
  "lbind m f = (case m of Inl e \<Rightarrow> Inl e | Inr s \<Rightarrow> f s)"

lemma lbind_simps [simp]: "lbind (Inl e) f = Inl e" "lbind (Inr s) f = f s"
  by (simp_all add: lbind_def)

section \<open>Errors\<close>

text \<open>The byte \<open>c\<close> as \<open>lj_buf_putb\<close> writes it.\<close>

definition lex_save :: "int \<Rightarrow> lex_state \<Rightarrow> lex_error + lex_state" where
  "lex_save c s =
     (case buf_put (lx_sb s) 1 [word_of_int c] of
        Inl _ \<Rightarrow> Inl LexMem
      | Inr sb \<Rightarrow> Inr (s\<lparr>lx_sb := sb\<rparr>))"

definition lj_lex_token2str :: "lex_token \<Rightarrow> bytes" where
  "lj_lex_token2str tok =
     (if tok > TK_OFS then tokennames ! nat (tok - TK_OFS - 1)
      else if \<not> lj_char_iscntrl tok then [word_of_int tok]
      else [99, 104, 97, 114, 40] @ dec_int tok @ [41])"

text \<open>The text of the token is a C string.\<close>

definition c_string :: "bytes \<Rightarrow> bytes" where "c_string b = takeWhile (\<lambda>c. c \<noteq> 0) b"

definition lj_lex_error :: "lex_state \<Rightarrow> lex_token \<Rightarrow> err_msg \<Rightarrow> lex_error" where
  "lj_lex_error s tok em =
     (if tok = 0 then LexErr None (lx_line s) em
      else if tok = TK_name \<or> tok = TK_string \<or> tok = TK_number then
        case lex_save 0 s of
          Inl e \<Rightarrow> e
        | Inr s \<Rightarrow> LexErr (Some (c_string (sbufdata (lx_sb s)))) (lx_line s) em
      else LexErr (Some (lj_lex_token2str tok)) (lx_line s) em)"

section \<open>Input\<close>

definition lex_iseol :: "lex_state \<Rightarrow> bool" where "lex_iseol s \<longleftrightarrow> lx_c s = ch_nl \<or> lx_c s = ch_cr"

definition lex_more :: "lex_state \<Rightarrow> lex_state" where
  "lex_more s =
     (case lx_blocks s of
        [] \<Rightarrow> s\<lparr>lx_c := LEX_EOF\<rparr>
      | b # bs \<Rightarrow>
          (case b of
             [] \<Rightarrow> s\<lparr>lx_blocks := bs, lx_c := LEX_EOF\<rparr>
           | c # p \<Rightarrow> s\<lparr>lx_blocks := bs, lx_p := p, lx_c := uint c\<rparr>))"

definition lex_next :: "lex_state \<Rightarrow> lex_state" where
  "lex_next s = (case lx_p s of c # p \<Rightarrow> s\<lparr>lx_p := p, lx_c := uint c\<rparr> | [] \<Rightarrow> lex_more s)"

definition lex_savenext :: "lex_state \<Rightarrow> lex_error + lex_state" where
  "lex_savenext s = lbind (lex_save (lx_c s) s) (\<lambda>s. Inr (lex_next s))"

definition lex_newline :: "lex_state \<Rightarrow> lex_error + lex_state" where
  "lex_newline s =
     (let old = lx_c s;
          s = lex_next s;
          s = (if lex_iseol s \<and> lx_c s \<noteq> old then lex_next s else s);
          s = s\<lparr>lx_line := lx_line s + 1\<rparr>
      in if lx_line s \<ge> LJ_MAX_LINE then Inl (lj_lex_error s (lx_tok s) LJ_ERR_XLINES) else Inr s)"

text \<open>The input that is left: every character read makes it smaller.\<close>

definition lex_left :: "lex_state \<Rightarrow> nat" where
  "lex_left s =
     2 * length (lx_p s) + sum_list (map (\<lambda>b. 2 * length b + 1) (lx_blocks s)) + (if lx_c s = LEX_EOF then 0 else 1)"

lemma uint_not_eof [simp]: "uint (c :: byte) \<noteq> LEX_EOF"
  using uint_ge_0 [of c] unfolding LEX_EOF_def by linarith

lemma lex_next_left: "lx_c s \<noteq> LEX_EOF \<or> lx_c (lex_next s) \<noteq> LEX_EOF \<Longrightarrow> lex_left (lex_next s) < lex_left s"
  by (auto simp: lex_next_def lex_more_def lex_left_def split: list.split)

lemma lex_next_left_le: "lex_left (lex_next s) \<le> lex_left s"
  by (auto simp: lex_next_def lex_more_def lex_left_def split: list.split)

lemma lex_left_sb [simp]: "lex_left (s\<lparr>lx_sb := b\<rparr>) = lex_left s" "lex_left (s\<lparr>lx_line := n\<rparr>) = lex_left s"
  "lex_left (s\<lparr>lx_tok := t\<rparr>) = lex_left s" "lex_left (s\<lparr>lx_val := v\<rparr>) = lex_left s"
  by (simp_all add: lex_left_def)

lemma lex_save_left: "lex_save c s = Inr s' \<Longrightarrow> lex_left s' = lex_left s \<and> lx_c s' = lx_c s"
  by (auto simp: lex_save_def split: sum.splits)

lemma lex_savenext_left: "lex_savenext s = Inr s' \<Longrightarrow> lx_c s \<noteq> LEX_EOF \<Longrightarrow> lex_left s' < lex_left s"
proof -
  assume "lex_savenext s = Inr s'" "lx_c s \<noteq> LEX_EOF"
  then obtain s1 where "lex_save (lx_c s) s = Inr s1" "s' = lex_next s1"
    by (auto simp: lex_savenext_def lbind_def split: sum.splits)
  then show ?thesis using lex_save_left [of "lx_c s" s s1] lex_next_left [of s1] \<open>lx_c s \<noteq> LEX_EOF\<close> by simp
qed

lemma lex_newline_left: "lex_newline s = Inr s' \<Longrightarrow> lx_c s \<noteq> LEX_EOF \<Longrightarrow> lex_left s' < lex_left s"
  using lex_next_left [of s] lex_next_left_le [of "lex_next s"]
  by (auto simp: lex_newline_def Let_def split: if_splits)

section \<open>Numbers\<close>

lemma not_ident_eof [simp]: "\<not> lj_char_isident LEX_EOF"
  by (simp add: lj_char_isident_def lj_char_isa_def lj_char_bits_def LEX_EOF_def)

text \<open>The loop over the characters of a number; \<open>c\<close> is the character before the current one.\<close>

function lex_number_loop :: "int \<Rightarrow> int \<Rightarrow> lex_state \<Rightarrow> lex_error + lex_state" where
  "lex_number_loop xp c s =
     (if lj_char_isident (lx_c s) \<or> lx_c s = 0x2e \<or> (lx_c s = 0x2d \<or> lx_c s = 0x2b) \<and> c OR 0x20 = xp then
        case lex_savenext s of
          Inl e \<Rightarrow> Inl e
        | Inr s' \<Rightarrow> lex_number_loop xp (lx_c s) s'
      else Inr s)"
  by pat_completeness auto
termination
proof (relation "measure (\<lambda>(xp, c, s). lex_left s)", simp, goal_cases)
  case (1 xp c s s')
  then have "lx_c s \<noteq> LEX_EOF" by (auto simp: LEX_EOF_def simp flip: not_ident_eof)
  then show ?case using lex_savenext_left [OF 1(2)] by simp
qed

declare lex_number_loop.simps [simp del]

definition lex_keepcdata :: "scan_result \<Rightarrow> lex_val option" where
  "lex_keepcdata r =
     (case r of
        ScanNum n \<Rightarrow> Some (LexNum n)
      | ScanImag n \<Rightarrow> Some (LexImag n)
      | ScanI64 u \<Rightarrow> Some (LexInt64 u)
      | ScanU64 u \<Rightarrow> Some (LexUint64 u)
      | _ \<Rightarrow> None)"

definition lex_opts :: u32 where "lex_opts = STRSCAN_OPT_TONUM OR (STRSCAN_OPT_LL OR STRSCAN_OPT_IMAG)"

definition lex_number :: "lex_state \<Rightarrow> lex_error + lex_state" where
  "lex_number s =
     lbind (if lx_c s = 0x2b \<or> lx_c s = 0x2d then lex_savenext s else Inr s) (\<lambda>s.
     let c = lx_c s in
     lbind (if c = 0x30 then lex_savenext s else Inr s) (\<lambda>s.
     let xp = (if c = 0x30 \<and> lx_c s OR 0x20 = 0x78 then 0x70 else 0x65) in
     lbind (lex_number_loop xp c s) (\<lambda>s.
     lbind (lex_save 0 s) (\<lambda>s.
     case lj_strscan_scan (sbufdata (lx_sb s)) lex_opts of
       None \<Rightarrow> Inl LexNoReturn
     | Some r \<Rightarrow>
         let s = s\<lparr>lx_tok := TK_number\<rparr> in
         (case lex_keepcdata r of
            Some v \<Rightarrow> Inr (s\<lparr>lx_val := v\<rparr>)
          | None \<Rightarrow> Inl (lj_lex_error s TK_number LJ_ERR_XNUMBER))))))"

section \<open>Strings\<close>

text \<open>The digits of a hexadecimal escape, each with its shift. The value has 32 bits.\<close>

fun lex_hex :: "nat list \<Rightarrow> u32 \<Rightarrow> lex_state \<Rightarrow> lex_state \<times> u32 option" where
  "lex_hex [] c s = (s, Some c)"
| "lex_hex (k # ks) c s =
     (let s = lex_next s;
          c = c + push_bit k (word_of_int (lx_c s) AND 15)
      in if \<not> lj_char_isdigit (lx_c s) then
           if \<not> lj_char_isxdigit (lx_c s) then (s, None) else lex_hex ks (c + push_bit k 9) s
         else lex_hex ks c s)"

text \<open>The bytes saved for a character of a \<open>\u\<close> or \<open>\U\<close> escape; the comparisons are signed.\<close>

definition esc_3 :: "u32 \<Rightarrow> bytes" where
  "esc_3 c = [ucast (0xE0 OR drop_bit 12 c), ucast (0x80 OR (drop_bit 6 c AND 0x3f)), ucast (0x80 OR (c AND 0x3f))]"

definition esc_2 :: "u32 \<Rightarrow> bytes" where
  "esc_2 c = [ucast (0xC0 OR drop_bit 6 c), ucast (0x80 OR (c AND 0x3f))]"

definition esc_u :: "u32 \<Rightarrow> bytes" where
  "esc_u c = (if sint c \<ge> 0x0800 then esc_3 c else if sint c \<ge> 0x0080 then esc_2 c else [ucast c])"

definition esc_U :: "u32 \<Rightarrow> bytes" where
  "esc_U c =
     (if sint c \<ge> 0x4000000 then
        [ucast (0xFC OR drop_bit 30 c), ucast (0x80 OR (drop_bit 24 c AND 0x3f)), ucast (0x80 OR (drop_bit 18 c AND 0x3f)),
         ucast (0x80 OR (drop_bit 12 c AND 0x3f)), ucast (0x80 OR (drop_bit 6 c AND 0x3f)), ucast (0x80 OR (c AND 0x3f))]
      else if sint c \<ge> 0x200000 then
        [ucast (0xF8 OR drop_bit 24 c), ucast (0x80 OR (drop_bit 18 c AND 0x3f)), ucast (0x80 OR (drop_bit 12 c AND 0x3f)),
         ucast (0x80 OR (drop_bit 6 c AND 0x3f)), ucast (0x80 OR (c AND 0x3f))]
      else if sint c \<ge> 0x10000 then
        [ucast (0xF0 OR drop_bit 18 c), ucast (0x80 OR (drop_bit 12 c AND 0x3f)), ucast (0x80 OR (drop_bit 6 c AND 0x3f)),
         ucast (0x80 OR (c AND 0x3f))]
      else esc_u c)"

fun lex_saves :: "bytes \<Rightarrow> lex_state \<Rightarrow> lex_error + lex_state" where
  "lex_saves [] s = Inr s"
| "lex_saves (b # bs) s = lbind (lex_save (uint b) s) (lex_saves bs)"

definition lex_escaped :: "bytes \<Rightarrow> lex_state \<Rightarrow> lex_error + lex_state" where
  "lex_escaped bs s = lbind (lex_saves bs s) (\<lambda>s. Inr (lex_next s))"

definition lex_hex_escape :: "nat list \<Rightarrow> (u32 \<Rightarrow> bytes) \<Rightarrow> lex_state \<Rightarrow> lex_error + lex_state" where
  "lex_hex_escape ks f s =
     (case lex_hex ks 0 s of
        (s, None) \<Rightarrow> Inl (lj_lex_error s TK_string LJ_ERR_XESC)
      | (s, Some c) \<Rightarrow> lex_escaped (f c) s)"

definition escape_letter :: "int \<Rightarrow> byte option" where
  "escape_letter c =
     (if c = 0x61 then Some 7 else if c = 0x62 then Some 8 else if c = 0x66 then Some 12
      else if c = 0x6e then Some 10 else if c = 0x72 then Some 13 else if c = 0x74 then Some 9
      else if c = 0x76 then Some 11
      else if c = ch_bslash \<or> c = ch_quote \<or> c = 0x27 then Some (word_of_int c)
      else None)"

definition lex_escape :: "lex_state \<Rightarrow> lex_error + lex_state" where
  "lex_escape s =
     (let s = lex_next s; c = lx_c s in
      case escape_letter c of
        Some b \<Rightarrow> lex_escaped [b] s
      | None \<Rightarrow>
          if c = 0x78 then lex_hex_escape [4, 0] (\<lambda>c. [ucast c]) s
          else if c = 0x75 then lex_hex_escape [12, 8, 4, 0] esc_u s
          else if c = 0x55 then lex_hex_escape [28, 24, 20, 16, 12, 8, 4, 0] esc_U s
          else if c = LEX_EOF then Inr s
          else Inl (lj_lex_error s TK_string LJ_ERR_XESC))"

lemma lex_hex_left: "lex_hex ks c s = (s', r) \<Longrightarrow> lex_left s' \<le> lex_left s"
proof (induction ks c s rule: lex_hex.induct)
  case (2 k ks c s)
  then show ?case using lex_next_left_le [of s] by (auto simp: Let_def split: if_splits dest: order_trans)
qed simp

lemma lex_saves_left: "lex_saves bs s = Inr s' \<Longrightarrow> lex_left s' = lex_left s"
  by (induction bs arbitrary: s) (auto simp: lbind_def dest: lex_save_left split: sum.splits)

lemma lex_escaped_left: "lex_escaped bs s = Inr s' \<Longrightarrow> lex_left s' \<le> lex_left s"
  by (auto simp: lex_escaped_def lbind_def split: sum.splits) (metis lex_saves_left lex_next_left_le)

lemma lex_hex_escape_left: "lex_hex_escape ks f s = Inr s' \<Longrightarrow> lex_left s' \<le> lex_left s"
  using lex_hex_left lex_escaped_left by (fastforce simp: lex_hex_escape_def split: prod.splits option.splits)

lemma lex_escape_left: "lex_escape s = Inr s' \<Longrightarrow> lx_c s \<noteq> LEX_EOF \<Longrightarrow> lex_left s' < lex_left s"
  using lex_next_left [of s] lex_escaped_left lex_hex_escape_left
  by (fastforce simp: lex_escape_def Let_def split: option.splits if_splits)

function lex_string_loop :: "lex_state \<Rightarrow> lex_error + lex_state" where
  "lex_string_loop s =
     (if lx_c s \<noteq> ch_quote then
        if lx_c s = LEX_EOF then Inl (lj_lex_error s TK_eof LJ_ERR_XSTR)
        else
          case (if lx_c s = ch_bslash then lex_escape s
                else if lex_iseol s then lbind (lex_newline s) (lex_save ch_nl)
                else lex_savenext s) of
            Inl e \<Rightarrow> Inl e
          | Inr s' \<Rightarrow> lex_string_loop s'
      else Inr s)"
  by pat_completeness auto
termination
proof (relation "measure lex_left", simp, goal_cases)
  case (1 s s')
  then show ?case
    by (auto simp: lbind_def split: if_splits sum.splits
        dest: lex_escape_left lex_savenext_left lex_newline_left)
      (metis lex_newline_left lex_save_left)
qed

declare lex_string_loop.simps [simp del]

definition lj_parse_keepstr :: "bytes \<Rightarrow> lex_state \<Rightarrow> lex_error + lex_state" where
  "lj_parse_keepstr b s = (if length b \<ge> LJ_MAX_STR then Inl LexStrov else Inr (s\<lparr>lx_val := LexStr b\<rparr>))"

definition lex_string :: "lex_state \<Rightarrow> lex_error + lex_state" where
  "lex_string s =
     lbind (lex_savenext s) (\<lambda>s.
     lbind (lex_string_loop s) (\<lambda>s.
     lbind (lex_savenext s) (\<lambda>s.
     lbind (lj_parse_keepstr (take (sbuflen (lx_sb s) - 2) (drop 1 (sbufdata (lx_sb s)))) s) (\<lambda>s.
       Inr (s\<lparr>lx_tok := TK_string\<rparr>)))))"

section \<open>Names\<close>

definition name_end :: "int \<Rightarrow> bool" where
  "name_end c \<longleftrightarrow> c = ch_nl \<or> c = ch_cr \<or> c = 0x20 \<or> c = 0x0c \<or> c = 0x09 \<or> c = 0x0b \<or> c = 0x28 \<or> c = 0x29 \<or> c = 0x3a"

text \<open>
  There is no case for \<open>LEX_EOF\<close>: the loop saves it as a character until the buffer has no room. The
  measure counts the room in the buffer.
\<close>

definition room :: "sbuf \<Rightarrow> nat" where
  "room b = max (sbufsz b) (2 * LJ_MAX_BUF) - sbuflen b"

lemma lj_buf_more_room:
  assumes "lj_buf_more b 1 = Inr b'"
  shows "sbufdata b' = sbufdata b \<and> sbuflen b < max (sbufsz b) (2 * LJ_MAX_BUF)
    \<and> max (sbufsz b') (2 * LJ_MAX_BUF) \<le> max (sbufsz b) (2 * LJ_MAX_BUF)"
proof (cases "1 > sbufleft b")
  case False
  then show ?thesis using assms by (auto simp: lj_buf_more_def sbufleft_def)
next
  case True
  let ?n = "if sbufsz b < LJ_MIN_SBUF then LJ_MIN_SBUF else sbufsz b"
  have m: "sbuflen b + 1 \<le> LJ_MAX_BUF" "b' = buf_grow b (sbuflen b + 1)"
    using assms True by (auto simp: lj_buf_more_def lj_buf_more2_def Let_def split: if_splits)
  have "0 < ?n" by (simp add: LJ_MIN_SBUF_def)
  from double_until_spec [OF this, of "sbuflen b + 1"]
  have "sbufsz b' = ?n \<or> sbufsz b' < 2 * (sbuflen b + 1)" by (simp add: m(2) buf_grow_def Let_def)
  moreover have "?n \<le> max (sbufsz b) (2 * LJ_MAX_BUF)" by (simp add: LJ_MIN_SBUF_def LJ_MAX_MEM32_def)
  ultimately have "sbufsz b' \<le> max (sbufsz b) (2 * LJ_MAX_BUF)"
  proof (elim disjE)
    assume "sbufsz b' < 2 * (sbuflen b + 1)"
    also have "\<dots> \<le> 2 * LJ_MAX_BUF" using m(1) by (rule mult_le_mono2)
    finally show ?thesis by simp
  qed simp
  then show ?thesis using m by (simp add: buf_grow_def Let_def)
qed

lemma lex_save_room: "lex_save c s = Inr s' \<Longrightarrow> room (lx_sb s') < room (lx_sb s)"
proof -
  assume "lex_save c s = Inr s'"
  then obtain b where b: "lj_buf_more (lx_sb s) 1 = Inr b" "s' = s\<lparr>lx_sb := b\<lparr>sbufdata := sbufdata b @ [word_of_int c]\<rparr>\<rparr>"
    by (auto simp: lex_save_def buf_put_def split: sum.splits)
  show ?thesis using lj_buf_more_room [OF b(1)] by (auto simp: b(2) room_def)
qed

lemma lex_next_sb [simp]: "lx_sb (lex_next s) = lx_sb s"
  by (auto simp: lex_next_def lex_more_def split: list.split)

lemma lex_savenext_room: "lex_savenext s = Inr s' \<Longrightarrow> room (lx_sb s') < room (lx_sb s)"
  using lex_save_room by (auto simp: lex_savenext_def lbind_def split: sum.splits)

function lex_name_loop :: "lex_state \<Rightarrow> lex_error + lex_state" where
  "lex_name_loop s =
     (if name_end (lx_c s) then Inr s
      else case lex_savenext (if lx_c s = ch_bslash then lex_next s else s) of
             Inl e \<Rightarrow> Inl e
           | Inr s' \<Rightarrow> lex_name_loop s')"
  by pat_completeness auto
termination
  by (relation "measure (\<lambda>s. room (lx_sb s))") (auto dest: lex_savenext_room split: if_splits)

declare lex_name_loop.simps [simp del]

definition lex_name :: "lex_state \<Rightarrow> lex_error + lex_state" where
  "lex_name s =
     lbind (lex_name_loop s) (\<lambda>s.
     lbind (lj_parse_keepstr (sbufdata (lx_sb s)) s) (\<lambda>s. Inr (s\<lparr>lx_tok := TK_name\<rparr>)))"

section \<open>Tokens\<close>

function lex_comment :: "lex_state \<Rightarrow> lex_state" where
  "lex_comment s = (if \<not> lex_iseol s \<and> lx_c s \<noteq> LEX_EOF then lex_comment (lex_next s) else s)"
  by pat_completeness auto
termination by (relation "measure lex_left") (auto intro: lex_next_left)

declare lex_comment.simps [simp del]

lemma lex_comment_left: "lex_left (lex_comment s) \<le> lex_left s"
proof (induction s rule: lex_comment.induct)
  case (1 s)
  then show ?case using lex_next_left_le [of s] by (subst lex_comment.simps) (auto dest: order_trans)
qed

definition starts_number :: "int \<Rightarrow> bool" where
  "starts_number c \<longleftrightarrow> c = 0x2d \<or> c = 0x2b \<or> 0x30 \<le> c \<and> c \<le> 0x39"

function lex_token_loop :: "lex_state \<Rightarrow> lex_error + lex_state" where
  "lex_token_loop s =
     (if lex_iseol s then
        case lex_newline s of Inl e \<Rightarrow> Inl e | Inr s' \<Rightarrow> lex_token_loop s'
      else if lx_c s = 0x20 \<or> lx_c s = 0x09 \<or> lx_c s = 0x0b \<or> lx_c s = 0x0c then lex_token_loop (lex_next s)
      else if lx_c s = 0x3b then lex_token_loop (lex_comment (lex_next s))
      else if lx_c s = 0x28 \<or> lx_c s = 0x29 \<or> lx_c s = 0x3a then Inr (lex_next (s\<lparr>lx_tok := lx_c s\<rparr>))
      else if lx_c s = ch_quote then lex_string s
      else if starts_number (lx_c s) then lex_number s
      else if lx_c s = LEX_EOF then Inr (s\<lparr>lx_tok := TK_eof\<rparr>)
      else lex_name s)"
  by pat_completeness auto
termination
proof (relation "measure lex_left", simp, goal_cases)
  case (1 s s')
  then show ?case by (auto simp: lex_iseol_def LEX_EOF_def intro: lex_newline_left)
next
  case (2 s)
  then show ?case by (auto simp: LEX_EOF_def intro: lex_next_left)
next
  case (3 s)
  then have "lex_left (lex_next s) < lex_left s" by (intro lex_next_left) (simp add: LEX_EOF_def)
  then show ?case using lex_comment_left [of "lex_next s"] by simp
qed

declare lex_token_loop.simps [simp del]

definition lj_lex_next :: "lex_state \<Rightarrow> lex_error + lex_state" where
  "lj_lex_next s = lex_token_loop (s\<lparr>lx_lastline := lx_line s, lx_sb := lj_buf_reset (lx_sb s)\<rparr>)"

section \<open>Setup\<close>

text \<open>The header line; the flag is false when the input ends in it.\<close>

function lex_header :: "lex_state \<Rightarrow> bool \<times> lex_state" where
  "lex_header s =
     (let s' = lex_next s in
      if lx_c s' = LEX_EOF then (False, s') else if lex_iseol s' then (True, s') else lex_header s')"
  by pat_completeness auto
termination by (relation "measure lex_left") (auto intro: lex_next_left)

declare lex_header.simps [simp del]

definition LUA_SIGNATURE_0 :: int where "LUA_SIGNATURE_0 = 0x1b"

text \<open>The first two characters of the buffer are the rest of a byte order mark.\<close>

definition lex_bom :: "lex_state \<Rightarrow> bool" where
  "lex_bom s \<longleftrightarrow> lx_c s = 0xef \<and> length (lx_p s) \<ge> 2 \<and> lx_p s ! 0 = 0xbb \<and> lx_p s ! 1 = 0xbf"

text \<open>The result is true for a bytecode dump. The reader and the buffer come from \<open>lua_loadx\<close>.\<close>

definition lj_lex_setup :: "bytes list \<Rightarrow> sbuf \<Rightarrow> lex_error + bool \<times> lex_state" where
  "lj_lex_setup blocks sb =
     (let s = \<lparr>lx_p = [], lx_blocks = blocks, lx_c = 0, lx_sb = sb, lx_line = 1, lx_lastline = 1, lx_tok = 0,
               lx_val = LexNone\<rparr>;
          s = lex_next s;
          (header, s) = (if lex_bom s then (True, lex_next (s\<lparr>lx_p := drop 2 (lx_p s)\<rparr>)) else (False, s));
          dump = (\<lambda>header s. if lx_c s = LUA_SIGNATURE_0 then if header then Inl LexBcbad else Inr (True, s)
                             else Inr (False, s))
      in if lx_c s = 0x23 then
           (case lex_header s of
              (False, s) \<Rightarrow> Inr (False, s)
            | (True, s) \<Rightarrow> lbind (lex_newline s) (dump True))
         else dump header s)"

end
