(* ===== verification/Tj_Lex_Props.thy ===== *)
theory Tj_Lex_Props
  imports Tj_Lex
begin

text \<open>
  What the lexer reads, against a grammar of the tokens. \<open>lex_at\<close> gives the text that is left, however
  the reader split it into blocks, and the contents of the buffer.
\<close>

section \<open>The text that is left\<close>

definition lex_input :: "lex_state \<Rightarrow> bytes" where
  "lex_input s = (if lx_c s = LEX_EOF then [] else word_of_int (lx_c s) # lx_p s @ concat (lx_blocks s))"

definition lex_ok :: "lex_state \<Rightarrow> bool" where
  "lex_ok s \<longleftrightarrow> [] \<notin> set (lx_blocks s) \<and> (lx_c s = LEX_EOF \<longrightarrow> lx_p s = [] \<and> lx_blocks s = [])
     \<and> (lx_c s \<noteq> LEX_EOF \<longrightarrow> 0 \<le> lx_c s \<and> lx_c s < 256)"

definition lex_at :: "lex_state \<Rightarrow> bytes \<Rightarrow> bytes \<Rightarrow> nat \<Rightarrow> bool" where
  "lex_at s t b n \<longleftrightarrow> lex_ok s \<and> lex_input s = t \<and> sbuf_ok (lx_sb s) \<and> sbufdata (lx_sb s) = b \<and> lx_line s = n"

lemma lex_at_char: "lex_at s (c # t) b n \<Longrightarrow> lx_c s = uint c"
  by (auto simp: lex_at_def lex_ok_def lex_input_def uint_word_of_int split: if_splits)

lemma lex_at_end: "lex_at s [] b n \<Longrightarrow> lx_c s = LEX_EOF"
  by (auto simp: lex_at_def lex_input_def split: if_splits)

lemma uint_byte_less [simp]: "uint (c :: byte) < 256"
  using uint_bounded [of c] by simp

lemma lex_next_at: "lex_at s (c # t) b n \<Longrightarrow> lex_at (lex_next s) t b n"
  by (auto simp: lex_at_def lex_ok_def lex_input_def lex_next_def lex_more_def split: list.splits if_splits)

lemma lex_save_at:
  assumes "lex_at s t b n" "length b < LJ_MAX_BUF"
  obtains s' where "lex_save c s = Inr s'" "lex_at s' t (b @ [word_of_int c]) n"
proof -
  have ok: "sbuf_ok (lx_sb s)" and b: "sbufdata (lx_sb s) = b" using assms(1) by (simp_all add: lex_at_def)
  obtain sb where sb: "buf_put (lx_sb s) 1 [word_of_int c] = Inr sb" "sbuf_ok sb" "sbufdata sb = b @ [word_of_int c]"
    using buf_put_spec [OF ok, of "[word_of_int c]" 1] assms(2) b by (auto split: sum.splits)
  show ?thesis
    by (rule that [of "s\<lparr>lx_sb := sb\<rparr>"])
      (use assms(1) sb in \<open>auto simp: lex_save_def lex_at_def lex_ok_def lex_input_def\<close>)
qed

lemma lex_savenext_at:
  assumes "lex_at s (c # t) b n" "length b < LJ_MAX_BUF"
  obtains s' where "lex_savenext s = Inr s'" "lex_at s' t (b @ [c]) n"
proof -
  obtain s' where "lex_save (lx_c s) s = Inr s'" "lex_at s' (c # t) (b @ [c]) n"
    using lex_save_at [OF assms, of "lx_c s"] lex_at_char [OF assms(1)] by auto
  then show ?thesis using that lex_next_at by (simp add: lex_savenext_def)
qed

lemma lex_saves_at:
  "lex_at s t b n \<Longrightarrow> length b + length v \<le> LJ_MAX_BUF \<Longrightarrow> \<exists>s'. lex_saves v s = Inr s' \<and> lex_at s' t (b @ v) n"
proof (induction v arbitrary: s b)
  case (Cons x v)
  obtain s1 where "lex_save (uint x) s = Inr s1" "lex_at s1 t (b @ [x]) n"
    using lex_save_at [OF Cons.prems(1), of "uint x"] Cons.prems(2) by auto
  then show ?case using Cons.IH [of s1 "b @ [x]"] Cons.prems(2) by simp
qed simp

lemma lex_escaped_at:
  assumes "lex_at s (c # t) b n" "length b + length v \<le> LJ_MAX_BUF"
  shows "\<exists>s'. lex_escaped v s = Inr s' \<and> lex_at s' t (b @ v) n"
  using lex_saves_at [OF assms] lex_next_at by (fastforce simp: lex_escaped_def)

section \<open>Line breaks\<close>

definition is_eol :: "byte \<Rightarrow> bool" where "is_eol c \<longleftrightarrow> c = 10 \<or> c = 13"

text \<open>A line break before the text \<open>t\<close>.\<close>

definition eol_src :: "bytes \<Rightarrow> bytes \<Rightarrow> bool" where
  "eol_src e t \<longleftrightarrow> e = [10, 13] \<or> e = [13, 10] \<or> (\<exists>c. e = [c] \<and> is_eol c \<and> (t = [] \<or> \<not> is_eol (hd t) \<or> hd t = c))"

lemma lex_iseol_at: "lex_at s (c # t) b n \<Longrightarrow> lex_iseol s \<longleftrightarrow> is_eol c"
  using lex_at_char [of s c t b n] by (auto simp: lex_iseol_def is_eol_def word_uint_eq_iff)

lemma lex_at_line: "lex_at s t b n \<Longrightarrow> lex_at (s\<lparr>lx_line := m\<rparr>) t b m"
  by (auto simp: lex_at_def lex_ok_def lex_input_def split: if_splits)

lemma lex_newline_at:
  assumes "eol_src e t" "lex_at s (e @ t) b n" "n + 1 < LJ_MAX_LINE"
  obtains s' where "lex_newline s = Inr s'" "lex_at s' t b (n + 1)"
proof -
  obtain c r where e: "e = c # r" using assms(1) by (auto simp: eol_src_def)
  have a: "lex_at (lex_next s) (r @ t) b n" using assms(2) e lex_next_at by simp
  have c: "lx_c s = uint c" using assms(2) e lex_at_char by simp
  let ?two = "lex_iseol (lex_next s) \<and> lx_c (lex_next s) \<noteq> lx_c s"
  have s2: "lex_at (if ?two then lex_next (lex_next s) else lex_next s) t b n"
  proof (cases r)
    case Nil
    then have t: "t = [] \<or> \<not> is_eol (hd t) \<or> hd t = c" using assms(1) e by (auto simp: eol_src_def)
    have "\<not> ?two"
    proof (cases t)
      case Nil
      then show ?thesis using a \<open>r = []\<close> lex_at_end by (simp add: lex_iseol_def LEX_EOF_def)
    next
      case (Cons d u)
      then show ?thesis using a t \<open>r = []\<close> lex_iseol_at [of "lex_next s" d u b n] lex_at_char [of "lex_next s" d u b n] c by auto
    qed
    from if_not_P [OF this, of "lex_next (lex_next s)" "lex_next s"] show ?thesis using a \<open>r = []\<close> by (simp only: append_Nil)
  next
    case (Cons d r')
    then have "r' = []" "is_eol d" "d \<noteq> c" using assms(1) e by (auto simp: eol_src_def is_eol_def)
    then have "lex_at (lex_next s) (d # t) b n" using a Cons by simp
    then show ?thesis
      using lex_iseol_at [of "lex_next s" d t b n] lex_at_char [of "lex_next s" d t b n] c \<open>is_eol d\<close> \<open>d \<noteq> c\<close> lex_next_at
      by (simp add: word_uint_eq_iff)
  qed
  define s2 where "s2 = (if ?two then lex_next (lex_next s) else lex_next s)"
  have "lx_line s2 = n" using s2 by (simp add: s2_def [symmetric] lex_at_def)
  then have "lex_newline s = Inr (s2\<lparr>lx_line := n + 1\<rparr>)"
    using assms(3) by (simp add: lex_newline_def Let_def s2_def)
  then show ?thesis using that lex_at_line [OF s2] by (simp add: s2_def)
qed

section \<open>Strings\<close>

definition hex_digit :: "byte \<Rightarrow> nat option" where
  "hex_digit c =
     (if 48 \<le> c \<and> c \<le> 57 then Some (unat c - 48)
      else if 65 \<le> c \<and> c \<le> 70 then Some (unat c - 55)
      else if 97 \<le> c \<and> c \<le> 102 then Some (unat c - 87)
      else None)"

fun hex_value :: "bytes \<Rightarrow> nat option" where
  "hex_value [] = Some 0"
| "hex_value (h # hs) =
     (case (hex_digit h, hex_value hs) of (Some d, Some v) \<Rightarrow> Some (d * 16 ^ length hs + v) | _ \<Rightarrow> None)"

text \<open>The text of a string literal, its value and its line breaks.\<close>

inductive str_src :: "bytes \<Rightarrow> bytes \<Rightarrow> nat \<Rightarrow> bool" where
  str_nil: "str_src [] [] 0"
| str_raw: "c \<notin> {34, 92, 10, 13} \<Longrightarrow> str_src u v n \<Longrightarrow> str_src (c # u) (c # v) n"
| str_eol: "eol_src e u \<Longrightarrow> str_src u v n \<Longrightarrow> str_src (e @ u) (10 # v) (n + 1)"
| str_letter: "escape_letter (uint c) = Some b \<Longrightarrow> str_src u v n \<Longrightarrow> str_src (92 # c # u) (b # v) n"
| str_hex: "hex_value hs = Some k \<Longrightarrow> length hs = 2 \<Longrightarrow> str_src u v n \<Longrightarrow> str_src (92 # 0x78 # hs @ u) (of_nat k # v) n"
| str_u: "hex_value hs = Some k \<Longrightarrow> length hs = 4 \<Longrightarrow> str_src u v n
    \<Longrightarrow> str_src (92 # 0x75 # hs @ u) (wchar_enc (of_nat k) @ v) n"
| str_U: "hex_value hs = Some k \<Longrightarrow> length hs = 8 \<Longrightarrow> k \<le> 0x10FFFF \<Longrightarrow> str_src u v n
    \<Longrightarrow> str_src (92 # 0x55 # hs @ u) (wchar_enc (of_nat k) @ v) n"

lemma hex_digit_char:
  assumes "hex_digit c = Some d"
  shows "d < 16 \<and> (if lj_char_isdigit (uint c) then word_of_int (uint c) AND 15 = (of_nat d :: u32)
    else lj_char_isxdigit (uint c) \<and> (word_of_int (uint c) AND 15) + 9 = (of_nat d :: u32))"
proof -
  have "(48 \<le> uint c \<and> uint c \<le> 57) \<or> (65 \<le> uint c \<and> uint c \<le> 70) \<or> (97 \<le> uint c \<and> uint c \<le> 102)"
    using assms by (auto simp: hex_digit_def word_le_def split: if_splits)
  then have "uint c \<in> {48,49,50,51,52,53,54,55,56,57,65,66,67,68,69,70,97,98,99,100,101,102}"
    unfolding insert_iff empty_iff by presburger
  then have "c \<in> {48,49,50,51,52,53,54,55,56,57,65,66,67,68,69,70,97,98,99,100,101,102}"
    by (simp only: insert_iff empty_iff word_uint_eq_iff) simp
  then show ?thesis using assms
    by (elim insertE emptyE)
      (auto simp: hex_digit_def lj_char_isdigit_def lj_char_isxdigit_def lj_char_isa_def lj_char_bits_def
        LJ_CHAR_DIGIT_def LJ_CHAR_XDIGIT_def)
qed

definition hex_shifts :: "nat \<Rightarrow> nat list" where "hex_shifts n = rev (map (\<lambda>i. 4 * i) [0..<n])"

lemma hex_shifts_simps: "hex_shifts 0 = []" "hex_shifts (Suc n) = 4 * n # hex_shifts n"
  by (simp_all add: hex_shifts_def)

text \<open>The state after the digits is at the last one.\<close>

lemma lex_hex_at:
  "hex_value hs = Some k \<Longrightarrow> lex_at s (x # hs @ t) b n \<Longrightarrow>
    \<exists>s' y. lex_hex (hex_shifts (length hs)) c s = (s', Some (c + of_nat k)) \<and> lex_at s' (y # t) b n"
proof (induction hs arbitrary: k c s x)
  case Nil
  then show ?case by (auto simp: hex_shifts_simps)
next
  case (Cons h hs)
  obtain d v where d: "hex_digit h = Some d" "hex_value hs = Some v" "k = d * 16 ^ length hs + v"
    using Cons.prems(1) by (auto split: option.splits)
  have a: "lex_at (lex_next s) (h # hs @ t) b n" using lex_next_at Cons.prems(2) by simp
  have c: "lx_c (lex_next s) = uint h" using lex_at_char [OF a] .
  let ?w = "push_bit (4 * length hs) (of_nat d) :: u32"
  have w: "?w = of_nat (d * 16 ^ length hs)" by (simp add: push_bit_eq_mult power_mult)
  obtain s' y where s': "lex_hex (hex_shifts (length hs)) (c + ?w) (lex_next s) = (s', Some (c + ?w + of_nat v))"
    "lex_at s' (y # t) b n"
    using Cons.IH [OF d(2) a, of "c + ?w"] by blast
  have "lex_hex (hex_shifts (length (h # hs))) c s = lex_hex (hex_shifts (length hs)) (c + ?w) (lex_next s)"
  proof (cases "lj_char_isdigit (uint h)")
    case True
    then have "word_of_int (uint h) AND 15 = (of_nat d :: u32)" using hex_digit_char [OF d(1)] by simp
    with True show ?thesis by (simp only: list.size hex_shifts_simps lex_hex.simps Let_def c add_Suc_right add_0_right not_True_eq_False if_False)
  next
    case False
    then have "lj_char_isxdigit (uint h)" "(word_of_int (uint h) AND 15) + 9 = (of_nat d :: u32)"
      using hex_digit_char [OF d(1)] by simp_all
    with False show ?thesis
      by (simp only: list.size hex_shifts_simps lex_hex.simps Let_def c add_Suc_right add_0_right not_False_eq_True
          not_True_eq_False if_True if_False add.assoc flip: push_bit_add)
  qed
  then show ?case using s' by (auto simp: w d(3) add.assoc)
qed

lemma str_src_length: "str_src u v n \<Longrightarrow> length v \<le> length u"
  by (induction rule: str_src.induct) (auto simp: eol_src_def wchar_enc_def)

lemma esc_u_wchar:
  assumes "k < 0x10000"
  shows "esc_u (of_nat k) = wchar_enc (of_nat k)"
proof -
  have u: "unat (of_nat k :: u32) = k" using assms by (intro unat_of_nat_small) simp
  have i: "sint (of_nat k :: u32) = int k"
    using sint_small [of k False] assms by simp
  show ?thesis using assms
    by (simp add: esc_u_def wchar_enc_def esc_3_def esc_2_def i word_le_nat_alt u)
qed

lemma esc_U_wchar:
  assumes "k \<le> 0x10FFFF"
  shows "esc_U (of_nat k) = wchar_enc (of_nat k)"
proof -
  have u: "unat (of_nat k :: u32) = k" using assms by (intro unat_of_nat_small) simp
  have i: "sint (of_nat k :: u32) = int k"
    using sint_small [of k False] assms by simp
  show ?thesis using assms esc_u_wchar [of k]
    by (simp add: esc_U_def wchar_enc_def i word_le_nat_alt u)
qed

lemma hex_value_less: "hex_value hs = Some k \<Longrightarrow> k < 16 ^ length hs"
proof (induction hs arbitrary: k)
  case (Cons h hs)
  then obtain d v where d: "hex_digit h = Some d" "v < 16 ^ length hs" "k = d * 16 ^ length hs + v"
    by (auto split: option.splits)
  have "d < 16" using hex_digit_char [OF d(1)] by simp
  then have "(d + 1) * 16 ^ length hs \<le> (16 :: nat) * 16 ^ length hs" by (intro mult_le_mono1) simp
  then have "d * 16 ^ length hs + 16 ^ length hs \<le> (16 :: nat) * 16 ^ length hs" by (simp add: add.commute)
  then show ?case using d(2,3) unfolding list.size add_Suc_right add_0_right power_Suc by linarith
qed simp

text \<open>The three escapes with digits.\<close>

lemma hex_escape_at:
  assumes "hex_value hs = Some k" "lex_at s (x # hs @ t) b n" "ks = hex_shifts (length hs)" "length b + length (f (of_nat k)) \<le> LJ_MAX_BUF"
  obtains s' where "lex_hex_escape ks f s = Inr s'" "lex_at s' t (b @ f (of_nat k)) n"
proof -
  obtain s1 y where s1: "lex_hex ks 0 s = (s1, Some (0 + of_nat k))" "lex_at s1 (y # t) b n"
    using lex_hex_at [OF assms(1,2), of 0] assms(3) by auto
  then obtain s' where "lex_escaped (f (of_nat k)) s1 = Inr s'" "lex_at s' t (b @ f (of_nat k)) n"
    using lex_escaped_at [OF s1(2) assms(4)] by auto
  then show ?thesis using that s1(1) by (simp add: lex_hex_escape_def)
qed

lemma hex_shifts_numerals: "[4, 0] = hex_shifts 2" "[12, 8, 4, 0] = hex_shifts 4"
  "[28, 24, 20, 16, 12, 8, 4, 0] = hex_shifts 8"
  by (simp_all add: hex_shifts_def upt_rec)

lemma lex_string_step:
  assumes "lx_c s \<noteq> ch_quote" "lx_c s \<noteq> LEX_EOF"
  shows "lex_string_loop s =
    lbind (if lx_c s = ch_bslash then lex_escape s
           else if lex_iseol s then lbind (lex_newline s) (lex_save ch_nl)
           else lex_savenext s) lex_string_loop"
  using assms by (subst lex_string_loop.simps) (simp add: lbind_def)

lemma lex_string_escape:
  assumes a: "lex_at s (92 # c # u) b n"
    and r: "lex_at (lex_next s) (c # u) b n \<Longrightarrow> lx_c (lex_next s) = uint c \<Longrightarrow> \<exists>s'. lex_escape s = Inr s' \<and> P s'"
  shows "\<exists>s'. lex_string_loop s = lex_string_loop s' \<and> P s'"
proof -
  have n: "lex_at (lex_next s) (c # u) b n" using lex_next_at [OF a] .
  obtain s' where s': "lex_escape s = Inr s'" "P s'" using r [OF n lex_at_char [OF n]] by auto
  have "lx_c s = 92" using lex_at_char [OF a] by simp
  then show ?thesis using s' by (intro exI [of _ s']) (simp add: lex_string_step LEX_EOF_def)
qed

lemma lex_string_loop_at:
  "str_src u v n \<Longrightarrow> lex_at s (u @ 34 # t) b m \<Longrightarrow> length b + length v < LJ_MAX_BUF \<Longrightarrow> m + n < LJ_MAX_LINE \<Longrightarrow>
    \<exists>s'. lex_string_loop s = Inr s' \<and> lex_at s' (34 # t) (b @ v) (m + n)"
proof (induction arbitrary: s b m rule: str_src.induct)
  case str_nil
  then have "lx_c s = 34" using lex_at_char by fastforce
  then show ?case using str_nil by (subst lex_string_loop.simps) simp
next
  case (str_raw c u v n)
  have c: "lx_c s = uint c" using lex_at_char str_raw.prems(1) by simp
  have k: "lx_c s \<noteq> 34" "lx_c s \<noteq> LEX_EOF" "lx_c s \<noteq> 92" "\<not> lex_iseol s"
    using str_raw.hyps(1) by (auto simp: c lex_iseol_def word_uint_eq_iff)
  obtain s1 where s1: "lex_savenext s = Inr s1" "lex_at s1 (u @ 34 # t) (b @ [c]) m"
    using lex_savenext_at [of s c "u @ 34 # t" b m] str_raw.prems by auto
  have "lex_string_loop s = lex_string_loop s1" using s1(1) k by (simp add: lex_string_step)
  then show ?case using str_raw.IH [OF s1(2)] str_raw.prems by simp
next
  case (str_eol e u v n)
  obtain c r where e: "e = c # r" "is_eol c" using str_eol.hyps(1) by (auto simp: eol_src_def is_eol_def)
  have c: "lx_c s = uint c" using lex_at_char str_eol.prems(1) e by simp
  have k: "lx_c s \<noteq> 34" "lx_c s \<noteq> LEX_EOF" "lx_c s \<noteq> 92" "lex_iseol s"
    using e(2) by (auto simp: c lex_iseol_def is_eol_def)
  have "eol_src e (u @ 34 # t)" using str_eol.hyps(1) by (cases u) (auto simp: eol_src_def is_eol_def)
  then obtain s1 where s1: "lex_newline s = Inr s1" "lex_at s1 (u @ 34 # t) b (m + 1)"
    using lex_newline_at [of e "u @ 34 # t" s b m] str_eol.prems by auto
  obtain s2 where s2: "lex_save 10 s1 = Inr s2" "lex_at s2 (u @ 34 # t) (b @ [word_of_int 10]) (m + 1)"
    using lex_save_at [OF s1(2), of 10] str_eol.prems by auto
  have "lex_string_loop s = lex_string_loop s2" using s1(1) s2(1) k by (simp add: lex_string_step)
  then show ?case using str_eol.IH [OF s2(2)] str_eol.prems by simp
next
  case (str_letter c x u v n)
  have "\<exists>s'. lex_string_loop s = lex_string_loop s' \<and> lex_at s' (u @ 34 # t) (b @ [x]) m"
  proof (rule lex_string_escape [where s = s and c = c and u = "u @ 34 # t" and b = b and n = m])
    show "lex_at s (92 # c # u @ 34 # t) b m" using str_letter.prems by simp
    assume "lex_at (lex_next s) (c # u @ 34 # t) b m" "lx_c (lex_next s) = uint c"
    then show "\<exists>s'. lex_escape s = Inr s' \<and> lex_at s' (u @ 34 # t) (b @ [x]) m"
      using lex_escaped_at [of "lex_next s" c "u @ 34 # t" b m "[x]"] str_letter by (simp add: lex_escape_def Let_def)
  qed
  then obtain s1 where s1: "lex_string_loop s = lex_string_loop s1" "lex_at s1 (u @ 34 # t) (b @ [x]) m" by blast
  show ?case using str_letter.IH [OF s1(2)] str_letter.prems s1(1) by simp
next
  case (str_hex hs k u v n)
  have "\<exists>s'. lex_string_loop s = lex_string_loop s' \<and> lex_at s' (u @ 34 # t) (b @ [of_nat k]) m"
  proof (rule lex_string_escape [where s = s and c = "0x78" and u = "hs @ u @ 34 # t" and b = b and n = m])
    show "lex_at s (92 # 0x78 # hs @ u @ 34 # t) b m" using str_hex.prems by simp
    assume a: "lex_at (lex_next s) (0x78 # hs @ u @ 34 # t) b m" "lx_c (lex_next s) = uint (0x78 :: byte)"
    obtain s' where "lex_hex_escape [4, 0] (\<lambda>c. [ucast c]) (lex_next s) = Inr s'"
      "lex_at s' (u @ 34 # t) (b @ [ucast (of_nat k :: u32)]) m"
      using hex_escape_at [OF str_hex.hyps(1) a(1), of "[4, 0]" "\<lambda>c. [ucast c]"] str_hex.hyps(2) str_hex.prems
      by (auto simp: hex_shifts_numerals(1))
    moreover have "k < 256" using hex_value_less [OF str_hex.hyps(1)] str_hex.hyps(2) by simp
    ultimately show "\<exists>s'. lex_escape s = Inr s' \<and> lex_at s' (u @ 34 # t) (b @ [of_nat k]) m"
      using a(2) by (simp add: lex_escape_def escape_letter_def Let_def unsigned_of_nat take_bit_nat_eq_self)
  qed
  then obtain s1 where s1: "lex_string_loop s = lex_string_loop s1" "lex_at s1 (u @ 34 # t) (b @ [of_nat k]) m" by blast
  show ?case using str_hex.IH [OF s1(2)] str_hex.prems s1(1) by simp
next
  case (str_u hs k u v n)
  have k: "esc_u (of_nat k) = wchar_enc (of_nat k)"
    using hex_value_less [OF str_u.hyps(1)] str_u.hyps(2) by (intro esc_u_wchar) simp
  have "\<exists>s'. lex_string_loop s = lex_string_loop s' \<and> lex_at s' (u @ 34 # t) (b @ wchar_enc (of_nat k)) m"
  proof (rule lex_string_escape [where s = s and c = "0x75" and u = "hs @ u @ 34 # t" and b = b and n = m])
    show "lex_at s (92 # 0x75 # hs @ u @ 34 # t) b m" using str_u.prems by simp
    assume a: "lex_at (lex_next s) (0x75 # hs @ u @ 34 # t) b m" "lx_c (lex_next s) = uint (0x75 :: byte)"
    obtain s' where "lex_hex_escape [12, 8, 4, 0] esc_u (lex_next s) = Inr s'"
      "lex_at s' (u @ 34 # t) (b @ wchar_enc (of_nat k)) m"
      using hex_escape_at [OF str_u.hyps(1) a(1), of "[12, 8, 4, 0]" esc_u] str_u.hyps(2) str_u.prems k
      by (auto simp: hex_shifts_numerals(2))
    then show "\<exists>s'. lex_escape s = Inr s' \<and> lex_at s' (u @ 34 # t) (b @ wchar_enc (of_nat k)) m"
      using a(2) by (simp add: lex_escape_def escape_letter_def Let_def)
  qed
  then obtain s1 where s1: "lex_string_loop s = lex_string_loop s1" "lex_at s1 (u @ 34 # t) (b @ wchar_enc (of_nat k)) m" by blast
  show ?case using str_u.IH [OF s1(2)] str_u.prems s1(1) by simp
next
  case (str_U hs k u v n)
  have k: "esc_U (of_nat k) = wchar_enc (of_nat k)" using str_U.hyps(3) by (rule esc_U_wchar)
  have "\<exists>s'. lex_string_loop s = lex_string_loop s' \<and> lex_at s' (u @ 34 # t) (b @ wchar_enc (of_nat k)) m"
  proof (rule lex_string_escape [where s = s and c = "0x55" and u = "hs @ u @ 34 # t" and b = b and n = m])
    show "lex_at s (92 # 0x55 # hs @ u @ 34 # t) b m" using str_U.prems by simp
    assume a: "lex_at (lex_next s) (0x55 # hs @ u @ 34 # t) b m" "lx_c (lex_next s) = uint (0x55 :: byte)"
    obtain s' where "lex_hex_escape [28, 24, 20, 16, 12, 8, 4, 0] esc_U (lex_next s) = Inr s'"
      "lex_at s' (u @ 34 # t) (b @ wchar_enc (of_nat k)) m"
      using hex_escape_at [OF str_U.hyps(1) a(1), of "[28, 24, 20, 16, 12, 8, 4, 0]" esc_U] str_U.hyps(2) str_U.prems k
      by (auto simp: hex_shifts_numerals(3))
    then show "\<exists>s'. lex_escape s = Inr s' \<and> lex_at s' (u @ 34 # t) (b @ wchar_enc (of_nat k)) m"
      using a(2) by (simp add: lex_escape_def escape_letter_def Let_def)
  qed
  then obtain s1 where s1: "lex_string_loop s = lex_string_loop s1" "lex_at s1 (u @ 34 # t) (b @ wchar_enc (of_nat k)) m" by blast
  show ?case using str_U.IH [OF s1(2)] str_U.prems s1(1) by simp
qed

lemma lex_at_simps [simp]:
  "lex_at (s\<lparr>lx_tok := x\<rparr>) t b n = lex_at s t b n" "lex_at (s\<lparr>lx_val := v\<rparr>) t b n = lex_at s t b n"
  "lex_at (s\<lparr>lx_lastline := l\<rparr>) t b n = lex_at s t b n"
  by (simp_all add: lex_at_def lex_ok_def lex_input_def)

lemma keepstr_at:
  "length v < LJ_MAX_STR \<Longrightarrow> lj_parse_keepstr v s = Inr (s\<lparr>lx_val := LexStr v\<rparr>)"
  by (simp add: lj_parse_keepstr_def)

lemma lex_string_at:
  assumes "str_src u v n" "lex_at s (34 # u @ 34 # t) [] m" "length v + 2 < LJ_MAX_BUF" "m + n < LJ_MAX_LINE"
  obtains s' b where "lex_string s = Inr s'" "lex_at s' t b (m + n)" "lx_tok s' = TK_string" "lx_val s' = LexStr v"
proof -
  obtain s1 where s1: "lex_savenext s = Inr s1" "lex_at s1 (u @ 34 # t) [34] m"
    using lex_savenext_at [OF assms(2)] assms(3) by auto
  obtain s2 where s2: "lex_string_loop s1 = Inr s2" "lex_at s2 (34 # t) (34 # v) (m + n)"
    using lex_string_loop_at [OF assms(1) s1(2)] assms(3,4) by auto
  obtain s3 where s3: "lex_savenext s2 = Inr s3" "lex_at s3 t (34 # v @ [34]) (m + n)"
    using lex_savenext_at [OF s2(2)] assms(3) by auto
  have b: "sbufdata (lx_sb s3) = 34 # v @ [34]" using s3(2) by (simp add: lex_at_def)
  show ?thesis
    by (rule that [of "s3\<lparr>lx_val := LexStr v, lx_tok := TK_string\<rparr>"])
      (use s1(1) s2(1) s3 keepstr_at [of v s3] assms(3) in \<open>simp_all add: lex_string_def b\<close>)
qed

section \<open>Names\<close>

text \<open>A backslash takes the next character as it is.\<close>

inductive name_src :: "bytes \<Rightarrow> bytes \<Rightarrow> bool" where
  name_nil: "name_src [] []"
| name_raw: "\<not> name_end (uint c) \<Longrightarrow> c \<noteq> 92 \<Longrightarrow> name_src u v \<Longrightarrow> name_src (c # u) (c # v)"
| name_escape: "name_src u v \<Longrightarrow> name_src (92 # c # u) (c # v)"

lemma lex_name_loop_at:
  "name_src u v \<Longrightarrow> lex_at s (u @ d # t) b m \<Longrightarrow> name_end (uint d) \<Longrightarrow> length b + length v < LJ_MAX_BUF \<Longrightarrow>
    \<exists>s'. lex_name_loop s = Inr s' \<and> lex_at s' (d # t) (b @ v) m"
proof (induction arbitrary: s b rule: name_src.induct)
  case name_nil
  then show ?case using lex_at_char [of s d t b m] by (subst lex_name_loop.simps) simp
next
  case (name_raw c u v)
  have c: "lx_c s = uint c" using name_raw.prems(1) lex_at_char by simp
  obtain s1 where s1: "lex_savenext s = Inr s1" "lex_at s1 (u @ d # t) (b @ [c]) m"
    using lex_savenext_at [of s c "u @ d # t" b m] name_raw.prems by auto
  have "lex_name_loop s = lex_name_loop s1"
    using s1(1) name_raw.hyps(1,2) by (subst lex_name_loop.simps) (simp add: c word_uint_eq_iff)
  then show ?case using name_raw.IH [OF s1(2)] name_raw.prems by simp
next
  case (name_escape u v c)
  have c: "lx_c s = 92" using name_escape.prems(1) lex_at_char by fastforce
  have "lex_at (lex_next s) (c # u @ d # t) b m" using lex_next_at name_escape.prems(1) by simp
  from lex_savenext_at [OF this] obtain s1 where
    s1: "lex_savenext (lex_next s) = Inr s1" "lex_at s1 (u @ d # t) (b @ [c]) m"
    using name_escape.prems by auto
  have "lex_name_loop s = lex_name_loop s1"
    using s1(1) by (subst lex_name_loop.simps) (simp add: c name_end_def)
  then show ?case using name_escape.IH [OF s1(2)] name_escape.prems by simp
qed

lemma lex_name_at:
  assumes "name_src u v" "lex_at s (u @ d # t) [] m" "name_end (uint d)" "length v < LJ_MAX_BUF"
  obtains s' b where "lex_name s = Inr s'" "lex_at s' (d # t) b m" "lx_tok s' = TK_name" "lx_val s' = LexStr v"
proof -
  obtain s1 where s1: "lex_name_loop s = Inr s1" "lex_at s1 (d # t) v m"
    using lex_name_loop_at [OF assms(1-3)] assms(4) by auto
  have "sbufdata (lx_sb s1) = v" using s1(2) by (simp add: lex_at_def)
  then show ?thesis
    using that [of "s1\<lparr>lx_val := LexStr v, lx_tok := TK_name\<rparr>"] s1 keepstr_at [OF assms(4), of s1] by (simp add: lex_name_def)
qed

lemma lex_savenext_cases:
  assumes "lex_at s u b m"
  shows "lex_savenext s = Inl LexMem \<or> (\<exists>s' b'. lex_savenext s = Inr s' \<and> lex_at s' (tl u) b' m)"
proof (cases "buf_put (lx_sb s) 1 [word_of_int (lx_c s)]")
  case (Inl e)
  then show ?thesis by (simp add: lex_savenext_def lex_save_def)
next
  case (Inr sb)
  then have e: "lex_savenext s = Inr (lex_next (s\<lparr>lx_sb := sb\<rparr>))" by (simp add: lex_savenext_def lex_save_def)
  have "sbuf_ok sb" using buf_put_spec [of "lx_sb s" "[word_of_int (lx_c s)]" 1] Inr assms by (simp add: lex_at_def)
  then have a: "lex_at (s\<lparr>lx_sb := sb\<rparr>) u (sbufdata sb) m"
    using assms by (auto simp: lex_at_def lex_ok_def lex_input_def split: if_splits)
  show ?thesis
  proof (cases u)
    case Nil
    then show ?thesis using a e
      by (auto simp: lex_at_def lex_ok_def lex_input_def lex_next_def lex_more_def split: if_splits)
  next
    case (Cons c t)
    then show ?thesis using a e lex_next_at [of "s\<lparr>lx_sb := sb\<rparr>" c t] by auto
  qed
qed

text \<open>
  At the end of the input there is no delimiter: the loop saves the value of \<open>LEX_EOF\<close> until the buffer
  is full. A name at the end of a text is a memory error.
\<close>

lemma lex_name_loop_eof: "lex_at s [] b m \<Longrightarrow> lex_name_loop s = Inl LexMem"
proof (induction s arbitrary: b rule: lex_name_loop.induct)
  case (1 s)
  have c: "lx_c s = LEX_EOF" using lex_at_end [OF "1.prems"] .
  have k: "\<not> name_end (lx_c s)" "lx_c s \<noteq> 92" by (simp_all add: c name_end_def LEX_EOF_def)
  from lex_savenext_cases [OF "1.prems"] show ?case
  proof (elim disjE exE conjE)
    assume "lex_savenext s = Inl LexMem"
    then show ?thesis using k by (subst lex_name_loop.simps) simp
  next
    fix s1 b1
    assume s1: "lex_savenext s = Inr s1" "lex_at s1 (tl []) b1 m"
    then have "lex_name_loop s1 = Inl LexMem" using "1.IH" [OF k(1), of s1 b1] k by simp
    then show ?thesis using s1(1) k by (subst lex_name_loop.simps) simp
  qed
qed

lemma lex_name_loop_unfinished: "name_src u v \<Longrightarrow> lex_at s u b m \<Longrightarrow> lex_name_loop s = Inl LexMem"
proof (induction arbitrary: s b rule: name_src.induct)
  case name_nil
  then show ?case by (rule lex_name_loop_eof)
next
  case (name_raw c u v)
  have c: "lx_c s = uint c" using name_raw.prems lex_at_char by simp
  have "lex_name_loop s = (case lex_savenext s of Inl e \<Rightarrow> Inl e | Inr s' \<Rightarrow> lex_name_loop s')"
    using name_raw.hyps(1,2) by (subst lex_name_loop.simps) (simp add: c word_uint_eq_iff)
  then show ?case using lex_savenext_cases [OF name_raw.prems] name_raw.IH by auto
next
  case (name_escape u v c)
  have c: "lx_c s = 92" using name_escape.prems(1) lex_at_char by fastforce
  have "lex_at (lex_next s) (c # u) b m" using lex_next_at name_escape.prems(1) by simp
  note n = lex_savenext_cases [OF this]
  have "lex_name_loop s = (case lex_savenext (lex_next s) of Inl e \<Rightarrow> Inl e | Inr s' \<Rightarrow> lex_name_loop s')"
    by (subst lex_name_loop.simps) (simp add: c name_end_def)
  then show ?case using n name_escape.IH by auto
qed

section \<open>Numbers\<close>

text \<open>
  The text of a number: a sign, a digit and what the loop takes, letters, digits and dots, and signs after
  the letter of the exponent. \<open>num_delim\<close> ends every number.
\<close>

fun num_tail :: "int \<Rightarrow> int \<Rightarrow> bytes \<Rightarrow> bool" where
  "num_tail xp c [] = True"
| "num_tail xp c (d # u) =
     ((lj_char_isident (uint d) \<or> d = 0x2e \<or> (d = 0x2d \<or> d = 0x2b) \<and> c OR 0x20 = xp) \<and> num_tail xp (uint d) u)"

definition num_delim :: "bytes \<Rightarrow> bool" where
  "num_delim t \<longleftrightarrow> t = [] \<or> \<not> lj_char_isident (uint (hd t)) \<and> hd t \<notin> {0x2e, 0x2d, 0x2b}"

definition num_body :: "bytes \<Rightarrow> bool" where
  "num_body u \<longleftrightarrow> u \<noteq> [] \<and> 48 \<le> hd u \<and> hd u \<le> 57
     \<and> num_tail (if hd u = 48 \<and> tl u \<noteq> [] \<and> uint (hd (tl u)) OR 0x20 = 0x78 then 0x70 else 0x65) (uint (hd u)) (tl u)"

definition num_src :: "bytes \<Rightarrow> bool" where
  "num_src u \<longleftrightarrow> num_body u \<or> (\<exists>c u'. u = c # u' \<and> c \<in> {0x2b, 0x2d} \<and> num_body u')"

lemma lex_number_loop_at:
  "num_tail xp c u \<Longrightarrow> lex_at s (u @ t) b m \<Longrightarrow> num_delim t \<Longrightarrow> length b + length u < LJ_MAX_BUF \<Longrightarrow>
    \<exists>s'. lex_number_loop xp c s = Inr s' \<and> lex_at s' t (b @ u) m"
proof (induction u arbitrary: c s b)
  case Nil
  have "\<not> (lj_char_isident (lx_c s) \<or> lx_c s = 0x2e \<or> (lx_c s = 0x2d \<or> lx_c s = 0x2b) \<and> c OR 0x20 = xp)"
  proof (cases t)
    case Nil2: Nil
    then have "lx_c s = LEX_EOF" using Nil.prems(2) lex_at_end by simp
    then show ?thesis using not_ident_eof by (simp add: LEX_EOF_def)
  next
    case (Cons d t')
    then have "lx_c s = uint d" using Nil.prems(2) lex_at_char by simp
    then show ?thesis using Nil.prems(3) Cons by (auto simp: num_delim_def word_uint_eq_iff)
  qed
  note e = lex_number_loop.simps [of xp c s, unfolded if_not_P [OF this]]
  show ?case using Nil.prems unfolding e by simp
next
  case (Cons d u)
  have c: "lx_c s = uint d" using Cons.prems(2) lex_at_char by simp
  obtain s1 where s1: "lex_savenext s = Inr s1" "lex_at s1 (u @ t) (b @ [d]) m"
    using lex_savenext_at [of s d "u @ t" b m] Cons.prems by auto
  have "lex_number_loop xp c s = lex_number_loop xp (uint d) s1"
    using Cons.prems(1) s1(1) by (subst lex_number_loop.simps) (auto simp: c word_uint_eq_iff)
  then show ?case using Cons.IH [OF _ s1(2), of "uint d"] Cons.prems by simp
qed

text \<open>After the sign: the first digit may be a zero that is saved before the loop.\<close>

definition lex_number_body :: "lex_state \<Rightarrow> lex_error + lex_state" where
  "lex_number_body s =
     (let c = lx_c s in
     lbind (if c = 0x30 then lex_savenext s else Inr s) (\<lambda>s.
     let xp = (if c = 0x30 \<and> lx_c s OR 0x20 = 0x78 then 0x70 else 0x65) in lex_number_loop xp c s))"

lemma ident_digit: "48 \<le> c \<Longrightarrow> c \<le> 57 \<Longrightarrow> lj_char_isident (uint (c :: byte))"
  by (subst lj_char_isident_iff) (auto simp: word_le_def alnum_range_def order_trans [OF _ uint_ge_0])

lemma x_chars: "list_all (\<lambda>c. c OR 0x20 = 0x78 \<longrightarrow> c = 0x58 \<or> c = 0x78) [0..255::int]"
  by code_simp

lemma ident_x: "uint (d :: byte) OR 0x20 = 0x78 \<Longrightarrow> lj_char_isident (uint d)"
proof -
  have "uint d \<in> set [0..255]"
    using uint_byte_less [of d] uint_ge_0 [of d] unfolding set_upto atLeastAtMost_iff by linarith
  moreover assume "uint d OR 0x20 = 0x78"
  ultimately have "uint d = 0x58 \<or> uint d = 0x78" using x_chars unfolding list_all_iff by blast
  then show ?thesis by (auto simp: lj_char_isident_def lj_char_isa_def lj_char_bits_def LJ_CHAR_IDENT_def)
qed

lemma lex_number_body_at:
  assumes "num_body u" "lex_at s (u @ t) b m" "num_delim t" "length b + length u < LJ_MAX_BUF"
  shows "\<exists>s'. lex_number_body s = Inr s' \<and> lex_at s' t (b @ u) m"
proof -
  obtain c u' where u: "u = c # u'" using assms(1) by (cases u) (auto simp: num_body_def)
  have c: "lx_c s = uint c" using assms(2) u lex_at_char by simp
  show ?thesis
  proof (cases "c = 48")
    case True
    obtain s1 where s1: "lex_savenext s = Inr s1" "lex_at s1 (u' @ t) (b @ [c]) m"
      using lex_savenext_at [of s c "u' @ t" b m] assms(2,4) u by auto
    have x: "lx_c s1 OR 0x20 = 0x78 \<longleftrightarrow> u' \<noteq> [] \<and> uint (hd u') OR 0x20 = 0x78"
    proof (cases "u' @ t")
      case Nil
      then have "lx_c s1 = LEX_EOF" using s1(2) lex_at_end by simp
      then show ?thesis using Nil by (simp add: LEX_EOF_def)
    next
      case (Cons d r)
      then have "lx_c s1 = uint d" using s1(2) lex_at_char by simp
      moreover have "\<not> uint d OR 0x20 = 0x78" if "u' = []"
        using that Cons assms(3) ident_x by (auto simp: num_delim_def)
      ultimately show ?thesis using Cons by (cases u') auto
    qed
    show ?thesis
      using lex_number_loop_at [OF _ s1(2) assms(3)] assms(1,4) s1(1) x True
      by (auto simp: lex_number_body_def Let_def c u num_body_def)
  next
    case False
    then have "num_tail 0x65 (uint c) (c # u')" using assms(1) ident_digit by (auto simp: num_body_def u)
    from lex_number_loop_at [OF this, of s t b m] show ?thesis
      using assms(2-4) False by (simp add: lex_number_body_def Let_def c u word_uint_eq_iff)
  qed
qed

lemma lbind_assoc: "lbind (lbind m f) g = lbind m (\<lambda>s. lbind (f s) g)"
  by (cases m) simp_all

lemma lex_number_eq:
  "lex_number s =
     lbind (if lx_c s = 0x2b \<or> lx_c s = 0x2d then lex_savenext s else Inr s) (\<lambda>s.
     lbind (lex_number_body s) (\<lambda>s.
     lbind (lex_save 0 s) (\<lambda>s.
     case lj_strscan_scan (sbufdata (lx_sb s)) lex_opts of
       None \<Rightarrow> Inl LexNoReturn
     | Some r \<Rightarrow>
         let s = s\<lparr>lx_tok := TK_number\<rparr> in
         (case lex_keepcdata r of
            Some v \<Rightarrow> Inr (s\<lparr>lx_val := v\<rparr>)
          | None \<Rightarrow> Inl (lj_lex_error s TK_number LJ_ERR_XNUMBER)))))"
  unfolding lex_number_def lex_number_body_def Let_def lbind_assoc ..

lemma lex_number_at:
  assumes "num_src u" "lex_at s (u @ t) [] m" "num_delim t" "length u + 1 < LJ_MAX_BUF"
    and v: "lj_strscan_scan (u @ [0]) lex_opts = Some r" "lex_keepcdata r = Some v"
  obtains s' b where "lex_number s = Inr s'" "lex_at s' t b m" "lx_tok s' = TK_number" "lx_val s' = v"
proof -
  have "\<exists>s1. lbind (if lx_c s = 0x2b \<or> lx_c s = 0x2d then lex_savenext s else Inr s) lex_number_body = Inr s1 \<and> lex_at s1 t u m"
    using assms(1) unfolding num_src_def
  proof (elim disjE exE conjE)
    assume b: "num_body u"
    then obtain c u' where u: "u = c # u'" "48 \<le> c" "c \<le> 57" by (cases u) (auto simp: num_body_def)
    then have "lx_c s = uint c" using assms(2) lex_at_char by simp
    moreover have "uint c \<noteq> 0x2b" "uint c \<noteq> 0x2d" using u(2) by (auto simp: word_le_def)
    ultimately show ?thesis using lex_number_body_at [OF b assms(2,3)] assms(4) by simp
  next
    fix c u' assume u: "u = c # u'" "c \<in> {0x2b, 0x2d}" "num_body u'"
    then have c: "lx_c s = uint c" using assms(2) lex_at_char by simp
    obtain s1 where s1: "lex_savenext s = Inr s1" "lex_at s1 (u' @ t) ([] @ [c]) m"
      using lex_savenext_at [of s c "u' @ t" "[]" m] assms(2) u by (auto simp: LJ_MAX_MEM32_def)
    have "lx_c s = 0x2b \<or> lx_c s = 0x2d" using u(2) c by auto
    then show ?thesis using lex_number_body_at [OF u(3) s1(2) assms(3)] assms(4) s1(1) by (simp add: u(1))
  qed
  then obtain s0 s1 where s0: "(if lx_c s = 0x2b \<or> lx_c s = 0x2d then lex_savenext s else Inr s) = Inr s0"
    and s1: "lex_number_body s0 = Inr s1" "lex_at s1 t u m"
    by (cases "if lx_c s = 0x2b \<or> lx_c s = 0x2d then lex_savenext s else Inr s") (auto simp: lbind_def)
  obtain s2 where s2: "lex_save 0 s1 = Inr s2" "lex_at s2 t (u @ [0]) m"
    using lex_save_at [OF s1(2), of 0] assms(4) by auto
  have "sbufdata (lx_sb s2) = u @ [0]" using s2(2) by (simp add: lex_at_def)
  then have "lex_number s = Inr (s2\<lparr>lx_tok := TK_number, lx_val := v\<rparr>)"
    unfolding lex_number_eq s0 lbind_simps s1(1) s2(1) using v by simp
  then show ?thesis by (rule that [of _ "u @ [0]"]) (use s2(2) in simp_all)
qed

section \<open>Tokens\<close>

datatype token = TkPunct byte | TkName bytes | TkString bytes | TkNumber lex_val

definition name_start :: "byte \<Rightarrow> bool" where
  "name_start c \<longleftrightarrow> \<not> name_end (uint c) \<and> c \<noteq> 0x3b \<and> c \<noteq> 34 \<and> \<not> starts_number (uint c)"

text \<open>A text, its tokens and its number of lines.\<close>

inductive lexes :: "bytes \<Rightarrow> token list \<Rightarrow> nat \<Rightarrow> bool" where
  lexes_end: "lexes [] [] 0"
| lexes_blank: "c \<in> {0x20, 0x09, 0x0b, 0x0c} \<Longrightarrow> lexes t ts n \<Longrightarrow> lexes (c # t) ts n"
| lexes_eol: "eol_src e t \<Longrightarrow> lexes t ts n \<Longrightarrow> lexes (e @ t) ts (n + 1)"
| lexes_comment: "\<forall>c \<in> set u. \<not> is_eol c \<Longrightarrow> t = [] \<or> is_eol (hd t) \<Longrightarrow> lexes t ts n \<Longrightarrow> lexes (0x3b # u @ t) ts n"
| lexes_punct: "c \<in> {0x28, 0x29, 0x3a} \<Longrightarrow> lexes t ts n \<Longrightarrow> lexes (c # t) (TkPunct c # ts) n"
| lexes_string: "str_src u v k \<Longrightarrow> lexes t ts n \<Longrightarrow> lexes (34 # u @ 34 # t) (TkString v # ts) (k + n)"
| lexes_name: "name_src u v \<Longrightarrow> u \<noteq> [] \<Longrightarrow> name_start (hd u) \<Longrightarrow> t \<noteq> [] \<Longrightarrow> name_end (uint (hd t))
    \<Longrightarrow> lexes t ts n \<Longrightarrow> lexes (u @ t) (TkName v # ts) n"
| lexes_number: "num_src u \<Longrightarrow> num_delim t \<Longrightarrow> lj_strscan_scan (u @ [0]) lex_opts = Some r \<Longrightarrow> lex_keepcdata r = Some v
    \<Longrightarrow> lexes t ts n \<Longrightarrow> lexes (u @ t) (TkNumber v # ts) n"

text \<open>The token of a state, and all tokens up to the end of the input.\<close>

definition token_of :: "lex_state \<Rightarrow> token option" where
  "token_of s =
     (if lx_tok s = TK_eof then None
      else if lx_tok s = TK_name then (case lx_val s of LexStr v \<Rightarrow> Some (TkName v) | _ \<Rightarrow> None)
      else if lx_tok s = TK_string then (case lx_val s of LexStr v \<Rightarrow> Some (TkString v) | _ \<Rightarrow> None)
      else if lx_tok s = TK_number then Some (TkNumber (lx_val s))
      else Some (TkPunct (word_of_int (lx_tok s))))"

fun lex_tokens :: "nat \<Rightarrow> lex_state \<Rightarrow> lex_error + token list" where
  "lex_tokens 0 s = Inr []"
| "lex_tokens (Suc k) s =
     lbind (lj_lex_next s) (\<lambda>s.
     case token_of s of
       None \<Rightarrow> Inr []
     | Some t \<Rightarrow> (case lex_tokens k s of Inl e \<Rightarrow> Inl e | Inr ts \<Rightarrow> Inr (t # ts)))"

lemma lj_lex_next_at:
  assumes "lex_at s t b m"
  obtains s0 where "lj_lex_next s = lex_token_loop s0" "lex_at s0 t [] m"
  by (rule that [of "s\<lparr>lx_lastline := lx_line s, lx_sb := lj_buf_reset (lx_sb s)\<rparr>"])
    (use assms in \<open>auto simp: lj_lex_next_def lex_at_def lex_ok_def lex_input_def lj_buf_reset_def sbuf_ok_def split: if_splits\<close>)

lemma lex_comment_at:
  "\<forall>c \<in> set u. \<not> is_eol c \<Longrightarrow> t = [] \<or> is_eol (hd t) \<Longrightarrow> lex_at s (u @ t) b m \<Longrightarrow> lex_at (lex_comment s) t b m"
proof (induction u arbitrary: s)
  case Nil
  then show ?case using lex_at_end [of s b m] lex_iseol_at [of s "hd t" "tl t" b m]
    by (subst lex_comment.simps) (cases t, auto)
next
  case (Cons c u)
  have "lx_c s = uint c" "\<not> lex_iseol s" using Cons.prems lex_at_char lex_iseol_at by auto
  moreover have "lex_at (lex_next s) (u @ t) b m" using Cons.prems(3) lex_next_at by simp
  ultimately show ?case using Cons.IH Cons.prems(1,2) by (subst lex_comment.simps) simp
qed

text \<open>One token: the text behind it has the other tokens.\<close>

definition lex_step_ok :: "lex_error + lex_state \<Rightarrow> token list \<Rightarrow> nat \<Rightarrow> nat \<Rightarrow> bool" where
  "lex_step_ok r ts l k \<longleftrightarrow>
     (\<exists>s'. r = Inr s' \<and>
       (case ts of
          [] \<Rightarrow> token_of s' = None
        | tk # ts' \<Rightarrow> token_of s' = Some tk \<and>
            (\<exists>t b m n. lexes t ts' n \<and> lex_at s' t b m \<and> m + n \<le> l \<and> length t \<le> k)))"

lemma lex_step_okI:
  "r = Inr s' \<Longrightarrow> token_of s' = Some tk \<Longrightarrow> lexes t ts n \<Longrightarrow> lex_at s' t b m \<Longrightarrow> m + n \<le> l \<Longrightarrow> length t \<le> k
    \<Longrightarrow> lex_step_ok r (tk # ts) l k"
  unfolding lex_step_ok_def by auto

lemma lex_step_ok_mono: "lex_step_ok r ts l k \<Longrightarrow> k \<le> k' \<Longrightarrow> lex_step_ok r ts l k'"
proof (cases ts)
  case (Cons tk ts')
  assume "lex_step_ok r ts l k" "k \<le> k'"
  then obtain s' t b m n where "r = Inr s'" "token_of s' = Some tk" "lexes t ts' n" "lex_at s' t b m" "m + n \<le> l" "length t \<le> k'"
    unfolding lex_step_ok_def Cons by auto
  then show ?thesis unfolding Cons by (rule lex_step_okI)
qed (simp add: lex_step_ok_def)

lemma lex_next_tok [simp]: "lx_tok (lex_next s) = lx_tok s"
  by (auto simp: lex_next_def lex_more_def split: list.split)

lemma name_src_length: "name_src u v \<Longrightarrow> length v \<le> length u"
  by (induction rule: name_src.induct) auto

lemma lex_token_loop_name:
  "name_start c \<Longrightarrow> lx_c s = uint c \<Longrightarrow> lex_token_loop s = lex_name s"
  by (subst lex_token_loop.simps)
    (auto simp: name_start_def name_end_def starts_number_def lex_iseol_def word_uint_eq_iff)

lemma lex_token_loop_number:
  "starts_number (lx_c s) \<Longrightarrow> lex_token_loop s = lex_number s"
  by (subst lex_token_loop.simps) (auto simp: starts_number_def lex_iseol_def)

lemma num_src_start: "num_src u \<Longrightarrow> u \<noteq> [] \<and> starts_number (uint (hd u))"
  by (auto simp: num_src_def num_body_def starts_number_def word_le_def)

lemma lex_token_loop_at:
  "lexes t ts n \<Longrightarrow> lex_at s t [] m \<Longrightarrow> m + n < LJ_MAX_LINE \<Longrightarrow> length t + 2 < LJ_MAX_BUF \<Longrightarrow>
    lex_step_ok (lex_token_loop s) ts (m + n) (length t)"
proof (induction arbitrary: s m rule: lexes.induct)
  case lexes_end
  have c: "lx_c s = LEX_EOF" using lexes_end.prems lex_at_end by simp
  have "lex_token_loop s = Inr (s\<lparr>lx_tok := TK_eof\<rparr>)"
    by (subst lex_token_loop.simps) (simp add: c lex_iseol_def LEX_EOF_def starts_number_def)
  then show ?case by (simp add: lex_step_ok_def token_of_def)
next
  case (lexes_blank c t ts n)
  have c: "lx_c s = uint c" using lexes_blank.prems lex_at_char by simp
  have "lex_token_loop s = lex_token_loop (lex_next s)"
    using lexes_blank.hyps(1) by (subst lex_token_loop.simps) (auto simp: c lex_iseol_def)
  moreover have "lex_at (lex_next s) t [] m" using lexes_blank.prems lex_next_at by simp
  ultimately show ?case using lexes_blank.IH [of "lex_next s" m] lexes_blank.prems lex_step_ok_mono [OF _ le_SucI [OF order_refl]] by simp
next
  case (lexes_eol e t ts n)
  obtain c r where e: "e = c # r" "is_eol c" using lexes_eol.hyps(1) by (auto simp: eol_src_def is_eol_def)
  have i: "lex_iseol s" using lexes_eol.prems(1) lex_iseol_at e by simp
  obtain s1 where s1: "lex_newline s = Inr s1" "lex_at s1 t [] (m + 1)"
    using lex_newline_at [OF lexes_eol.hyps(1) lexes_eol.prems(1)] lexes_eol.prems(2) by auto
  have "lex_token_loop s = lex_token_loop s1" using i s1(1) by (subst lex_token_loop.simps) simp
  moreover have "lex_step_ok (lex_token_loop s1) ts (m + 1 + n) (length t)"
    using lexes_eol.IH [OF s1(2)] lexes_eol.prems by simp
  ultimately show ?case using lex_step_ok_mono [of _ ts "m + 1 + n" "length t"] by simp
next
  case (lexes_comment u t ts n)
  have c: "lx_c s = 0x3b" using lexes_comment.prems lex_at_char by fastforce
  have "lex_token_loop s = lex_token_loop (lex_comment (lex_next s))"
    by (subst lex_token_loop.simps) (simp add: c lex_iseol_def)
  moreover have "lex_at (lex_next s) (u @ t) [] m" using lexes_comment.prems(1) lex_next_at by simp
  then have "lex_at (lex_comment (lex_next s)) t [] m" by (rule lex_comment_at [OF lexes_comment.hyps(1,2)])
  then have "lex_step_ok (lex_token_loop (lex_comment (lex_next s))) ts (m + n) (length t)"
    using lexes_comment.IH lexes_comment.prems by simp
  ultimately show ?case using lex_step_ok_mono [of _ ts "m + n" "length t"] by simp
next
  case (lexes_punct c t ts n)
  have c: "lx_c s = uint c" using lexes_punct.prems lex_at_char by simp
  have "lex_token_loop s = Inr (lex_next (s\<lparr>lx_tok := lx_c s\<rparr>))"
    using lexes_punct.hyps(1) by (subst lex_token_loop.simps) (auto simp: c lex_iseol_def)
  moreover have "token_of (lex_next (s\<lparr>lx_tok := lx_c s\<rparr>)) = Some (TkPunct c)"
    using lexes_punct.hyps(1) by (auto simp: token_of_def c tk_defs)
  moreover have "lex_at (lex_next (s\<lparr>lx_tok := lx_c s\<rparr>)) t [] m" using lexes_punct.prems(1) lex_next_at by simp
  ultimately show ?case using lexes_punct.hyps(2) by (intro lex_step_okI) auto
next
  case (lexes_string u v k t ts n)
  have c: "lx_c s = 34" using lexes_string.prems lex_at_char by fastforce
  have e: "lex_token_loop s = lex_string s" by (subst lex_token_loop.simps) (simp add: c lex_iseol_def)
  have "length v + 2 < LJ_MAX_BUF" using str_src_length [OF lexes_string.hyps(1)] lexes_string.prems(3) by simp
  then obtain s' b where "lex_string s = Inr s'" "lex_at s' t b (m + k)" "lx_tok s' = TK_string" "lx_val s' = LexStr v"
    using lex_string_at [OF lexes_string.hyps(1), of s t m] lexes_string.prems by auto
  then show ?case using e lexes_string.hyps(2)
    by (intro lex_step_okI [of _ s' _ t _ n b "m + k"]) (simp_all add: token_of_def tk_defs)
next
  case (lexes_name u v t ts n)
  obtain c u' d t' where u: "u = c # u'" "t = d # t'" using lexes_name.hyps(2,4) by (cases u; cases t) auto
  have c: "lx_c s = uint c" using lexes_name.prems(1) lex_at_char u by simp
  have e: "lex_token_loop s = lex_name s" using lexes_name.hyps(3) c by (intro lex_token_loop_name) (simp_all add: u)
  have "length v < LJ_MAX_BUF" using name_src_length [OF lexes_name.hyps(1)] lexes_name.prems(3) by simp
  then obtain s' b where "lex_name s = Inr s'" "lex_at s' t b m" "lx_tok s' = TK_name" "lx_val s' = LexStr v"
    using lex_name_at [OF lexes_name.hyps(1), of s d t' m] lexes_name.prems(1) lexes_name.hyps(5) u(2) by auto
  then show ?case using e lexes_name.hyps(6)
    by (intro lex_step_okI [of _ s' _ t _ n b m]) (simp_all add: token_of_def tk_defs)
next
  case (lexes_number u t r v ts n)
  obtain c u' where u: "u = c # u'" using num_src_start [OF lexes_number.hyps(1)] by (cases u) auto
  have "lx_c s = uint (hd u)" using lexes_number.prems(1) lex_at_char u by simp
  then have e: "lex_token_loop s = lex_number s"
    using num_src_start [OF lexes_number.hyps(1)] by (intro lex_token_loop_number) simp
  obtain s' b where "lex_number s = Inr s'" "lex_at s' t b m" "lx_tok s' = TK_number" "lx_val s' = v"
    using lex_number_at [OF lexes_number.hyps(1) lexes_number.prems(1) lexes_number.hyps(2) _ lexes_number.hyps(3,4)]
      lexes_number.prems(3) by auto
  then show ?case using e lexes_number.hyps(5)
    by (intro lex_step_okI [of _ s' _ t _ n b m]) (simp_all add: token_of_def tk_defs)
qed

lemma lex_tokens_at:
  "lexes t ts n \<Longrightarrow> lex_at s t b m \<Longrightarrow> m + n < LJ_MAX_LINE \<Longrightarrow> length t + 2 < LJ_MAX_BUF \<Longrightarrow>
    lex_tokens (length ts + 1) s = Inr ts"
proof (induction ts arbitrary: t n s b m)
  case Nil
  obtain s0 where s0: "lj_lex_next s = lex_token_loop s0" "lex_at s0 t [] m" using lj_lex_next_at [OF Nil.prems(2)] .
  show ?case using lex_token_loop_at [OF Nil.prems(1) s0(2) Nil.prems(3,4)] by (auto simp: lex_step_ok_def s0(1))
next
  case (Cons tk ts)
  obtain s0 where s0: "lj_lex_next s = lex_token_loop s0" "lex_at s0 t [] m" using lj_lex_next_at [OF Cons.prems(2)] .
  obtain s1 t1 b1 m1 n1 where s1: "lj_lex_next s = Inr s1" "token_of s1 = Some tk" "lexes t1 ts n1" "lex_at s1 t1 b1 m1"
    "m1 + n1 \<le> m + n" "length t1 \<le> length t"
    using lex_token_loop_at [OF Cons.prems(1) s0(2) Cons.prems(3,4)] by (auto simp: lex_step_ok_def s0(1))
  have "lex_tokens (length ts + 1) s1 = Inr ts" using Cons.IH [OF s1(3,4)] s1(5,6) Cons.prems(3,4) by simp
  then show ?case using s1(1,2) by simp
qed

section \<open>From the blocks of the reader\<close>

lemma lex_setup_at:
  assumes "[] \<notin> set blocks" "concat blocks = t" "t = [] \<or> hd t \<notin> {0xef, 0x23, 0x1b}"
  obtains s where "lj_lex_setup blocks lj_buf_init = Inr (False, s)" "lex_at s t [] 1"
proof -
  define s0 where "s0 = lex_next \<lparr>lx_p = [], lx_blocks = blocks, lx_c = 0, lx_sb = lj_buf_init, lx_line = 1, lx_lastline = 1,
    lx_tok = 0, lx_val = LexNone\<rparr>"
  have a: "lex_at s0 t [] 1"
    using assms(1,2)
    by (auto simp: s0_def lex_next_def lex_more_def lex_at_def lex_ok_def lex_input_def lj_buf_init_def sbuf_ok_def split: list.splits)
  have "lx_c s0 \<notin> {0xef, 0x23, 0x1b}"
  proof (cases t)
    case Nil
    then show ?thesis using a lex_at_end by (simp add: LEX_EOF_def)
  next
    case (Cons c u)
    then show ?thesis using a lex_at_char [of s0 c u "[]" 1] assms(3) by (auto simp: word_uint_eq_iff)
  qed
  then have "lj_lex_setup blocks lj_buf_init = Inr (False, s0)"
    unfolding lj_lex_setup_def Let_def s0_def [symmetric] by (simp add: lex_bom_def LUA_SIGNATURE_0_def)
  then show ?thesis using that a by blast
qed


text \<open>The text \<open>(add 12 "\n")\<close> in two blocks.\<close>

lemma sample_lexes:
  "lexes [40, 97, 100, 100, 32, 49, 50, 32, 34, 92, 110, 34, 41]
     [TkPunct 40, TkName [97, 100, 100], TkNumber (LexNum (num_of_int 12)), TkString [10], TkPunct 41] 0"
proof -
  have 1: "lexes [41] [TkPunct 41] 0" by (intro lexes_punct lexes_end) simp
  have "str_src (92 # 110 # []) (10 # []) 0" by (rule str_letter [OF _ str_nil]) (simp add: escape_letter_def)
  from lexes_string [OF this 1] have 2: "lexes [34, 92, 110, 34, 41] [TkString [10], TkPunct 41] 0" by simp
  from lexes_blank [OF _ 2, of 32] have 3: "lexes [32, 34, 92, 110, 34, 41] [TkString [10], TkPunct 41] 0" by simp
  have d: "dec_int 12 = [49, 50]" by (simp add: dec_int_def dec_digits.simps)
  have sc: "lj_strscan_scan ([49, 50] @ [0]) lex_opts = Some (ScanNum (num_of_int 12))"
    unfolding d [symmetric] by (rule strscan_int) (simp_all add: int32_def at_end_def has_opt_def lex_opts_def strscan_opts)
  have "num_src [49, 50]" "num_delim (32 # t)" for t
    by (simp_all add: num_src_def num_body_def num_delim_def lj_char_isident_def lj_char_isa_def lj_char_bits_def LJ_CHAR_IDENT_def)
  from lexes_number [OF this sc _ 3] have
    4: "lexes [49, 50, 32, 34, 92, 110, 34, 41] [TkNumber (LexNum (num_of_int 12)), TkString [10], TkPunct 41] 0"
    by (simp add: lex_keepcdata_def)
  from lexes_blank [OF _ 4, of 32] have
    5: "lexes [32, 49, 50, 32, 34, 92, 110, 34, 41] [TkNumber (LexNum (num_of_int 12)), TkString [10], TkPunct 41] 0"
    by simp
  have nm: "name_src [97, 100, 100] [97, 100, 100]" by (intro name_raw name_nil) (simp_all add: name_end_def)
  from lexes_name [OF nm _ _ _ _ 5] have "lexes [97, 100, 100, 32, 49, 50, 32, 34, 92, 110, 34, 41]
     [TkName [97, 100, 100], TkNumber (LexNum (num_of_int 12)), TkString [10], TkPunct 41] 0"
    by (simp add: name_start_def name_end_def starts_number_def)
  then show ?thesis by (intro lexes_punct) simp
qed


text \<open>A name that the input ends with is no token: the memory of the process is filled instead.\<close>

lemma lj_lex_next_name_eof:
  assumes "name_src u v" "u \<noteq> []" "name_start (hd u)" "lex_at s u b m"
  shows "lj_lex_next s = Inl LexMem"
proof -
  obtain c u' where u: "u = c # u'" using assms(2) by (cases u) auto
  obtain s0 where s0: "lj_lex_next s = lex_token_loop s0" "lex_at s0 u [] m" using lj_lex_next_at [OF assms(4)] .
  have "lex_token_loop s0 = lex_name s0"
    using lex_token_loop_name [of c s0] assms(3) lex_at_char [of s0 c u' "[]" m] s0(2) u by simp
  then show ?thesis using s0(1) lex_name_loop_unfinished [OF assms(1) s0(2)] by (simp add: lex_name_def)
qed

end
