(* ===== verification/Spec2Isabelle.thy ===== *)
theory Spec2Isabelle
  imports Lib_Utf8 Lib_Match_Funcs Lj_Buf Lj_Tab_Props Lj_Str_Table Lj_Fold_Props Lj_Fold_Bugs
    Lj_Bcdump_Props Tj_Lex_Props
begin

text \<open>
  TvmJIT: a virtual machine (LuaJIT with another front end). This library models the C code below
  \<open>src/src/\<close> as it is compiled for x86-64 with 32-bit object references (\<open>LJ_LE\<close>, no \<open>LJ_GC64\<close>, no
  \<open>LJ_FR2\<close>, no \<open>LJ_DUALNUM\<close>, with the JIT compiler and the FFI).

  Parts and theories:

  \<^item> \<open>Lj_Prelude\<close>: machine integers, byte strings, \<open>lj_rol\<close>, \<open>lj_bswap\<close>, \<open>lj_fls\<close> (\<open>lj_def.h\<close>), and
    the collections of simplification rules the other theories share.
  \<^item> \<open>Lj_Char\<close> (\<open>lj_char.c\<close>, \<open>lj_char.h\<close>): the character classes.
  \<^item> \<open>Lib_Utf8\<close> (\<open>lib_utf8.c\<close>, and \<open>tvm_wchar\<close> of \<open>lib_tvm.c\<close>, which is \<open>utf8.char\<close>): the UTF-8 library.
    A read of the C string is \<open>None\<close> outside of the string and its terminator.
  \<^item> \<open>Lj_Strfmt\<close> (\<open>lj_strfmt.c\<close>, \<open>lj_buf.c\<close>): integer formatting and the ULEB128 code.
  \<^item> \<open>Lj_Buf\<close> (\<open>lj_buf.c\<close>, \<open>lj_buf.h\<close>): string buffers as an allocation size and a content.
  \<^item> \<open>Lj_Str\<close> (\<open>lj_str.c\<close>): comparison, search and hash of strings; the word-wise loops read an
    arbitrary memory behind the string.
  \<^item> \<open>Lib_Match\<close> (\<open>lib_string.c\<close>): the pattern matcher and \<open>string.find\<close>, \<open>match\<close>, \<open>gmatch\<close> and
    \<open>gsub\<close> on it, which take the C pointers as offsets. \<open>Lib_Match_Props\<close> has the reference definition
    of patterns, \<open>runs\<close>, and the locale \<open>matcher\<close>, what one level of the recursion assumes of the next;
    \<open>Lib_Match_Funcs\<close> proves the functions of the library.
  \<^item> \<open>Lj_Str_Table\<close> (\<open>lj_str.c\<close>, \<open>lj_gc.h\<close>): the string interning table, a list of hash chains.
  \<^item> \<open>Lj_Obj\<close> (\<open>lj_obj.h\<close>, \<open>lj_obj.c\<close>): tagged values. A double is its 64-bit pattern; the comparison
    and the conversions to and from 32-bit integers are written on the pattern.
  \<^item> \<open>Lj_Tab\<close> (\<open>lj_tab.c\<close>, \<open>lj_tab.h\<close>): tables. \<open>Lj_Tab_Hash\<close> proves the invariant of the hash part and
    that the insertion steps keep it, \<open>Lj_Tab_Set\<close> the specification of the setters, the resize and
    the rehash, \<open>Lj_Tab_Props\<close> the properties, with the locale \<open>key_store\<close> as the interface of a table
    to its clients and its interpretation on the table model.
  \<^item> \<open>Lj_Carith\<close> (\<open>lj_carith.c\<close>, \<open>lj_vmmath.c\<close>): the arithmetic on 64-bit integers and the 32-bit modulo.
  \<^item> \<open>Lj_Ir\<close> (\<open>lj_ir.c\<close>, \<open>lj_ir.h\<close>): the buffer of IR instructions, with the chains of the instructions
    of one opcode. \<open>Lj_Ir_Sem\<close> gives integer instructions a meaning, the invariant of the buffer and
    the executions of a trace; \<open>Lj_Ir_Props\<close> proves that the operations keep them.
  \<^item> \<open>Lj_Fold\<close> (\<open>lj_opt_fold.c\<close>): the FOLD engine, the rules for integer instructions and CSE;
    \<open>Lj_Fold_Spec\<close> says when a rule is sound. The theories \<open>Lj_Fold_Algebra\<close>, \<open>_Overflow\<close>,
    \<open>_Compare\<close>, \<open>_Shift\<close>, \<open>_Muldiv\<close>, \<open>_Konst\<close>, \<open>_Mask\<close>, \<open>_Mask_Shift\<close>, \<open>_Conv\<close>, \<open>_Narrow\<close>, \<open>_Abc\<close>
    and \<open>_All\<close> prove it of each rule, \<open>Lj_Fold_Engine\<close> of the search for a rule, CSE and the retry
    loop, \<open>Lj_Fold_Props\<close> states the result. A trace is a sequence of equations on the values of its
    references; an optimised emission must not change its solutions except for the guard of the new
    instruction. \<open>Lj_Fold_Bugs\<close> shows where the code does not do that for 64-bit integers; the
    soundness theorems leave these instructions out (\<open>supported\<close>, \<open>slot_shape\<close>).

  \<^item> \<open>Lj_Bcdump\<close>, \<open>Lj_Bcwrite\<close> and \<open>Lj_Bcread\<close> (\<open>lj_bcdump.h\<close>, \<open>lj_bcwrite.c\<close>, \<open>lj_bcread.c\<close>): bytecode dumps.
    The writer appends to a string buffer of the model and never writes past what it reserved
    (\<open>Lj_Bcwrite_Props\<close>); the reader is a state transformer on the lexer state, whose callback delivers
    the input in blocks. The locale \<open>codec\<close> (\<open>Lj_Bcread_Codec\<close>) is the contract of a code and its
    reader, interpreted on ULEB128 numbers, on table slots and on number constants; \<open>Lj_Bcread_Props\<close>,
    \<open>Lj_Bcread_Proto\<close> and \<open>Lj_Bcread_Dump\<close> go from tables to prototypes to whole dumps, and
    \<open>Lj_Bcread_Safe\<close> treats arbitrary input. \<open>Lj_Bcdump_Props\<close> states the results.

  \<^item> \<open>Lj_Strscan\<close> (\<open>lj_strscan.c\<close>, \<open>lj_strscan.h\<close>): the number scanner. \<open>Lj_Strscan_Props\<close> reads integers
    back, \<open>Lj_Strscan_Ends\<close> proves that the scaling loops, partial functions of the model, come to an end.
  \<^item> \<open>Tj_Lex\<close> (\<open>tj_lex.c\<close>, \<open>tj_lex.h\<close>): the lexer of the TP language, a state transformer on the lexer state
    that calls the number scanner and writes to a string buffer. \<open>Tj_Lex_Props\<close> gives a grammar of token
    texts (\<open>lexes\<close>) and proves that the lexer reads each of them, through the abstraction \<open>lex_at\<close> of the
    text that is left from the blocks it comes in.

  Conventions of the model:

  \<^item> The recursion of the pattern matcher is limited by \<open>LJ_MAX_XLEVEL\<close> as in the code;
    \<open>match_depth\<close> says which patterns stay below the limit. The loops inside of one level end because
    they move forward in the pattern or the subject.

  \<^item> A string as a table key is its contents. The code compares string keys by address; that the two
    agree is \<open>lj_str_new_identity\<close>.
  \<^item> An error (\<open>Inl\<close>) carries no state: after an error is thrown the code does not read the partially
    changed object again before it unwinds. Memory allocation succeeds in the table model.
  \<^item> \<open>find_node\<close> has the number of nodes as fuel; by the invariant the chains are acyclic, so it is
    enough. \<open>lj_tab_newkey\<close> takes the nesting depth of rehashes; depth 2 is proved enough (the result
    is never \<open>ErrNesting\<close> or \<open>ErrChain\<close>), since a rehash makes room for all keys it inserts.
  \<^item> The loop that rechains string keys in \<open>lj_tab_newkey\<close> is modelled, and the invariant makes it idle:
    it only matters when the address of a freed key is reused.
  \<^item> \<open>unbound_search\<close> returns an option because its linear search may run forever on a table with all
    integer keys set; \<open>lj_tab_len_boundary\<close> proves that it returns.

  \<^item> The loop of \<open>lj_bcread\<close> has the number of input bytes as fuel; \<open>lj_bcread_ends\<close> proves it enough. The
    prototypes the reader has pushed on the Lua stack are a list; the growth of that stack and loading
    the FFI library on demand are left out, and allocation succeeds.

  \<^item> The loops of the lexer end because each round reads a character; the loop of \<open>lex_name\<close> only because
    the buffer has a maximal size (\<open>lj_lex_next_name_eof\<close>).

  Not modelled: the parser of the TP language and its bytecode emission, the garbage collector, the C
  API and the libraries on it, the build-time tools, the interpreter in assembler, the machine code back ends, the
  trace recorder, the FFI, the memory allocator (vendored), error unwinding, and the libraries that are
  pure input/output or calls of the platform.
\<close>

end
